(* ===== verification/Prelude.thy ===== *)
theory Prelude
  imports Main "HOL-Library.Word"
begin

text \<open>
  Shared vocabulary of the development: the collections of rewrite rules the component
  proofs draw on, the C conventions common to all modules (bytes, NUL-terminated strings,
  indeterminate memory, the range of \<open>int\<close>), and generic lemmas on lists, maps and
  options.

  A region of C memory is a list of \<^typ>\<open>char option\<close>: \<^term>\<open>None\<close> is a byte that was
  allocated and never written. A function whose C text can run into undefined behaviour
  (an access outside a region, a read of an indeterminate byte, a signed overflow, a use
  after free) returns an \<open>option\<close>; \<^term>\<open>None\<close> means that the C text has no meaning there.
\<close>

named_theorems mem_simps \<open>laws of the reference-counted heap\<close>
named_theorems strbuf_simps \<open>what the string buffer operations do to the stored text\<close>
named_theorems hash_simps \<open>laws of the hash table used by its clients\<close>
named_theorems io_simps \<open>evaluation of the connection input and output functions\<close>

type_synonym addr = nat
type_synonym byte = "char option"
type_synonym cmem = "byte list"

abbreviation NUL :: char where "NUL \<equiv> CHR 0x00"
abbreviation CR :: char where "CR \<equiv> CHR 0x0D"
abbreviation LF :: char where "LF \<equiv> CHR 0x0A"

definition INT_MAX :: nat where "INT_MAX = 2147483647"

subsection \<open>NUL-terminated strings in memory\<close>

text \<open>
  \<open>cstr_from mem\<close> is the C string that starts at the first byte of \<open>mem\<close>; running off the
  region or over an indeterminate byte is undefined.
\<close>

fun cstr_from :: "cmem \<Rightarrow> string option" where
  "cstr_from [] = None"
| "cstr_from (None # m) = None"
| "cstr_from (Some c # m) = (if c = NUL then Some [] else map_option (Cons c) (cstr_from m))"

definition cstr_at :: "cmem \<Rightarrow> nat \<Rightarrow> string option" where
  "cstr_at m off = cstr_from (drop off m)"

text \<open>One byte read, one byte written.\<close>

definition mem_get :: "cmem \<Rightarrow> nat \<Rightarrow> char option" where
  "mem_get m i = (if i < length m then m ! i else None)"

definition mem_put :: "cmem \<Rightarrow> nat \<Rightarrow> char \<Rightarrow> cmem option" where
  "mem_put m i c = (if i < length m then Some (m[i := Some c]) else None)"

lemma cstr_from_append:
  "NUL \<notin> set s \<Longrightarrow> cstr_from (map Some s @ m) = map_option (\<lambda>t. s @ t) (cstr_from m)"
proof (induction s)
  case Nil
  then show ?case by (cases "cstr_from m") simp_all
next
  case (Cons c s)
  then show ?case by (cases "cstr_from m") auto
qed

lemma cstr_from_terminated [simp]:
  "NUL \<notin> set s \<Longrightarrow> cstr_from (map Some s @ Some NUL # m) = Some s"
  by (simp add: cstr_from_append)

lemma cstr_from_no_NUL: "cstr_from m = Some s \<Longrightarrow> NUL \<notin> set s"
  by (induction m arbitrary: s rule: cstr_from.induct) (auto split: if_splits)

lemma cstr_from_Some_iff:
  "cstr_from m = Some s \<longleftrightarrow> NUL \<notin> set s \<and> (\<exists>m'. m = map Some s @ Some NUL # m')"
proof
  assume "cstr_from m = Some s"
  then show "NUL \<notin> set s \<and> (\<exists>m'. m = map Some s @ Some NUL # m')"
    by (induction m arbitrary: s rule: cstr_from.induct) (auto split: if_splits)
qed auto

lemma mem_put_length [simp]: "mem_put m i c = Some m' \<Longrightarrow> length m' = length m"
  by (auto simp: mem_put_def split: if_splits)

subsection \<open>Lists, options, maps\<close>

lemma take_Suc_list_update [simp]:
  "n < length xs \<Longrightarrow> take (Suc n) (xs[n := x]) = take n xs @ [x]"
  by (simp add: take_Suc_conv_app_nth)

lemma map_the_Some [simp]: "map (the \<circ> Some) xs = xs"
  by (simp add: o_def)

lemma map_of_append_snoc [simp]:
  "map_of (xs @ [(k, v)]) k' = (case map_of xs k' of Some w \<Rightarrow> Some w | None \<Rightarrow> if k' = k then Some v else None)"
  by (simp add: map_add_def split: option.splits)

lemma map_of_eq_None_iff_keys: "map_of xs k = None \<longleftrightarrow> k \<notin> set (map fst xs)"
  by (simp add: map_of_eq_None_iff)

end
