(* ===== verification/Libc.thy ===== *)
theory Libc
  imports Prelude
begin

text \<open>
  The parts of the C library the proxy's parser calls, with the behaviour the source relies
  on: \<^verbatim>\<open>atoi\<close>, \<^verbatim>\<open>sscanf("%x")\<close>, \<^verbatim>\<open>strncpy\<close> into a fixed array, and \<^verbatim>\<open>regexec\<close> for the
  extended regular expressions of \<^verbatim>\<open>src/core/net_data.c\<close>.

  A compiled expression is a flat list of items. Matching is greedy from left to right with
  backtracking, which is the leftmost-longest rule for these expressions: in each of them
  the characters a repetition may take are disjoint from what follows it, or the match is
  pinned to the end of the string, so the decomposition of a matching string is unique
  except for \<open>" *(.*)"\<close>, where both rules give the blanks to the first part.
  The program never calls \<^verbatim>\<open>setlocale\<close>, so the ranges are those of the C locale; inside a
  bracket expression a backslash stands for itself.
\<close>

subsection \<open>Characters and numbers\<close>

definition ch_range :: "char \<Rightarrow> char \<Rightarrow> char \<Rightarrow> bool" where
  "ch_range lo hi c \<longleftrightarrow> (of_char lo :: nat) \<le> of_char c \<and> (of_char c :: nat) \<le> of_char hi"

definition is_digit :: "char \<Rightarrow> bool" where "is_digit c \<longleftrightarrow> ch_range CHR ''0'' CHR ''9'' c"
definition is_lower :: "char \<Rightarrow> bool" where "is_lower c \<longleftrightarrow> ch_range CHR ''a'' CHR ''z'' c"
definition is_upper :: "char \<Rightarrow> bool" where "is_upper c \<longleftrightarrow> ch_range CHR ''A'' CHR ''Z'' c"
definition is_alpha :: "char \<Rightarrow> bool" where "is_alpha c \<longleftrightarrow> is_lower c \<or> is_upper c"
definition is_space :: "char \<Rightarrow> bool" where
  "is_space c \<longleftrightarrow> c = CHR '' '' \<or> ch_range CHR 0x09 CHR 0x0D c"

lemmas ch_class_defs = is_digit_def is_lower_def is_upper_def is_alpha_def is_space_def ch_range_def

definition digit_val :: "char \<Rightarrow> nat" where
  "digit_val c = of_char c - 48"

definition digits_val :: "string \<Rightarrow> nat" where
  "digits_val s = foldl (\<lambda>n c. 10 * n + digit_val c) 0 s"

text \<open>\<^verbatim>\<open>atoi\<close> is \<^verbatim>\<open>(int) strtol(s, NULL, 10)\<close>: white space, an optional sign, digits; the value
  saturates at the range of a 64-bit \<^verbatim>\<open>long\<close> and is then cut to 32 bits.\<close>

definition clamp64 :: "int \<Rightarrow> int" where
  "clamp64 x = max (- (2 ^ 63)) (min (2 ^ 63 - 1) x)"

definition to_int32 :: "int \<Rightarrow> int" where
  "to_int32 x = (x + 2 ^ 31) mod 2 ^ 32 - 2 ^ 31"

definition strtol10 :: "string \<Rightarrow> int" where
  "strtol10 s =
     (case dropWhile is_space s of
        [] \<Rightarrow> 0
      | c # t \<Rightarrow>
          if c = CHR ''-'' then clamp64 (- int (digits_val (takeWhile is_digit t)))
          else if c = CHR ''+'' then clamp64 (int (digits_val (takeWhile is_digit t)))
          else clamp64 (int (digits_val (takeWhile is_digit (c # t)))))"

definition atoi :: "string \<Rightarrow> int" where
  "atoi s = to_int32 (strtol10 s)"

text \<open>\<^verbatim>\<open>sscanf(s, "%x", &len)\<close> into an \<^verbatim>\<open>int\<close>: \<^term>\<open>None\<close> when no digit can be converted (the
  variable keeps its old value).\<close>

definition hex_val :: "char \<Rightarrow> nat option" where
  "hex_val c =
     (if is_digit c then Some (of_char c - 48)
      else if ch_range CHR ''a'' CHR ''f'' c then Some (of_char c - 87)
      else if ch_range CHR ''A'' CHR ''F'' c then Some (of_char c - 55)
      else None)"

definition hexs_val :: "string \<Rightarrow> nat" where
  "hexs_val s = foldl (\<lambda>n c. 16 * n + the (hex_val c)) 0 s"

definition is_hex :: "char \<Rightarrow> bool" where
  "is_hex c \<longleftrightarrow> hex_val c \<noteq> None"

definition ulong_sat :: "nat \<Rightarrow> int" where
  "ulong_sat n = int (min (2 ^ 64 - 1) n)"

definition scan_hex_digits :: "string \<Rightarrow> nat option" where
  "scan_hex_digits s =
     (if take 2 s = ''0x'' \<or> take 2 s = ''0X'' then Some (hexs_val (takeWhile is_hex (drop 2 s)))
      else if takeWhile is_hex s = [] then None else Some (hexs_val (takeWhile is_hex s)))"

definition sscanf_x :: "string \<Rightarrow> int option" where
  "sscanf_x s =
     (case dropWhile is_space s of
        [] \<Rightarrow> None
      | c # t \<Rightarrow>
          if c = CHR ''-'' then map_option (\<lambda>n. to_int32 (if n < 2 ^ 64 then - int n else 2 ^ 64 - 1)) (scan_hex_digits t)
          else if c = CHR ''+'' then map_option (\<lambda>n. to_int32 (ulong_sat n)) (scan_hex_digits t)
          else map_option (\<lambda>n. to_int32 (ulong_sat n)) (scan_hex_digits (c # t)))"

lemma to_int32_id [simp]: "- (2 ^ 31) \<le> x \<Longrightarrow> x < 2 ^ 31 \<Longrightarrow> to_int32 x = x"
  by (simp add: to_int32_def)

lemma to_int32_range: "- (2 ^ 31) \<le> to_int32 x \<and> to_int32 x < 2 ^ 31"
  by (simp add: to_int32_def)

lemma atoi_range: "- (2 ^ 31) \<le> atoi s \<and> atoi s < 2 ^ 31"
  unfolding atoi_def by (rule to_int32_range)

lemma digit_not: "is_digit c \<Longrightarrow> \<not> is_space c \<and> c \<noteq> CHR ''-'' \<and> c \<noteq> CHR ''+''"
  by (auto simp: ch_class_defs)

text \<open>A decimal numeral that fits is read back exactly, whatever non-digit follows.\<close>

lemma atoi_digits:
  assumes d: "\<forall>c \<in> set ds. is_digit c" "ds \<noteq> []" and v: "digits_val ds < 2 ^ 31"
    and rest: "rest = [] \<or> \<not> is_digit (hd rest)"
  shows "atoi (ds @ rest) = int (digits_val ds)"
proof -
  obtain c ds' where ds: "ds = c # ds'" using d(2) by (cases ds) auto
  have c: "is_digit c" using d(1) ds by simp
  have tw: "takeWhile is_digit (ds @ rest) = ds"
    using d(1) rest by (cases rest) (simp_all add: takeWhile_append2)
  have "strtol10 (ds @ rest) = clamp64 (int (digits_val (takeWhile is_digit (ds @ rest))))"
    using digit_not [OF c] by (simp add: strtol10_def ds)
  also have "\<dots> = int (digits_val ds)" using v by (simp add: tw clamp64_def)
  finally show ?thesis using v by (simp add: atoi_def)
qed

subsection \<open>Regular expressions\<close>

datatype item =
    One "char \<Rightarrow> bool"
  | Star "char \<Rightarrow> bool"
  | Open nat
  | Close nat
  | Opt nat "item list"
  | Eol

abbreviation Lit :: "char \<Rightarrow> item" where "Lit c \<equiv> One (\<lambda>x. x = c)"
abbreviation rx_str :: "string \<Rightarrow> item list" where "rx_str s \<equiv> map Lit s"
abbreviation rx_any :: "char \<Rightarrow> bool" where "rx_any \<equiv> (\<lambda>x. True)"

type_synonym regmatch = "nat \<Rightarrow> int \<times> int"

fun item_weight :: "item \<Rightarrow> nat" where
  "item_weight (Opt n is) = 4 + sum_list (map item_weight is)"
| "item_weight _ = 1"

lemma item_weight_pos [simp]: "0 < item_weight i"
  by (cases i) auto

text \<open>\<open>rx items s pos caps\<close>: match at the front of \<open>s\<close>, which starts at offset \<open>pos\<close>; the result
  is the end offset and the group offsets.\<close>

function rx :: "item list \<Rightarrow> string \<Rightarrow> int \<Rightarrow> regmatch \<Rightarrow> (int \<times> regmatch) option" where
  "rx [] s p g = Some (p, g)"
| "rx (Eol # r) s p g = (if s = [] then rx r s p g else None)"
| "rx (Open n # r) s p g = rx r s p (g(n := (p, -1)))"
| "rx (Close n # r) s p g = rx r s p (g(n := (fst (g n), p)))"
| "rx (One f # r) s p g =
     (case s of [] \<Rightarrow> None | x # t \<Rightarrow> if f x then rx r t (p + 1) g else None)"
| "rx (Star f # r) s p g =
     (case s of
        [] \<Rightarrow> rx r s p g
      | x # t \<Rightarrow> if f x then (case rx (Star f # r) t (p + 1) g of Some m \<Rightarrow> Some m | None \<Rightarrow> rx r s p g)
                 else rx r s p g)"
| "rx (Opt n is # r) s p g =
     (case rx (Open n # is @ Close n # r) s p g of Some m \<Rightarrow> Some m | None \<Rightarrow> rx r s p g)"
  by pat_completeness auto
termination
  by (relation "measure (\<lambda>(is, s, p, g). sum_list (map item_weight is) + length s)") auto

definition no_caps :: regmatch where
  "no_caps = (\<lambda>_. (-1, -1))"

text \<open>An expression anchored with \<open>^\<close> is tried at the start only, another one at every
  position from left to right.\<close>

fun rx_search :: "item list \<Rightarrow> string \<Rightarrow> int \<Rightarrow> (int \<times> regmatch) option" where
  "rx_search is [] p = rx is [] p no_caps"
| "rx_search is (x # t) p =
     (case rx is (x # t) p no_caps of Some m \<Rightarrow> Some m | None \<Rightarrow> rx_search is t (p + 1))"

record regex =
  re_bol :: bool
  re_items :: "item list"

definition regexec :: "regex \<Rightarrow> string \<Rightarrow> regmatch option" where
  "regexec re s =
     map_option snd (if re_bol re then rx (re_items re) s 0 no_caps else rx_search (re_items re) s 0)"

abbreviation rm_so :: "regmatch \<Rightarrow> nat \<Rightarrow> int" where "rm_so g n \<equiv> fst (g n)"
abbreviation rm_eo :: "regmatch \<Rightarrow> nat \<Rightarrow> int" where "rm_eo g n \<equiv> snd (g n)"

lemma rx_lits [simp]: "rx (rx_str l @ r) (l @ s) p g = rx r s (p + int (length l)) g"
  by (induction l arbitrary: p) (simp_all add: add_ac)

text \<open>Greedy repetition over a maximal run.\<close>

lemma rx_star_run:
  "\<forall>c \<in> set xs. f c \<Longrightarrow> ys = [] \<or> \<not> f (hd ys) \<Longrightarrow> rx r ys (p + int (length xs)) g = Some m \<Longrightarrow>
   rx (Star f # r) (xs @ ys) p g = Some m"
proof (induction xs arbitrary: p)
  case Nil
  then show ?case by (cases ys) auto
next
  case (Cons x xs)
  then have "rx (Star f # r) (xs @ ys) (p + 1) g = Some m" by (auto simp: add_ac)
  with Cons.prems(1) show ?case by simp
qed

text \<open>Repetition that has to give characters back: it stops before \<open>ys\<close> if the rest of the
  expression fails at every later position.\<close>

lemma rx_star_backtrack:
  assumes fail: "\<And>k. 0 < k \<Longrightarrow> k \<le> length ys \<Longrightarrow> rx r (drop k ys) (p + int (length xs) + int k) g = None"
    and all: "\<forall>c \<in> set (xs @ ys). f c" and ok: "rx r ys (p + int (length xs)) g = Some m"
  shows "rx (Star f # r) (xs @ ys) p g = Some m"
proof -
  have none: "rx (Star f # r) (drop k ys) (p + int (length xs) + int k) g = None"
    if "0 < k" "k \<le> length ys" for k
    using that
  proof (induction "length ys - k" arbitrary: k)
    case 0
    then have "drop k ys = []" by simp
    with fail [of k] 0 show ?case by simp
  next
    case (Suc n)
    then have k: "k < length ys" by simp
    then obtain c t where ct: "drop k ys = c # t" "t = drop (Suc k) ys" by (metis Cons_nth_drop_Suc)
    have "rx (Star f # r) t (p + int (length xs) + int k + 1) g = None"
      using Suc.hyps(1) [of "Suc k"] Suc.hyps(2) k ct(2) by (simp add: add_ac)
    then show ?case using fail [of k] Suc.prems ct(1) by simp
  qed
  have head: "rx (Star f # r) ys (p + int (length xs)) g = Some m"
  proof (cases ys)
    case Nil
    with ok show ?thesis by simp
  next
    case (Cons c t)
    then have "rx (Star f # r) t (p + int (length xs) + 1) g = None" using none [of 1] by simp
    then show ?thesis using ok Cons by simp
  qed
  have "rx (Star f # r) (zs @ ys) (p + int (length xs) - int (length zs)) g = Some m"
    if "\<forall>c \<in> set zs. f c" for zs
    using that
  proof (induction zs)
    case Nil
    with head show ?case by simp
  next
    case (Cons z zs)
    then show ?case by (simp add: algebra_simps)
  qed
  from this [of xs] all show ?thesis by simp
qed

text \<open>A repetition of at least one character, as it stands in the patterns.\<close>

abbreviation Plus :: "(char \<Rightarrow> bool) \<Rightarrow> item list" where "Plus f \<equiv> [One f, Star f]"

lemma rx_plus_run:
  assumes "xs \<noteq> []" "\<forall>c \<in> set xs. f c" "ys = [] \<or> \<not> f (hd ys)"
    "rx r ys (p + int (length xs)) g = Some m"
  shows "rx (One f # Star f # r) (xs @ ys) p g = Some m"
proof -
  obtain x xs' where xs: "xs = x # xs'" using assms(1) by (cases xs) auto
  have "rx (Star f # r) (xs' @ ys) (p + 1) g = Some m"
    using assms xs by (intro rx_star_run) (auto simp: add_ac)
  then show ?thesis using assms(2) xs by simp
qed

lemma rx_plus_fail: "ys = [] \<or> \<not> f (hd ys) \<Longrightarrow> rx (One f # r) ys p g = None"
  by (cases ys) auto

lemma rx_search_here: "rx is s p no_caps = Some m \<Longrightarrow> rx_search is s p = Some m"
  by (cases s) auto

end
