(* ===== verification/Strbuf.thy ===== *)
theory Strbuf
  imports Prelude
begin

text \<open>
  Growable string buffers, \<^verbatim>\<open>src/core/strbuf.c\<close>.

  The record mirrors \<^verbatim>\<open>struct strbuf\<close>; \<open>sb_p\<close> is the allocated block, whose length is
  what \<^verbatim>\<open>malloc\<close> was asked for. Every write is bounds-checked against that block and the
  doubling of the capacity against the range of \<^verbatim>\<open>int\<close>.
\<close>

record strbuf =
  sb_p :: cmem
  sb_len :: nat
  sb_cap :: nat

definition STRBUF_INIT_LEN :: nat where "STRBUF_INIT_LEN = 128"

definition strbuf_init :: strbuf where
  "strbuf_init =
     \<lparr>sb_p = (replicate STRBUF_INIT_LEN None)[0 := Some NUL], sb_len = 0, sb_cap = STRBUF_INIT_LEN\<rparr>"

definition strbuf_reset :: "strbuf \<Rightarrow> strbuf" where
  "strbuf_reset b = b\<lparr>sb_len := 0\<rparr>"

text \<open>
  The growth step of \<^verbatim>\<open>strbuf_append\<close>: a block of twice the capacity whose first \<open>cap\<close>
  bytes are copied from the old block.
\<close>

definition strbuf_grow :: "strbuf \<Rightarrow> strbuf option" where
  "strbuf_grow b =
     (if INT_MAX < sb_cap b * 2 \<or> length (sb_p b) < sb_cap b then None
      else Some (b\<lparr>sb_p := take (sb_cap b) (sb_p b) @ replicate (sb_cap b) None,
                   sb_cap := sb_cap b * 2\<rparr>))"

definition strbuf_append :: "strbuf \<Rightarrow> char \<Rightarrow> strbuf option" where
  "strbuf_append b ch =
     (case (if sb_len b + 1 = sb_cap b then strbuf_grow b else Some b) of
        None \<Rightarrow> None
      | Some b1 \<Rightarrow>
          (case mem_put (sb_p b1) (sb_len b1) ch of
             None \<Rightarrow> None
           | Some p1 \<Rightarrow>
               (case mem_put p1 (sb_len b1 + 1) NUL of
                  None \<Rightarrow> None
                | Some p2 \<Rightarrow> Some (b1\<lparr>sb_p := p2, sb_len := sb_len b1 + 1\<rparr>))))"

text \<open>\<open>strbuf_cat b s\<close>: \<open>s\<close> is the literal or string the pointer argument leads to; the loop
  stops at the first NUL, or at the terminator behind the last character.\<close>

fun strbuf_cat :: "strbuf \<Rightarrow> string \<Rightarrow> strbuf option" where
  "strbuf_cat b [] = Some b"
| "strbuf_cat b (c # s) =
     (if c = NUL then Some b
      else case strbuf_append b c of None \<Rightarrow> None | Some b' \<Rightarrow> strbuf_cat b' s)"

text \<open>\<^verbatim>\<open>sprintf(res, "%d", x)\<close>.\<close>

fun dec_digits :: "nat \<Rightarrow> string" where
  "dec_digits n =
     (if n < 10 then [char_of (48 + n)] else dec_digits (n div 10) @ [char_of (48 + n mod 10)])"

declare dec_digits.simps [simp del]

definition sprintf_d :: "int \<Rightarrow> string" where
  "sprintf_d x = (if x < 0 then CHR ''-'' # dec_digits (nat (- x)) else dec_digits (nat x))"

text \<open>The conversion goes through the local \<^verbatim>\<open>char res[16]\<close>, terminator included.\<close>

definition strbuf_append_num :: "strbuf \<Rightarrow> int \<Rightarrow> strbuf option" where
  "strbuf_append_num b x =
     (if 16 < length (sprintf_d x) + 1 then None else strbuf_cat b (sprintf_d x))"

subsection \<open>Invariant and abstraction\<close>

text \<open>
  Well-formed: the block has the recorded capacity, the length leaves room for the
  terminator, and everything up to and including that position has been written.
  \<open>strbuf_str\<close> is the text the buffer stands for; it may contain NUL characters, because
  the parser separates fields by them.
\<close>

definition strbuf_wf :: "strbuf \<Rightarrow> bool" where
  "strbuf_wf b \<longleftrightarrow> sb_cap b = length (sb_p b) \<and> sb_len b < sb_cap b \<and>
     (\<forall>i \<le> sb_len b. sb_p b ! i \<noteq> None)"

definition strbuf_term :: "strbuf \<Rightarrow> bool" where
  "strbuf_term b \<longleftrightarrow> sb_p b ! sb_len b = Some NUL"

definition strbuf_str :: "strbuf \<Rightarrow> string" where
  "strbuf_str b = map the (take (sb_len b) (sb_p b))"

lemma strbuf_init_wf [simp]: "strbuf_wf strbuf_init"
  by (simp add: strbuf_wf_def strbuf_init_def STRBUF_INIT_LEN_def)

lemma strbuf_init_term [simp]: "strbuf_term strbuf_init"
  by (simp add: strbuf_term_def strbuf_init_def STRBUF_INIT_LEN_def)

lemma strbuf_init_str [simp]: "strbuf_str strbuf_init = ''''"
  by (simp add: strbuf_str_def strbuf_init_def)

lemma strbuf_init_len [simp]: "sb_len strbuf_init = 0"
  by (simp add: strbuf_init_def)

lemma strbuf_reset_wf [simp]: "strbuf_wf b \<Longrightarrow> strbuf_wf (strbuf_reset b)"
  by (auto simp: strbuf_wf_def strbuf_reset_def)

lemma strbuf_reset_str [simp]: "strbuf_str (strbuf_reset b) = ''''"
  by (simp add: strbuf_str_def strbuf_reset_def)

lemma strbuf_reset_len [simp]: "sb_len (strbuf_reset b) = 0"
  by (simp add: strbuf_reset_def)

lemma strbuf_str_length: "strbuf_wf b \<Longrightarrow> length (strbuf_str b) = sb_len b"
  by (simp add: strbuf_wf_def strbuf_str_def)

text \<open>The append step, once for all clients: it succeeds, keeps the invariant, ends
  terminated and stores exactly one more character.\<close>

lemma strbuf_grow_wf:
  assumes "strbuf_wf b" "sb_cap b * 2 \<le> INT_MAX"
  shows "\<exists>b'. strbuf_grow b = Some b' \<and> strbuf_wf b' \<and> strbuf_str b' = strbuf_str b \<and>
     sb_len b' = sb_len b \<and> sb_cap b' = 2 * sb_cap b"
proof -
  have "sb_cap b = length (sb_p b)" "sb_len b < sb_cap b"
    using assms(1) by (auto simp: strbuf_wf_def)
  then show ?thesis
    using assms by (auto simp: strbuf_grow_def strbuf_wf_def strbuf_str_def nth_append)
qed

lemma strbuf_append_room:
  assumes "strbuf_wf b" "sb_len b + 1 < sb_cap b"
  shows "\<exists>b'. strbuf_append b c = Some b' \<and> strbuf_wf b' \<and> strbuf_term b' \<and>
     strbuf_str b' = strbuf_str b @ [c] \<and> sb_len b' = sb_len b + 1 \<and> sb_cap b' = sb_cap b"
proof -
  let ?p = "(sb_p b)[sb_len b := Some c, sb_len b + 1 := Some NUL]"
  have len: "sb_cap b = length (sb_p b)" using assms(1) by (simp add: strbuf_wf_def)
  have app: "strbuf_append b c = Some (b\<lparr>sb_p := ?p, sb_len := sb_len b + 1\<rparr>)"
  proof -
    have n: "sb_len b + 1 \<noteq> sb_cap b" "sb_len b < length (sb_p b)" "sb_len b + 1 < length (sb_p b)"
      using assms(2) len by auto
    show ?thesis by (simp only: strbuf_append_def mem_put_def n if_False if_True option.case length_list_update)
  qed
  have "take (Suc (sb_len b)) ?p = take (sb_len b) (sb_p b) @ [Some c]"
    using assms(2) len by (simp add: take_Suc_conv_app_nth del: take_Suc_list_update)
  then have str: "strbuf_str (b\<lparr>sb_p := ?p, sb_len := sb_len b + 1\<rparr>) = strbuf_str b @ [c]"
    by (simp add: strbuf_str_def)
  have wf: "strbuf_wf (b\<lparr>sb_p := ?p, sb_len := sb_len b + 1\<rparr>)"
    using assms len by (auto simp: strbuf_wf_def nth_list_update le_Suc_eq)
  have "strbuf_term (b\<lparr>sb_p := ?p, sb_len := sb_len b + 1\<rparr>)"
    using assms(2) len by (simp add: strbuf_term_def)
  with app str wf show ?thesis by simp
qed

lemma strbuf_append_ok:
  assumes wf: "strbuf_wf b" and small: "sb_len b + 1 < 2 ^ 30"
  shows "\<exists>b'. strbuf_append b c = Some b' \<and> strbuf_wf b' \<and> strbuf_term b' \<and>
     strbuf_str b' = strbuf_str b @ [c] \<and> sb_len b' = sb_len b + 1"
proof (cases "sb_len b + 1 = sb_cap b")
  case False
  with wf have "sb_len b + 1 < sb_cap b" by (simp add: strbuf_wf_def)
  from strbuf_append_room [OF wf this, of c] show ?thesis by blast
next
  case True
  with small have "sb_cap b * 2 \<le> INT_MAX" by (simp add: INT_MAX_def)
  from strbuf_grow_wf [OF wf this] obtain b1
    where g: "strbuf_grow b = Some b1" "strbuf_wf b1" "strbuf_str b1 = strbuf_str b"
      "sb_len b1 = sb_len b" "sb_cap b1 = 2 * sb_cap b" by blast
  with True have room: "sb_len b1 + 1 < sb_cap b1" by simp
  then have "strbuf_append b c = strbuf_append b1 c"
    using True g(1) by (simp add: strbuf_append_def)
  with strbuf_append_room [OF g(2) room, of c] g(3,4) show ?thesis by auto
qed

lemma strbuf_cat_ok:
  "strbuf_wf b \<Longrightarrow> NUL \<notin> set s \<Longrightarrow> sb_len b + length s < 2 ^ 30 \<Longrightarrow>
   \<exists>b'. strbuf_cat b s = Some b' \<and> strbuf_wf b' \<and> (s \<noteq> [] \<or> strbuf_term b \<longrightarrow> strbuf_term b') \<and>
     strbuf_str b' = strbuf_str b @ s \<and> sb_len b' = sb_len b + length s"
proof (induction s arbitrary: b)
  case Nil
  then show ?case by simp
next
  case (Cons c s)
  then have "sb_len b + 1 < 2 ^ 30" by simp
  from strbuf_append_ok [OF Cons.prems(1) this, of c] obtain b1
    where b1: "strbuf_append b c = Some b1" "strbuf_wf b1" "strbuf_term b1"
      "strbuf_str b1 = strbuf_str b @ [c]" "sb_len b1 = sb_len b + 1" by blast
  have "sb_len b1 + length s < 2 ^ 30" using Cons.prems(3) b1(5) by simp
  from Cons.IH [OF b1(2) _ this] Cons.prems(2) obtain b2
    where "strbuf_cat b1 s = Some b2" "strbuf_wf b2" "strbuf_term b2"
      "strbuf_str b2 = strbuf_str b1 @ s" "sb_len b2 = sb_len b1 + length s"
    using b1(3) by auto
  with b1 Cons.prems(2) show ?case by auto
qed

subsection \<open>Decimal output\<close>

lemma dec_digits_small: "n < 10 ^ k \<Longrightarrow> 0 < k \<Longrightarrow> length (dec_digits n) \<le> k"
proof (induction n arbitrary: k rule: dec_digits.induct)
  case (1 n)
  show ?case
  proof (cases "n < 10")
    case True
    then show ?thesis using 1(3) by (subst dec_digits.simps) simp
  next
    case False
    with 1(2) obtain j where k: "k = Suc j" "0 < j" by (cases k; cases "k - 1") auto
    with 1(2) have "n div 10 < 10 ^ j" by (simp add: less_mult_imp_div_less mult.commute)
    from 1(1) [OF False this k(2)] k False show ?thesis by (subst dec_digits.simps) simp
  qed
qed

lemma dec_digits_range: "c \<in> set (dec_digits n) \<Longrightarrow> \<exists>d < (10::nat). c = char_of (48 + d)"
proof (induction n rule: dec_digits.induct)
  case (1 n)
  show ?case
  proof (cases "n < 10")
    case True
    with 1(2) show ?thesis by (subst (asm) dec_digits.simps) auto
  next
    case False
    with 1(2) consider "c \<in> set (dec_digits (n div 10))" | "c = char_of (48 + n mod 10)"
      by (subst (asm) dec_digits.simps) auto
    then show ?thesis using 1(1) [OF False]
      by cases (auto intro!: exI [of _ "n mod 10"])
  qed
qed

lemma sprintf_d_fits: "- (2 ^ 31) \<le> x \<Longrightarrow> x < 2 ^ 31 \<Longrightarrow> length (sprintf_d x) + 1 \<le> 16"
proof -
  assume x: "- (2 ^ 31) \<le> x" "x < 2 ^ 31"
  have "length (dec_digits (nat \<bar>x\<bar>)) \<le> 10"
    using x by (intro dec_digits_small) auto
  then show ?thesis by (auto simp: sprintf_d_def abs_if split: if_splits)
qed

subsection \<open>The buffer as a string\<close>

text \<open>What the clients of the buffer use.\<close>

definition sb :: "strbuf \<Rightarrow> string \<Rightarrow> bool" where
  "sb b s \<longleftrightarrow> strbuf_wf b \<and> strbuf_term b \<and> strbuf_str b = s"

lemma sb_len: "sb b s \<Longrightarrow> sb_len b = length s"
  using strbuf_str_length by (auto simp: sb_def)

lemma sb_init [simp]: "sb strbuf_init ''''"
  by (simp add: sb_def)

lemma sb_append:
  assumes "sb b s" "length s + 1 < 2 ^ 30"
  shows "\<exists>b'. strbuf_append b c = Some b' \<and> sb b' (s @ [c])"
  using strbuf_append_ok [of b c] assms sb_len [OF assms(1)] by (auto simp: sb_def)

lemma sb_cat:
  assumes "sb b s" "NUL \<notin> set t" "length s + length t < 2 ^ 30"
  shows "\<exists>b'. strbuf_cat b t = Some b' \<and> sb b' (s @ t)"
  using strbuf_cat_ok [of b t] assms sb_len [OF assms(1)] by (auto simp: sb_def)

end
