(* ===== verification/Uthash.thy ===== *)
theory Uthash
  imports Prelude "HOL-Library.AList"
begin

text \<open>
  The hash table of \<^verbatim>\<open>src/uthash/uthash.h\<close>, as far as the proxy uses it: Jenkins' hash,
  lookup in a bucket chain, insertion with bucket expansion, deletion, and iteration in
  insertion order.

  A table is the list of its elements in application order (the doubly linked list
  through \<^verbatim>\<open>hh.prev\<close> and \<^verbatim>\<open>hh.next\<close>) and the bucket array; a bucket holds the chain of
  element identities through \<^verbatim>\<open>hh_next\<close>, head first. Elements are identified by a number
  that stands for their address. Keys are the key bytes; \<^verbatim>\<open>memcmp\<close> on equal lengths is
  equality of byte lists. A null \<^verbatim>\<open>head\<close> is an empty application list; the table block is
  released with the last element and made anew by the next insertion, as in the macros.
\<close>

unbundle bit_operations_syntax

subsection \<open>Jenkins' hash function\<close>

type_synonym u32 = "32 word"

definition ubyte :: "char \<Rightarrow> u32" where
  "ubyte c = of_nat (of_char c)"

definition HASH_JEN_MIX :: "u32 \<times> u32 \<times> u32 \<Rightarrow> u32 \<times> u32 \<times> u32" where
  "HASH_JEN_MIX x =
     (let (a, b, c) = x;
          a = (a - b - c) XOR drop_bit 13 c; b = (b - c - a) XOR push_bit 8 a;
          c = (c - a - b) XOR drop_bit 13 b; a = (a - b - c) XOR drop_bit 12 c;
          b = (b - c - a) XOR push_bit 16 a; c = (c - a - b) XOR drop_bit 5 b;
          a = (a - b - c) XOR drop_bit 3 c; b = (b - c - a) XOR push_bit 10 a;
          c = (c - a - b) XOR drop_bit 15 b
      in (a, b, c))"

definition jen_word :: "string \<Rightarrow> nat \<Rightarrow> u32" where
  "jen_word key i = ubyte (key ! i) + push_bit 8 (ubyte (key ! (i + 1)))
     + push_bit 16 (ubyte (key ! (i + 2))) + push_bit 24 (ubyte (key ! (i + 3)))"

function jen_blocks :: "string \<Rightarrow> u32 \<times> u32 \<times> u32 \<Rightarrow> string \<times> u32 \<times> u32 \<times> u32" where
  "jen_blocks key (i, j, h) =
     (if length key \<ge> 12
      then jen_blocks (drop 12 key)
             (HASH_JEN_MIX (i + jen_word key 0, j + jen_word key 4, h + jen_word key 8))
      else (key, i, j, h))"
  by pat_completeness auto
termination
  by (relation "measure (\<lambda>(key, s). length key)") auto

declare jen_blocks.simps [simp del]

definition jen_tail :: "string \<Rightarrow> nat \<Rightarrow> nat \<Rightarrow> u32" where
  "jen_tail key i s = (if i < length key then push_bit s (ubyte (key ! i)) else 0)"

definition HASH_JEN :: "string \<Rightarrow> u32" where
  "HASH_JEN key =
     (let (k, i, j, h) = jen_blocks key (0x9e3779b9, 0x9e3779b9, 0xfeedbeef);
          h = h + of_nat (length key);
          h = h + jen_tail k 10 24 + jen_tail k 9 16 + jen_tail k 8 8;
          j = j + jen_tail k 7 24 + jen_tail k 6 16 + jen_tail k 5 8 + jen_tail k 4 0;
          i = i + jen_tail k 3 24 + jen_tail k 2 16 + jen_tail k 1 8 + jen_tail k 0 0;
          (i, j, h) = HASH_JEN_MIX (i, j, h)
      in h)"

subsection \<open>The table\<close>

record 'v hent =
  h_id :: nat
  h_key :: string
  h_hashv :: u32
  h_val :: 'v

record UT_hash_bucket =
  bk_chain :: "nat list"
  bk_count :: nat
  expand_mult :: nat

record 'v UT_hash_table =
  ht_app :: "'v hent list"
  ht_buckets :: "UT_hash_bucket list"
  num_buckets :: nat
  log2_num_buckets :: nat
  num_items :: nat
  ideal_chain_maxlen :: nat
  nonideal_items :: nat
  ineff_expands :: nat
  noexpand :: bool
  ht_next :: nat

definition empty_bucket :: UT_hash_bucket where
  "empty_bucket = \<lparr>bk_chain = [], bk_count = 0, expand_mult = 0\<rparr>"

definition hash_empty :: "'v UT_hash_table" where
  "hash_empty = \<lparr>ht_app = [], ht_buckets = [], num_buckets = 0, log2_num_buckets = 0,
     num_items = 0, ideal_chain_maxlen = 0, nonideal_items = 0, ineff_expands = 0,
     noexpand = False, ht_next = 0\<rparr>"

definition HASH_MAKE_TABLE :: "'v UT_hash_table \<Rightarrow> 'v UT_hash_table" where
  "HASH_MAKE_TABLE t = \<lparr>ht_app = ht_app t, ht_buckets = replicate 32 empty_bucket,
     num_buckets = 32, log2_num_buckets = 5, num_items = 0, ideal_chain_maxlen = 0,
     nonideal_items = 0, ineff_expands = 0, noexpand = False, ht_next = ht_next t\<rparr>"

definition HASH_TO_BKT :: "u32 \<Rightarrow> nat \<Rightarrow> nat" where
  "HASH_TO_BKT hashv n = unat (hashv AND of_nat (n - 1))"

definition ent_of :: "'v hent list \<Rightarrow> nat \<Rightarrow> 'v hent option" where
  "ent_of es i = List.find (\<lambda>e. h_id e = i) es"

fun HASH_FIND_IN_BKT :: "'v hent list \<Rightarrow> nat list \<Rightarrow> string \<Rightarrow> 'v hent option" where
  "HASH_FIND_IN_BKT es [] key = None"
| "HASH_FIND_IN_BKT es (i # is) key =
     (case ent_of es i of
        None \<Rightarrow> None
      | Some e \<Rightarrow> if h_key e = key then Some e else HASH_FIND_IN_BKT es is key)"

definition HASH_FIND :: "'v UT_hash_table \<Rightarrow> string \<Rightarrow> 'v hent option" where
  "HASH_FIND t key =
     (if ht_app t = [] then None
      else HASH_FIND_IN_BKT (ht_app t)
             (bk_chain (ht_buckets t ! HASH_TO_BKT (HASH_JEN key) (num_buckets t))) key)"

text \<open>One element moved into the doubled bucket array; the pair is the new array and the
  running count of items beyond the ideal chain length.\<close>

definition expand_move ::
  "'v hent list \<Rightarrow> nat \<Rightarrow> nat \<Rightarrow> nat \<Rightarrow> UT_hash_bucket list \<times> nat \<Rightarrow> UT_hash_bucket list \<times> nat" where
  "expand_move es n2 ideal i x =
     (case ent_of es i of
        None \<Rightarrow> x
      | Some e \<Rightarrow>
          (let (bs, non) = x; b = HASH_TO_BKT (h_hashv e) n2; nb = bs ! b; c = bk_count nb + 1
           in (bs[b := \<lparr>bk_chain = i # bk_chain nb, bk_count = c,
                        expand_mult = (if c > ideal then c div ideal else expand_mult nb)\<rparr>],
               if c > ideal then non + 1 else non)))"

definition HASH_EXPAND_BUCKETS :: "'v UT_hash_table \<Rightarrow> 'v UT_hash_table" where
  "HASH_EXPAND_BUCKETS t =
     (let n2 = 2 * num_buckets t;
          ideal = num_items t div 2 ^ (log2_num_buckets t + 1)
                    + (if num_items t AND (n2 - 1) \<noteq> 0 then 1 else 0);
          (bs, non) = fold (expand_move (ht_app t) n2 ideal) (concat (map bk_chain (ht_buckets t)))
                        (replicate n2 empty_bucket, 0);
          ineff = (if non > num_items t div 2 then ineff_expands t + 1 else 0)
      in t\<lparr>ht_buckets := bs, num_buckets := n2, log2_num_buckets := log2_num_buckets t + 1,
           ideal_chain_maxlen := ideal, nonideal_items := non, ineff_expands := ineff,
           noexpand := (if ineff > 1 then True else noexpand t)\<rparr>)"

definition HASH_ADD_TO_BKT :: "'v UT_hash_table \<Rightarrow> nat \<Rightarrow> nat \<Rightarrow> 'v UT_hash_table" where
  "HASH_ADD_TO_BKT t b i =
     (let bk = ht_buckets t ! b;
          bk' = bk\<lparr>bk_chain := i # bk_chain bk, bk_count := bk_count bk + 1\<rparr>;
          t' = t\<lparr>ht_buckets := (ht_buckets t)[b := bk']\<rparr>
      in if bk_count bk' \<ge> (expand_mult bk' + 1) * 10 \<and> \<not> noexpand t
         then HASH_EXPAND_BUCKETS t' else t')"

definition HASH_ADD :: "'v UT_hash_table \<Rightarrow> string \<Rightarrow> 'v \<Rightarrow> 'v UT_hash_table" where
  "HASH_ADD t key v =
     (let t0 = (if ht_app t = [] then HASH_MAKE_TABLE t else t);
          hv = HASH_JEN key;
          e = \<lparr>h_id = ht_next t, h_key = key, h_hashv = hv, h_val = v\<rparr>;
          t1 = t0\<lparr>ht_app := ht_app t0 @ [e], num_items := num_items t0 + 1,
                  ht_next := ht_next t0 + 1\<rparr>
      in HASH_ADD_TO_BKT t1 (HASH_TO_BKT hv (num_buckets t1)) (ht_next t))"

definition HASH_DELETE :: "'v UT_hash_table \<Rightarrow> 'v hent \<Rightarrow> 'v UT_hash_table" where
  "HASH_DELETE t d =
     (if length (ht_app t) = 1 then hash_empty\<lparr>ht_next := ht_next t\<rparr>
      else (let b = HASH_TO_BKT (h_hashv d) (num_buckets t); bk = ht_buckets t ! b
            in t\<lparr>ht_app := filter (\<lambda>e. h_id e \<noteq> h_id d) (ht_app t),
                 ht_buckets := (ht_buckets t)[b :=
                   bk\<lparr>bk_chain := remove1 (h_id d) (bk_chain bk), bk_count := bk_count bk - 1\<rparr>],
                 num_items := num_items t - 1\<rparr>))"

text \<open>Writing through the element pointer (\<^verbatim>\<open>h->data = data\<close>), and \<^verbatim>\<open>HASH_CLEAR\<close>.\<close>

definition hash_assign :: "'v UT_hash_table \<Rightarrow> nat \<Rightarrow> 'v \<Rightarrow> 'v UT_hash_table" where
  "hash_assign t i v =
     t\<lparr>ht_app := map (\<lambda>e. if h_id e = i then e\<lparr>h_val := v\<rparr> else e) (ht_app t)\<rparr>"

definition HASH_CLEAR :: "'v UT_hash_table \<Rightarrow> 'v UT_hash_table" where
  "HASH_CLEAR t = hash_empty\<lparr>ht_next := ht_next t\<rparr>"

text \<open>\<^verbatim>\<open>HASH_ITER\<close> visits the elements in this order; \<^verbatim>\<open>HASH_COUNT\<close> is the item counter.\<close>

definition hash_iter :: "'v UT_hash_table \<Rightarrow> (string \<times> 'v) list" where
  "hash_iter t = map (\<lambda>e. (h_key e, h_val e)) (ht_app t)"

definition HASH_COUNT :: "'v UT_hash_table \<Rightarrow> nat" where
  "HASH_COUNT t = (if ht_app t = [] then 0 else num_items t)"

definition hash_keys :: "'v UT_hash_table \<Rightarrow> string list" where
  "hash_keys t = map h_key (ht_app t)"

subsection \<open>Invariant\<close>

definition bkts_inv :: "'v hent list \<Rightarrow> nat \<Rightarrow> nat set \<Rightarrow> UT_hash_bucket list \<Rightarrow> bool" where
  "bkts_inv es n I bs \<longleftrightarrow> length bs = n \<and>
     (\<forall>b < n. distinct (bk_chain (bs ! b)) \<and> bk_count (bs ! b) = length (bk_chain (bs ! b)) \<and>
        set (bk_chain (bs ! b)) = {h_id e |e. e \<in> set es \<and> h_id e \<in> I \<and> HASH_TO_BKT (h_hashv e) n = b})"

definition ents_inv :: "'v hent list \<Rightarrow> nat \<Rightarrow> bool" where
  "ents_inv es nx \<longleftrightarrow> distinct (map h_id es) \<and>
     (\<forall>e \<in> set es. h_id e < nx \<and> h_hashv e = HASH_JEN (h_key e))"

definition hash_inv :: "'v UT_hash_table \<Rightarrow> bool" where
  "hash_inv t \<longleftrightarrow> ht_app t = [] \<or>
     ents_inv (ht_app t) (ht_next t) \<and> 0 < num_buckets t \<and> num_items t = length (ht_app t) \<and>
     bkts_inv (ht_app t) (num_buckets t) UNIV (ht_buckets t)"

lemma HASH_TO_BKT_less [simp]: "0 < n \<Longrightarrow> HASH_TO_BKT h n < n"
proof -
  assume n: "0 < n"
  have "unat (h AND of_nat (n - 1)) \<le> unat (of_nat (n - 1) :: u32)"
    using word_and_le1 word_le_nat_alt by blast
  also have "\<dots> \<le> n - 1" by (simp add: unat_of_nat)
  finally show ?thesis using n by (simp add: HASH_TO_BKT_def)
qed

lemma ent_of_Some_iff:
  "distinct (map h_id es) \<Longrightarrow> ent_of es i = Some e \<longleftrightarrow> e \<in> set es \<and> h_id e = i"
  by (induction es) (auto simp: ent_of_def)

lemma ent_of_None_iff: "ent_of es i = None \<longleftrightarrow> i \<notin> h_id ` set es"
  by (auto simp: ent_of_def find_None_iff)

lemma HASH_FIND_IN_BKT_Some:
  "distinct (map h_id es) \<Longrightarrow> HASH_FIND_IN_BKT es is k = Some e \<Longrightarrow>
   e \<in> set es \<and> h_key e = k \<and> h_id e \<in> set is"
  by (induction es "is" k rule: HASH_FIND_IN_BKT.induct)
     (auto split: option.splits if_splits simp: ent_of_Some_iff)

lemma HASH_FIND_IN_BKT_None:
  "distinct (map h_id es) \<Longrightarrow> set is \<subseteq> h_id ` set es \<Longrightarrow> HASH_FIND_IN_BKT es is k = None \<Longrightarrow>
   e \<in> set es \<Longrightarrow> h_id e \<in> set is \<Longrightarrow> h_key e \<noteq> k"
proof (induction es "is" k rule: HASH_FIND_IN_BKT.induct)
  case (2 es i "is" k)
  have "ent_of es i \<noteq> None" using 2(3) by (simp add: ent_of_None_iff)
  then obtain e' where e': "ent_of es i = Some e'" by blast
  with 2(2) have e'': "e' \<in> set es" "h_id e' = i" by (auto simp: ent_of_Some_iff)
  from 2(4) e' have nk: "h_key e' \<noteq> k" and rest: "HASH_FIND_IN_BKT es is k = None"
    by (auto split: if_splits)
  show ?case
  proof (cases "h_id e = i")
    case True
    with 2(2,5) e'' have "e = e'" by (auto simp: distinct_map dest: inj_onD)
    with nk show ?thesis by simp
  next
    case False
    with 2 e' nk rest show ?thesis by auto
  qed
qed simp

lemma bkts_inv_chain_subset:
  "bkts_inv es n I bs \<Longrightarrow> b < n \<Longrightarrow> set (bk_chain (bs ! b)) \<subseteq> h_id ` set es"
  by (auto simp: bkts_inv_def)

subsection \<open>Lookup\<close>

lemma HASH_FIND_Some:
  "hash_inv t \<Longrightarrow> HASH_FIND t k = Some e \<Longrightarrow> e \<in> set (ht_app t) \<and> h_key e = k"
  by (auto simp: HASH_FIND_def hash_inv_def ents_inv_def split: if_splits
           dest!: HASH_FIND_IN_BKT_Some [rotated])

lemma HASH_FIND_None_iff:
  assumes inv: "hash_inv t"
  shows "HASH_FIND t k = None \<longleftrightarrow> k \<notin> set (hash_keys t)"
proof
  assume none: "HASH_FIND t k = None"
  show "k \<notin> set (hash_keys t)"
  proof
    assume "k \<in> set (hash_keys t)"
    then obtain e where e: "e \<in> set (ht_app t)" "h_key e = k" by (auto simp: hash_keys_def)
    let ?b = "HASH_TO_BKT (HASH_JEN k) (num_buckets t)"
    from e(1) inv have bk: "bkts_inv (ht_app t) (num_buckets t) UNIV (ht_buckets t)"
      and en: "ents_inv (ht_app t) (ht_next t)" and n: "0 < num_buckets t"
      by (auto simp: hash_inv_def)
    have "h_id e \<in> set (bk_chain (ht_buckets t ! ?b))"
      using bk n e en by (auto simp: bkts_inv_def ents_inv_def)
    moreover have "HASH_FIND_IN_BKT (ht_app t) (bk_chain (ht_buckets t ! ?b)) k = None"
      using none e(1) by (auto simp: HASH_FIND_def split: if_splits)
    ultimately show False
      using HASH_FIND_IN_BKT_None [OF _ bkts_inv_chain_subset [OF bk HASH_TO_BKT_less [OF n]]]
        e en by (auto simp: ents_inv_def)
  qed
next
  assume "k \<notin> set (hash_keys t)"
  then show "HASH_FIND t k = None"
    using HASH_FIND_Some [OF inv, of k]
    by (cases "HASH_FIND t k") (auto simp: hash_keys_def)
qed

lemma map_of_ents_Some:
  "distinct (map h_key es) \<Longrightarrow> e \<in> set es \<Longrightarrow>
   map_of (map (\<lambda>e. (h_key e, h_val e)) es) (h_key e) = Some (h_val e)"
  by (rule map_of_is_SomeI) (auto simp: o_def)

text \<open>With distinct keys, lookup is lookup in the association list.\<close>

lemma HASH_FIND_map_of:
  assumes "hash_inv t" "distinct (hash_keys t)"
  shows "map_option h_val (HASH_FIND t k) = map_of (hash_iter t) k"
proof (cases "HASH_FIND t k")
  case None
  with assms(1) have "k \<notin> set (hash_keys t)" by (simp add: HASH_FIND_None_iff)
  then have "map_of (hash_iter t) k = None"
    by (simp add: map_of_eq_None_iff hash_iter_def hash_keys_def image_image)
  with None show ?thesis by simp
next
  case (Some e)
  from HASH_FIND_Some [OF assms(1) Some] have e: "e \<in> set (ht_app t)" "h_key e = k" by auto
  with assms(2) show ?thesis
    unfolding Some hash_iter_def using map_of_ents_Some [of "ht_app t" e]
    by (simp add: hash_keys_def)
qed

subsection \<open>Insertion and bucket expansion\<close>

lemma bkts_inv_place:
  assumes inv: "bkts_inv es n I bs" and d: "distinct (map h_id es)" and n: "0 < n"
    and e: "e \<in> set es" "h_id e = i" "i \<notin> I"
    and b: "b = HASH_TO_BKT (h_hashv e) n" "nb = bs ! b"
    and nb': "bk_chain nb' = i # bk_chain nb" "bk_count nb' = bk_count nb + 1"
  shows "bkts_inv es n (insert i I) (bs[b := nb'])"
proof -
  have len: "length bs = n" and bn: "b < n" using inv n b by (auto simp: bkts_inv_def)
  have only: "e' = e" if "e' \<in> set es" "h_id e' = i" for e'
    using that e d by (auto simp: distinct_map dest: inj_onD)
  have "distinct (bk_chain (bs[b := nb'] ! c)) \<and>
      bk_count (bs[b := nb'] ! c) = length (bk_chain (bs[b := nb'] ! c)) \<and>
      set (bk_chain (bs[b := nb'] ! c)) =
        {h_id e |e. e \<in> set es \<and> h_id e \<in> insert i I \<and> HASH_TO_BKT (h_hashv e) n = c}"
    if c: "c < n" for c
  proof (cases "c = b")
    case True
    have old: "distinct (bk_chain nb)" "bk_count nb = length (bk_chain nb)"
      "set (bk_chain nb) = {h_id e |e. e \<in> set es \<and> h_id e \<in> I \<and> HASH_TO_BKT (h_hashv e) n = b}"
      using inv bn unfolding b(2) bkts_inv_def by blast+
    have "i \<notin> set (bk_chain nb)" unfolding old(3) using e(3) by blast
    moreover have "insert i (set (bk_chain nb)) =
        {h_id e |e. e \<in> set es \<and> h_id e \<in> insert i I \<and> HASH_TO_BKT (h_hashv e) n = b}"
      unfolding old(3) b(1) using e only by blast
    moreover have "bs[b := nb'] ! c = nb'" using True bn len by simp
    ultimately show ?thesis using old(1,2) nb' True by simp
  next
    case False
    have same: "{h_id e |e. e \<in> set es \<and> h_id e \<in> insert i I \<and> HASH_TO_BKT (h_hashv e) n = c}
        = {h_id e |e. e \<in> set es \<and> h_id e \<in> I \<and> HASH_TO_BKT (h_hashv e) n = c}"
      using False b(1) only by blast
    have "bs[b := nb'] ! c = bs ! c" using False by simp
    then show ?thesis unfolding same using inv c by (simp add: bkts_inv_def)
  qed
  with len show ?thesis by (simp add: bkts_inv_def)
qed

lemma bkts_inv_empty: "bkts_inv es n {} (replicate n empty_bucket)"
  by (simp add: bkts_inv_def empty_bucket_def)

lemma expand_fold:
  assumes d: "distinct (map h_id es)" and n: "0 < n"
  shows "bkts_inv es n I (fst x) \<Longrightarrow> distinct is \<Longrightarrow> set is \<inter> I = {} \<Longrightarrow> set is \<subseteq> h_id ` set es \<Longrightarrow>
    bkts_inv es n (set is \<union> I) (fst (fold (expand_move es n ideal) is x))"
proof (induction "is" arbitrary: I x)
  case (Cons i "is")
  then obtain e where e: "e \<in> set es" "h_id e = i" by auto
  with d have en: "ent_of es i = Some e" by (simp add: ent_of_Some_iff)
  obtain bs non where x: "x = (bs, non)" by (cases x)
  have "bkts_inv es n (insert i I) (fst (expand_move es n ideal i x))"
    unfolding expand_move_def en x Let_def option.case prod.case fst_conv
    by (rule bkts_inv_place [OF Cons.prems(1) [unfolded x fst_conv] d n e _ refl refl])
       (use Cons.prems in auto)
  from Cons.IH [OF this] Cons.prems show ?case by (simp add: insert_absorb2)
qed simp

lemma chains_distinct:
  assumes inv: "bkts_inv es n I bs" and d: "distinct (map h_id es)"
  shows "distinct (concat (map bk_chain bs))"
proof -
  have disj: "set (bk_chain (bs ! b)) \<inter> set (bk_chain (bs ! c)) = {}" if "b < n" "c < n" "b \<noteq> c" for b c
    using that inv d by (fastforce simp: bkts_inv_def distinct_map dest: inj_onD)
  have len: "length bs = n" using inv by (simp add: bkts_inv_def)
  have "distinct (concat (map bk_chain (take m bs))) \<and>
      set (concat (map bk_chain (take m bs))) = (\<Union>c < m. set (bk_chain (bs ! c)))" if "m \<le> n" for m
    using that
  proof (induction m)
    case (Suc m)
    then have m: "m < length bs" "m < n" using len by auto
    have "set (bk_chain (bs ! m)) \<inter> (\<Union>c < m. set (bk_chain (bs ! c))) = {}"
    proof -
      have "set (bk_chain (bs ! m)) \<inter> set (bk_chain (bs ! c)) = {}" if "c < m" for c
        using disj that m by simp
      then show ?thesis by blast
    qed
    then show ?case
      using Suc m inv by (auto simp: take_Suc_conv_app_nth bkts_inv_def lessThan_Suc)
  qed simp
  from this [of n] len show ?thesis by simp
qed

lemma chains_set:
  assumes inv: "bkts_inv es n UNIV bs" and n: "0 < n"
  shows "set (concat (map bk_chain bs)) = h_id ` set es"
proof -
  have len: "length bs = n" using inv by (simp add: bkts_inv_def)
  then have "set bs = (\<lambda>c. bs ! c) ` {..<n}" by (auto simp: set_conv_nth)
  then have "set (concat (map bk_chain bs)) = (\<Union>c < n. set (bk_chain (bs ! c)))" by simp
  also have "\<dots> = h_id ` set es" using inv n by (fastforce simp: bkts_inv_def)
  finally show ?thesis .
qed

lemma expand_frame [simp]:
  "ht_app (HASH_EXPAND_BUCKETS t) = ht_app t" "num_items (HASH_EXPAND_BUCKETS t) = num_items t"
  "ht_next (HASH_EXPAND_BUCKETS t) = ht_next t"
  "num_buckets (HASH_EXPAND_BUCKETS t) = 2 * num_buckets t"
  by (simp_all add: HASH_EXPAND_BUCKETS_def Let_def split_beta)

lemma expand_inv:
  assumes "bkts_inv (ht_app t) (num_buckets t) UNIV (ht_buckets t)"
    "distinct (map h_id (ht_app t))" "0 < num_buckets t"
  shows "bkts_inv (ht_app t) (num_buckets (HASH_EXPAND_BUCKETS t)) UNIV
           (ht_buckets (HASH_EXPAND_BUCKETS t))"
proof -
  let ?n2 = "2 * num_buckets t" and ?is = "concat (map bk_chain (ht_buckets t))"
  obtain ideal where e: "ht_buckets (HASH_EXPAND_BUCKETS t) =
      fst (fold (expand_move (ht_app t) ?n2 ideal) ?is (replicate ?n2 empty_bucket, 0))"
    by (simp add: HASH_EXPAND_BUCKETS_def Let_def split_beta)
  have "bkts_inv (ht_app t) ?n2 (set ?is \<union> {}) (ht_buckets (HASH_EXPAND_BUCKETS t))"
    unfolding e
    by (rule expand_fold) (use assms chains_distinct [OF assms(1,2)] chains_set [OF assms(1,3)]
          in \<open>auto simp: bkts_inv_empty\<close>)
  then show ?thesis unfolding expand_frame chains_set [OF assms(1,3)]
    by (auto simp: bkts_inv_def)
qed

lemma bkts_inv_extend:
  "bkts_inv es n UNIV bs \<Longrightarrow> h_id e \<notin> h_id ` set es \<Longrightarrow> bkts_inv (es @ [e]) n (h_id ` set es) bs"
  unfolding bkts_inv_def by (simp, blast)

lemma bkts_inv_UNIV: "bkts_inv es n I bs \<Longrightarrow> h_id ` set es \<subseteq> I \<Longrightarrow> bkts_inv es n UNIV bs"
  unfolding bkts_inv_def by (simp, blast)

lemma HASH_ADD_TO_BKT_frame [simp]:
  "ht_app (HASH_ADD_TO_BKT t b i) = ht_app t" "num_items (HASH_ADD_TO_BKT t b i) = num_items t"
  "ht_next (HASH_ADD_TO_BKT t b i) = ht_next t"
  by (simp_all add: HASH_ADD_TO_BKT_def Let_def)

lemma HASH_ADD_TO_BKT_inv:
  assumes inv: "bkts_inv (ht_app t) (num_buckets t) I (ht_buckets t)"
    and d: "distinct (map h_id (ht_app t))" and n: "0 < num_buckets t"
    and e: "e \<in> set (ht_app t)" "h_id e \<notin> I" "h_id ` set (ht_app t) \<subseteq> insert (h_id e) I"
    and t': "t' = HASH_ADD_TO_BKT t (HASH_TO_BKT (h_hashv e) (num_buckets t)) (h_id e)"
  shows "0 < num_buckets t' \<and> bkts_inv (ht_app t') (num_buckets t') UNIV (ht_buckets t')"
proof -
  let ?b = "HASH_TO_BKT (h_hashv e) (num_buckets t)"
  let ?bk = "ht_buckets t ! ?b"
  let ?bk' = "?bk\<lparr>bk_chain := h_id e # bk_chain ?bk, bk_count := bk_count ?bk + 1\<rparr>"
  let ?t = "t\<lparr>ht_buckets := (ht_buckets t)[?b := ?bk']\<rparr>"
  have "bkts_inv (ht_app t) (num_buckets t) (insert (h_id e) I) ((ht_buckets t)[?b := ?bk'])"
    by (rule bkts_inv_place [OF inv d n e(1) refl e(2) refl refl]) simp_all
  with e(3) have "bkts_inv (ht_app ?t) (num_buckets ?t) UNIV (ht_buckets ?t)"
    by (simp add: bkts_inv_UNIV)
  with expand_inv [of ?t] d n show ?thesis
    unfolding t' HASH_ADD_TO_BKT_def Let_def by simp
qed

definition table_wf :: "'v UT_hash_table \<Rightarrow> bool" where
  "table_wf t \<longleftrightarrow> ents_inv (ht_app t) (ht_next t) \<and> 0 < num_buckets t \<and>
     num_items t = length (ht_app t) \<and> bkts_inv (ht_app t) (num_buckets t) UNIV (ht_buckets t)"

lemma table_wf_make: "ht_app t = [] \<Longrightarrow> table_wf (HASH_MAKE_TABLE t)"
  by (simp add: table_wf_def HASH_MAKE_TABLE_def ents_inv_def bkts_inv_def empty_bucket_def)

lemma table_wf_add:
  assumes wf: "table_wf t"
    and e: "e = \<lparr>h_id = ht_next t, h_key = k, h_hashv = HASH_JEN k, h_val = v\<rparr>"
    and t1: "t1 = t\<lparr>ht_app := ht_app t @ [e], num_items := num_items t + 1, ht_next := ht_next t + 1\<rparr>"
  shows "table_wf (HASH_ADD_TO_BKT t1 (HASH_TO_BKT (HASH_JEN k) (num_buckets t1)) (ht_next t))"
proof -
  have fresh: "h_id e \<notin> h_id ` set (ht_app t)"
    using wf e by (auto simp: table_wf_def ents_inv_def)
  have en: "ents_inv (ht_app t1) (ht_next t1)"
    using wf e fresh unfolding t1 by (auto simp: table_wf_def ents_inv_def less_Suc_eq)
  have "bkts_inv (ht_app t1) (num_buckets t1) (h_id ` set (ht_app t)) (ht_buckets t1)"
    using wf fresh unfolding t1 by (simp add: table_wf_def bkts_inv_extend)
  from HASH_ADD_TO_BKT_inv [OF this _ _ _ fresh, of
      "HASH_ADD_TO_BKT t1 (HASH_TO_BKT (HASH_JEN k) (num_buckets t1)) (ht_next t)"]
  show ?thesis using en wf e by (auto simp: table_wf_def t1 ents_inv_def)
qed

lemma HASH_ADD_table_wf: "hash_inv t \<Longrightarrow> table_wf (HASH_ADD t k v)"
proof -
  assume inv: "hash_inv t"
  let ?t0 = "if ht_app t = [] then HASH_MAKE_TABLE t else t"
  have "table_wf ?t0" using inv table_wf_make by (auto simp: hash_inv_def table_wf_def)
  moreover have "ht_next ?t0 = ht_next t" by (simp add: HASH_MAKE_TABLE_def)
  ultimately show ?thesis using table_wf_add [OF _ refl refl, of ?t0 k v]
    by (simp add: HASH_ADD_def Let_def)
qed

lemma hash_inv_empty [simp]: "hash_inv hash_empty" "hash_inv (HASH_CLEAR t)"
  by (simp_all add: hash_inv_def hash_empty_def HASH_CLEAR_def)

lemma hash_inv_HASH_ADD [hash_simps]: "hash_inv t \<Longrightarrow> hash_inv (HASH_ADD t k v)"
  using HASH_ADD_table_wf [of t k v] by (simp add: hash_inv_def table_wf_def)

lemma HASH_ADD_app: "ht_app (HASH_ADD t k v) = ht_app t @
   [\<lparr>h_id = ht_next t, h_key = k, h_hashv = HASH_JEN k, h_val = v\<rparr>]"
  by (simp add: HASH_ADD_def Let_def HASH_MAKE_TABLE_def)

lemma hash_iter_add [hash_simps]: "hash_iter (HASH_ADD t k v) = hash_iter t @ [(k, v)]"
  by (simp add: hash_iter_def HASH_ADD_app)

lemma hash_keys_add [hash_simps]: "hash_keys (HASH_ADD t k v) = hash_keys t @ [k]"
  by (simp add: hash_keys_def HASH_ADD_app)

lemma hash_keys_iter: "hash_keys t = map fst (hash_iter t)"
  by (simp add: hash_keys_def hash_iter_def)

lemma HASH_COUNT_iter: "hash_inv t \<Longrightarrow> HASH_COUNT t = length (hash_iter t)"
  by (auto simp: HASH_COUNT_def hash_inv_def hash_iter_def)

subsection \<open>Deletion and assignment\<close>

lemma bkts_inv_remove:
  assumes inv: "bkts_inv es n UNIV bs" and d: "distinct (map h_id es)"
    and e: "e \<in> set es" and b: "b = HASH_TO_BKT (h_hashv e) n" and n: "0 < n"
  shows "bkts_inv (filter (\<lambda>x. h_id x \<noteq> h_id e) es) n UNIV
     (bs[b := (bs ! b)\<lparr>bk_chain := remove1 (h_id e) (bk_chain (bs ! b)),
                      bk_count := bk_count (bs ! b) - 1\<rparr>])"
proof -
  let ?bs = "bs[b := (bs ! b)\<lparr>bk_chain := remove1 (h_id e) (bk_chain (bs ! b)),
                      bk_count := bk_count (bs ! b) - 1\<rparr>]"
  have len: "length bs = n" and bn: "b < n" using inv n b by (auto simp: bkts_inv_def)
  have only: "x = e" if "x \<in> set es" "h_id x = h_id e" for x
    using that e d by (auto simp: distinct_map dest: inj_onD)
  have "distinct (bk_chain (?bs ! c)) \<and> bk_count (?bs ! c) = length (bk_chain (?bs ! c)) \<and>
      set (bk_chain (?bs ! c)) =
        {h_id x |x. x \<in> set (filter (\<lambda>x. h_id x \<noteq> h_id e) es) \<and> h_id x \<in> UNIV \<and>
           HASH_TO_BKT (h_hashv x) n = c}" if c: "c < n" for c
  proof -
    have old: "distinct (bk_chain (bs ! c))" "bk_count (bs ! c) = length (bk_chain (bs ! c))"
      "set (bk_chain (bs ! c)) = {h_id x |x. x \<in> set es \<and> HASH_TO_BKT (h_hashv x) n = c}"
      using inv c unfolding bkts_inv_def by simp_all
    show ?thesis
    proof (cases "c = b")
      case True
      have "h_id e \<in> set (bk_chain (bs ! c))" unfolding old(3) using e b True by blast
      moreover have "{h_id x |x. x \<in> set es \<and> HASH_TO_BKT (h_hashv x) n = c} - {h_id e} =
          {h_id x |x. x \<in> set (filter (\<lambda>x. h_id x \<noteq> h_id e) es) \<and> HASH_TO_BKT (h_hashv x) n = c}"
        by auto
      ultimately show ?thesis using old bn len True by (simp add: length_remove1)
    next
      case False
      have "{h_id x |x. x \<in> set es \<and> HASH_TO_BKT (h_hashv x) n = c} =
          {h_id x |x. x \<in> set (filter (\<lambda>x. h_id x \<noteq> h_id e) es) \<and> HASH_TO_BKT (h_hashv x) n = c}"
        using False b only by auto
      then show ?thesis using old False by simp
    qed
  qed
  with len show ?thesis by (simp add: bkts_inv_def)
qed

lemma length_filter_id:
  "distinct (map h_id es) \<Longrightarrow> e \<in> set es \<Longrightarrow>
   length (filter (\<lambda>x. h_id x \<noteq> h_id e) es) = length es - 1"
proof (induction es)
  case (Cons a es)
  show ?case
  proof (cases "a = e")
    case True
    with Cons.prems have "filter (\<lambda>x. h_id x \<noteq> h_id e) es = es"
      by (auto intro!: filter_True simp: rev_image_eqI)
    with True show ?thesis by simp
  next
    case False
    with Cons have "e \<in> set es" "h_id a \<noteq> h_id e" by auto
    with Cons show ?thesis by (cases es) auto
  qed
qed simp

lemma HASH_DELETE_app:
  assumes "hash_inv t" "d \<in> set (ht_app t)"
  shows "ht_app (HASH_DELETE t d) = filter (\<lambda>e. h_id e \<noteq> h_id d) (ht_app t)"
proof (cases "length (ht_app t) = 1")
  case True
  with assms(2) have "ht_app t = [d]" by (cases "ht_app t") auto
  with True show ?thesis by (simp add: HASH_DELETE_def hash_empty_def)
qed (simp add: HASH_DELETE_def Let_def)

lemma hash_inv_HASH_DELETE [hash_simps]:
  assumes inv: "hash_inv t" and d: "d \<in> set (ht_app t)"
  shows "hash_inv (HASH_DELETE t d)"
proof (cases "length (ht_app t) = 1")
  case True
  then show ?thesis by (simp add: HASH_DELETE_def hash_inv_def hash_empty_def)
next
  case False
  from inv d have wf: "ents_inv (ht_app t) (ht_next t)" "0 < num_buckets t"
    "num_items t = length (ht_app t)" "bkts_inv (ht_app t) (num_buckets t) UNIV (ht_buckets t)"
    by (auto simp: hash_inv_def)
  have "ents_inv (filter (\<lambda>e. h_id e \<noteq> h_id d) (ht_app t)) (ht_next t)"
    using wf(1) by (auto simp: ents_inv_def distinct_map_filter)
  moreover have "distinct (map h_id (ht_app t))" using wf(1) by (simp add: ents_inv_def)
  ultimately show ?thesis
    using wf False d length_filter_id [of "ht_app t" d] bkts_inv_remove [OF wf(4) _ d refl wf(2)]
    by (simp add: HASH_DELETE_def hash_inv_def Let_def)
qed

lemma hash_inv_assign [hash_simps]: "hash_inv t \<Longrightarrow> hash_inv (hash_assign t i v)"
proof -
  assume inv: "hash_inv t"
  let ?f = "\<lambda>e. if h_id e = i then e\<lparr>h_val := v\<rparr> else e"
  have id: "map h_id (map ?f es) = map h_id es" for es :: "'a hent list" by (induction es) auto
  have bk: "bkts_inv es n UNIV bs \<Longrightarrow> bkts_inv (map ?f es) n UNIV bs" for es :: "'a hent list" and n bs
  proof -
    assume b: "bkts_inv es n UNIV bs"
    have "{h_id e |e. e \<in> set (map ?f es) \<and> h_id e \<in> UNIV \<and> HASH_TO_BKT (h_hashv e) n = c} =
        {h_id e |e. e \<in> set es \<and> h_id e \<in> UNIV \<and> HASH_TO_BKT (h_hashv e) n = c}" for c
    proof -
      have ext: "{h_id e |e. e \<in> set (map g es) \<and> h_id e \<in> UNIV \<and> HASH_TO_BKT (h_hashv e) n = c} =
          {h_id (g e) |e. e \<in> set es \<and> HASH_TO_BKT (h_hashv (g e)) n = c}"
        for g :: "'a hent \<Rightarrow> 'a hent" by auto
      have f: "h_id (?f e) = h_id e" "h_hashv (?f e) = h_hashv e" for e by simp_all
      show ?thesis unfolding ext by (simp only: f) simp
    qed
    with b show ?thesis unfolding bkts_inv_def by simp
  qed
  have "ents_inv es nx \<Longrightarrow> ents_inv (map ?f es) nx" for es :: "'a hent list" and nx
    using id [of es] unfolding ents_inv_def by (simp only: id) auto
  with inv bk show ?thesis by (auto simp: hash_inv_def hash_assign_def)
qed

lemma hash_keys_assign [hash_simps]: "hash_keys (hash_assign t i v) = hash_keys t"
  by (simp add: hash_keys_def hash_assign_def o_def if_distrib cong: if_cong)

subsection \<open>The table as a finite map\<close>

text \<open>
  What the modules of the proxy rely on: an insertion-ordered association list with
  distinct keys, whose lookup, update and removal agree with the finite map it stands for.
\<close>

lemma update_new_key: "k \<notin> fst ` set xs \<Longrightarrow> AList.update k v xs = xs @ [(k, v)]"
  by (induction xs) auto

text \<open>A registry: values registered under keys, the last registration counts.\<close>

locale registry =
  fixes ok :: "'s \<Rightarrow> bool" and look :: "'s \<Rightarrow> 'k \<Rightarrow> 'h option" and reg :: "'s \<Rightarrow> 'k \<Rightarrow> 'h \<Rightarrow> 's" and unreg :: "'s \<Rightarrow> 'k \<Rightarrow> 's"
  assumes reg_ok: "ok s \<Longrightarrow> ok (reg s k h)" and unreg_ok: "ok s \<Longrightarrow> ok (unreg s k)"
    and look_reg: "ok s \<Longrightarrow> look (reg s k h) k' = (if k' = k then Some h else look s k')"
    and look_unreg: "ok s \<Longrightarrow> look (unreg s k) k' = (if k' = k then None else look s k')"
begin

lemma reg_all: "ok s \<Longrightarrow> ok (foldl (\<lambda>s (k, h). reg s k h) s kvs) \<and>
    look (foldl (\<lambda>s (k, h). reg s k h) s kvs) = look s ++ map_of (rev kvs)"
proof (induction kvs arbitrary: s)
  case (Cons kv kvs)
  obtain k h where kv: "kv = (k, h)" by (cases kv)
  have "look (reg s k h) = (look s)(k \<mapsto> h)" using look_reg [OF Cons.prems] by auto
  with Cons.IH [OF reg_ok [OF Cons.prems]] kv show ?case by (simp add: map_add_def fun_eq_iff split: option.splits)
qed simp

lemma reg_unreg: "ok s \<Longrightarrow> look (unreg (reg s k h) k) = (look s)(k := None)"
  by (auto simp: look_reg look_unreg reg_ok)

end

locale key_table =
  fixes tinv :: "'t \<Rightarrow> bool" and entries :: "'t \<Rightarrow> ('k \<times> 'v) list"
    and lookup :: "'t \<Rightarrow> 'k \<Rightarrow> 'v option"
    and put :: "'t \<Rightarrow> 'k \<Rightarrow> 'v \<Rightarrow> 't" and remove :: "'t \<Rightarrow> 'k \<Rightarrow> 't"
  assumes lookup_entries: "tinv t \<Longrightarrow> lookup t k = map_of (entries t) k"
    and distinct_entries: "tinv t \<Longrightarrow> distinct (map fst (entries t))"
    and tinv_put: "tinv t \<Longrightarrow> tinv (put t k v)"
    and tinv_remove: "tinv t \<Longrightarrow> tinv (remove t k)"
    and entries_put: "tinv t \<Longrightarrow> entries (put t k v) = AList.update k v (entries t)"
    and entries_remove: "tinv t \<Longrightarrow> entries (remove t k) = filter (\<lambda>p. fst p \<noteq> k) (entries t)"
begin

lemma lookup_put: "tinv t \<Longrightarrow> lookup (put t k v) k' = (if k' = k then Some v else lookup t k')"
  by (simp add: lookup_entries tinv_put entries_put update_conv')

lemma map_of_without: "map_of (filter (\<lambda>p. fst p \<noteq> k) xs) k' = (if k' = k then None else map_of xs k')"
  by (induction xs) auto

lemma lookup_remove: "tinv t \<Longrightarrow> lookup (remove t k) k' = (if k' = k then None else lookup t k')"
  by (simp add: lookup_entries tinv_remove entries_remove map_of_without)

lemma lookup_in_entries: "tinv t \<Longrightarrow> lookup t k = Some v \<longleftrightarrow> (k, v) \<in> set (entries t)"
  by (simp add: lookup_entries distinct_entries)

lemma put_existing_keys:
  "tinv t \<Longrightarrow> lookup t k \<noteq> None \<Longrightarrow> map fst (entries (put t k v)) = map fst (entries t)"
  by (auto simp: entries_put update_keys lookup_entries dest: map_of_SomeD intro: rev_image_eqI)

lemma put_new_entries:
  "tinv t \<Longrightarrow> lookup t k = None \<Longrightarrow> entries (put t k v) = entries t @ [(k, v)]"
  by (simp add: entries_put lookup_entries map_of_eq_None_iff update_new_key)

end

sublocale key_table \<subseteq> registry tinv lookup put remove
  by unfold_locales (simp_all add: tinv_put tinv_remove lookup_put lookup_remove)

definition hash_lookup :: "'v UT_hash_table \<Rightarrow> string \<Rightarrow> 'v option" where
  "hash_lookup t k = map_option h_val (HASH_FIND t k)"

text \<open>The two idioms around the macros: find the element or add it, then assign; find it,
  and if it is there, delete it.\<close>

definition hash_put :: "'v UT_hash_table \<Rightarrow> string \<Rightarrow> 'v \<Rightarrow> 'v UT_hash_table" where
  "hash_put t k v =
     (case HASH_FIND t k of None \<Rightarrow> HASH_ADD t k v | Some e \<Rightarrow> hash_assign t (h_id e) v)"

definition hash_remove :: "'v UT_hash_table \<Rightarrow> string \<Rightarrow> 'v UT_hash_table" where
  "hash_remove t k = (case HASH_FIND t k of None \<Rightarrow> t | Some e \<Rightarrow> HASH_DELETE t e)"

definition uniq_table :: "'v UT_hash_table \<Rightarrow> bool" where
  "uniq_table t \<longleftrightarrow> hash_inv t \<and> distinct (hash_keys t)"

lemma uniq_table_empty [simp]: "uniq_table hash_empty" "uniq_table (HASH_CLEAR t)"
  by (simp_all add: uniq_table_def hash_keys_def hash_empty_def HASH_CLEAR_def hash_inv_def)

lemma assign_entries:
  "distinct (map h_id es) \<Longrightarrow> distinct (map h_key es) \<Longrightarrow> e \<in> set es \<Longrightarrow>
   map (\<lambda>e. (h_key e, h_val e)) (map (\<lambda>x. if h_id x = h_id e then x\<lparr>h_val := v\<rparr> else x) es) =
   AList.update (h_key e) v (map (\<lambda>e. (h_key e, h_val e)) es)"
proof (induction es)
  case (Cons a es)
  show ?case
  proof (cases "a = e")
    case True
    with Cons.prems have "\<forall>x \<in> set es. h_id x \<noteq> h_id e" by (auto simp: rev_image_eqI)
    then have "map (\<lambda>x. if h_id x = h_id e then x\<lparr>h_val := v\<rparr> else x) es = es"
      by (auto intro: map_idI)
    with True show ?thesis by simp
  next
    case False
    with Cons.prems have "e \<in> set es" by auto
    with Cons.prems have "h_id a \<noteq> h_id e" "h_key a \<noteq> h_key e" by (auto simp: rev_image_eqI)
    with Cons \<open>e \<in> set es\<close> show ?thesis by simp
  qed
qed simp

lemma uniq_table_ids:
  "uniq_table t \<Longrightarrow> e \<in> set (ht_app t) \<Longrightarrow> distinct (map h_id (ht_app t)) \<and> distinct (map h_key (ht_app t))"
  by (auto simp: uniq_table_def hash_inv_def hash_keys_def ents_inv_def)

lemma hash_put_entries:
  assumes t: "uniq_table t"
  shows "hash_iter (hash_put t k v) = AList.update k v (hash_iter t) \<and> uniq_table (hash_put t k v)"
proof (cases "HASH_FIND t k")
  case None
  with t have k: "k \<notin> set (hash_keys t)" by (simp add: uniq_table_def HASH_FIND_None_iff)
  then have "AList.update k v (hash_iter t) = hash_iter t @ [(k, v)]"
    by (simp add: update_new_key hash_keys_iter)
  with None t k show ?thesis by (simp add: hash_put_def hash_simps uniq_table_def)
next
  case (Some e)
  with t have e: "e \<in> set (ht_app t)" "h_key e = k"
    using HASH_FIND_Some by (auto simp: uniq_table_def)
  from uniq_table_ids [OF t e(1)] assign_entries [of "ht_app t" e v] e
  have "hash_iter (hash_assign t (h_id e) v) = AList.update k v (hash_iter t)"
    by (simp add: hash_iter_def hash_assign_def)
  with Some t show ?thesis by (simp add: hash_put_def uniq_table_def hash_simps)
qed

lemma remove_entries:
  "distinct (map h_id es) \<Longrightarrow> distinct (map h_key es) \<Longrightarrow> e \<in> set es \<Longrightarrow>
   filter (\<lambda>x. h_id x \<noteq> h_id e) es = filter (\<lambda>x. h_key x \<noteq> h_key e) es"
  by (rule filter_cong) (auto simp: distinct_map dest: inj_onD)

lemma hash_remove_entries:
  assumes t: "uniq_table t"
  shows "hash_iter (hash_remove t k) = filter (\<lambda>p. fst p \<noteq> k) (hash_iter t) \<and> uniq_table (hash_remove t k)"
proof (cases "HASH_FIND t k")
  case None
  with t have k: "k \<notin> set (map fst (hash_iter t))"
    by (simp add: uniq_table_def HASH_FIND_None_iff hash_keys_iter)
  then have "filter (\<lambda>p. fst p \<noteq> k) (hash_iter t) = hash_iter t" by (auto intro!: filter_True)
  with None t show ?thesis by (simp add: hash_remove_def)
next
  case (Some e)
  with t have e: "e \<in> set (ht_app t)" "h_key e = k"
    using HASH_FIND_Some by (auto simp: uniq_table_def)
  from uniq_table_ids [OF t e(1)] have
    "filter (\<lambda>x. h_id x \<noteq> h_id e) (ht_app t) = filter (\<lambda>x. h_key x \<noteq> k) (ht_app t)"
    using remove_entries e by blast
  with t e have app: "ht_app (HASH_DELETE t e) = filter (\<lambda>x. h_key x \<noteq> k) (ht_app t)"
    by (simp add: HASH_DELETE_app uniq_table_def)
  have "uniq_table (HASH_DELETE t e)"
    using t e app by (auto simp: uniq_table_def hash_simps hash_keys_def distinct_map_filter)
  with Some app show ?thesis by (simp add: hash_remove_def hash_iter_def filter_map o_def)
qed

interpretation ht: key_table uniq_table hash_iter hash_lookup hash_put hash_remove
proof unfold_locales
  show "hash_lookup t k = map_of (hash_iter t) k" if "uniq_table t" for t :: "'a UT_hash_table" and k
    using that by (simp add: hash_lookup_def uniq_table_def HASH_FIND_map_of)
  show "distinct (map fst (hash_iter t))" if "uniq_table t" for t :: "'a UT_hash_table"
    using that by (simp add: uniq_table_def hash_keys_iter)
qed (simp_all add: hash_put_entries hash_remove_entries)

lemmas hash_table_laws [hash_simps] =
  ht.lookup_put ht.lookup_remove ht.tinv_put ht.tinv_remove

end
