(* ===== verification/NetData.thy ===== *)
theory NetData
  imports Libc Strbuf Uthash
begin

text \<open>
  Parsing and printing of HTTP headers, \<^verbatim>\<open>src/core/net_data.c\<close> (everything but the write to
  the connection, which is in theory \<open>NetHttp\<close>).

  A message is kept in one string buffer: the start line and the header lines one after the
  other, each closed by a NUL. The parser does not copy; it overwrites separators with NUL
  and records offsets: of the header values in a hash table keyed by the header name, of
  host, path and protocol in the request. All offsets are \<open>int\<close>, as in the structs.
\<close>

definition HTTP_HEADER_KEY_MAXLEN :: nat where "HTTP_HEADER_KEY_MAXLEN = 32"
definition HTTP_DEFAULT_PORT :: int where "HTTP_DEFAULT_PORT = 80"

record net_data =
  nd_buf :: strbuf
  nd_table :: "int UT_hash_table"

record net_req =
  rq_data :: net_data
  rq_port :: int
  ver_major :: int
  ver_minor :: int
  rq_host :: int
  rq_protocol :: int
  rq_path :: int

record net_rsp =
  rs_data :: net_data
  rs_code :: int
  rs_major :: int
  rs_minor :: int
  http_msg :: int

definition net_data_init :: net_data where
  "net_data_init = \<lparr>nd_buf = strbuf_init, nd_table = hash_empty\<rparr>"

text \<open>\<^verbatim>\<open>net_data_done\<close> releases the buffer and deletes every table entry.\<close>

definition net_data_done :: "net_data \<Rightarrow> int UT_hash_table" where
  "net_data_done d = fold (\<lambda>e t. HASH_DELETE t e) (ht_app (nd_table d)) (nd_table d)"

text \<open>Pointers into the buffer: \<open>cstr_ofs b i\<close> is the string at \<^verbatim>\<open>buf->p + i\<close>, \<open>put_nul\<close> the
  assignment \<^verbatim>\<open>buf->p[i] = '\0'\<close>.\<close>

definition cstr_ofs :: "strbuf \<Rightarrow> int \<Rightarrow> string option" where
  "cstr_ofs b i = (if i < 0 then None else cstr_at (sb_p b) (nat i))"

definition put_nul :: "strbuf \<Rightarrow> int \<Rightarrow> strbuf option" where
  "put_nul b i =
     (if i < 0 then None else map_option (\<lambda>p. b\<lparr>sb_p := p\<rparr>) (mem_put (sb_p b) (nat i) NUL))"

definition net_data_get_ent :: "net_data \<Rightarrow> string \<Rightarrow> int option" where
  "net_data_get_ent d key = map_option h_val (HASH_FIND (nd_table d) key)"

definition net_data_get_ent_offset :: "net_data \<Rightarrow> string \<Rightarrow> int" where
  "net_data_get_ent_offset d key =
     (case HASH_FIND (nd_table d) key of None \<Rightarrow> -1 | Some h \<Rightarrow> h_val h)"

definition net_data_del_ent :: "net_data \<Rightarrow> string \<Rightarrow> net_data" where
  "net_data_del_ent d key =
     (case HASH_FIND (nd_table d) key of
        None \<Rightarrow> d
      | Some h \<Rightarrow> d\<lparr>nd_table := HASH_DELETE (nd_table d) h\<rparr>)"

text \<open>
  A new entry: \<^verbatim>\<open>strncpy\<close> copies the key into an array of 32 bytes, and \<^verbatim>\<open>HASH_ADD_STR\<close> takes
  \<^verbatim>\<open>strlen\<close> of that array, which is undefined when the key filled it without a terminator.
  An existing entry with the same key is left in place (the lookup is commented out).
\<close>

definition new_ent :: "net_data \<Rightarrow> string \<Rightarrow> int \<Rightarrow> net_data option" where
  "new_ent d key off =
     (if length key < HTTP_HEADER_KEY_MAXLEN
      then Some (d\<lparr>nd_table := HASH_ADD (nd_table d) key off\<rparr>) else None)"

definition net_data_set_ent_offset :: "net_data \<Rightarrow> string \<Rightarrow> int \<Rightarrow> net_data option" where
  "net_data_set_ent_offset d key off = new_ent d key off"

text \<open>\<^verbatim>\<open>net_data_set_ent\<close>: the loop appends the first character of the value and never moves
  the pointer.\<close>

partial_function (option) set_ent_loop :: "strbuf \<Rightarrow> string \<Rightarrow> strbuf option" where
  "set_ent_loop b val =
     (case val of
        [] \<Rightarrow> Some b
      | c # s \<Rightarrow> (case strbuf_append b c of None \<Rightarrow> None | Some b' \<Rightarrow> set_ent_loop b' val))"

definition net_data_set_ent :: "net_data \<Rightarrow> string \<Rightarrow> string \<Rightarrow> net_data option" where
  "net_data_set_ent d key val =
     Option.bind (new_ent d key (int (sb_len (nd_buf d)))) (\<lambda>d1.
     Option.bind (set_ent_loop (nd_buf d1) val) (\<lambda>b.
     Option.bind (strbuf_append b NUL) (\<lambda>b2. Some (d1\<lparr>nd_buf := b2\<rparr>))))"

subsection \<open>The patterns\<close>

definition key_char :: "char \<Rightarrow> bool" where
  "key_char c \<longleftrightarrow> is_alpha c \<or> c = CHR 0x5C \<or> c = CHR ''-''"

definition hostport_char :: "char \<Rightarrow> bool" where
  "hostport_char c \<longleftrightarrow> is_alpha c \<or> is_digit c \<or> c = CHR '':'' \<or> c = CHR 0x5C \<or> c = CHR ''.'' \<or> c = CHR ''-''"

definition host_char :: "char \<Rightarrow> bool" where
  "host_char c \<longleftrightarrow> is_alpha c \<or> is_digit c \<or> c = CHR 0x5C \<or> c = CHR ''.'' \<or> c = CHR ''-''"

definition header_re :: regex where
  "header_re = \<lparr>re_bol = False, re_items =
     [Open 1, One key_char, Star key_char, Close 1, Lit CHR '':'', Star (\<lambda>c. c = CHR '' ''),
      Open 2, Star rx_any, Close 2, Eol]\<rparr>"

definition req_re :: regex where
  "req_re = \<lparr>re_bol = True, re_items =
     [Open 1, One is_alpha, Star is_alpha, Close 1, Lit CHR '' '',
      Open 2, One rx_any, Star rx_any, Close 2] @ rx_str '' HTTP/'' @
     [Open 3, One is_digit, Star is_digit, Close 3, Lit CHR ''.'',
      Open 4, One is_digit, Star is_digit, Close 4, Eol]\<rparr>"

definition uri_re :: regex where
  "uri_re = \<lparr>re_bol = True, re_items =
     [Open 1, One is_lower, Star is_lower, Close 1] @ rx_str ''://'' @
     [Open 2, One hostport_char, Star hostport_char, Close 2,
      Opt 3 [Lit CHR ''/'', Star rx_any], Eol]\<rparr>"

definition rsp_re :: regex where
  "rsp_re = \<lparr>re_bol = True, re_items =
     rx_str ''HTTP/'' @ [Open 1, One is_digit, Star is_digit, Close 1, Lit CHR ''.'',
      Open 2, One is_digit, Star is_digit, Close 2, Lit CHR '' '',
      Open 3, One is_digit, Star is_digit, Close 3, Lit CHR '' '',
      Open 4, One rx_any, Star rx_any, Close 4, Eol]\<rparr>"

definition host_re :: regex where
  "host_re = \<lparr>re_bol = True, re_items =
     [Open 1, One host_char, Star host_char, Close 1,
      Opt 2 [Lit CHR '':'', One is_digit, Star is_digit]]\<rparr>"

subsection \<open>The parsers\<close>

definition net_parse_header :: "net_data \<Rightarrow> int \<Rightarrow> (int \<times> net_data) option" where
  "net_parse_header d offset =
     Option.bind (cstr_ofs (nd_buf d) offset) (\<lambda>line.
       case regexec header_re line of
         None \<Rightarrow> Some (-1, d)
       | Some m \<Rightarrow>
           Option.bind (put_nul (nd_buf d) (offset + rm_eo m 1)) (\<lambda>b1.
           Option.bind (put_nul b1 (offset + rm_eo m 2)) (\<lambda>b2.
           Option.bind (cstr_ofs b2 (offset + rm_so m 1)) (\<lambda>key.
           map_option (Pair 0)
             (net_data_set_ent_offset (d\<lparr>nd_buf := b2\<rparr>) key (offset + rm_so m 2))))))"

text \<open>\<^verbatim>\<open>for (i = so; i < eo; ++i) strbuf_append(buf, buf->p[offset + i])\<close>, as \<open>n\<close> rounds
  starting at offset \<open>i\<close>.\<close>

fun copy_bytes :: "strbuf \<Rightarrow> nat \<Rightarrow> nat \<Rightarrow> strbuf option" where
  "copy_bytes b i 0 = Some b"
| "copy_bytes b i (Suc n) =
     Option.bind (mem_get (sb_p b) i) (\<lambda>c. Option.bind (strbuf_append b c) (\<lambda>b'. copy_bytes b' (Suc i) n))"

definition rq_buf :: "net_req \<Rightarrow> strbuf" where
  "rq_buf rq = nd_buf (rq_data rq)"

definition set_rq_buf :: "net_req \<Rightarrow> strbuf \<Rightarrow> net_req" where
  "set_rq_buf rq b = rq\<lparr>rq_data := (rq_data rq)\<lparr>nd_buf := b\<rparr>\<rparr>"

text \<open>The part of \<^verbatim>\<open>net_parse_req\<close> behind the label \<^verbatim>\<open>parse_host\<close>.\<close>

definition parse_host :: "net_req \<Rightarrow> (int \<times> net_req) option" where
  "parse_host rq =
     (let offset = rq_host rq in
      Option.bind (cstr_ofs (rq_buf rq) offset) (\<lambda>hs.
        case regexec host_re hs of
          None \<Rightarrow> Some (-1, rq)
        | Some m \<Rightarrow>
            Option.bind
              (if rm_eo m 1 + offset = rq_path rq
               then Option.bind (copy_bytes (rq_buf rq) (nat (offset + rm_so m 1)) (nat (rm_eo m 1 - rm_so m 1)))
                      (\<lambda>b. map_option (\<lambda>b'. (set_rq_buf rq b')\<lparr>rq_host := int (sb_len (rq_buf rq))\<rparr>)
                             (strbuf_append b NUL))
               else Some rq)
              (\<lambda>rq1.
                if rm_so m 2 = -1 then Some (0, rq1\<lparr>rq_port := HTTP_DEFAULT_PORT\<rparr>)
                else
                  Option.bind (put_nul (rq_buf rq1) (offset + rm_so m 2)) (\<lambda>b.
                  Option.bind (cstr_ofs b (offset + rm_so m 2 + 1)) (\<lambda>ps.
                  Some (0, (set_rq_buf rq1 b)\<lparr>rq_port := atoi ps\<rparr>))))))"

text \<open>Absolute or relative URI, after the start line has been split at \<open>offset\<close>.\<close>

definition parse_uri_part :: "net_req \<Rightarrow> int \<Rightarrow> (int \<times> net_req) option" where
  "parse_uri_part rq offset =
     Option.bind (cstr_ofs (rq_buf rq) offset) (\<lambda>uri.
       case regexec uri_re uri of
         None \<Rightarrow>
           (let rq1 = rq\<lparr>rq_host := net_data_get_ent_offset (rq_data rq) ''Host''\<rparr>
            in if rq_host rq1 = -1 then Some (-1, rq1)
               else parse_host (rq1\<lparr>rq_protocol := -1\<rparr>))
       | Some m \<Rightarrow>
           Option.bind (put_nul (rq_buf rq) (offset + rm_eo m 1)) (\<lambda>b.
             (let rq1 = (set_rq_buf rq b)\<lparr>rq_protocol := offset + rm_so m 1,
                           rq_host := offset + rm_so m 2, rq_path := offset + rm_so m 3\<rparr>
              in if rm_so m 3 = -1
                 then Option.bind (strbuf_cat b [CHR ''/'', NUL])
                        (\<lambda>b'. parse_host ((set_rq_buf rq1 b')\<lparr>rq_path := int (sb_len b)\<rparr>))
                 else parse_host rq1)))"

definition net_parse_req :: "net_req \<Rightarrow> (int \<times> net_req) option" where
  "net_parse_req rq =
     Option.bind (cstr_ofs (rq_buf rq) 0) (\<lambda>line.
       case regexec req_re line of
         None \<Rightarrow> Some (-1, rq)
       | Some m \<Rightarrow>
           Option.bind (put_nul (rq_buf rq) (rm_eo m 1)) (\<lambda>b1.
           Option.bind (put_nul b1 (rm_eo m 2)) (\<lambda>b2.
           Option.bind (put_nul b2 (rm_eo m 3)) (\<lambda>b3.
           Option.bind (put_nul b3 (rm_eo m 4)) (\<lambda>b.
           Option.bind (cstr_ofs b (rm_so m 3)) (\<lambda>maj.
           Option.bind (cstr_ofs b (rm_so m 4)) (\<lambda>min.
           Option.bind (cstr_ofs b 0) (\<lambda>meth.
             (let rq1 = (set_rq_buf rq b)\<lparr>ver_major := atoi maj, ver_minor := atoi min, rq_path := rm_so m 2\<rparr>
              in if meth = ''CONNECT'' then parse_host (rq1\<lparr>rq_host := rq_path rq1\<rparr>)
                 else parse_uri_part rq1 (rm_so m 2))))))))))"

definition net_parse_rsp :: "net_rsp \<Rightarrow> (int \<times> net_rsp) option" where
  "net_parse_rsp rs =
     (let b0 = nd_buf (rs_data rs) in
      Option.bind (cstr_ofs b0 0) (\<lambda>line.
        case regexec rsp_re line of
          None \<Rightarrow> Some (-1, rs)
        | Some m \<Rightarrow>
            Option.bind (put_nul b0 (rm_eo m 1)) (\<lambda>b1.
            Option.bind (put_nul b1 (rm_eo m 2)) (\<lambda>b2.
            Option.bind (put_nul b2 (rm_eo m 3)) (\<lambda>b.
            Option.bind (cstr_ofs b (rm_so m 1)) (\<lambda>maj.
            Option.bind (cstr_ofs b (rm_so m 2)) (\<lambda>min.
            Option.bind (cstr_ofs b (rm_so m 3)) (\<lambda>code.
              Some (0, rs\<lparr>rs_data := (rs_data rs)\<lparr>nd_buf := b\<rparr>, rs_major := atoi maj,
                          rs_minor := atoi min, rs_code := atoi code, http_msg := rm_so m 4\<rparr>)))))))))"

subsection \<open>The printers\<close>

fun append_header_list :: "strbuf \<Rightarrow> (string \<times> int) list \<Rightarrow> strbuf \<Rightarrow> strbuf option" where
  "append_header_list src [] b = Some b"
| "append_header_list src ((k, off) # hs) b =
     Option.bind (strbuf_cat b k) (\<lambda>b1.
     Option.bind (strbuf_cat b1 '': '') (\<lambda>b2.
     Option.bind (cstr_ofs src off) (\<lambda>v.
     Option.bind (strbuf_cat b2 v) (\<lambda>b3.
     Option.bind (strbuf_cat b3 [CR, LF]) (\<lambda>b4. append_header_list src hs b4)))))"

definition net_append_headers :: "net_data \<Rightarrow> strbuf \<Rightarrow> strbuf option" where
  "net_append_headers d b =
     Option.bind (append_header_list (nd_buf d) (hash_iter (nd_table d)) b)
       (\<lambda>b'. strbuf_cat b' [CR, LF])"

text \<open>The header text \<^verbatim>\<open>net_forward_req_header\<close> builds before it writes it out.\<close>

definition req_header_buf :: "net_req \<Rightarrow> strbuf option" where
  "req_header_buf rq =
     Option.bind (cstr_ofs (rq_buf rq) 0) (\<lambda>meth.
     Option.bind (strbuf_cat strbuf_init meth) (\<lambda>b1.
     Option.bind (strbuf_append b1 CHR '' '') (\<lambda>b2.
     Option.bind (cstr_ofs (rq_buf rq) (rq_path rq)) (\<lambda>path.
     Option.bind (strbuf_cat b2 path) (\<lambda>b3.
     Option.bind (strbuf_append b3 CHR '' '') (\<lambda>b4.
     Option.bind (strbuf_cat b4 ''HTTP/'') (\<lambda>b5.
     Option.bind (strbuf_append_num b5 (ver_major rq)) (\<lambda>b6.
     Option.bind (strbuf_append b6 CHR ''.'') (\<lambda>b7.
     Option.bind (strbuf_append_num b7 (ver_minor rq)) (\<lambda>b8.
     Option.bind (strbuf_cat b8 [CR, LF]) (\<lambda>b9.
       net_append_headers (rq_data rq) b9)))))))))))"

definition rsp_header_buf :: "net_rsp \<Rightarrow> strbuf option" where
  "rsp_header_buf rs =
     Option.bind (strbuf_cat strbuf_init ''HTTP/'') (\<lambda>b1.
     Option.bind (strbuf_append_num b1 (rs_major rs)) (\<lambda>b2.
     Option.bind (strbuf_append b2 CHR ''.'') (\<lambda>b3.
     Option.bind (strbuf_append_num b3 (rs_minor rs)) (\<lambda>b4.
     Option.bind (strbuf_append b4 CHR '' '') (\<lambda>b5.
     Option.bind (strbuf_append_num b5 (rs_code rs)) (\<lambda>b6.
     Option.bind (strbuf_append b6 CHR '' '') (\<lambda>b7.
     Option.bind (cstr_ofs (nd_buf (rs_data rs)) (http_msg rs)) (\<lambda>msg.
     Option.bind (strbuf_cat b7 msg) (\<lambda>b8.
     Option.bind (strbuf_cat b8 [CR, LF]) (\<lambda>b9.
       net_append_headers (rs_data rs) b9))))))))))"

end
