(* ===== verification/NetParse.thy ===== *)
theory NetParse
  imports NetData
begin

text \<open>
  Correctness of the header parser. The buffer is abstracted to the string it stores
  (\<open>sb b s\<close>); reading a C string, planting a terminator and appending become operations on
  that string, and the regular expressions are shown to decompose every line of the
  intended form at the intended places. The theorems say what offsets, strings and numbers
  the parser leaves in the request and response records.
\<close>

subsection \<open>The buffer as a string\<close>

definition c_str_at :: "string \<Rightarrow> nat \<Rightarrow> string" where
  "c_str_at s i = takeWhile (\<lambda>c. c \<noteq> NUL) (drop i s)"

lemma strbuf_layout:
  assumes "sb b s"
  shows "\<exists>junk. sb_p b = map Some s @ Some NUL # junk"
proof -
  let ?n = "sb_len b"
  have n: "?n < length (sb_p b)" and d: "\<forall>i \<le> ?n. sb_p b ! i \<noteq> None" and t: "sb_p b ! ?n = Some NUL"
    using assms by (auto simp: sb_def strbuf_wf_def strbuf_term_def)
  have "map Some s = take ?n (sb_p b)"
  proof (rule nth_equalityI)
    show len: "length (map Some s) = length (take ?n (sb_p b))" using sb_len [OF assms] n by simp
    fix i assume "i < length (map Some s)"
    then have i: "i < ?n" using len n by simp
    then have "s ! i = the (sb_p b ! i)" using assms n by (auto simp: sb_def strbuf_str_def)
    with d i n \<open>i < length (map Some s)\<close> show "map Some s ! i = take ?n (sb_p b) ! i" by simp
  qed
  moreover have "sb_p b = take ?n (sb_p b) @ sb_p b ! ?n # drop (Suc ?n) (sb_p b)"
    using n by (rule id_take_nth_drop)
  ultimately show ?thesis using t by metis
qed

lemma cstr_from_takeWhile: "cstr_from (map Some s @ Some NUL # m) = Some (takeWhile (\<lambda>c. c \<noteq> NUL) s)"
  by (induction s) auto

lemma sb_cstr: "sb b s \<Longrightarrow> 0 \<le> i \<Longrightarrow> i \<le> int (length s) \<Longrightarrow> cstr_ofs b i = Some (c_str_at s (nat i))"
proof -
  assume b: "sb b s" and i: "0 \<le> i" "i \<le> int (length s)"
  obtain junk where "sb_p b = map Some s @ Some NUL # junk" using strbuf_layout [OF b] by blast
  then have "drop (nat i) (sb_p b) = map Some (drop (nat i) s) @ Some NUL # junk"
    using i by (simp add: drop_map)
  then show ?thesis using i by (simp add: cstr_ofs_def cstr_at_def c_str_at_def cstr_from_takeWhile)
qed

lemma put_nul_eq:
  "0 \<le> i \<Longrightarrow> nat i < length (sb_p b) \<Longrightarrow> put_nul b i = Some (b\<lparr>sb_p := (sb_p b)[nat i := Some NUL]\<rparr>)"
  unfolding put_nul_def mem_put_def by (simp only: if_True if_False linorder_not_less [symmetric] option.map)

lemma sb_put_nul:
  assumes b: "sb b s" and i: "0 \<le> i" "i < int (length s)"
  shows "\<exists>b'. put_nul b i = Some b' \<and> sb b' (s[nat i := NUL])"
proof -
  define b' where "b' = b\<lparr>sb_p := (sb_p b)[nat i := Some NUL]\<rparr>"
  have f: "sb_p b' = (sb_p b)[nat i := Some NUL]" "sb_len b' = sb_len b" "sb_cap b' = sb_cap b"
    by (simp_all add: b'_def)
  have n: "nat i < sb_len b" using i sb_len [OF b] by simp
  have wf: "strbuf_wf b" and t: "strbuf_term b" and str: "strbuf_str b = s"
    using b by (auto simp: sb_def)
  have l: "sb_len b < length (sb_p b)" using wf by (auto simp: strbuf_wf_def)
  have "put_nul b i = Some b'" unfolding b'_def by (rule put_nul_eq) (use n l i in auto)
  moreover have "strbuf_wf b'"
    using wf n l unfolding strbuf_wf_def f by (auto simp: nth_list_update)
  moreover have "strbuf_term b'" using t n l unfolding strbuf_term_def f by simp
  moreover have "strbuf_str b' = s[nat i := NUL]"
    unfolding strbuf_str_def f str [symmetric] using n l by (simp add: take_update_swap map_update)
  ultimately show ?thesis by (auto simp: sb_def)
qed

lemma sb_mem_get: "sb b s \<Longrightarrow> i < length s \<Longrightarrow> mem_get (sb_p b) i = Some (s ! i)"
proof -
  assume b: "sb b s" and i: "i < length s"
  obtain junk where "sb_p b = map Some s @ Some NUL # junk" using strbuf_layout [OF b] by blast
  then show ?thesis using i by (simp add: mem_get_def nth_append)
qed

lemma sb_copy:
  "sb b s \<Longrightarrow> i + n \<le> length s \<Longrightarrow> length s + n < 2 ^ 30 \<Longrightarrow>
   \<exists>b'. copy_bytes b i n = Some b' \<and> sb b' (s @ take n (drop i s))"
proof (induction n arbitrary: b s i)
  case (Suc n)
  from Suc.prems have i: "i < length s" by simp
  from Suc.prems obtain b1 where b1: "strbuf_append b (s ! i) = Some b1" "sb b1 (s @ [s ! i])"
    using sb_append [of b s "s ! i"] by auto
  from Suc.IH [OF b1(2), of "Suc i"] Suc.prems obtain b2 where
    b2: "copy_bytes b1 (Suc i) n = Some b2" "sb b2 ((s @ [s ! i]) @ take n (drop (Suc i) s))"
    by auto
  have "take (Suc n) (drop i s) = s ! i # take n (drop (Suc i) s)"
    using i by (simp add: Cons_nth_drop_Suc [symmetric])
  with b1(1) b2 sb_mem_get [OF Suc.prems(1) i] show ?case by simp
qed simp

lemma c_str_at_skip [simp]: "c_str_at (xs @ ys) (length xs + i) = c_str_at ys i"
  by (simp add: c_str_at_def)

lemma c_str_at_skip0 [simp]: "c_str_at (xs @ ys) (length xs) = c_str_at ys 0"
  using c_str_at_skip [of xs ys 0] by simp

lemma c_str_at_here: "NUL \<notin> set s \<Longrightarrow> c_str_at (s @ NUL # t) 0 = s"
  unfolding c_str_at_def by (induction s) auto

subsection \<open>Groups in the patterns\<close>

lemma rx_group_plus:
  assumes "xs \<noteq> []" "\<forall>c \<in> set xs. f c" "ys = [] \<or> \<not> f (hd ys)"
    "rx r ys (p + int (length xs)) (g(n := (p, p + int (length xs)))) = Some m"
  shows "rx (Open n # One f # Star f # Close n # r) (xs @ ys) p g = Some m"
  using rx_plus_run [of xs f ys "Close n # r" p "g(n := (p, -1))" m] assms by simp

lemma rx_group_any:
  assumes "xs \<noteq> []" "rx r ys (p + int (length xs)) (g(n := (p, p + int (length xs)))) = Some m"
    and "\<And>k q g'. 0 < k \<Longrightarrow> k \<le> length ys \<Longrightarrow> rx r (drop k ys) q g' = None"
  shows "rx (Open n # One rx_any # Star rx_any # Close n # r) (xs @ ys) p g = Some m"
proof -
  obtain x xs' where xs: "xs = x # xs'" using assms(1) by (cases xs) auto
  have "rx (Star rx_any # Close n # r) (xs' @ ys) (p + 1) (g(n := (p, -1))) = Some m"
    by (rule rx_star_backtrack) (use assms xs in \<open>auto simp: add_ac\<close>)
  then show ?thesis using xs by simp
qed

lemma rx_str_fail: "zs = [] \<or> hd zs \<noteq> c \<Longrightarrow> rx (rx_str (c # l) @ r) zs p g = None"
  by (cases zs) auto

lemma rx_str_drop_fail:
  assumes "c \<notin> set (tl ys)" "0 < k"
  shows "rx (rx_str (c # l) @ r) (drop k ys) p g = None"
proof (rule rx_str_fail)
  show "drop k ys = [] \<or> hd (drop k ys) \<noteq> c"
  proof (cases "drop k ys = []")
    case False
    then have "hd (drop k ys) \<in> set (drop k ys)" by simp
    also have "set (drop k ys) \<subseteq> set (tl ys)"
      using assms(2) by (cases k; cases ys) (auto dest: in_set_dropD)
    finally show ?thesis using assms(1) by auto
  qed simp
qed

abbreviation digs :: "string \<Rightarrow> bool" where "digs s \<equiv> s \<noteq> [] \<and> (\<forall>c \<in> set s. is_digit c)"

lemma not_digit [simp]: "\<not> is_digit CHR ''.''" "\<not> is_digit CHR '' ''" "\<not> is_digit CHR ''/''"
    "\<not> is_digit NUL" "\<not> is_digit CHR '':''"
  by (auto simp: ch_class_defs)

lemma not_alpha [simp]: "\<not> is_alpha CHR '' ''" "\<not> is_alpha CHR ''/''" "\<not> is_alpha NUL" "\<not> is_alpha CHR '':''"
  by (auto simp: ch_class_defs)

lemma not_lower [simp]: "\<not> is_lower CHR '':''" "\<not> is_lower CHR ''/''"
  by (auto simp: ch_class_defs)

lemma digit_no_space: "\<forall>c \<in> set s. is_digit c \<Longrightarrow> CHR '' '' \<notin> set s \<and> NUL \<notin> set s"
  by (auto simp: ch_class_defs)

text \<open>The start line of a request.\<close>

lemma req_re_match:
  assumes m: "m \<noteq> []" "\<forall>c \<in> set m. is_alpha c" and u: "u \<noteq> []" and a: "digs a" and b: "digs b"
  shows "\<exists>g. regexec req_re (m @ '' '' @ u @ '' HTTP/'' @ a @ ''.'' @ b) = Some g \<and>
    g 1 = (0, int (length m)) \<and> g 2 = (int (length m) + 1, int (length m) + 1 + int (length u)) \<and>
    g 3 = (int (length m) + int (length u) + 7, int (length m) + int (length u) + 7 + int (length a)) \<and>
    g 4 = (int (length m) + int (length u) + 8 + int (length a),
           int (length m) + int (length u) + 8 + int (length a) + int (length b))"
proof -
  define M U where "M = int (length m)" and "U = int (length u)"
  let ?g1 = "no_caps(1 := (0, M))"
  let ?g2 = "?g1(2 := (M + 1, M + 1 + U))"
  let ?g3 = "?g2(3 := (M + 1 + U + 6, M + 1 + U + 6 + int (length a)))"
  let ?p4 = "M + 1 + U + 6 + int (length a) + 1"
  let ?g4 = "?g3(4 := (?p4, ?p4 + int (length b)))"
  let ?i4 = "[Open 4, One is_digit, Star is_digit, Close 4, Eol]"
  let ?i3 = "[Open 3, One is_digit, Star is_digit, Close 3, Lit CHR ''.''] @ ?i4"
  have 4: "rx ?i4 (b @ []) ?p4 ?g3 = Some (?p4 + int (length b), ?g4)"
    by simp (rule rx_group_plus [where ys = "[]", simplified], use b in auto)
  have 3: "rx ?i3 (a @ ''.'' @ b) (M + 1 + U + 6) ?g2 = Some (?p4 + int (length b), ?g4)"
    unfolding append.simps by (rule rx_group_plus) (use a 4 in \<open>auto simp: add_ac\<close>)
  have 2: "rx (Open 2 # One rx_any # Star rx_any # Close 2 # rx_str '' HTTP/'' @ ?i3)
      (u @ '' HTTP/'' @ a @ ''.'' @ b) (M + 1) ?g1 = Some (?p4 + int (length b), ?g4)"
  proof (rule rx_group_any [OF u])
    show "rx (rx_str '' HTTP/'' @ ?i3) ('' HTTP/'' @ a @ ''.'' @ b) (M + 1 + int (length u))
        (?g1(2 := (M + 1, M + 1 + int (length u)))) = Some (?p4 + int (length b), ?g4)"
      using 3 by (simp only: rx_lits U_def) (simp add: add_ac)
    show "rx (rx_str '' HTTP/'' @ ?i3) (drop k ('' HTTP/'' @ a @ ''.'' @ b)) q g' = None"
      if "0 < k" "k \<le> length ('' HTTP/'' @ a @ ''.'' @ b)" for k q g'
      by (rule rx_str_drop_fail [OF _ that(1)]) (use digit_no_space a b in auto)
  qed
  have 1: "rx (re_items req_re) (m @ '' '' @ u @ '' HTTP/'' @ a @ ''.'' @ b) 0 no_caps =
      Some (?p4 + int (length b), ?g4)"
    unfolding req_re_def regex.simps append.simps
    by (rule rx_group_plus [OF m]) (use 2 in \<open>auto simp: M_def add_ac\<close>)
  then have "regexec req_re (m @ '' '' @ u @ '' HTTP/'' @ a @ ''.'' @ b) = Some ?g4"
    by (simp add: regexec_def req_re_def)
  then show ?thesis by (simp add: M_def U_def)
qed

text \<open>The host of a request, with and without a port.\<close>

lemma host_re_plain:
  assumes h: "h \<noteq> []" "\<forall>c \<in> set h. host_char c" and x: "x = [] \<or> \<not> host_char (hd x) \<and> hd x \<noteq> CHR '':''"
  shows "\<exists>g. regexec host_re (h @ x) = Some g \<and> g 1 = (0, int (length h)) \<and> g 2 = (-1, -1)"
proof -
  let ?g = "no_caps(1 := (0, int (length h)))"
  have "rx [Opt 2 [Lit CHR '':'', One is_digit, Star is_digit]] x (int (length h)) ?g =
      Some (int (length h), ?g)"
    using x by (cases x) auto
  then have "rx (re_items host_re) (h @ x) 0 no_caps = Some (int (length h), ?g)"
    unfolding host_re_def regex.simps append.simps using h x by (intro rx_group_plus) auto
  then show ?thesis by (simp add: regexec_def host_re_def no_caps_def)
qed

lemma host_re_port:
  assumes h: "h \<noteq> []" "\<forall>c \<in> set h. host_char c" and d: "digs d" and y: "y = [] \<or> \<not> is_digit (hd y)"
  shows "\<exists>g. regexec host_re (h @ CHR '':'' # d @ y) = Some g \<and> g 1 = (0, int (length h)) \<and>
    g 2 = (int (length h), int (length h) + 1 + int (length d))"
proof -
  define H where "H = int (length h)"
  let ?g = "no_caps(1 := (0, H))"
  let ?g2 = "?g(2 := (H, H + 1 + int (length d)))"
  have c: "\<not> host_char CHR '':''" by (simp add: host_char_def ch_class_defs)
  have "rx [One is_digit, Star is_digit, Close 2] (d @ y) (H + 1) (?g(2 := (H, -1))) =
      Some (H + 1 + int (length d), ?g2)"
    by (rule rx_plus_run) (use d y in auto)
  then have "rx [Opt 2 [Lit CHR '':'', One is_digit, Star is_digit]] (CHR '':'' # d @ y) H ?g =
      Some (H + 1 + int (length d), ?g2)"
    by simp
  then have "rx (re_items host_re) (h @ CHR '':'' # d @ y) 0 no_caps = Some (H + 1 + int (length d), ?g2)"
    unfolding host_re_def regex.simps append.simps using h c by (intro rx_group_plus) (auto simp: H_def)
  then show ?thesis by (simp add: regexec_def host_re_def H_def)
qed

text \<open>The absolute URI.\<close>

lemma rx_star_all: "rx (Star rx_any # r) xs p g = Some m" if "rx r [] (p + int (length xs)) g = Some m"
  using rx_star_run [of xs rx_any "[]" r p g m] that by simp

lemma uri_re_match:
  assumes s: "sch \<noteq> []" "\<forall>c \<in> set sch. is_lower c" and h: "hp \<noteq> []" "\<forall>c \<in> set hp. hostport_char c"
    and pa: "pa = [] \<or> hd pa = CHR ''/''"
  shows "\<exists>g. regexec uri_re (sch @ ''://'' @ hp @ pa) = Some g \<and> g 1 = (0, int (length sch)) \<and>
    g 2 = (int (length sch) + 3, int (length sch) + 3 + int (length hp)) \<and>
    g 3 = (if pa = [] then (-1, -1)
           else (int (length sch) + 3 + int (length hp),
                 int (length sch) + 3 + int (length hp) + int (length pa)))"
proof -
  define S H where "S = int (length sch)" and "H = int (length hp)"
  define e where "e = S + 3 + H + int (length pa)"
  let ?g1 = "no_caps(1 := (0, S))"
  let ?g2 = "?g1(2 := (S + 3, S + 3 + H))"
  let ?g3 = "if pa = [] then ?g2 else ?g2(3 := (S + 3 + H, e))"
  let ?i3 = "[Opt 3 [Lit CHR ''/'', Star rx_any], Eol]"
  have sl: "\<not> hostport_char CHR ''/''" by (simp add: hostport_char_def ch_class_defs)
  have 3: "rx ?i3 pa (S + 3 + H) ?g2 = Some (e, ?g3)"
  proof (cases pa)
    case (Cons c t)
    with pa have c: "c = CHR ''/''" by simp
    have "rx (Star rx_any # [Close 3, Eol]) t (S + 3 + H + 1) (?g2(3 := (S + 3 + H, -1))) = Some (e, ?g3)"
      by (rule rx_star_all) (use Cons in \<open>simp add: e_def add_ac\<close>)
    then show ?thesis using Cons c by simp
  qed (simp add: e_def)
  have 2: "rx (Open 2 # One hostport_char # Star hostport_char # Close 2 # ?i3) (hp @ pa) (S + 3) ?g1 = Some (e, ?g3)"
    by (rule rx_group_plus) (use h pa sl 3 in \<open>auto simp: H_def\<close>)
  have "rx (rx_str ''://'' @ Open 2 # One hostport_char # Star hostport_char # Close 2 # ?i3)
      (''://'' @ hp @ pa) S ?g1 = Some (e, ?g3)"
    using 2 by (simp only: rx_lits) simp
  then have "rx (re_items uri_re) (sch @ ''://'' @ hp @ pa) 0 no_caps = Some (e, ?g3)"
    unfolding uri_re_def regex.simps append.simps by (intro rx_group_plus) (use s in \<open>auto simp: S_def\<close>)
  then show ?thesis by (simp add: regexec_def uri_re_def S_def H_def e_def no_caps_def)
qed

lemma uri_re_origin: "regexec uri_re (CHR ''/'' # p) = None"
  by (simp add: regexec_def uri_re_def ch_class_defs)

subsection \<open>Cutting the buffer at a known place\<close>

lemma sb_cut:
  assumes "sb b (pre @ c # post)" "i = int (length pre)"
  shows "\<exists>b'. put_nul b i = Some b' \<and> sb b' (pre @ NUL # post)"
  using sb_put_nul [OF assms(1), of i] assms(2) by simp

lemma sb_word:
  assumes "sb b (pre @ t @ NUL # post)" "NUL \<notin> set t" "i = int (length pre)"
  shows "cstr_ofs b i = Some t"
  using sb_cstr [OF assms(1), of i] assms by (simp add: c_str_at_here)

lemma sb_last_word:
  assumes "sb b (pre @ t)" "NUL \<notin> set t" "i = int (length pre)"
  shows "cstr_ofs b i = Some t"
  using sb_cstr [OF assms(1), of i] assms by (simp add: c_str_at_def takeWhile_eq_all_conv [symmetric] del: takeWhile_eq_all_conv)
    (auto simp: takeWhile_eq_all_conv)

lemma c_str_at_kept:
  assumes "s = xs @ NUL # ys" "i \<le> length xs"
  shows "c_str_at (s @ t) i = c_str_at s i"
proof -
  have "drop i s = drop i xs @ NUL # ys" using assms by simp
  then show ?thesis unfolding c_str_at_def using assms by (auto simp: takeWhile_append)
qed

lemma rq_buf_simps [simp]:
  "rq_buf (set_rq_buf rq b) = b" "rq_buf (rq\<lparr>rq_host := x\<rparr>) = rq_buf rq" "rq_buf (rq\<lparr>rq_path := x\<rparr>) = rq_buf rq"
  "rq_buf (rq\<lparr>rq_protocol := x\<rparr>) = rq_buf rq" "rq_buf (rq\<lparr>rq_port := x\<rparr>) = rq_buf rq"
  "rq_buf (rq\<lparr>ver_major := x\<rparr>) = rq_buf rq" "rq_buf (rq\<lparr>ver_minor := x\<rparr>) = rq_buf rq"
  by (simp_all add: rq_buf_def set_rq_buf_def)

lemma set_rq_buf_simps [simp]:
  "rq_host (set_rq_buf rq b) = rq_host rq" "rq_path (set_rq_buf rq b) = rq_path rq"
  "rq_port (set_rq_buf rq b) = rq_port rq" "rq_protocol (set_rq_buf rq b) = rq_protocol rq"
  "ver_major (set_rq_buf rq b) = ver_major rq" "ver_minor (set_rq_buf rq b) = ver_minor rq"
  "nd_table (rq_data (set_rq_buf rq b)) = nd_table (rq_data rq)"
  by (simp_all add: set_rq_buf_def)

text \<open>The three ways \<^verbatim>\<open>parse_host\<close> ends on a well-formed host.\<close>

lemma parse_host_plain:
  assumes b: "sb (rq_buf rq) (pre @ h @ x @ NUL # post)" and off: "rq_host rq = int (length pre)"
    and h: "h \<noteq> []" "\<forall>c \<in> set h. host_char c" and x: "x = [] \<or> \<not> host_char (hd x) \<and> hd x \<noteq> CHR '':''"
    and nul: "NUL \<notin> set h" "NUL \<notin> set x"
    and pa: "rq_path rq \<noteq> int (length pre) + int (length h)"
  shows "parse_host rq = Some (0, rq\<lparr>rq_port := HTTP_DEFAULT_PORT\<rparr>)"
proof -
  have "cstr_ofs (rq_buf rq) (rq_host rq) = Some (h @ x)"
    by (rule sb_word [where pre = pre and post = post]) (use b off nul in auto)
  moreover obtain g where "regexec host_re (h @ x) = Some g" "g 1 = (0, int (length h))" "g 2 = (-1, -1)"
    using host_re_plain [OF h x] by blast
  ultimately show ?thesis using pa off by (simp add: parse_host_def Let_def add.commute)
qed

lemma parse_host_copied:
  assumes b: "sb (rq_buf rq) (pre @ h @ x @ NUL # post)" and off: "rq_host rq = int (length pre)"
    and h: "h \<noteq> []" "\<forall>c \<in> set h. host_char c" and x: "x = [] \<or> \<not> host_char (hd x) \<and> hd x \<noteq> CHR '':''"
    and nul: "NUL \<notin> set h" "NUL \<notin> set x"
    and pa: "rq_path rq = int (length pre) + int (length h)"
    and small: "length (pre @ h @ x @ NUL # post) + length h + 1 < 2 ^ 30"
  shows "\<exists>b'. parse_host rq =
       Some (0, (set_rq_buf rq b')\<lparr>rq_host := int (length (pre @ h @ x @ NUL # post)), rq_port := HTTP_DEFAULT_PORT\<rparr>) \<and>
     sb b' (pre @ h @ x @ NUL # post @ h @ [NUL])"
proof -
  have 1: "cstr_ofs (rq_buf rq) (rq_host rq) = Some (h @ x)"
    by (rule sb_word [where pre = pre and post = post]) (use b off nul in auto)
  obtain g where g: "regexec host_re (h @ x) = Some g" "g 1 = (0, int (length h))" "g 2 = (-1, -1)"
    using host_re_plain [OF h x] by blast
  obtain b1 where b1: "copy_bytes (rq_buf rq) (length pre) (length h) = Some b1"
    "sb b1 ((pre @ h @ x @ NUL # post) @ h)"
    using sb_copy [OF b, of "length pre" "length h"] small by auto
  obtain b2 where b2: "strbuf_append b1 NUL = Some b2" "sb b2 (pre @ h @ x @ NUL # post @ h @ [NUL])"
    using sb_append [OF b1(2), of NUL] small by auto
  show ?thesis
    using 1 g b1(1) b2 pa off sb_len [OF b] by (auto simp: parse_host_def Let_def add.commute)
qed

lemma parse_host_port:
  assumes b: "sb (rq_buf rq) (pre @ h @ CHR '':'' # d @ y @ NUL # post)" and off: "rq_host rq = int (length pre)"
    and h: "h \<noteq> []" "\<forall>c \<in> set h. host_char c" and d: "digs d" "digits_val d < 2 ^ 31"
    and y: "y = [] \<or> \<not> is_digit (hd y)" and nul: "NUL \<notin> set h" "NUL \<notin> set y"
    and pa: "rq_path rq \<noteq> int (length pre) + int (length h)"
  shows "\<exists>b'. parse_host rq = Some (0, (set_rq_buf rq b')\<lparr>rq_port := int (digits_val d)\<rparr>) \<and>
     sb b' (pre @ h @ NUL # d @ y @ NUL # post)"
proof -
  have nd: "NUL \<notin> set d" using d(1) digit_no_space by blast
  have 1: "cstr_ofs (rq_buf rq) (rq_host rq) = Some (h @ CHR '':'' # d @ y)"
    by (rule sb_word [where pre = pre and post = post]) (use b off nul nd in auto)
  obtain g where g: "regexec host_re (h @ CHR '':'' # d @ y) = Some g" "g 1 = (0, int (length h))"
    "g 2 = (int (length h), int (length h) + 1 + int (length d))"
    using host_re_port [OF h d(1) y] by blast
  obtain b1 where b1: "put_nul (rq_buf rq) (rq_host rq + int (length h)) = Some b1"
    "sb b1 ((pre @ h) @ NUL # d @ y @ NUL # post)"
    using sb_cut [of "rq_buf rq" "pre @ h" "CHR '':''" "d @ y @ NUL # post" "rq_host rq + int (length h)"] b off
    by auto
  have 2: "cstr_ofs b1 (rq_host rq + int (length h) + 1) = Some (d @ y)"
    by (rule sb_word [where pre = "pre @ h @ [NUL]" and post = post]) (use b1 off nul nd in auto)
  have "atoi (d @ y) = int (digits_val d)" using d y by (intro atoi_digits) auto
  then show ?thesis
    using 1 g b1 2 pa off by (auto simp: parse_host_def Let_def add.commute add.left_commute)
qed

subsection \<open>The request line\<close>

text \<open>\<open>split_line m u a b rest\<close> is the buffer after the start line has been cut into words.\<close>

definition split_line :: "string \<Rightarrow> string \<Rightarrow> string \<Rightarrow> string \<Rightarrow> string \<Rightarrow> string" where
  "split_line m u a b rest = m @ NUL # u @ NUL # ''HTTP/'' @ a @ NUL # b @ NUL # rest"

abbreviation req_line :: "string \<Rightarrow> string \<Rightarrow> string \<Rightarrow> string \<Rightarrow> string" where
  "req_line m u a b \<equiv> m @ '' '' @ u @ '' HTTP/'' @ a @ ''.'' @ b"

definition http_version :: "string \<Rightarrow> string \<Rightarrow> bool" where
  "http_version a b \<longleftrightarrow> digs a \<and> digits_val a < 2 ^ 31 \<and> digs b \<and> digits_val b < 2 ^ 31"

definition method_word :: "string \<Rightarrow> bool" where
  "method_word m \<longleftrightarrow> m \<noteq> [] \<and> (\<forall>c \<in> set m. is_alpha c)"

lemma alpha_no_nul: "\<forall>c \<in> set m. is_alpha c \<Longrightarrow> NUL \<notin> set m"
  by (auto simp: ch_class_defs)

lemma net_parse_req_split:
  assumes buf: "sb (rq_buf rq) (req_line m u a b @ NUL # rest)" and m: "method_word m"
    and u: "u \<noteq> []" "NUL \<notin> set u" and v: "http_version a b"
  shows "\<exists>b'. net_parse_req rq =
      (let rq1 = (set_rq_buf rq b')\<lparr>ver_major := int (digits_val a), ver_minor := int (digits_val b),
                    rq_path := int (length m) + 1\<rparr>
       in if m = ''CONNECT'' then parse_host (rq1\<lparr>rq_host := rq_path rq1\<rparr>)
          else parse_uri_part rq1 (int (length m) + 1)) \<and>
     sb b' (split_line m u a b rest)"
proof -
  have da: "digs a" "digits_val a < 2 ^ 31" "NUL \<notin> set a" and db: "digs b" "digits_val b < 2 ^ 31" "NUL \<notin> set b"
    using v digit_no_space by (auto simp: http_version_def)
  have nm: "NUL \<notin> set m" using m alpha_no_nul by (auto simp: method_word_def)
  let ?M = "int (length m)" and ?U = "int (length u)" and ?A = "int (length a)" and ?B = "int (length b)"
  have line: "cstr_ofs (rq_buf rq) 0 = Some (req_line m u a b)"
    by (rule sb_word [where pre = "[]" and post = rest]) (use buf nm u da db in auto)
  obtain g where g: "regexec req_re (req_line m u a b) = Some g" "g 1 = (0, ?M)" "g 2 = (?M + 1, ?M + 1 + ?U)"
    "g 3 = (?M + ?U + 7, ?M + ?U + 7 + ?A)" "g 4 = (?M + ?U + 8 + ?A, ?M + ?U + 8 + ?A + ?B)"
    using req_re_match [of m u a b] m u da db unfolding method_word_def by blast
  obtain b1 where b1: "put_nul (rq_buf rq) ?M = Some b1" "sb b1 (m @ NUL # u @ '' HTTP/'' @ a @ ''.'' @ b @ NUL # rest)"
    using sb_cut [of "rq_buf rq" m "CHR '' ''" "u @ '' HTTP/'' @ a @ ''.'' @ b @ NUL # rest" ?M] buf by auto
  obtain b2 where b2: "put_nul b1 (?M + 1 + ?U) = Some b2" "sb b2 (m @ NUL # u @ NUL # ''HTTP/'' @ a @ ''.'' @ b @ NUL # rest)"
    using sb_cut [of b1 "m @ NUL # u" "CHR '' ''" "''HTTP/'' @ a @ ''.'' @ b @ NUL # rest" "?M + 1 + ?U"] b1(2) by auto
  obtain b3 where b3: "put_nul b2 (?M + ?U + 7 + ?A) = Some b3" "sb b3 (m @ NUL # u @ NUL # ''HTTP/'' @ a @ NUL # b @ NUL # rest)"
    using sb_cut [of b2 "m @ NUL # u @ NUL # ''HTTP/'' @ a" "CHR ''.''" "b @ NUL # rest" "?M + ?U + 7 + ?A"] b2(2) by auto
  obtain b4 where b4: "put_nul b3 (?M + ?U + 8 + ?A + ?B) = Some b4" "sb b4 (split_line m u a b rest)"
    using sb_cut [of b3 "m @ NUL # u @ NUL # ''HTTP/'' @ a @ NUL # b" NUL rest "?M + ?U + 8 + ?A + ?B"] b3(2)
    by (auto simp: split_line_def)
  have maj: "cstr_ofs b4 (?M + ?U + 7) = Some a"
    by (rule sb_word [where pre = "m @ NUL # u @ NUL # ''HTTP/''" and post = "b @ NUL # rest"])
      (use b4(2) da in \<open>auto simp: split_line_def\<close>)
  have mi: "cstr_ofs b4 (?M + ?U + 8 + ?A) = Some b"
    by (rule sb_word [where pre = "m @ NUL # u @ NUL # ''HTTP/'' @ a @ [NUL]" and post = rest])
      (use b4(2) db in \<open>auto simp: split_line_def\<close>)
  have meth: "cstr_ofs b4 0 = Some m"
    by (rule sb_word [where pre = "[]" and post = "u @ NUL # ''HTTP/'' @ a @ NUL # b @ NUL # rest"])
      (use b4(2) nm in \<open>auto simp: split_line_def\<close>)
  have "atoi a = int (digits_val a)" "atoi b = int (digits_val b)"
    using atoi_digits [of a "[]"] atoi_digits [of b "[]"] da db by auto
  with line g b1(1) b2(1) b3(1) b4 maj mi meth show ?thesis
    by (auto simp: net_parse_req_def Let_def)
qed

text \<open>What a parsed request denotes: the strings its offsets lead to, and its port.\<close>

definition req_is :: "net_req \<Rightarrow> string \<Rightarrow> string \<Rightarrow> string \<Rightarrow> int \<Rightarrow> bool" where
  "req_is rq m h p port \<longleftrightarrow>
     cstr_ofs (rq_buf rq) 0 = Some m \<and> cstr_ofs (rq_buf rq) (rq_host rq) = Some h \<and>
     cstr_ofs (rq_buf rq) (rq_path rq) = Some p \<and> rq_port rq = port"

fun port_text :: "string option \<Rightarrow> string" where
  "port_text None = ''''"
| "port_text (Some d) = CHR '':'' # d"

fun port_num :: "string option \<Rightarrow> int" where
  "port_num None = HTTP_DEFAULT_PORT"
| "port_num (Some d) = int (digits_val d)"

definition port_ok :: "string option \<Rightarrow> bool" where
  "port_ok po \<longleftrightarrow> (case po of None \<Rightarrow> True | Some d \<Rightarrow> digs d \<and> digits_val d < 2 ^ 31)"

definition host_name :: "string \<Rightarrow> bool" where
  "host_name h \<longleftrightarrow> h \<noteq> [] \<and> (\<forall>c \<in> set h. host_char c)"

definition abs_path :: "string \<Rightarrow> bool" where
  "abs_path p \<longleftrightarrow> (p = [] \<or> hd p = CHR ''/'') \<and> NUL \<notin> set p"

lemma host_no_nul: "host_name h \<Longrightarrow> NUL \<notin> set h"
  by (auto simp: host_name_def host_char_def ch_class_defs)

lemma hostport_chars:
  assumes "host_name h" "port_ok po"
  shows "h @ port_text po \<noteq> []" "\<forall>c \<in> set (h @ port_text po). hostport_char c" "NUL \<notin> set (port_text po)"
  using assms by (auto simp: host_name_def port_ok_def hostport_char_def host_char_def ch_class_defs
      split: option.splits)

lemma host_stop: "\<not> host_char CHR ''/''"
  by (simp add: host_char_def ch_class_defs)

lemma parse_uri_absolute:
  assumes b: "sb (rq_buf rq) (pre @ sch @ ''://'' @ h @ port_text po @ pa @ NUL # post)"
    and off: "off = int (length pre)" and s: "sch \<noteq> []" "\<forall>c \<in> set sch. is_lower c"
    and h: "host_name h" and po: "port_ok po" and pa: "abs_path pa"
  shows "\<exists>b'. sb b' (pre @ sch @ NUL # ''//'' @ h @ port_text po @ pa @ NUL # post) \<and>
     parse_uri_part rq off =
      (let rq1 = (set_rq_buf rq b')\<lparr>rq_protocol := off, rq_host := off + int (length sch) + 3,
                    rq_path := (if pa = [] then off - 1
                                else off + int (length sch) + 3 + int (length h) + int (length (port_text po)))\<rparr>
       in if pa = [] then Option.bind (strbuf_cat b' [CHR ''/'', NUL])
                        (\<lambda>b2. parse_host ((set_rq_buf rq1 b2)\<lparr>rq_path := int (sb_len b')\<rparr>))
          else parse_host rq1)"
proof -
  have nul: "NUL \<notin> set (sch @ ''://'' @ h @ port_text po @ pa)"
    using hostport_chars [OF h po] host_no_nul [OF h] pa s
    by (auto simp: abs_path_def ch_class_defs)
  have 1: "cstr_ofs (rq_buf rq) off = Some (sch @ ''://'' @ (h @ port_text po) @ pa)"
    by (rule sb_word [where pre = pre and post = post]) (use b off nul in auto)
  obtain g where g: "regexec uri_re (sch @ ''://'' @ (h @ port_text po) @ pa) = Some g" "g 1 = (0, int (length sch))"
    "fst (g 2) = int (length sch) + 3"
    "fst (g 3) = (if pa = [] then -1 else int (length sch) + 3 + int (length (h @ port_text po)))"
    using uri_re_match [OF s hostport_chars(1,2) [OF h po], of pa] pa by (auto simp: abs_path_def split: if_splits)
  obtain b1 where b1: "put_nul (rq_buf rq) (off + int (length sch)) = Some b1"
    "sb b1 (pre @ sch @ NUL # ''//'' @ h @ port_text po @ pa @ NUL # post)"
    using sb_cut [of "rq_buf rq" "pre @ sch" "CHR '':''" "''//'' @ h @ port_text po @ pa @ NUL # post"
        "off + int (length sch)"] b off by auto
  show ?thesis
    by (rule exI [of _ b1]) (use 1 g b1 in \<open>simp add: parse_uri_part_def Let_def add.assoc\<close>)
qed

text \<open>All ways through \<^verbatim>\<open>parse_host\<close> at once. The text around the host stays where it is; a host
  that runs into the path is copied behind the buffer.\<close>

definition same_rest :: "net_req \<Rightarrow> net_req \<Rightarrow> bool" where
  "same_rest rq rq' \<longleftrightarrow> rq_path rq' = rq_path rq \<and> rq_protocol rq' = rq_protocol rq \<and>
     ver_major rq' = ver_major rq \<and> ver_minor rq' = ver_minor rq \<and>
     nd_table (rq_data rq') = nd_table (rq_data rq)"

lemma parse_host_done:
  assumes b: "sb (rq_buf rq) (pre @ h @ port_text po @ x @ NUL # post)" and off: "rq_host rq = int (length pre)"
    and h: "host_name h" and po: "port_ok po" and x: "abs_path x"
    and pa: "rq_path rq = int (length pre) + int (length h) \<longleftrightarrow> x \<noteq> [] \<and> po = None"
    and small: "length (pre @ h @ port_text po @ x @ NUL # post) + length h + 1 < 2 ^ 30"
  shows "\<exists>rq' w e. parse_host rq = Some (0, rq') \<and> sb (rq_buf rq') (pre @ w @ x @ NUL # post @ e) \<and>
     length w = length (h @ port_text po) \<and> (x = [] \<longrightarrow> e = [] \<and> rq_host rq' = rq_host rq) \<and>
     cstr_ofs (rq_buf rq') (rq_host rq') = Some h \<and> rq_port rq' = port_num po \<and> same_rest rq rq'"
proof -
  have h': "h \<noteq> []" "\<forall>c \<in> set h. host_char c" "NUL \<notin> set h"
    using h host_no_nul by (auto simp: host_name_def)
  have x': "x = [] \<or> \<not> host_char (hd x) \<and> hd x \<noteq> CHR '':''" "NUL \<notin> set x" "x = [] \<or> \<not> is_digit (hd x)"
    using x host_stop by (auto simp: abs_path_def)
  show ?thesis
  proof (cases po)
    case (Some d)
    then have d: "digs d" "digits_val d < 2 ^ 31" using po by (auto simp: port_ok_def)
    have "sb (rq_buf rq) (pre @ h @ CHR '':'' # d @ x @ NUL # post)" using b Some by simp
    from parse_host_port [OF this off h'(1,2) d x'(3) h'(3) x'(2)] pa Some obtain b' where
      b': "parse_host rq = Some (0, (set_rq_buf rq b')\<lparr>rq_port := int (digits_val d)\<rparr>)"
      "sb b' (pre @ h @ NUL # d @ x @ NUL # post)" by auto
    have "cstr_ofs b' (int (length pre)) = Some h"
      by (rule sb_word [where pre = pre and post = "d @ x @ NUL # post"]) (use b' h' in auto)
    with b' Some off show ?thesis
      by (intro exI [of _ "(set_rq_buf rq b')\<lparr>rq_port := int (digits_val d)\<rparr>"] exI [of _ "h @ NUL # d"] exI [of _ "[]"])
        (simp add: same_rest_def)
  next
    case None
    then have b0: "sb (rq_buf rq) (pre @ h @ x @ NUL # post)" using b by simp
    show ?thesis
    proof (cases "rq_path rq = int (length pre) + int (length h)")
      case True
      have "length (pre @ h @ x @ NUL # post) + length h + 1 < 2 ^ 30" using small None by simp
      from parse_host_copied [OF b0 off h'(1,2) x'(1) h'(3) x'(2) True this] obtain b' where
        b': "parse_host rq = Some (0, (set_rq_buf rq b')\<lparr>rq_host := int (length (pre @ h @ x @ NUL # post)),
               rq_port := HTTP_DEFAULT_PORT\<rparr>)" "sb b' (pre @ h @ x @ NUL # post @ h @ [NUL])" by auto
      have "cstr_ofs b' (int (length (pre @ h @ x @ NUL # post))) = Some h"
        by (rule sb_word [where pre = "pre @ h @ x @ NUL # post" and post = "[]"]) (use b' h' in auto)
      with b' None True pa show ?thesis
        by (intro exI [of _ "(set_rq_buf rq b')\<lparr>rq_host := int (length (pre @ h @ x @ NUL # post)),
               rq_port := HTTP_DEFAULT_PORT\<rparr>"] exI [of _ h] exI [of _ "h @ [NUL]"])
          (simp add: same_rest_def)
    next
      case False
      have p: "parse_host rq = Some (0, rq\<lparr>rq_port := HTTP_DEFAULT_PORT\<rparr>)"
        by (rule parse_host_plain [OF b0 off h'(1,2) x'(1) h'(3) x'(2) False])
      have x0: "x = []" using pa False None by simp
      then have "cstr_ofs (rq_buf rq) (int (length pre)) = Some h"
        using sb_word [of "rq_buf rq" pre h post "int (length pre)"] b0 h' by auto
      with p None x0 b0 off show ?thesis
        by (intro exI [of _ "rq\<lparr>rq_port := HTTP_DEFAULT_PORT\<rparr>"] exI [of _ h] exI [of _ "[]"])
          (simp add: same_rest_def)
    qed
  qed
qed

subsection \<open>The parser on well-formed requests\<close>

text \<open>The bytes behind the start line, where the header values live, are not disturbed.\<close>

definition tail_kept :: "nat \<Rightarrow> string \<Rightarrow> net_req \<Rightarrow> bool" where
  "tail_kept n rest rq \<longleftrightarrow> (\<exists>xs ys. sb (rq_buf rq) (xs @ rest @ ys) \<and> length xs = n)"

text \<open>The words of an absolute URI as \<^verbatim>\<open>parse_host\<close> finds them: without a path a slash is put
  behind the buffer.\<close>

lemma parse_uri_absolute_host:
  assumes b: "sb (rq_buf q) ((m @ [NUL]) @ sch @ ''://'' @ h @ port_text po @ pa @ NUL # post)"
    and s: "sch \<noteq> []" "\<forall>c \<in> set sch. is_lower c" and h: "host_name h" and po: "port_ok po" and pa: "abs_path pa"
    and small: "length (m @ NUL # sch @ NUL # ''//'' @ h @ port_text po @ pa @ NUL # post) + 2 < 2 ^ 30"
    and off: "off = int (length m) + 1" and pre: "pre = m @ NUL # sch @ NUL # ''//''" and ex: "ex = (if pa = [] then ''/'' else '''')"
  obtains q3 where "parse_uri_part q off = parse_host q3" "rq_protocol q3 = off" "rq_host q3 = int (length pre)"
    "ver_major q3 = ver_major q" "ver_minor q3 = ver_minor q" "nd_table (rq_data q3) = nd_table (rq_data q)"
    "sb (rq_buf q3) (pre @ h @ port_text po @ pa @ NUL # post @ ex)"
    "rq_path q3 = (if pa = [] then int (length (pre @ h @ port_text po @ pa @ NUL # post)) else int (length (pre @ h @ port_text po)))"
proof -
  from parse_uri_absolute [OF b _ s h po pa, of off] obtain b2 where
    b2: "sb b2 ((m @ [NUL]) @ sch @ NUL # ''//'' @ h @ port_text po @ pa @ NUL # post)"
    and eq: "parse_uri_part q off =
      (let rq1 = (set_rq_buf q b2)\<lparr>rq_protocol := off, rq_host := off + int (length sch) + 3,
                    rq_path := (if pa = [] then off - 1
                                else off + int (length sch) + 3 + int (length h) + int (length (port_text po)))\<rparr>
       in if pa = [] then Option.bind (strbuf_cat b2 [CHR ''/'', NUL])
                        (\<lambda>b2'. parse_host ((set_rq_buf rq1 b2')\<lparr>rq_path := int (sb_len b2)\<rparr>))
          else parse_host rq1)"
    using off by auto
  define r where "r = (set_rq_buf q b2)\<lparr>rq_protocol := off, rq_host := off + int (length sch) + 3\<rparr>"
  show thesis
  proof (cases "pa = []")
    case True
    obtain b3 where "strbuf_append b2 CHR ''/'' = Some b3" "sb b3 (((m @ [NUL]) @ sch @ NUL # ''//'' @ h @ port_text po @ pa @ NUL # post) @ ''/'')"
      using sb_append [OF b2, of "CHR ''/''"] small by auto
    then show ?thesis
      using that [of "(set_rq_buf (r\<lparr>rq_path := off - 1\<rparr>) b3)\<lparr>rq_path := int (sb_len b2)\<rparr>"] True eq
        sb_len [OF b2] by (simp add: r_def off pre ex Let_def)
  next
    case False
    then show ?thesis using that [of "r\<lparr>rq_path := int (length (pre @ h @ port_text po))\<rparr>"] eq b2
      by (simp add: r_def off pre ex Let_def add_ac)
  qed
qed

lemma net_parse_req_abs:
  assumes buf: "sb (rq_buf rq) (req_line m (sch @ ''://'' @ h @ port_text po @ pa) a b @ NUL # rest)"
    and m: "method_word m" "m \<noteq> ''CONNECT''" and v: "http_version a b"
    and s: "sch \<noteq> []" "\<forall>c \<in> set sch. is_lower c" and h: "host_name h" and po: "port_ok po" and pa: "abs_path pa"
    and small: "2 * length (req_line m (sch @ ''://'' @ h @ port_text po @ pa) a b @ NUL # rest) + 4 < 2 ^ 30"
  shows "\<exists>rq'. net_parse_req rq = Some (0, rq') \<and>
     req_is rq' m h (if pa = [] then ''/'' else pa) (port_num po) \<and>
     ver_major rq' = int (digits_val a) \<and> ver_minor rq' = int (digits_val b) \<and>
     cstr_ofs (rq_buf rq') (rq_protocol rq') = Some sch \<and> nd_table (rq_data rq') = nd_table (rq_data rq) \<and>
     tail_kept (length (req_line m (sch @ ''://'' @ h @ port_text po @ pa) a b) + 1) rest rq'"
proof -
  let ?u = "sch @ ''://'' @ h @ port_text po @ pa" and ?post = "''HTTP/'' @ a @ NUL # b @ NUL # rest"
  let ?off = "int (length m) + 1"
  have nul: "NUL \<notin> set m" "NUL \<notin> set sch" "NUL \<notin> set pa" "NUL \<notin> set ?u"
    using m s h hostport_chars [OF h po] host_no_nul [OF h] pa alpha_no_nul
    by (auto simp: method_word_def abs_path_def ch_class_defs)
  obtain b1 where b1: "net_parse_req rq = parse_uri_part ((set_rq_buf rq b1)\<lparr>ver_major := int (digits_val a),
      ver_minor := int (digits_val b), rq_path := ?off\<rparr>) ?off" "sb b1 (split_line m ?u a b rest)"
    using net_parse_req_split [OF buf m(1) _ nul(4) v] m(2) s(1) by (auto simp: Let_def)
  define q where "q = (set_rq_buf rq b1)\<lparr>ver_major := int (digits_val a), ver_minor := int (digits_val b), rq_path := ?off\<rparr>"
  have sbq: "sb (rq_buf q) ((m @ [NUL]) @ sch @ ''://'' @ h @ port_text po @ pa @ NUL # ?post)"
    using b1(2) by (simp add: q_def split_line_def)
  let ?pre = "m @ NUL # sch @ NUL # ''//''"
  obtain ex where ex: "ex = (if pa = [] then ''/'' else '''')" by simp
  have "length (m @ NUL # sch @ NUL # ''//'' @ h @ port_text po @ pa @ NUL # ?post) + 2 < 2 ^ 30" using small by simp
  from parse_uri_absolute_host [OF sbq s h po pa this refl refl ex] obtain q3
    where q3: "parse_uri_part q ?off = parse_host q3" "rq_protocol q3 = ?off" and host3: "rq_host q3 = int (length ?pre)"
    and same: "ver_major q3 = ver_major q" "ver_minor q3 = ver_minor q" "nd_table (rq_data q3) = nd_table (rq_data q)"
    and sb3: "sb (rq_buf q3) (?pre @ h @ port_text po @ pa @ NUL # ?post @ ex)"
    and path3: "rq_path q3 = (if pa = [] then int (length (?pre @ h @ port_text po @ pa @ NUL # ?post))
      else int (length (?pre @ h @ port_text po)))" by blast
  have "rq_path q3 = int (length ?pre) + int (length h) \<longleftrightarrow> pa \<noteq> [] \<and> po = None"
    using path3 by (cases po) auto
  from parse_host_done [OF sb3 host3 h po pa this] small ex obtain rq' w e where
    rq': "parse_host q3 = Some (0, rq')" "sb (rq_buf rq') (?pre @ w @ pa @ NUL # (?post @ ex) @ e)"
      "length w = length (h @ port_text po)" "pa = [] \<longrightarrow> e = []"
      "cstr_ofs (rq_buf rq') (rq_host rq') = Some h" "rq_port rq' = port_num po" "same_rest q3 rq'"
    by (auto split: if_splits)
  have meth: "cstr_ofs (rq_buf rq') 0 = Some m"
    by (rule sb_word [where pre = "[]" and post = "sch @ NUL # ''//'' @ w @ pa @ NUL # (?post @ ex) @ e"])
      (use rq'(2) nul in auto)
  have prot: "cstr_ofs (rq_buf rq') ?off = Some sch"
    by (rule sb_word [where pre = "m @ [NUL]" and post = "''//'' @ w @ pa @ NUL # (?post @ ex) @ e"])
      (use rq'(2) nul in auto)
  have path: "cstr_ofs (rq_buf rq') (rq_path q3) = Some (if pa = [] then ''/'' else pa)"
  proof (cases "pa = []")
    case True
    show ?thesis by (rule sb_last_word [where pre = "?pre @ w @ pa @ NUL # ?post"])
        (use rq' True ex path3 in auto)
  next
    case False
    show ?thesis by (rule sb_word [where pre = "?pre @ w" and post = "(?post @ ex) @ e"])
        (use rq' False path3 nul in auto)
  qed
  have "tail_kept (length (req_line m ?u a b) + 1) rest rq'"
    unfolding tail_kept_def
    by (intro exI [of _ "?pre @ w @ pa @ NUL # ''HTTP/'' @ a @ NUL # b @ [NUL]"] exI [of _ "ex @ e"])
      (use rq' in auto)
  with rq' meth prot path same b1(1) q3 q_def show ?thesis
    by (auto simp: req_is_def same_rest_def)
qed

lemma net_parse_req_connect_ok:
  assumes buf: "sb (rq_buf rq) (req_line ''CONNECT'' (h @ port_text po) a b @ NUL # rest)"
    and v: "http_version a b" and h: "host_name h" and po: "port_ok po"
    and small: "2 * length (req_line ''CONNECT'' (h @ port_text po) a b @ NUL # rest) + 4 < 2 ^ 30"
  shows "\<exists>rq'. net_parse_req rq = Some (0, rq') \<and> req_is rq' ''CONNECT'' h h (port_num po) \<and>
     ver_major rq' = int (digits_val a) \<and> ver_minor rq' = int (digits_val b) \<and>
     nd_table (rq_data rq') = nd_table (rq_data rq)"
proof -
  let ?post = "''HTTP/'' @ a @ NUL # b @ NUL # rest" and ?pre = "''CONNECT'' @ [NUL]"
  have m: "method_word ''CONNECT''" by (simp add: method_word_def ch_class_defs)
  have u: "h @ port_text po \<noteq> []" "NUL \<notin> set (h @ port_text po)" "NUL \<notin> set h"
    using hostport_chars [OF h po] host_no_nul [OF h] by auto
  obtain b1 where b1: "net_parse_req rq = parse_host ((set_rq_buf rq b1)\<lparr>ver_major := int (digits_val a),
      ver_minor := int (digits_val b), rq_path := 8, rq_host := 8\<rparr>)"
    "sb b1 (split_line ''CONNECT'' (h @ port_text po) a b rest)"
    using net_parse_req_split [OF buf m u(1,2) v] by (auto simp: Let_def)
  define q where "q = (set_rq_buf rq b1)\<lparr>ver_major := int (digits_val a), ver_minor := int (digits_val b),
      rq_path := 8, rq_host := 8\<rparr>"
  have sb3: "sb (rq_buf q) (?pre @ h @ port_text po @ [] @ NUL # ?post)"
    using b1(2) by (simp add: q_def split_line_def)
  have "\<exists>rq' w e. parse_host q = Some (0, rq') \<and> sb (rq_buf rq') (?pre @ w @ [] @ NUL # ?post @ e) \<and>
      length w = length (h @ port_text po) \<and> ([] = ([] :: string) \<longrightarrow> e = [] \<and> rq_host rq' = rq_host q) \<and>
      cstr_ofs (rq_buf rq') (rq_host rq') = Some h \<and> rq_port rq' = port_num po \<and> same_rest q rq'"
    by (rule parse_host_done [OF sb3 _ h po]) (use small u h in \<open>auto simp: q_def abs_path_def host_name_def\<close>)
  then obtain rq' w where
    rq': "parse_host q = Some (0, rq')" "sb (rq_buf rq') (?pre @ w @ NUL # ?post)" "rq_host rq' = 8"
      "cstr_ofs (rq_buf rq') (rq_host rq') = Some h" "rq_port rq' = port_num po" "same_rest q rq'"
    by (auto simp: q_def)
  have meth: "cstr_ofs (rq_buf rq') 0 = Some ''CONNECT''"
    by (rule sb_word [where pre = "[]" and post = "w @ NUL # ?post"]) (use rq'(2) in auto)
  with rq' b1(1) q_def show ?thesis by (auto simp: req_is_def same_rest_def)
qed

text \<open>The origin form takes the host from the \<^verbatim>\<open>Host\<close> header, whose value is cut at the colon in
  place.\<close>

lemma net_parse_req_origin:
  assumes buf: "sb (rq_buf rq) (req_line m (CHR ''/'' # p) a b @ NUL # r1 @ h @ port_text po @ NUL # r2)"
    and host: "net_data_get_ent_offset (rq_data rq) ''Host'' = int (length (req_line m (CHR ''/'' # p) a b @ NUL # r1))"
    and m: "method_word m" "m \<noteq> ''CONNECT''" and v: "http_version a b"
    and p: "NUL \<notin> set p" and h: "host_name h" and po: "port_ok po"
    and small: "2 * length (req_line m (CHR ''/'' # p) a b @ NUL # r1 @ h @ port_text po @ NUL # r2) + 4 < 2 ^ 30"
  shows "\<exists>rq'. net_parse_req rq = Some (0, rq') \<and> req_is rq' m h (CHR ''/'' # p) (port_num po) \<and>
     ver_major rq' = int (digits_val a) \<and> ver_minor rq' = int (digits_val b) \<and> rq_protocol rq' = -1 \<and>
     nd_table (rq_data rq') = nd_table (rq_data rq) \<and>
     rq_host rq' = net_data_get_ent_offset (rq_data rq') ''Host''"
proof -
  let ?u = "CHR ''/'' # p"
  let ?pre = "m @ NUL # ?u @ NUL # ''HTTP/'' @ a @ NUL # b @ NUL # r1" and ?off = "int (length m) + 1"
  have nul: "NUL \<notin> set m" "NUL \<notin> set ?u" "NUL \<notin> set h"
    using m p alpha_no_nul host_no_nul [OF h] by (auto simp: method_word_def)
  obtain b1 where b1: "net_parse_req rq = parse_uri_part ((set_rq_buf rq b1)\<lparr>ver_major := int (digits_val a),
      ver_minor := int (digits_val b), rq_path := ?off\<rparr>) ?off"
    "sb b1 (split_line m ?u a b (r1 @ h @ port_text po @ NUL # r2))"
    using net_parse_req_split [OF buf m(1) _ nul(2) v] m(2) by (auto simp: Let_def)
  define q where "q = (set_rq_buf rq b1)\<lparr>ver_major := int (digits_val a), ver_minor := int (digits_val b), rq_path := ?off\<rparr>"
  define q' where "q' = q\<lparr>rq_host := int (length ?pre), rq_protocol := -1\<rparr>"
  have "cstr_ofs (rq_buf q) ?off = Some ?u"
    by (rule sb_word [where pre = "m @ [NUL]" and post = "''HTTP/'' @ a @ NUL # b @ NUL # r1 @ h @ port_text po @ NUL # r2"])
      (use b1(2) nul in \<open>auto simp: q_def split_line_def\<close>)
  moreover have "net_data_get_ent_offset (rq_data q) ''Host'' = int (length ?pre)"
    using host by (simp add: q_def net_data_get_ent_offset_def)
  ultimately have eq: "parse_uri_part q ?off = parse_host q'"
    by (simp add: parse_uri_part_def uri_re_origin Let_def q'_def)
  have sb3: "sb (rq_buf q') (?pre @ h @ port_text po @ [] @ NUL # r2)"
    using b1(2) by (simp add: q_def q'_def split_line_def)
  have "\<exists>rq' w e. parse_host q' = Some (0, rq') \<and> sb (rq_buf rq') (?pre @ w @ [] @ NUL # r2 @ e) \<and>
      length w = length (h @ port_text po) \<and> ([] = ([] :: string) \<longrightarrow> e = [] \<and> rq_host rq' = rq_host q') \<and>
      cstr_ofs (rq_buf rq') (rq_host rq') = Some h \<and> rq_port rq' = port_num po \<and> same_rest q' rq'"
    by (rule parse_host_done [OF sb3 _ h po]) (use small in \<open>auto simp: q'_def q_def abs_path_def\<close>)
  then obtain rq' w where
    rq': "parse_host q' = Some (0, rq')" "sb (rq_buf rq') (?pre @ w @ NUL # r2)" "rq_host rq' = int (length ?pre)"
      "cstr_ofs (rq_buf rq') (rq_host rq') = Some h" "rq_port rq' = port_num po" "same_rest q' rq'"
    by (auto simp: q'_def)
  have meth: "cstr_ofs (rq_buf rq') 0 = Some m"
    by (rule sb_word [where pre = "[]" and post = "?u @ NUL # ''HTTP/'' @ a @ NUL # b @ NUL # r1 @ w @ NUL # r2"])
      (use rq'(2) nul in auto)
  have path: "cstr_ofs (rq_buf rq') ?off = Some ?u"
    by (rule sb_word [where pre = "m @ [NUL]" and post = "''HTTP/'' @ a @ NUL # b @ NUL # r1 @ w @ NUL # r2"])
      (use rq'(2) nul in auto)
  show ?thesis
    using eq rq' meth path b1(1) q_def host
    by (auto simp: req_is_def same_rest_def q'_def net_data_get_ent_offset_def)
qed

subsection \<open>The status line\<close>

abbreviation rsp_line :: "string \<Rightarrow> string \<Rightarrow> string \<Rightarrow> string \<Rightarrow> string" where
  "rsp_line a b code msg \<equiv> ''HTTP/'' @ a @ ''.'' @ b @ '' '' @ code @ '' '' @ msg"

lemma rsp_re_match:
  assumes a: "digs a" and b: "digs b" and c: "digs code" and msg: "msg \<noteq> []"
  shows "\<exists>g. regexec rsp_re (rsp_line a b code msg) = Some g \<and>
    g 1 = (5, 5 + int (length a)) \<and> g 2 = (6 + int (length a), 6 + int (length a) + int (length b)) \<and>
    g 3 = (7 + int (length a) + int (length b), 7 + int (length a) + int (length b) + int (length code)) \<and>
    g 4 = (8 + int (length a) + int (length b) + int (length code),
           8 + int (length a) + int (length b) + int (length code) + int (length msg))"
proof -
  define A B C where "A = int (length a)" and "B = int (length b)" and "C = int (length code)"
  define e where "e = 8 + A + B + C + int (length msg)"
  let ?g1 = "no_caps(1 := (5, 5 + A))"
  let ?g2 = "?g1(2 := (6 + A, 6 + A + B))"
  let ?g3 = "?g2(3 := (7 + A + B, 7 + A + B + C))"
  let ?g4 = "?g3(4 := (8 + A + B + C, e))"
  let ?i4 = "[Open 4, One rx_any, Star rx_any, Close 4, Eol]"
  let ?i3 = "Open 3 # One is_digit # Star is_digit # Close 3 # Lit CHR '' '' # ?i4"
  let ?i2 = "Open 2 # One is_digit # Star is_digit # Close 2 # Lit CHR '' '' # ?i3"
  let ?i1 = "Open 1 # One is_digit # Star is_digit # Close 1 # Lit CHR ''.'' # ?i2"
  have 4: "rx ?i4 msg (8 + A + B + C) ?g3 = Some (e, ?g4)"
    using rx_group_plus [of msg rx_any "[]" "[Eol]" "8 + A + B + C" ?g3 4 "(e, ?g4)"] msg by (simp add: e_def)
  have 3: "rx ?i3 (code @ '' '' @ msg) (7 + A + B) ?g2 = Some (e, ?g4)"
    by (rule rx_group_plus) (use c 4 in \<open>auto simp: C_def add_ac\<close>)
  have 2: "rx ?i2 (b @ '' '' @ code @ '' '' @ msg) (6 + A) ?g1 = Some (e, ?g4)"
    by (rule rx_group_plus) (use b 3 in \<open>auto simp: B_def add_ac\<close>)
  have 1: "rx ?i1 (a @ ''.'' @ b @ '' '' @ code @ '' '' @ msg) 5 no_caps = Some (e, ?g4)"
    by (rule rx_group_plus) (use a 2 in \<open>auto simp: A_def add_ac\<close>)
  have "rx (rx_str ''HTTP/'' @ ?i1) (rsp_line a b code msg) 0 no_caps = Some (e, ?g4)"
    using 1 by (simp only: rx_lits) simp
  then have "regexec rsp_re (rsp_line a b code msg) = Some ?g4"
    by (simp add: regexec_def rsp_re_def)
  then show ?thesis by (simp add: A_def B_def C_def e_def)
qed

lemma net_parse_rsp_ok:
  assumes buf: "sb (nd_buf (rs_data rs)) (rsp_line a b code msg @ NUL # rest)" and v: "http_version a b"
    and c: "digs code" "digits_val code < 2 ^ 31" and msg: "msg \<noteq> []" "NUL \<notin> set msg"
  shows "\<exists>rs'. net_parse_rsp rs = Some (0, rs') \<and> rs_code rs' = int (digits_val code) \<and>
     rs_major rs' = int (digits_val a) \<and> rs_minor rs' = int (digits_val b) \<and>
     cstr_ofs (nd_buf (rs_data rs')) (http_msg rs') = Some msg \<and>
     nd_table (rs_data rs') = nd_table (rs_data rs) \<and>
     sb (nd_buf (rs_data rs')) (''HTTP/'' @ a @ NUL # b @ NUL # code @ NUL # msg @ NUL # rest)"
proof -
  let ?B = "nd_buf (rs_data rs)"
  have da: "digs a" "digits_val a < 2 ^ 31" "NUL \<notin> set a" and db: "digs b" "digits_val b < 2 ^ 31" "NUL \<notin> set b"
    and nc: "NUL \<notin> set code"
    using v c digit_no_space by (auto simp: http_version_def)
  let ?A = "int (length a)" and ?Bl = "int (length b)" and ?C = "int (length code)"
  have line: "cstr_ofs ?B 0 = Some (rsp_line a b code msg)"
    by (rule sb_word [where pre = "[]" and post = rest]) (use buf da db nc msg in auto)
  obtain g where g: "regexec rsp_re (rsp_line a b code msg) = Some g"
    "g 1 = (5, 5 + ?A)" "g 2 = (6 + ?A, 6 + ?A + ?Bl)" "g 3 = (7 + ?A + ?Bl, 7 + ?A + ?Bl + ?C)"
    "fst (g 4) = 8 + ?A + ?Bl + ?C"
    using rsp_re_match [OF da(1) db(1) c(1) msg(1)] by auto
  obtain b1 where b1: "put_nul ?B (5 + ?A) = Some b1" "sb b1 (''HTTP/'' @ a @ NUL # b @ '' '' @ code @ '' '' @ msg @ NUL # rest)"
    using sb_cut [of ?B "''HTTP/'' @ a" "CHR ''.''" "b @ '' '' @ code @ '' '' @ msg @ NUL # rest" "5 + ?A"] buf by auto
  obtain b2 where b2: "put_nul b1 (6 + ?A + ?Bl) = Some b2" "sb b2 (''HTTP/'' @ a @ NUL # b @ NUL # code @ '' '' @ msg @ NUL # rest)"
    using sb_cut [of b1 "''HTTP/'' @ a @ NUL # b" "CHR '' ''" "code @ '' '' @ msg @ NUL # rest" "6 + ?A + ?Bl"] b1(2) by auto
  obtain b3 where b3: "put_nul b2 (7 + ?A + ?Bl + ?C) = Some b3" "sb b3 (''HTTP/'' @ a @ NUL # b @ NUL # code @ NUL # msg @ NUL # rest)"
    using sb_cut [of b2 "''HTTP/'' @ a @ NUL # b @ NUL # code" "CHR '' ''" "msg @ NUL # rest" "7 + ?A + ?Bl + ?C"] b2(2) by auto
  have w: "cstr_ofs b3 5 = Some a" "cstr_ofs b3 (6 + ?A) = Some b" "cstr_ofs b3 (7 + ?A + ?Bl) = Some code"
    "cstr_ofs b3 (8 + ?A + ?Bl + ?C) = Some msg"
    by (rule sb_word [where pre = "''HTTP/''" and post = "b @ NUL # code @ NUL # msg @ NUL # rest"],
        use b3(2) da in \<open>auto\<close>)
      (rule sb_word [where pre = "''HTTP/'' @ a @ [NUL]" and post = "code @ NUL # msg @ NUL # rest"],
        use b3(2) db in \<open>auto\<close>,
       rule sb_word [where pre = "''HTTP/'' @ a @ NUL # b @ [NUL]" and post = "msg @ NUL # rest"],
        use b3(2) nc in \<open>auto\<close>,
       rule sb_word [where pre = "''HTTP/'' @ a @ NUL # b @ NUL # code @ [NUL]" and post = rest],
        use b3(2) msg in \<open>auto\<close>)
  have "atoi a = int (digits_val a)" "atoi b = int (digits_val b)" "atoi code = int (digits_val code)"
    using atoi_digits [of a "[]"] atoi_digits [of b "[]"] atoi_digits [of code "[]"] da db c by auto
  with line g b1(1) b2(1) b3 w show ?thesis by (simp add: net_parse_rsp_def Let_def)
qed

subsection \<open>Header lines\<close>

definition header_key :: "string \<Rightarrow> bool" where
  "header_key k \<longleftrightarrow> k \<noteq> [] \<and> (\<forall>c \<in> set k. key_char c) \<and> length k < HTTP_HEADER_KEY_MAXLEN"

lemma header_re_match:
  assumes k: "k \<noteq> []" "\<forall>c \<in> set k. key_char c" and v: "v = [] \<or> hd v \<noteq> CHR '' ''"
  shows "\<exists>g. regexec header_re (k @ CHR '':'' # replicate n CHR '' '' @ v) = Some g \<and>
    g 1 = (0, int (length k)) \<and> g 2 = (int (length k) + 1 + int n, int (length k) + 1 + int n + int (length v))"
proof -
  define K where "K = int (length k)"
  let ?g1 = "no_caps(1 := (0, K))"
  let ?e = "K + 1 + int n + int (length v)"
  let ?g2 = "?g1(2 := (K + 1 + int n, ?e))"
  have c: "\<not> key_char CHR '':''" by (simp add: key_char_def ch_class_defs)
  have "rx (Star rx_any # [Close 2, Eol]) v (K + 1 + int n) (?g1(2 := (K + 1 + int n, -1))) = Some (?e, ?g2)"
    by (rule rx_star_all) simp
  then have "rx (Star (\<lambda>c. c = CHR '' '') # [Open 2, Star rx_any, Close 2, Eol]) (replicate n CHR '' '' @ v) (K + 1) ?g1 =
      Some (?e, ?g2)"
    by (intro rx_star_run) (use v in auto)
  then have "rx (re_items header_re) (k @ CHR '':'' # replicate n CHR '' '' @ v) 0 no_caps = Some (?e, ?g2)"
    unfolding header_re_def regex.simps by (intro rx_group_plus) (use k c in \<open>auto simp: K_def\<close>)
  then have "regexec header_re (k @ CHR '':'' # replicate n CHR '' '' @ v) = Some ?g2"
    using rx_search_here by (simp add: regexec_def header_re_def)
  then show ?thesis by (simp add: K_def)
qed

lemma net_parse_header_ok:
  assumes buf: "sb (nd_buf d) (pre @ k @ CHR '':'' # replicate n CHR '' '' @ v @ NUL # post)"
    and k: "header_key k" and v: "v = [] \<or> hd v \<noteq> CHR '' ''" "NUL \<notin> set v"
  shows "\<exists>b'. net_parse_header d (int (length pre)) =
       Some (0, \<lparr>nd_buf = b', nd_table = HASH_ADD (nd_table d) k (int (length pre + length k + 1 + n))\<rparr>) \<and>
     sb b' (pre @ k @ NUL # replicate n CHR '' '' @ v @ NUL # post) \<and>
     cstr_ofs b' (int (length pre + length k + 1 + n)) = Some v"
proof -
  have nk: "NUL \<notin> set k" "k \<noteq> []" "\<forall>c \<in> set k. key_char c" "length k < HTTP_HEADER_KEY_MAXLEN"
    using k by (auto simp: header_key_def key_char_def ch_class_defs)
  let ?s = "replicate n CHR '' ''" and ?o = "int (length pre)"
  have line: "cstr_ofs (nd_buf d) ?o = Some (k @ CHR '':'' # ?s @ v)"
    by (rule sb_word [where pre = pre and post = post]) (use buf nk v in auto)
  obtain g where g: "regexec header_re (k @ CHR '':'' # ?s @ v) = Some g" "g 1 = (0, int (length k))"
    "g 2 = (int (length k) + 1 + int n, int (length k) + 1 + int n + int (length v))"
    using header_re_match [OF nk(2,3) v(1)] by blast
  obtain b1 where b1: "put_nul (nd_buf d) (?o + int (length k)) = Some b1" "sb b1 (pre @ k @ NUL # ?s @ v @ NUL # post)"
    using sb_cut [of "nd_buf d" "pre @ k" "CHR '':''" "?s @ v @ NUL # post" "?o + int (length k)"] buf by auto
  obtain b2 where b2: "put_nul b1 (?o + (int (length k) + 1 + int n + int (length v))) = Some b2"
    "sb b2 (pre @ k @ NUL # ?s @ v @ NUL # post)"
    using sb_cut [of b1 "pre @ k @ NUL # ?s @ v" NUL post "?o + (int (length k) + 1 + int n + int (length v))"] b1(2)
    by auto
  have key: "cstr_ofs b2 ?o = Some k"
    by (rule sb_word [where pre = pre and post = "?s @ v @ NUL # post"]) (use b2 nk in auto)
  have val: "cstr_ofs b2 (int (length pre + length k + 1 + n)) = Some v"
    by (rule sb_word [where pre = "pre @ k @ NUL # ?s" and post = post]) (use b2 v in auto)
  show ?thesis
    using line g b1(1) b2 key val nk(4)
    by (intro exI [of _ b2])
      (cases d, simp add: net_parse_header_def net_data_set_ent_offset_def new_ent_def add_ac)
qed

text \<open>A pattern with a mandatory character only matches lines that contain one.\<close>

lemma rx_needs: "rx is s p g = Some m \<Longrightarrow> One f \<in> set is \<Longrightarrow> \<exists>c \<in> set s. f c"
proof (induction "is" s p g arbitrary: m rule: rx.induct)
  case (6 f' r s p g)
  then show ?case by (cases s) (auto split: if_splits option.splits)
qed (auto split: if_splits list.splits option.splits)

lemma rx_search_needs: "rx_search is s p = Some m \<Longrightarrow> One f \<in> set is \<Longrightarrow> \<exists>c \<in> set s. f c"
  by (induction "is" s p arbitrary: m rule: rx_search.induct)
    (fastforce split: option.splits dest: rx_needs)+

lemma net_parse_header_no_colon:
  assumes "cstr_ofs (nd_buf d) off = Some line" "CHR '':'' \<notin> set line"
  shows "net_parse_header d off = Some (-1, d)"
proof -
  have "regexec header_re line = None"
  proof (rule ccontr)
    assume "regexec header_re line \<noteq> None"
    then obtain m where "rx_search (re_items header_re) line 0 = Some m"
      by (auto simp: regexec_def header_re_def)
    from rx_search_needs [OF this, of "\<lambda>x. x = CHR '':''"] show False
      using assms(2) by (auto simp: header_re_def)
  qed
  then show ?thesis using assms(1) by (simp add: net_parse_header_def)
qed

subsection \<open>Printed headers\<close>

definition header_text :: "(string \<times> string) list \<Rightarrow> string" where
  "header_text kvs = concat (map (\<lambda>(k, v). k @ '': '' @ v @ [CR, LF]) kvs)"

text \<open>\<open>ent_vals d kvs\<close>: the entries of the table, with the strings their offsets lead to.\<close>

definition ent_vals :: "net_data \<Rightarrow> (string \<times> string) list \<Rightarrow> bool" where
  "ent_vals d kvs \<longleftrightarrow> list_all2 (\<lambda>(k, off) (k', v). k' = k \<and> NUL \<notin> set k \<and>
     cstr_ofs (nd_buf d) off = Some v) (hash_iter (nd_table d)) kvs"

lemma cstr_ofs_no_nul: "cstr_ofs b i = Some v \<Longrightarrow> NUL \<notin> set v"
  using cstr_from_no_NUL by (auto simp: cstr_ofs_def cstr_at_def split: if_splits)

lemma append_header_list_text:
  "list_all2 (\<lambda>(k, off) (k', v). k' = k \<and> NUL \<notin> set k \<and> cstr_ofs src off = Some v) es kvs \<Longrightarrow>
   sb b s \<Longrightarrow> length s + length (header_text kvs) < 2 ^ 30 \<Longrightarrow>
   \<exists>b'. append_header_list src es b = Some b' \<and> sb b' (s @ header_text kvs)"
proof (induction es kvs arbitrary: b s rule: list_all2_induct)
  case Nil
  then show ?case by (simp add: header_text_def)
next
  case (Cons e es kv kvs)
  obtain k off v where e: "e = (k, off)" "kv = (k, v)" "NUL \<notin> set k" "cstr_ofs src off = Some v"
    using Cons.hyps(1) by (cases e; cases kv) auto
  have nv: "NUL \<notin> set v" using cstr_ofs_no_nul [OF e(4)] .
  have len: "length s + length (k @ '': '' @ v @ [CR, LF]) + length (header_text kvs) < 2 ^ 30"
    using Cons.prems(2) by (simp add: header_text_def e)
  obtain b1 where b1: "strbuf_cat b k = Some b1" "sb b1 (s @ k)"
    using sb_cat [OF Cons.prems(1) e(3)] len by auto
  obtain b2 where b2: "strbuf_cat b1 '': '' = Some b2" "sb b2 (s @ k @ '': '')"
    using sb_cat [OF b1(2), of "'': ''"] len by auto
  obtain b3 where b3: "strbuf_cat b2 v = Some b3" "sb b3 (s @ k @ '': '' @ v)"
    using sb_cat [OF b2(2) nv] len by auto
  obtain b4 where b4: "strbuf_cat b3 [CR, LF] = Some b4" "sb b4 (s @ k @ '': '' @ v @ [CR, LF])"
    using sb_cat [OF b3(2), of "[CR, LF]"] len by auto
  from Cons.IH [OF b4(2)] len obtain b5 where
    "append_header_list src es b4 = Some b5" "sb b5 ((s @ k @ '': '' @ v @ [CR, LF]) @ header_text kvs)"
    by auto
  then show ?case using b1(1) b2(1) b3(1) b4(1) e by (simp add: header_text_def del: strbuf_cat.simps)
qed

lemma net_append_headers_text:
  assumes "ent_vals d kvs" "sb b s" "length s + length (header_text kvs) + 2 < 2 ^ 30"
  shows "\<exists>b'. net_append_headers d b = Some b' \<and> sb b' (s @ header_text kvs @ [CR, LF])"
proof -
  obtain b1 where b1: "append_header_list (nd_buf d) (hash_iter (nd_table d)) b = Some b1" "sb b1 (s @ header_text kvs)"
    using append_header_list_text [of "nd_buf d" _ kvs b s] assms unfolding ent_vals_def by auto
  obtain b2 where "strbuf_cat b1 [CR, LF] = Some b2" "sb b2 ((s @ header_text kvs) @ [CR, LF])"
    using sb_cat [OF b1(2), of "[CR, LF]"] assms(3) by auto
  with b1(1) show ?thesis by (simp add: net_append_headers_def del: strbuf_cat.simps)
qed

lemma dec_digits_digs: "digs (dec_digits n)"
proof -
  have "dec_digits n \<noteq> []" by (subst dec_digits.simps) simp
  moreover have "is_digit c" if c: "c \<in> set (dec_digits n)" for c
  proof -
    obtain d where "d < (10::nat)" "c = char_of (48 + d)" using dec_digits_range [OF c] by blast
    then show ?thesis by (auto simp: is_digit_def ch_range_def)
  qed
  ultimately show ?thesis by blast
qed

lemma digits_val_snoc: "digits_val (s @ [c]) = 10 * digits_val s + digit_val c"
  by (simp add: digits_val_def)

lemma digits_val_dec [simp]: "digits_val (dec_digits n) = n"
proof (induction n rule: dec_digits.induct)
  case (1 n)
  show ?case
  proof (cases "n < 10")
    case True
    then show ?thesis by (subst dec_digits.simps) (simp add: digits_val_def digit_val_def)
  next
    case False
    have "digit_val (char_of (48 + n mod 10)) = n mod 10" by (simp add: digit_val_def)
    with 1 [OF False] False show ?thesis by (subst dec_digits.simps) (simp add: digits_val_snoc)
  qed
qed

lemma sb_append_num:
  assumes b: "sb b s" and x: "0 \<le> x" "x < 2 ^ 31" and small: "length s + 16 < 2 ^ 30"
  shows "\<exists>b'. strbuf_append_num b x = Some b' \<and> sb b' (s @ dec_digits (nat x)) \<and> length (dec_digits (nat x)) \<le> 15"
proof -
  have f: "length (sprintf_d x) + 1 \<le> 16" using sprintf_d_fits x by simp
  have e: "sprintf_d x = dec_digits (nat x)" using x by (simp add: sprintf_d_def)
  have "NUL \<notin> set (dec_digits (nat x))" using dec_digits_digs digit_no_space by blast
  with sb_cat [OF b, of "dec_digits (nat x)"] f e small show ?thesis
    by (auto simp: strbuf_append_num_def)
qed

definition small_int :: "int \<Rightarrow> bool" where
  "small_int x \<longleftrightarrow> 0 \<le> x \<and> x < 2 ^ 31"

lemma req_header_buf_text:
  assumes r: "req_is rq m h p port" and v: "small_int (ver_major rq)" "small_int (ver_minor rq)"
    and e: "ent_vals (rq_data rq) kvs"
    and small: "length m + length p + length (header_text kvs) + 80 < 2 ^ 30"
  shows "\<exists>b. req_header_buf rq = Some b \<and>
     sb b (req_line m p (dec_digits (nat (ver_major rq))) (dec_digits (nat (ver_minor rq))) @ [CR, LF] @
           header_text kvs @ [CR, LF])"
proof -
  let ?a = "dec_digits (nat (ver_major rq))" and ?b = "dec_digits (nat (ver_minor rq))"
  have c: "cstr_ofs (rq_buf rq) 0 = Some m" "cstr_ofs (rq_buf rq) (rq_path rq) = Some p"
    using r by (auto simp: req_is_def)
  have n: "NUL \<notin> set m" "NUL \<notin> set p" using c cstr_ofs_no_nul by blast+
  obtain b1 where b1: "strbuf_cat strbuf_init m = Some b1" "sb b1 m"
    using sb_cat [OF sb_init n(1)] small by auto
  obtain b2 where b2: "strbuf_append b1 CHR '' '' = Some b2" "sb b2 (m @ '' '')"
    using sb_append [OF b1(2), of "CHR '' ''"] small by auto
  obtain b3 where b3: "strbuf_cat b2 p = Some b3" "sb b3 (m @ '' '' @ p)"
    using sb_cat [OF b2(2) n(2)] small by auto
  obtain b4 where b4: "strbuf_append b3 CHR '' '' = Some b4" "sb b4 (m @ '' '' @ p @ '' '')"
    using sb_append [OF b3(2), of "CHR '' ''"] small by auto
  obtain b5 where b5: "strbuf_cat b4 ''HTTP/'' = Some b5" "sb b5 (m @ '' '' @ p @ '' HTTP/'')"
    using sb_cat [OF b4(2), of "''HTTP/''"] small by auto
  obtain b6 where b6: "strbuf_append_num b5 (ver_major rq) = Some b6" "sb b6 (m @ '' '' @ p @ '' HTTP/'' @ ?a)"
    "length ?a \<le> 15"
    using sb_append_num [OF b5(2), of "ver_major rq"] v small by (auto simp: small_int_def)
  obtain b7 where b7: "strbuf_append b6 CHR ''.'' = Some b7" "sb b7 (m @ '' '' @ p @ '' HTTP/'' @ ?a @ ''.'')"
    using sb_append [OF b6(2), of "CHR ''.''"] small b6(3) by auto
  obtain b8 where b8: "strbuf_append_num b7 (ver_minor rq) = Some b8" "sb b8 (req_line m p ?a ?b)" "length ?b \<le> 15"
    using sb_append_num [OF b7(2), of "ver_minor rq"] v small b6(3) by (auto simp: small_int_def)
  obtain b9 where b9: "strbuf_cat b8 [CR, LF] = Some b9" "sb b9 (req_line m p ?a ?b @ [CR, LF])"
    using sb_cat [OF b8(2), of "[CR, LF]"] small b6(3) b8(3) by auto
  obtain b10 where "net_append_headers (rq_data rq) b9 = Some b10"
    "sb b10 ((req_line m p ?a ?b @ [CR, LF]) @ header_text kvs @ [CR, LF])"
    using net_append_headers_text [OF e b9(2)] small b6(3) b8(3) by auto
  then show ?thesis
    using c b1(1) b2(1) b3(1) b4(1) b5(1) b6(1) b7(1) b8(1) b9(1)
    by (simp add: req_header_buf_def del: strbuf_cat.simps)
qed

lemma rsp_header_buf_text:
  assumes msg: "cstr_ofs (nd_buf (rs_data rs)) (http_msg rs) = Some msg"
    and v: "small_int (rs_major rs)" "small_int (rs_minor rs)" "small_int (rs_code rs)"
    and e: "ent_vals (rs_data rs) kvs"
    and small: "length msg + length (header_text kvs) + 80 < 2 ^ 30"
  shows "\<exists>b. rsp_header_buf rs = Some b \<and>
     sb b (rsp_line (dec_digits (nat (rs_major rs))) (dec_digits (nat (rs_minor rs))) (dec_digits (nat (rs_code rs))) msg @
           [CR, LF] @ header_text kvs @ [CR, LF])"
proof -
  let ?a = "dec_digits (nat (rs_major rs))" and ?b = "dec_digits (nat (rs_minor rs))"
    and ?c = "dec_digits (nat (rs_code rs))"
  have n: "NUL \<notin> set msg" using msg cstr_ofs_no_nul by blast
  obtain b1 where b1: "strbuf_cat strbuf_init ''HTTP/'' = Some b1" "sb b1 ''HTTP/''"
    using sb_cat [OF sb_init, of "''HTTP/''"] by auto
  obtain b2 where b2: "strbuf_append_num b1 (rs_major rs) = Some b2" "sb b2 (''HTTP/'' @ ?a)" "length ?a \<le> 15"
    using sb_append_num [OF b1(2), of "rs_major rs"] v by (auto simp: small_int_def)
  obtain b3 where b3: "strbuf_append b2 CHR ''.'' = Some b3" "sb b3 (''HTTP/'' @ ?a @ ''.'')"
    using sb_append [OF b2(2), of "CHR ''.''"] b2(3) by auto
  obtain b4 where b4: "strbuf_append_num b3 (rs_minor rs) = Some b4" "sb b4 (''HTTP/'' @ ?a @ ''.'' @ ?b)" "length ?b \<le> 15"
    using sb_append_num [OF b3(2), of "rs_minor rs"] v b2(3) by (auto simp: small_int_def)
  obtain b5 where b5: "strbuf_append b4 CHR '' '' = Some b5" "sb b5 (''HTTP/'' @ ?a @ ''.'' @ ?b @ '' '')"
    using sb_append [OF b4(2), of "CHR '' ''"] b2(3) b4(3) by auto
  obtain b6 where b6: "strbuf_append_num b5 (rs_code rs) = Some b6" "sb b6 (''HTTP/'' @ ?a @ ''.'' @ ?b @ '' '' @ ?c)" "length ?c \<le> 15"
    using sb_append_num [OF b5(2), of "rs_code rs"] v b2(3) b4(3) by (auto simp: small_int_def)
  obtain b7 where b7: "strbuf_append b6 CHR '' '' = Some b7" "sb b7 (''HTTP/'' @ ?a @ ''.'' @ ?b @ '' '' @ ?c @ '' '')"
    using sb_append [OF b6(2), of "CHR '' ''"] b2(3) b4(3) b6(3) by auto
  obtain b8 where b8: "strbuf_cat b7 msg = Some b8" "sb b8 (rsp_line ?a ?b ?c msg)"
    using sb_cat [OF b7(2) n] small b2(3) b4(3) b6(3) by auto
  obtain b9 where b9: "strbuf_cat b8 [CR, LF] = Some b9" "sb b9 (rsp_line ?a ?b ?c msg @ [CR, LF])"
    using sb_cat [OF b8(2), of "[CR, LF]"] small b2(3) b4(3) b6(3) by auto
  obtain b10 where "net_append_headers (rs_data rs) b9 = Some b10"
    "sb b10 ((rsp_line ?a ?b ?c msg @ [CR, LF]) @ header_text kvs @ [CR, LF])"
    using net_append_headers_text [OF e b9(2)] small b2(3) b4(3) b6(3) by auto
  then show ?thesis
    using msg b1(1) b2(1) b3(1) b4(1) b5(1) b6(1) b7(1) b8(1) b9(1)
    by (simp add: rsp_header_buf_def del: strbuf_cat.simps)
qed

text \<open>\<^verbatim>\<open>net_data_set_ent\<close> never returns for a value that is not empty.\<close>

lemma set_ent_loop_returns: "set_ent_loop b v = Some r \<Longrightarrow> v = []"
  by (rule set_ent_loop.raw_induct [where P = "\<lambda>b v r. v = []"]) (auto split: list.splits option.splits)

end
