(* ===== verification/Lqueue.thy ===== *)
theory Lqueue
  imports Prelude
begin

text \<open>
  The singly linked queue with a head and a tail pointer that the proxy writes out twice:
  for pending events (\<^verbatim>\<open>src/core/event.c\<close>) and for the requests of one client
  (\<^verbatim>\<open>struct net_handle_list\<close> in \<^verbatim>\<open>src/core/net_handle.h\<close>, appended in
  \<^verbatim>\<open>src/core/net_http.c\<close>, unlinked in \<^verbatim>\<open>src/core/net_handle.c\<close>).

  The nodes live in an explicit store; a node that was released is not in it, and following
  a pointer to it is undefined. \<open>fifo_queue\<close> is the contract the clients use.
\<close>

record 'a lnode =
  ln_val :: 'a
  ln_next :: "addr option"

record 'a lqueue =
  lq_nodes :: "addr \<Rightarrow> 'a lnode option"
  lq_head :: "addr option"
  lq_tail :: "addr option"
  lq_fresh :: addr

definition lq_empty :: "'a lqueue" where
  "lq_empty = \<lparr>lq_nodes = Map.empty, lq_head = None, lq_tail = None, lq_fresh = 1\<rparr>"

text \<open>Allocate a node, link it behind the tail, or make it head and tail.\<close>

definition lq_enq :: "'a lqueue \<Rightarrow> 'a \<Rightarrow> 'a lqueue option" where
  "lq_enq q x =
     (let a = lq_fresh q; n = \<lparr>ln_val = x, ln_next = None\<rparr>
      in case lq_tail q of
           None \<Rightarrow> Some (q\<lparr>lq_nodes := (lq_nodes q)(a \<mapsto> n), lq_head := Some a,
                          lq_tail := Some a, lq_fresh := Suc a\<rparr>)
         | Some t \<Rightarrow>
             (case lq_nodes q t of
                None \<Rightarrow> None
              | Some tn \<Rightarrow> Some (q\<lparr>lq_nodes := (lq_nodes q)(a \<mapsto> n, t \<mapsto> tn\<lparr>ln_next := Some a\<rparr>),
                                  lq_tail := Some a, lq_fresh := Suc a\<rparr>)))"

definition lq_first :: "'a lqueue \<Rightarrow> 'a option" where
  "lq_first q =
     (case lq_head q of None \<Rightarrow> None | Some a \<Rightarrow> map_option ln_val (lq_nodes q a))"

text \<open>Unlink and release the head node; the tail pointer is left alone.\<close>

definition lq_unlink :: "'a lqueue \<Rightarrow> 'a lqueue option" where
  "lq_unlink q =
     (case lq_head q of
        None \<Rightarrow> None
      | Some a \<Rightarrow>
          (case lq_nodes q a of
             None \<Rightarrow> None
           | Some n \<Rightarrow> Some (q\<lparr>lq_nodes := (lq_nodes q)(a := None), lq_head := ln_next n\<rparr>)))"

definition lq_clear_tail :: "'a lqueue \<Rightarrow> 'a lqueue" where
  "lq_clear_tail q = (if lq_head q = None then q\<lparr>lq_tail := None\<rparr> else q)"

definition lq_deq :: "'a lqueue \<Rightarrow> 'a lqueue option" where
  "lq_deq q = map_option lq_clear_tail (lq_unlink q)"

subsection \<open>Abstraction: the list of stored values\<close>

fun lpath :: "(addr \<Rightarrow> 'a lnode option) \<Rightarrow> addr option \<Rightarrow> addr list \<Rightarrow> bool" where
  "lpath m p [] = (p = None)"
| "lpath m p (a # as) =
     (p = Some a \<and> (case m a of None \<Rightarrow> False | Some n \<Rightarrow> lpath m (ln_next n) as))"

definition lq_rep :: "'a lqueue \<Rightarrow> addr list \<Rightarrow> bool" where
  "lq_rep q as \<longleftrightarrow> lpath (lq_nodes q) (lq_head q) as \<and> distinct as \<and>
     (as \<noteq> [] \<longrightarrow> lq_tail q = Some (last as)) \<and> (\<forall>a. a \<ge> lq_fresh q \<longrightarrow> lq_nodes q a = None)"

definition lq_vals :: "'a lqueue \<Rightarrow> addr list \<Rightarrow> 'a list" where
  "lq_vals q as = map (\<lambda>a. ln_val (the (lq_nodes q a))) as"

text \<open>\<open>lq_holds q xs\<close>: the queue stores exactly \<open>xs\<close>, first element at the head, and its
  tail pointer is null when it is empty.\<close>

definition lq_holds :: "'a lqueue \<Rightarrow> 'a list \<Rightarrow> bool" where
  "lq_holds q xs \<longleftrightarrow> (\<exists>as. lq_rep q as \<and> xs = lq_vals q as) \<and> (xs = [] \<longrightarrow> lq_tail q = None)"

lemma lpath_fun_upd_other: "a \<notin> set as \<Longrightarrow> lpath (m(a := v)) p as = lpath m p as"
  by (induction as arbitrary: p) (auto split: option.splits)

lemma lpath_in_dom: "lpath m p as \<Longrightarrow> a \<in> set as \<Longrightarrow> m a \<noteq> None"
  by (induction as arbitrary: p) (auto split: option.splits)

lemma lpath_snoc:
  "lpath m p (as @ [t]) \<Longrightarrow> distinct (as @ [t]) \<Longrightarrow> a \<notin> set (as @ [t]) \<Longrightarrow> m t = Some tn \<Longrightarrow>
   lpath (m(a \<mapsto> \<lparr>ln_val = x, ln_next = None\<rparr>, t \<mapsto> tn\<lparr>ln_next := Some a\<rparr>)) p (as @ [t, a])"
  by (induction as arbitrary: p) (auto split: option.splits)

lemma lpath_unique: "lpath m p as \<Longrightarrow> lpath m p bs \<Longrightarrow> as = bs"
proof (induction as arbitrary: p bs)
  case Nil
  then show ?case by (cases bs) auto
next
  case (Cons a as)
  then show ?case by (cases bs) (auto split: option.splits)
qed

lemma lq_holds_unique: "lq_holds q xs \<Longrightarrow> lq_holds q ys \<Longrightarrow> xs = ys"
  by (auto simp: lq_holds_def lq_rep_def dest: lpath_unique)

lemma lq_holds_empty [simp]: "lq_holds lq_empty xs \<longleftrightarrow> xs = []"
proof -
  have "lq_rep lq_empty []" by (simp add: lq_rep_def lq_empty_def)
  then have "lq_holds lq_empty []" by (auto simp: lq_holds_def lq_vals_def lq_empty_def)
  then show ?thesis using lq_holds_unique by blast
qed

lemma lq_rep_enq:
  assumes rep: "lq_rep q as" and tl: "as = [] \<Longrightarrow> lq_tail q = None"
  shows "\<exists>q'. lq_enq q x = Some q' \<and> lq_rep q' (as @ [lq_fresh q]) \<and>
    lq_vals q' (as @ [lq_fresh q]) = lq_vals q as @ [x] \<and> lq_tail q' = Some (lq_fresh q)"
proof (cases as rule: rev_cases)
  case Nil
  with rep tl show ?thesis
    by (auto simp: lq_enq_def lq_rep_def lq_vals_def Let_def)
next
  case (snoc bs t)
  have fresh: "lq_fresh q \<notin> set as"
    using rep lpath_in_dom [of "lq_nodes q" "lq_head q" as "lq_fresh q"] by (auto simp: lq_rep_def)
  have t: "lq_tail q = Some t" using rep snoc by (simp add: lq_rep_def)
  obtain tn where tn: "lq_nodes q t = Some tn"
    using rep snoc lpath_in_dom [of "lq_nodes q" "lq_head q" as t] by (auto simp: lq_rep_def)
  let ?q = "q\<lparr>lq_nodes := (lq_nodes q)(lq_fresh q \<mapsto> \<lparr>ln_val = x, ln_next = None\<rparr>,
      t \<mapsto> tn\<lparr>ln_next := Some (lq_fresh q)\<rparr>), lq_tail := Some (lq_fresh q), lq_fresh := Suc (lq_fresh q)\<rparr>"
  have "lq_enq q x = Some ?q" using t tn by (simp add: lq_enq_def Let_def)
  moreover have "lpath (lq_nodes ?q) (lq_head ?q) (as @ [lq_fresh q])"
    using lpath_snoc [of "lq_nodes q" "lq_head q" bs t "lq_fresh q" tn x] rep snoc fresh tn
    by (simp add: lq_rep_def)
  moreover have "lq_vals ?q (as @ [lq_fresh q]) = lq_vals q as @ [x]"
    using fresh snoc tn rep by (auto simp: lq_vals_def lq_rep_def)
  moreover have "t < lq_fresh q" using rep tn by (auto simp: lq_rep_def not_le [symmetric])
  ultimately show ?thesis using rep fresh snoc
    by (auto simp: lq_rep_def)
qed

lemma lq_rep_unlink:
  assumes "lq_rep q (a # as)"
  shows "\<exists>q'. lq_unlink q = Some q' \<and> lq_rep q' as \<and> lq_vals q' as = lq_vals q as \<and>
    lq_first q = Some (hd (lq_vals q (a # as)))"
proof -
  obtain n where n: "lq_nodes q a = Some n" "lq_head q = Some a" "lpath (lq_nodes q) (ln_next n) as"
    using assms by (auto simp: lq_rep_def split: option.splits)
  have "a \<notin> set as" using assms by (simp add: lq_rep_def)
  then show ?thesis
    using assms n by (auto simp: lq_unlink_def lq_rep_def lq_vals_def lq_first_def lpath_fun_upd_other)
qed

lemma lpath_None: "lpath m None as \<longleftrightarrow> as = []"
  by (cases as) auto

subsection \<open>The queue contract\<close>

locale fifo_queue =
  fixes holds :: "'q \<Rightarrow> 'a list \<Rightarrow> bool"
    and enq :: "'q \<Rightarrow> 'a \<Rightarrow> 'q option" and deq :: "'q \<Rightarrow> 'q option" and peek :: "'q \<Rightarrow> 'a option"
  assumes enq_holds: "holds q xs \<Longrightarrow> \<exists>q'. enq q x = Some q' \<and> holds q' (xs @ [x])"
    and deq_holds: "holds q (x # xs) \<Longrightarrow> \<exists>q'. deq q = Some q' \<and> holds q' xs"
    and peek_holds: "holds q (x # xs) \<Longrightarrow> peek q = Some x"
    and peek_empty: "holds q [] \<Longrightarrow> peek q = None"
begin

fun enq_all :: "'q \<Rightarrow> 'a list \<Rightarrow> 'q option" where
  "enq_all q [] = Some q"
| "enq_all q (x # xs) = (case enq q x of None \<Rightarrow> None | Some q' \<Rightarrow> enq_all q' xs)"

fun drain :: "nat \<Rightarrow> 'q \<Rightarrow> 'a list option" where
  "drain 0 q = Some []"
| "drain (Suc n) q =
     (case peek q of
        None \<Rightarrow> Some []
      | Some x \<Rightarrow> (case deq q of None \<Rightarrow> None | Some q' \<Rightarrow> map_option (Cons x) (drain n q')))"

lemma enq_all_holds: "holds q xs \<Longrightarrow> \<exists>q'. enq_all q ys = Some q' \<and> holds q' (xs @ ys)"
proof (induction ys arbitrary: q xs)
  case (Cons y ys)
  from enq_holds [OF Cons.prems, of y] obtain q1 where "enq q y = Some q1" "holds q1 (xs @ [y])"
    by blast
  with Cons.IH [of q1 "xs @ [y]"] show ?case by auto
qed simp

lemma drain_holds: "holds q xs \<Longrightarrow> length xs \<le> n \<Longrightarrow> drain n q = Some xs"
proof (induction n arbitrary: q xs)
  case (Suc n)
  show ?case
  proof (cases xs)
    case Nil
    with Suc.prems peek_empty show ?thesis by auto
  next
    case (Cons x zs)
    with Suc.prems peek_holds deq_holds obtain q' where "peek q = Some x" "deq q = Some q'" "holds q' zs"
      by blast
    with Suc Cons show ?thesis by auto
  qed
qed auto

text \<open>First in, first out: what is enqueued comes out in the order it went in.\<close>

lemma fifo:
  assumes "holds q []"
  shows "\<exists>q'. enq_all q xs = Some q' \<and> drain (length xs) q' = Some xs"
proof -
  from enq_all_holds [OF assms, of xs] obtain q' where "enq_all q xs = Some q'" "holds q' xs"
    by auto
  with drain_holds show ?thesis by auto
qed

end

lemma lq_holds_enq: "lq_holds q xs \<Longrightarrow> \<exists>q'. lq_enq q x = Some q' \<and> lq_holds q' (xs @ [x])"
proof -
  assume "lq_holds q xs"
  then obtain as where as: "lq_rep q as" "xs = lq_vals q as" "as = [] \<Longrightarrow> lq_tail q = None"
    by (auto simp: lq_holds_def lq_vals_def)
  from lq_rep_enq [OF as(1,3), of x] as(2) show ?thesis
    unfolding lq_holds_def by (metis append_is_Nil_conv list.distinct(1))
qed

lemma lq_rep_clear_tail: "lq_rep q as \<Longrightarrow> lq_rep (lq_clear_tail q) as \<and> lq_vals (lq_clear_tail q) as = lq_vals q as"
  by (auto simp: lq_rep_def lq_clear_tail_def lq_vals_def lpath_None)

lemma lq_holds_deq: "lq_holds q (x # xs) \<Longrightarrow> \<exists>q'. lq_deq q = Some q' \<and> lq_holds q' xs"
proof -
  assume "lq_holds q (x # xs)"
  then obtain a as where as: "lq_rep q (a # as)" "x # xs = lq_vals q (a # as)"
    by (auto simp: lq_holds_def lq_vals_def map_eq_Cons_conv)
  from lq_rep_unlink [OF as(1)] obtain q' where q': "lq_unlink q = Some q'" "lq_rep q' as"
    "lq_vals q' as = lq_vals q as" by blast
  have "xs = lq_vals q as" using as(2) by (simp add: lq_vals_def)
  moreover have "as = [] \<Longrightarrow> lq_tail (lq_clear_tail q') = None"
    using q'(2) by (simp add: lq_rep_def lq_clear_tail_def)
  ultimately show ?thesis
    using q' lq_rep_clear_tail [OF q'(2)] by (auto simp: lq_deq_def lq_holds_def lq_vals_def)
qed

lemma lq_holds_first: "lq_holds q (x # xs) \<Longrightarrow> lq_first q = Some x"
proof -
  assume "lq_holds q (x # xs)"
  then obtain a as where as: "lq_rep q (a # as)" "x # xs = lq_vals q (a # as)"
    by (auto simp: lq_holds_def lq_vals_def map_eq_Cons_conv)
  from lq_rep_unlink [OF as(1)] as(2) show ?thesis by (metis list.sel(1))
qed

lemma lq_holds_Nil: "lq_holds q [] \<Longrightarrow> lq_head q = None \<and> lq_tail q = None"
  by (auto simp: lq_holds_def lq_rep_def lq_vals_def)

interpretation lq: fifo_queue lq_holds lq_enq lq_deq lq_first
proof unfold_locales
  show "lq_first q = None" if "lq_holds q []" for q :: "'a lqueue"
    using lq_holds_Nil [OF that] by (simp add: lq_first_def)
qed (simp_all add: lq_holds_enq lq_holds_deq lq_holds_first)

end
