(* ===== verification/Event.thy ===== *)
theory Event
  imports Uthash Lqueue
begin

text \<open>
  The event queue, \<^verbatim>\<open>src/core/event.c\<close>: event identifiers, one handler per identifier in a
  hash table keyed by the four bytes of the identifier, and a linked queue of posted events
  that \<^verbatim>\<open>event_work\<close> dispatches until it is empty.

  Function pointers are values of a type \<open>'h\<close>; what calling one does is the argument \<open>call\<close>
  of \<open>event_work\<close>. The handlers may post further events and change the table, so the loop
  need not end: it is a partial function, \<^term>\<open>None\<close> if it does not return (or if a handler
  runs into undefined behaviour). The state is extensible; the other modules add theirs.
\<close>

type_synonym event_id = "32 word"

record ('h, 'd) event_state =
  ev_handlers :: "('h \<times> 'd) UT_hash_table"
  id_max :: event_id
  ev_queue :: "(event_id \<times> 'd) lqueue"

text \<open>The key bytes of a 32-bit integer, least significant first.\<close>

definition le32 :: "32 word \<Rightarrow> string" where
  "le32 w = (let n = unat w
             in [char_of n, char_of (n div 256), char_of (n div 65536), char_of (n div 16777216)])"

definition event_state_init :: "('h, 'd) event_state" where
  "event_state_init = \<lparr>ev_handlers = hash_empty, id_max = 0, ev_queue = lq_empty\<rparr>"

definition event_get_id :: "('h, 'd, 'm) event_state_scheme \<Rightarrow> event_id \<times> ('h, 'd, 'm) event_state_scheme" where
  "event_get_id s = (id_max s, s\<lparr>id_max := id_max s + 1\<rparr>)"

definition event_free_id :: "('h, 'd, 'm) event_state_scheme \<Rightarrow> event_id \<Rightarrow> ('h, 'd, 'm) event_state_scheme" where
  "event_free_id s eid = s\<lparr>ev_handlers := hash_remove (ev_handlers s) (le32 eid)\<rparr>"

definition event_set_handler ::
  "('h, 'd, 'm) event_state_scheme \<Rightarrow> event_id \<Rightarrow> 'h \<Rightarrow> 'd \<Rightarrow> ('h, 'd, 'm) event_state_scheme" where
  "event_set_handler s eid h d = s\<lparr>ev_handlers := hash_put (ev_handlers s) (le32 eid) (h, d)\<rparr>"

definition event_post ::
  "('h, 'd, 'm) event_state_scheme \<Rightarrow> event_id \<Rightarrow> 'd \<Rightarrow> ('h, 'd, 'm) event_state_scheme option" where
  "event_post s eid d = map_option (\<lambda>q. s\<lparr>ev_queue := q\<rparr>) (lq_enq (ev_queue s) (eid, d))"

text \<open>The body of the loop up to the release of the node: look the handler up and call it.\<close>

definition event_dispatch ::
  "('h \<Rightarrow> event_id \<Rightarrow> 'd \<Rightarrow> 'd \<Rightarrow> ('h, 'd, 'm) event_state_scheme \<Rightarrow> ('h, 'd, 'm) event_state_scheme option)
   \<Rightarrow> ('h, 'd, 'm) event_state_scheme \<Rightarrow> ('h, 'd, 'm) event_state_scheme option" where
  "event_dispatch call s =
     (case lq_first (ev_queue s) of
        None \<Rightarrow> None
      | Some (eid, d1) \<Rightarrow>
          (case hash_lookup (ev_handlers s) (le32 eid) of
             None \<Rightarrow> Some s
           | Some (h, d0) \<Rightarrow> call h eid d0 d1 s))"

partial_function (option) event_work ::
  "('h \<Rightarrow> event_id \<Rightarrow> 'd \<Rightarrow> 'd \<Rightarrow> ('h, 'd, 'm) event_state_scheme \<Rightarrow> ('h, 'd, 'm) event_state_scheme option)
   \<Rightarrow> ('h, 'd, 'm) event_state_scheme \<Rightarrow> ('h, 'd, 'm) event_state_scheme option" where
  "event_work call s =
     (case lq_head (ev_queue s) of
        None \<Rightarrow> Some (s\<lparr>ev_queue := (ev_queue s)\<lparr>lq_tail := None\<rparr>\<rparr>)
      | Some a \<Rightarrow>
          (case event_dispatch call s of
             None \<Rightarrow> None
           | Some s1 \<Rightarrow>
               (case lq_unlink (ev_queue s1) of
                  None \<Rightarrow> None
                | Some q \<Rightarrow> event_work call (s1\<lparr>ev_queue := q\<rparr>))))"

text \<open>\<^verbatim>\<open>event_module_done\<close>: drain the queue, then delete and free every handler entry.\<close>

definition event_module_done ::
  "('h \<Rightarrow> event_id \<Rightarrow> 'd \<Rightarrow> 'd \<Rightarrow> ('h, 'd, 'm) event_state_scheme \<Rightarrow> ('h, 'd, 'm) event_state_scheme option)
   \<Rightarrow> ('h, 'd, 'm) event_state_scheme \<Rightarrow> ('h, 'd, 'm) event_state_scheme option" where
  "event_module_done call s =
     map_option (\<lambda>s'. s'\<lparr>ev_handlers :=
        fold (\<lambda>e t. HASH_DELETE t e) (ht_app (ev_handlers s')) (ev_handlers s')\<rparr>) (event_work call s)"

subsection \<open>Identifiers and handlers\<close>

lemma le32_inj: "le32 v = le32 w \<longleftrightarrow> v = w"
proof
  assume "le32 v = le32 w"
  then have e: "unat v mod 256 = unat w mod 256" "unat v div 256 mod 256 = unat w div 256 mod 256"
    "unat v div 65536 mod 256 = unat w div 65536 mod 256"
    "unat v div 16777216 mod 256 = unat w div 16777216 mod 256"
    by (auto simp: le32_def Let_def char_of_eq_iff take_bit_eq_mod dest!: arg_cong [of _ _ "of_char :: char \<Rightarrow> nat"])
  have b: "unat v < 4294967296" "unat w < 4294967296"
    using unsigned_less [of v, where 'a = nat] unsigned_less [of w, where 'a = nat] by simp_all
  have dec: "n = n mod 256 + 256 * (n div 256 mod 256) + 65536 * (n div 65536 mod 256)
      + 16777216 * (n div 16777216 mod 256)" if n: "n < 4294967296" for n :: nat
  proof -
    have d: "n div 65536 = n div 256 div 256" "n div 16777216 = n div 256 div 256 div 256"
      by (simp_all add: div_mult2_eq [symmetric])
    have "n div 256 div 256 div 256 < 256" using n by (simp add: div_mult2_eq [symmetric])
    then have "n div 256 div 256 div 256 mod 256 = n div 256 div 256 div 256" by simp
    then show ?thesis
      using mult_div_mod_eq [of 256 n] mult_div_mod_eq [of 256 "n div 256"]
        mult_div_mod_eq [of 256 "n div 256 div 256"] unfolding d by linarith
  qed
  from dec [OF b(1), unfolded e, folded dec [OF b(2)]] have "unat v = unat w" .
  then show "v = w" by (rule unsigned_word_eqI)
qed simp

definition ev_handler_of :: "('h, 'd, 'm) event_state_scheme \<Rightarrow> event_id \<Rightarrow> ('h \<times> 'd) option" where
  "ev_handler_of s eid = hash_lookup (ev_handlers s) (le32 eid)"

definition event_inv :: "('h, 'd, 'm) event_state_scheme \<Rightarrow> bool" where
  "event_inv s \<longleftrightarrow> uniq_table (ev_handlers s) \<and> (\<exists>evs. lq_holds (ev_queue s) evs)"

lemma event_inv_init: "event_inv event_state_init"
  by (auto simp: event_inv_def event_state_init_def)

lemma event_inv_get_id: "event_inv s \<Longrightarrow> event_inv (snd (event_get_id s))"
  by (simp add: event_inv_def event_get_id_def)

lemma event_inv_set_handler: "event_inv s \<Longrightarrow> event_inv (event_set_handler s e h d)"
  by (simp add: event_inv_def event_set_handler_def hash_simps)

lemma event_inv_free_id: "event_inv s \<Longrightarrow> event_inv (event_free_id s e)"
  by (simp add: event_inv_def event_free_id_def hash_simps)

lemma event_post_holds:
  assumes "lq_holds (ev_queue s) evs"
  shows "\<exists>q. event_post s e d = Some (s\<lparr>ev_queue := q\<rparr>) \<and> lq_holds q (evs @ [(e, d)])"
  using lq.enq_holds [OF assms, of "(e, d)"] by (auto simp: event_post_def)

lemma handler_after_set:
  "uniq_table (ev_handlers s) \<Longrightarrow>
   ev_handler_of (event_set_handler s e h d) e' = (if e' = e then Some (h, d) else ev_handler_of s e')"
  by (simp add: ev_handler_of_def event_set_handler_def hash_simps le32_inj)

lemma handler_after_free:
  "uniq_table (ev_handlers s) \<Longrightarrow>
   ev_handler_of (event_free_id s e) e' = (if e' = e then None else ev_handler_of s e')"
  by (simp add: ev_handler_of_def event_free_id_def hash_simps le32_inj)

text \<open>The handlers of events form a registry.\<close>

interpretation ev: registry "\<lambda>s. uniq_table (ev_handlers s)" ev_handler_of
  "\<lambda>s e hd. event_set_handler s e (fst hd) (snd hd)" event_free_id
proof unfold_locales
  show "uniq_table (ev_handlers (event_set_handler s e (fst hd) (snd hd)))" "uniq_table (ev_handlers (event_free_id s e))"
    if "uniq_table (ev_handlers s)" for s :: "('a, 'b, 'c) event_state_scheme" and e and hd :: "'a \<times> 'b"
    using that by (simp_all add: event_set_handler_def event_free_id_def hash_simps)
qed (simp_all add: handler_after_set handler_after_free)

text \<open>The identifiers handed out by consecutive calls.\<close>

fun event_get_ids :: "nat \<Rightarrow> ('h, 'd, 'm) event_state_scheme \<Rightarrow> event_id list" where
  "event_get_ids 0 s = []"
| "event_get_ids (Suc n) s = fst (event_get_id s) # event_get_ids n (snd (event_get_id s))"

lemma event_get_ids_eq: "event_get_ids n s = map (\<lambda>i. id_max s + of_nat i) [0..<n]"
proof (induction n arbitrary: s)
  case (Suc n)
  have "map (\<lambda>i. id_max s + of_nat i) [0..<Suc n] =
      id_max s # map (\<lambda>i. id_max s + 1 + of_nat i) [0..<n]"
    by (subst upt_conv_Cons) (simp_all add: map_Suc_upt [symmetric] o_def add_ac del: upt_Suc)
  with Suc show ?case by (simp add: event_get_id_def)
qed simp

subsection \<open>The loop\<close>

lemma lq_unlink_holds:
  assumes "lq_rep q as" "lq_vals q as = x # xs"
  shows "lq_first q = Some x \<and> lq_head q \<noteq> None \<and>
    (\<exists>q' as'. lq_unlink q = Some q' \<and> lq_rep q' as' \<and> lq_vals q' as' = xs)"
proof -
  from assms(2) obtain a as' where as: "as = a # as'" by (cases as) (auto simp: lq_vals_def)
  from lq_rep_unlink [OF assms(1) [unfolded as]] obtain q' where
    q': "lq_unlink q = Some q'" "lq_rep q' as'" "lq_vals q' as' = lq_vals q as'"
    "lq_first q = Some (hd (lq_vals q (a # as')))" by blast
  have "lq_vals q as' = xs" "hd (lq_vals q (a # as')) = x" using assms(2) as by (auto simp: lq_vals_def)
  moreover have "lq_head q = Some a" using assms(1) as by (simp add: lq_rep_def)
  ultimately show ?thesis using q' by auto
qed

text \<open>One turn: the oldest event is dispatched; what its handler posted stands behind the
  events that were already waiting.\<close>

lemma event_work_turn:
  assumes rep: "lq_rep (ev_queue s) as" "lq_vals (ev_queue s) as = (eid, d1) # evs"
    and call: "event_dispatch call s = Some s1"
    and post: "lq_rep (ev_queue s1) bs" "lq_vals (ev_queue s1) bs = (eid, d1) # evs @ posted"
  shows "\<exists>q' cs. event_work call s = event_work call (s1\<lparr>ev_queue := q'\<rparr>) \<and>
    lq_unlink (ev_queue s1) = Some q' \<and> lq_rep q' cs \<and> lq_vals q' cs = evs @ posted"
proof -
  from lq_unlink_holds [OF rep] obtain a where "lq_head (ev_queue s) = Some a" by blast
  moreover from lq_unlink_holds [OF post] obtain q' cs where
    q': "lq_unlink (ev_queue s1) = Some q'" "lq_rep q' cs" "lq_vals q' cs = evs @ posted" by blast
  ultimately have "event_work call s = event_work call (s1\<lparr>ev_queue := q'\<rparr>)"
    by (subst event_work.simps) (simp add: call q'(1))
  with q' show ?thesis by blast
qed

lemma event_work_empty:
  assumes "lq_rep (ev_queue s) as" "lq_vals (ev_queue s) as = []"
  shows "event_work call s = Some (s\<lparr>ev_queue := (ev_queue s)\<lparr>lq_tail := None\<rparr>\<rparr>)"
  using assms by (subst event_work.simps) (simp add: lq_rep_def lq_vals_def)

text \<open>Running one event through its handler, on a state whose queue is out of sight.\<close>

definition handle_event ::
  "('h \<Rightarrow> event_id \<Rightarrow> 'd \<Rightarrow> 'd \<Rightarrow> ('h, 'd, 'm) event_state_scheme \<Rightarrow> ('h, 'd, 'm) event_state_scheme)
   \<Rightarrow> event_id \<times> 'd \<Rightarrow> ('h, 'd, 'm) event_state_scheme \<Rightarrow> ('h, 'd, 'm) event_state_scheme" where
  "handle_event act ev s =
     (case ev_handler_of s (fst ev) of None \<Rightarrow> s | Some (h, d0) \<Rightarrow> act h (fst ev) d0 (snd ev) s)"

lemma event_work_fold:
  assumes indep: "\<And>h e d0 d1 s q. act h e d0 d1 (s\<lparr>ev_queue := q\<rparr>) = (act h e d0 d1 s)\<lparr>ev_queue := q\<rparr>"
  shows "lq_rep (ev_queue s) as \<Longrightarrow> lq_vals (ev_queue s) as = evs \<Longrightarrow>
    \<exists>q. event_work (\<lambda>h e d0 d1 s. Some (act h e d0 d1 s)) s = Some ((fold (handle_event act) evs s)\<lparr>ev_queue := q\<rparr>)
      \<and> lq_holds q []"
proof (induction evs arbitrary: s as)
  case Nil
  then have "as = []" by (simp add: lq_vals_def)
  with Nil have "lq_holds ((ev_queue s)\<lparr>lq_tail := None\<rparr>) []"
    by (auto simp: lq_holds_def lq_rep_def lq_vals_def intro!: exI [of _ "[]"])
  with event_work_empty [OF Nil] show ?case by auto
next
  case (Cons ev evs)
  let ?call = "\<lambda>h e d0 d1 s. Some (act h e d0 d1 s)"
  have run_q: "handle_event act e (s\<lparr>ev_queue := q\<rparr>) = (handle_event act e s)\<lparr>ev_queue := q\<rparr>" for e s q
    by (simp add: handle_event_def ev_handler_of_def indep split: option.splits)
  have fold_q: "fold (handle_event act) es (s\<lparr>ev_queue := q\<rparr>) = (fold (handle_event act) es s)\<lparr>ev_queue := q\<rparr>"
    for es s q by (induction es arbitrary: s) (simp_all add: run_q)
  have same: "ev_queue (handle_event act ev s) = ev_queue s"
    using arg_cong [OF run_q [of ev "ev_queue s" s], where f = ev_queue] by simp
  have call: "event_dispatch ?call s = Some (handle_event act ev s)"
    using lq_unlink_holds [OF Cons.prems]
    by (auto simp: event_dispatch_def handle_event_def ev_handler_of_def split: option.splits prod.splits)
  obtain eid d1 where ev: "ev = (eid, d1)" by (cases ev)
  from event_work_turn [OF Cons.prems(1) Cons.prems(2) [unfolded ev] call, of as "[]"] same Cons.prems ev
  obtain q' cs where w: "event_work ?call s = event_work ?call ((handle_event act ev s)\<lparr>ev_queue := q'\<rparr>)"
    "lq_rep q' cs" "lq_vals q' cs = evs" by auto
  from Cons.IH [of "(handle_event act ev s)\<lparr>ev_queue := q'\<rparr>" cs] w show ?case
    by (auto simp: fold_q)
qed

end
