(* ===== verification/NetPull.thy ===== *)
theory NetPull
  imports Event
begin

text \<open>
  The epoll wrapper, \<^verbatim>\<open>src/core/net_pull.c\<close>, with \<^verbatim>\<open>proxy_epoll_err\<close> of
  \<^verbatim>\<open>src/core/net_utils.c\<close>.

  Each registered descriptor has an entry with up to three handlers. A readiness event
  clears the read and write handlers and then calls them (they are one-shot; a handler that
  wants to be called again registers itself again), after the error handler if the event
  reports an error. A handler is a value of type \<open>'c\<close> (function pointer and data).

  Of the kernel the model keeps the open descriptors and the epoll interest list: adding a
  descriptor that is not open or already listed fails, deleting one that is not listed
  fails, and closing a descriptor drops it from the list. Exhaustion of kernel memory is
  not modelled. The descriptors \<open>epoll_wait\<close> reports are an argument.
\<close>

type_synonym fd = "32 word"

record 'c net_handler_t =
  nh_fd :: fd
  h_read :: "'c option"
  h_write :: "'c option"
  h_err :: "'c option"

record ('h, 'd, 'c) pull_state = "('h, 'd) event_state" +
  np_handlers :: "'c net_handler_t UT_hash_table"
  epollfd :: int
  fd_cnt :: int
  k_open :: "fd set"
  k_interest :: "fd set"

record epoll_event =
  ev_events :: "32 word"
  ev_fd :: fd

definition EPOLLIN :: "32 word" where "EPOLLIN = 0x001"
definition EPOLLOUT :: "32 word" where "EPOLLOUT = 0x004"
definition EPOLLERR :: "32 word" where "EPOLLERR = 0x008"
definition EPOLLHUP :: "32 word" where "EPOLLHUP = 0x010"
definition EPOLLRDHUP :: "32 word" where "EPOLLRDHUP = 0x2000"

lemmas epoll_flags = EPOLLIN_def EPOLLOUT_def EPOLLERR_def EPOLLHUP_def EPOLLRDHUP_def

definition proxy_epoll_err :: "epoll_event \<Rightarrow> bool" where
  "proxy_epoll_err ev \<longleftrightarrow> ev_events ev AND EPOLLERR \<noteq> 0 \<or> ev_events ev AND EPOLLHUP \<noteq> 0 \<or>
     ev_events ev AND EPOLLRDHUP \<noteq> 0"

text \<open>Kernel side.\<close>

definition epoll_ctl_add :: "('h, 'd, 'c, 'm) pull_state_scheme \<Rightarrow> fd \<Rightarrow> ('h, 'd, 'c, 'm) pull_state_scheme option" where
  "epoll_ctl_add s fd =
     (if 0 \<le> epollfd s \<and> fd \<in> k_open s \<and> fd \<notin> k_interest s
      then Some (s\<lparr>k_interest := insert fd (k_interest s)\<rparr>) else None)"

definition epoll_ctl_del :: "('h, 'd, 'c, 'm) pull_state_scheme \<Rightarrow> fd \<Rightarrow> ('h, 'd, 'c, 'm) pull_state_scheme option" where
  "epoll_ctl_del s fd =
     (if 0 \<le> epollfd s \<and> fd \<in> k_interest s
      then Some (s\<lparr>k_interest := k_interest s - {fd}\<rparr>) else None)"

definition k_close :: "('h, 'd, 'c, 'm) pull_state_scheme \<Rightarrow> fd \<Rightarrow> ('h, 'd, 'c, 'm) pull_state_scheme" where
  "k_close s fd = s\<lparr>k_open := k_open s - {fd}, k_interest := k_interest s - {fd}\<rparr>"

text \<open>\<^verbatim>\<open>net_pull_init\<close>: the argument is what \<^verbatim>\<open>epoll_create\<close> returns.\<close>

definition net_pull_init :: "int \<Rightarrow> ('h, 'd, 'c, 'm) pull_state_scheme \<Rightarrow> int \<times> ('h, 'd, 'c, 'm) pull_state_scheme" where
  "net_pull_init r s = (if r < 0 then -1 else 0, s\<lparr>epollfd := r\<rparr>)"

definition net_pull_add ::
  "('h, 'd, 'c, 'm) pull_state_scheme \<Rightarrow> fd \<Rightarrow> 'c option \<Rightarrow> int \<times> ('h, 'd, 'c, 'm) pull_state_scheme" where
  "net_pull_add s fd err =
     (case epoll_ctl_add s fd of
        None \<Rightarrow> (-1, s)
      | Some s1 \<Rightarrow>
          (0, (case HASH_FIND (np_handlers s1) (le32 fd) of
                 None \<Rightarrow> s1\<lparr>np_handlers := HASH_ADD (np_handlers s1) (le32 fd)
                          \<lparr>nh_fd = fd, h_read = None, h_write = None, h_err = err\<rparr>\<rparr>
               | Some e \<Rightarrow> s1)\<lparr>fd_cnt := fd_cnt s1 + 1\<rparr>))"

definition net_pull_set_handler ::
  "('h, 'd, 'c, 'm) pull_state_scheme \<Rightarrow> fd \<Rightarrow> 32 word \<Rightarrow> 'c option \<Rightarrow> int \<times> ('h, 'd, 'c, 'm) pull_state_scheme" where
  "net_pull_set_handler s fd flag c =
     (case HASH_FIND (np_handlers s) (le32 fd) of
        None \<Rightarrow> (-1, s)
      | Some e \<Rightarrow>
          (let h0 = h_val e;
               h1 = (if flag AND EPOLLIN \<noteq> 0 then h0\<lparr>h_read := c\<rparr> else h0);
               h2 = (if flag AND EPOLLOUT \<noteq> 0 then h1\<lparr>h_write := c\<rparr> else h1)
           in (0, s\<lparr>np_handlers := hash_assign (np_handlers s) (h_id e) h2\<rparr>)))"

definition net_pull_del :: "('h, 'd, 'c, 'm) pull_state_scheme \<Rightarrow> fd \<Rightarrow> int \<times> ('h, 'd, 'c, 'm) pull_state_scheme" where
  "net_pull_del s fd =
     (case HASH_FIND (np_handlers s) (le32 fd) of
        None \<Rightarrow> (-1, s)
      | Some e \<Rightarrow>
          (case epoll_ctl_del s fd of
             None \<Rightarrow> (-1, s)
           | Some s1 \<Rightarrow> (0, s1\<lparr>np_handlers := HASH_DELETE (np_handlers s1) e, fd_cnt := fd_cnt s1 - 1\<rparr>)))"

definition maybe_call :: "('c \<Rightarrow> epoll_event \<Rightarrow> 's \<Rightarrow> 's option) \<Rightarrow> 'c option \<Rightarrow> epoll_event \<Rightarrow> 's \<Rightarrow> 's option" where
  "maybe_call call c ev s = (case c of None \<Rightarrow> Some s | Some h \<Rightarrow> call h ev s)"

text \<open>One event of \<^verbatim>\<open>net_pull_work\<close>: the entry is copied, its read and write handlers are
  cleared, then the copy is called.\<close>

definition pull_event ::
  "('c \<Rightarrow> epoll_event \<Rightarrow> ('h, 'd, 'c, 'm) pull_state_scheme \<Rightarrow> ('h, 'd, 'c, 'm) pull_state_scheme option)
   \<Rightarrow> epoll_event \<Rightarrow> ('h, 'd, 'c, 'm) pull_state_scheme \<Rightarrow> ('h, 'd, 'c, 'm) pull_state_scheme option" where
  "pull_event call ev s =
     (case HASH_FIND (np_handlers s) (le32 (ev_fd ev)) of
        None \<Rightarrow> Some s
      | Some e \<Rightarrow>
          (let nh = h_val e;
               s1 = s\<lparr>np_handlers := hash_assign (np_handlers s) (h_id e)
                        (nh\<lparr>h_read := None, h_write := None\<rparr>)\<rparr>
           in Option.bind (maybe_call call (if proxy_epoll_err ev then h_err nh else None) ev s1)
                (\<lambda>s2. Option.bind (maybe_call call (h_read nh) ev s2)
                  (\<lambda>s3. maybe_call call (h_write nh) ev s3))))"

fun pull_events ::
  "('c \<Rightarrow> epoll_event \<Rightarrow> ('h, 'd, 'c, 'm) pull_state_scheme \<Rightarrow> ('h, 'd, 'c, 'm) pull_state_scheme option)
   \<Rightarrow> epoll_event list \<Rightarrow> ('h, 'd, 'c, 'm) pull_state_scheme \<Rightarrow> ('h, 'd, 'c, 'm) pull_state_scheme option" where
  "pull_events call [] s = Some s"
| "pull_events call (ev # evs) s = Option.bind (pull_event call ev s) (pull_events call evs)"

text \<open>\<^verbatim>\<open>net_pull_work\<close>: \<open>waited\<close> is what \<^verbatim>\<open>epoll_wait\<close> delivers (\<^term>\<open>None\<close>: it failed).\<close>

definition net_pull_work ::
  "('c \<Rightarrow> epoll_event \<Rightarrow> ('h, 'd, 'c, 'm) pull_state_scheme \<Rightarrow> ('h, 'd, 'c, 'm) pull_state_scheme option)
   \<Rightarrow> epoll_event list option \<Rightarrow> ('h, 'd, 'c, 'm) pull_state_scheme
   \<Rightarrow> (int \<times> ('h, 'd, 'c, 'm) pull_state_scheme) option" where
  "net_pull_work call waited s =
     (if epollfd s < 0 then Some (-1, s)
      else if fd_cnt s = 0 then Some (-1, s)
      else case waited of
             None \<Rightarrow> Some (-1, s)
           | Some evs \<Rightarrow> map_option (\<lambda>s'. (0, s')) (pull_events call evs s))"

text \<open>\<^verbatim>\<open>net_pull_done\<close>: every descriptor is closed and the table cleared before the handlers
  are told, with an error event.\<close>

fun done_calls ::
  "('c \<Rightarrow> epoll_event \<Rightarrow> 's \<Rightarrow> 's option) \<Rightarrow> 'c net_handler_t list \<Rightarrow> 's \<Rightarrow> 's option" where
  "done_calls call [] s = Some s"
| "done_calls call (nh # nhs) s =
     (let ev = \<lparr>ev_events = EPOLLERR, ev_fd = nh_fd nh\<rparr>
      in Option.bind (maybe_call call (h_err nh) ev s)
           (\<lambda>s2. Option.bind (maybe_call call (h_read nh) ev s2)
             (\<lambda>s3. Option.bind (maybe_call call (h_write nh) ev s3)
               (done_calls call nhs))))"

definition net_pull_done ::
  "('c \<Rightarrow> epoll_event \<Rightarrow> ('h, 'd, 'c, 'm) pull_state_scheme \<Rightarrow> ('h, 'd, 'c, 'm) pull_state_scheme option)
   \<Rightarrow> ('h, 'd, 'c, 'm) pull_state_scheme \<Rightarrow> ('h, 'd, 'c, 'm) pull_state_scheme option" where
  "net_pull_done call s =
     (if HASH_COUNT (np_handlers s) = 0 then Some s
      else (let v = map snd (hash_iter (np_handlers s));
                s1 = fold (\<lambda>nh s. k_close s (nh_fd nh)) v s
            in done_calls call v (s1\<lparr>np_handlers := HASH_CLEAR (np_handlers s1)\<rparr>)))"

subsection \<open>Registered descriptors\<close>

definition np_handler_of :: "('h, 'd, 'c, 'm) pull_state_scheme \<Rightarrow> fd \<Rightarrow> 'c net_handler_t option" where
  "np_handler_of s fd = hash_lookup (np_handlers s) (le32 fd)"

text \<open>
  The module invariant: entries have distinct descriptors, exactly the descriptors of the
  interest list have an entry, they are open, and \<^verbatim>\<open>fd_cnt\<close> counts them.
\<close>

definition pull_inv :: "('h, 'd, 'c, 'm) pull_state_scheme \<Rightarrow> bool" where
  "pull_inv s \<longleftrightarrow> uniq_table (np_handlers s) \<and>
     (\<forall>fd. np_handler_of s fd \<noteq> None \<longleftrightarrow> fd \<in> k_interest s) \<and> k_interest s \<subseteq> k_open s \<and>
     fd_cnt s = int (card (k_interest s))"

lemma hash_put_unfold_None: "HASH_FIND t k = None \<Longrightarrow> hash_put t k v = HASH_ADD t k v"
  by (simp add: hash_put_def)

lemma hash_put_unfold_Some: "HASH_FIND t k = Some e \<Longrightarrow> hash_put t k v = hash_assign t (h_id e) v"
  by (simp add: hash_put_def)

lemma hash_remove_unfold_Some: "HASH_FIND t k = Some e \<Longrightarrow> hash_remove t k = HASH_DELETE t e"
  by (simp add: hash_remove_def)

lemmas hash_fold = hash_put_unfold_None [symmetric] hash_put_unfold_Some [symmetric]
  hash_remove_unfold_Some [symmetric]

lemma np_handler_of_find: "np_handler_of s fd = map_option h_val (HASH_FIND (np_handlers s) (le32 fd))"
  by (simp add: np_handler_of_def hash_lookup_def)

lemma finite_fds [simp]: "finite (A :: fd set)"
  by simp

lemma net_pull_add_ok:
  assumes inv: "pull_inv s" and k: "0 \<le> epollfd s" "fd \<in> k_open s" "fd \<notin> k_interest s"
  shows "\<exists>s'. net_pull_add s fd err = (0, s') \<and> pull_inv s' \<and> k_open s' = k_open s \<and>
     epollfd s' = epollfd s \<and>
     np_handler_of s' = (np_handler_of s)(fd \<mapsto> \<lparr>nh_fd = fd, h_read = None, h_write = None, h_err = err\<rparr>)"
proof -
  have none: "HASH_FIND (np_handlers s) (le32 fd) = None"
    using inv k(3) by (auto simp: pull_inv_def np_handler_of_find)
  let ?v = "\<lparr>nh_fd = fd, h_read = None, h_write = None, h_err = err\<rparr>"
  let ?s = "s\<lparr>k_interest := insert fd (k_interest s), np_handlers := hash_put (np_handlers s) (le32 fd) ?v,
      fd_cnt := fd_cnt s + 1\<rparr>"
  have eq: "net_pull_add s fd err = (0, ?s)"
    using none k by (simp add: net_pull_add_def epoll_ctl_add_def hash_put_unfold_None)
  have u: "uniq_table (np_handlers s)" using inv by (simp add: pull_inv_def)
  then have h: "np_handler_of ?s = (np_handler_of s)(fd \<mapsto> ?v)"
    by (auto simp: np_handler_of_def hash_simps le32_inj fun_eq_iff)
  have "pull_inv ?s"
    using inv k u unfolding pull_inv_def h by (auto simp: hash_simps card_insert_if)
  with eq h show ?thesis by auto
qed

lemma net_pull_add_fail:
  "\<not> (0 \<le> epollfd s \<and> fd \<in> k_open s \<and> fd \<notin> k_interest s) \<Longrightarrow> net_pull_add s fd err = (-1, s)"
  by (auto simp: net_pull_add_def epoll_ctl_add_def)

lemma net_pull_set_handler_ok:
  assumes inv: "pull_inv s" and fd: "np_handler_of s fd = Some nh"
  shows "\<exists>s'. net_pull_set_handler s fd flag c = (0, s') \<and> pull_inv s' \<and> k_open s' = k_open s \<and>
     k_interest s' = k_interest s \<and>
     np_handler_of s' = (np_handler_of s)(fd \<mapsto>
       nh\<lparr>h_read := (if flag AND EPOLLIN \<noteq> 0 then c else h_read nh),
          h_write := (if flag AND EPOLLOUT \<noteq> 0 then c else h_write nh)\<rparr>)"
proof -
  from fd obtain e where e: "HASH_FIND (np_handlers s) (le32 fd) = Some e" "h_val e = nh"
    by (auto simp: np_handler_of_find)
  let ?v = "nh\<lparr>h_read := (if flag AND EPOLLIN \<noteq> 0 then c else h_read nh),
          h_write := (if flag AND EPOLLOUT \<noteq> 0 then c else h_write nh)\<rparr>"
  let ?s = "s\<lparr>np_handlers := hash_put (np_handlers s) (le32 fd) ?v\<rparr>"
  have eq: "net_pull_set_handler s fd flag c = (0, ?s)"
    using e by (simp add: net_pull_set_handler_def Let_def hash_put_unfold_Some)
  have u: "uniq_table (np_handlers s)" using inv by (simp add: pull_inv_def)
  then have h: "np_handler_of ?s = (np_handler_of s)(fd \<mapsto> ?v)"
    by (auto simp: np_handler_of_def hash_simps le32_inj fun_eq_iff)
  have "fd \<in> k_interest s" using inv fd by (auto simp: pull_inv_def)
  then have "pull_inv ?s" using inv u unfolding pull_inv_def h by (auto simp: hash_simps)
  with eq h show ?thesis by auto
qed

lemma net_pull_set_handler_fail:
  "np_handler_of s fd = None \<Longrightarrow> net_pull_set_handler s fd flag c = (-1, s)"
  by (auto simp: net_pull_set_handler_def np_handler_of_find)

lemma net_pull_del_ok:
  assumes inv: "pull_inv s" and fd: "0 \<le> epollfd s" "fd \<in> k_interest s"
  shows "\<exists>s'. net_pull_del s fd = (0, s') \<and> pull_inv s' \<and> k_open s' = k_open s \<and>
     k_interest s' = k_interest s - {fd} \<and> np_handler_of s' = (np_handler_of s)(fd := None)"
proof -
  from inv fd(2) obtain e where e: "HASH_FIND (np_handlers s) (le32 fd) = Some e"
    by (fastforce simp: pull_inv_def np_handler_of_find)
  let ?s = "s\<lparr>k_interest := k_interest s - {fd}, np_handlers := hash_remove (np_handlers s) (le32 fd),
      fd_cnt := fd_cnt s - 1\<rparr>"
  have eq: "net_pull_del s fd = (0, ?s)"
    using e fd by (simp add: net_pull_del_def epoll_ctl_del_def hash_remove_unfold_Some)
  have u: "uniq_table (np_handlers s)" using inv by (simp add: pull_inv_def)
  then have h: "np_handler_of ?s = (np_handler_of s)(fd := None)"
    by (auto simp: np_handler_of_def hash_simps le32_inj fun_eq_iff)
  have "card (k_interest s) = Suc (card (k_interest s - {fd}))"
    using fd(2) by (metis card_Suc_Diff1 finite_fds)
  then have "pull_inv ?s" using inv u unfolding pull_inv_def h by (auto simp: hash_simps)
  with eq h show ?thesis by auto
qed

lemma net_pull_del_fail:
  "pull_inv s \<Longrightarrow> fd \<notin> k_interest s \<Longrightarrow> net_pull_del s fd = (-1, s)"
  by (auto simp: net_pull_del_def pull_inv_def np_handler_of_find split: option.splits)

lemma pull_inv_k_close: "pull_inv s \<Longrightarrow> fd \<notin> k_interest s \<Longrightarrow> pull_inv (k_close s fd)"
  by (auto simp: pull_inv_def k_close_def np_handler_of_def)

subsection \<open>Dispatch\<close>

lemma pull_event_unregistered:
  "np_handler_of s (ev_fd ev) = None \<Longrightarrow> pull_event call ev s = Some s"
  by (auto simp: pull_event_def np_handler_of_find)

text \<open>What a handler sees when an event for its descriptor arrives.\<close>

lemma pull_event_calls:
  assumes inv: "pull_inv s" and fd: "np_handler_of s (ev_fd ev) = Some nh"
  shows "\<exists>s1. pull_event call ev s =
      Option.bind (maybe_call call (if proxy_epoll_err ev then h_err nh else None) ev s1)
        (\<lambda>s2. Option.bind (maybe_call call (h_read nh) ev s2) (\<lambda>s3. maybe_call call (h_write nh) ev s3))
    \<and> pull_inv s1 \<and>
    np_handler_of s1 = (np_handler_of s)(ev_fd ev \<mapsto> nh\<lparr>h_read := None, h_write := None\<rparr>)"
proof -
  from fd obtain e where e: "HASH_FIND (np_handlers s) (le32 (ev_fd ev)) = Some e" "h_val e = nh"
    by (auto simp: np_handler_of_find)
  let ?v = "nh\<lparr>h_read := None, h_write := None\<rparr>"
  let ?s = "s\<lparr>np_handlers := hash_put (np_handlers s) (le32 (ev_fd ev)) ?v\<rparr>"
  have u: "uniq_table (np_handlers s)" using inv by (simp add: pull_inv_def)
  then have h: "np_handler_of ?s = (np_handler_of s)(ev_fd ev \<mapsto> ?v)"
    by (auto simp: np_handler_of_def hash_simps le32_inj fun_eq_iff)
  have "ev_fd ev \<in> k_interest s" using inv fd by (auto simp: pull_inv_def)
  then have "pull_inv ?s" using inv u unfolding pull_inv_def h by (auto simp: hash_simps)
  with h e show ?thesis
    by (intro exI [of _ ?s]) (simp add: pull_event_def Let_def hash_put_unfold_Some)
qed

end
