(* ===== verification/Mem.thy ===== *)
theory Mem
  imports Prelude
begin

text \<open>
  Reference-counted memory, \<^verbatim>\<open>src/core/mem.c\<close>.

  \<^verbatim>\<open>mem_alloc_auto\<close> puts a counter in front of the block and returns the address behind
  it; \<^verbatim>\<open>mem_incref\<close> and \<^verbatim>\<open>mem_decref\<close> move the counter, and the block is finalised and
  released when it reaches zero. A heap of blocks with payload \<open>'a\<close> maps a live address
  to its counter and payload. An address that is not mapped has been released (or was
  never allocated), so every access to it is undefined and yields \<^term>\<open>None\<close>. Addresses
  are not reused, which keeps a stale pointer distinguishable from a fresh block.
\<close>

record 'a rheap =
  cells :: "addr \<Rightarrow> (int \<times> 'a) option"
  next_addr :: addr

definition rheap_empty :: "'a rheap" where
  "rheap_empty = \<lparr>cells = Map.empty, next_addr = 1\<rparr>"

definition mem_alloc_auto :: "'a rheap \<Rightarrow> 'a \<Rightarrow> addr \<times> 'a rheap" where
  "mem_alloc_auto h x =
     (next_addr h, h\<lparr>cells := (cells h)(next_addr h \<mapsto> (1, x)), next_addr := Suc (next_addr h)\<rparr>)"

definition mem_incref :: "'a rheap \<Rightarrow> addr \<Rightarrow> 'a rheap option" where
  "mem_incref h p =
     (case cells h p of
        None \<Rightarrow> None
      | Some (n, x) \<Rightarrow> Some (h\<lparr>cells := (cells h)(p \<mapsto> (n + 1, x))\<rparr>))"

text \<open>
  \<open>mem_decref h p fin s\<close>: \<open>fin\<close> is the finaliser, acting on the rest of the state \<open>s\<close>. It
  runs before the block is released, as in the code; the result is the C return value
  (0: released, 1: still referenced), the heap and the rest of the state.
\<close>

definition mem_decref ::
  "'a rheap \<Rightarrow> addr \<Rightarrow> ('a \<Rightarrow> 's \<Rightarrow> 's) \<Rightarrow> 's \<Rightarrow> (int \<times> 'a rheap \<times> 's) option" where
  "mem_decref h p fin s =
     (case cells h p of
        None \<Rightarrow> None
      | Some (n, x) \<Rightarrow>
          if n - 1 = 0 then Some (0, h\<lparr>cells := (cells h)(p := None)\<rparr>, fin x s)
          else Some (1, h\<lparr>cells := (cells h)(p \<mapsto> (n - 1, x))\<rparr>, s))"

text \<open>Access to the payload of a live block.\<close>

definition mem_read :: "'a rheap \<Rightarrow> addr \<Rightarrow> 'a option" where
  "mem_read h p = map_option snd (cells h p)"

definition mem_write :: "'a rheap \<Rightarrow> addr \<Rightarrow> 'a \<Rightarrow> 'a rheap option" where
  "mem_write h p x =
     (case cells h p of
        None \<Rightarrow> None
      | Some (n, y) \<Rightarrow> Some (h\<lparr>cells := (cells h)(p \<mapsto> (n, x))\<rparr>))"

definition mem_cnt :: "'a rheap \<Rightarrow> addr \<Rightarrow> int" where
  "mem_cnt h p = (case cells h p of None \<Rightarrow> 0 | Some (n, x) \<Rightarrow> n)"

text \<open>The heap invariant: counters of live blocks are positive, live addresses are old.\<close>

definition rheap_inv :: "'a rheap \<Rightarrow> bool" where
  "rheap_inv h \<longleftrightarrow> (\<forall>p n x. cells h p = Some (n, x) \<longrightarrow> 0 < n \<and> p < next_addr h)"

lemma rheap_inv_empty [simp]: "rheap_inv rheap_empty"
  by (simp add: rheap_inv_def rheap_empty_def)

lemma rheap_inv_alloc [simp]: "rheap_inv h \<Longrightarrow> rheap_inv (snd (mem_alloc_auto h x))"
  by (auto simp: rheap_inv_def mem_alloc_auto_def less_Suc_eq)

lemma rheap_inv_incref: "rheap_inv h \<Longrightarrow> mem_incref h p = Some h' \<Longrightarrow> rheap_inv h'"
  by (fastforce simp: rheap_inv_def mem_incref_def split: option.splits if_splits)

lemma rheap_inv_decref: "rheap_inv h \<Longrightarrow> mem_decref h p fin s = Some (r, h', s') \<Longrightarrow> rheap_inv h'"
  by (fastforce simp: rheap_inv_def mem_decref_def split: option.splits if_splits)

lemma rheap_inv_write: "rheap_inv h \<Longrightarrow> mem_write h p x = Some h' \<Longrightarrow> rheap_inv h'"
  by (fastforce simp: rheap_inv_def mem_write_def split: option.splits if_splits)

lemma mem_cnt_alloc [mem_simps]:
  "mem_cnt (snd (mem_alloc_auto h x)) q = (if q = next_addr h then 1 else mem_cnt h q)"
  by (simp add: mem_cnt_def mem_alloc_auto_def)

lemma mem_cnt_incref [mem_simps]:
  "mem_incref h p = Some h' \<Longrightarrow> mem_cnt h' q = mem_cnt h q + (if q = p then 1 else 0)"
  by (auto simp: mem_cnt_def mem_incref_def split: option.splits)

lemma mem_cnt_decref [mem_simps]:
  "mem_decref h p fin s = Some (r, h', s') \<Longrightarrow> mem_cnt h' q = mem_cnt h q - (if q = p then 1 else 0)"
  by (auto simp: mem_cnt_def mem_decref_def split: option.splits if_splits)

lemma mem_cnt_nonneg: "rheap_inv h \<Longrightarrow> 0 \<le> mem_cnt h p"
  by (fastforce simp: rheap_inv_def mem_cnt_def split: option.splits)

lemma mem_live_iff: "rheap_inv h \<Longrightarrow> cells h p \<noteq> None \<longleftrightarrow> 0 < mem_cnt h p"
  by (fastforce simp: rheap_inv_def mem_cnt_def split: option.splits)

lemma mem_cnt_write: "mem_write h p x = Some h' \<Longrightarrow> mem_cnt h' q = mem_cnt h q"
  by (cases "cells h p") (auto simp: mem_cnt_def mem_write_def)

lemma next_addr_incref: "mem_incref h p = Some h' \<Longrightarrow> next_addr h' = next_addr h"
  by (auto simp: mem_incref_def split: option.splits)

lemma next_addr_decref: "mem_decref h p fin s = Some (r, h', s') \<Longrightarrow> next_addr h' = next_addr h"
  by (auto simp: mem_decref_def split: option.splits if_splits)

lemma next_addr_write: "mem_write h p x = Some h' \<Longrightarrow> next_addr h' = next_addr h"
  by (auto simp: mem_write_def split: option.splits)

subsection \<open>The counting contract\<close>

text \<open>An operation repeated, as long as it is defined.\<close>

fun repeat_opt :: "nat \<Rightarrow> ('s \<Rightarrow> 's option) \<Rightarrow> 's \<Rightarrow> 's option" where
  "repeat_opt 0 f s = Some s"
| "repeat_opt (Suc n) f s = Option.bind (f s) (repeat_opt n f)"

text \<open>What the owners of counted things rely on, connections and requests alike.\<close>

locale ref_counted =
  fixes cnt :: "'s \<Rightarrow> addr \<Rightarrow> int" and up :: "'s \<Rightarrow> addr \<Rightarrow> 's option" and down :: "'s \<Rightarrow> addr \<Rightarrow> 's option"
  assumes up_ok: "0 < cnt s p \<Longrightarrow> up s p \<noteq> None" and down_ok: "0 < cnt s p \<Longrightarrow> down s p \<noteq> None"
    and cnt_up: "up s p = Some s' \<Longrightarrow> cnt s' q = cnt s q + (if q = p then 1 else 0)"
    and cnt_down: "down s p = Some s' \<Longrightarrow> cnt s' q = cnt s q - (if q = p then 1 else 0)"
begin

lemma ups_ok: "0 < cnt s p \<Longrightarrow> \<exists>s'. repeat_opt n (\<lambda>s. up s p) s = Some s' \<and> (\<forall>q. cnt s' q = cnt s q + (if q = p then int n else 0))"
proof (induction n arbitrary: s)
  case (Suc n)
  from up_ok [OF Suc.prems] obtain s1 where s1: "up s p = Some s1" by blast
  have "0 < cnt s1 p" using cnt_up [OF s1, of p] Suc.prems by simp
  from Suc.IH [OF this] s1 cnt_up [OF s1] show ?case by auto
qed simp

lemma downs_ok: "int n \<le> cnt s p \<Longrightarrow> \<exists>s'. repeat_opt n (\<lambda>s. down s p) s = Some s' \<and> (\<forall>q. cnt s' q = cnt s q - (if q = p then int n else 0))"
proof (induction n arbitrary: s)
  case (Suc n)
  then have "0 < cnt s p" by simp
  from down_ok [OF this] obtain s1 where s1: "down s p = Some s1" by blast
  have "int n \<le> cnt s1 p" using cnt_down [OF s1, of p] Suc.prems by simp
  from Suc.IH [OF this] s1 cnt_down [OF s1] show ?case by auto
qed simp

text \<open>References that are taken and given back leave every count as it was.\<close>

lemma balanced:
  assumes "0 < cnt s p"
  shows "\<exists>s1 s2. repeat_opt n (\<lambda>s. up s p) s = Some s1 \<and> repeat_opt n (\<lambda>s. down s p) s1 = Some s2 \<and> (\<forall>q. cnt s2 q = cnt s q)"
proof -
  obtain s1 where s1: "repeat_opt n (\<lambda>s. up s p) s = Some s1" "\<forall>q. cnt s1 q = cnt s q + (if q = p then int n else 0)" using ups_ok [OF assms] by blast
  have "int n \<le> cnt s1 p" using s1(2) assms by simp
  from downs_ok [OF this] s1 show ?thesis by auto
qed

end

lemma mem_incref_live: "0 < mem_cnt h p \<Longrightarrow> mem_incref h p \<noteq> None"
  by (auto simp: mem_incref_def mem_cnt_def split: option.splits)

lemma mem_decref_live: "0 < mem_cnt h p \<Longrightarrow> mem_decref h p fin s \<noteq> None"
  by (auto simp: mem_decref_def mem_cnt_def split: option.splits)

interpretation rc_mem: ref_counted mem_cnt mem_incref "\<lambda>h p. map_option (\<lambda>(r, h', s). h') (mem_decref h p (\<lambda>_ s. s) ())"
  by unfold_locales (auto simp: mem_cnt_incref mem_cnt_decref mem_incref_live mem_decref_live)

end
