(* ===== verification/Conn.thy ===== *)
theory Conn
  imports NetPull Mem
begin

text \<open>
  Coroutines (\<^verbatim>\<open>src/core/async.c\<close>) and connections (\<^verbatim>\<open>src/core/conn.c\<close>).

  The machine state \<open>mach\<close> extends the state of the epoll wrapper by the heaps of
  reference-counted connections and coroutine contexts, the pool of idle connections, the
  server sockets, and, for each descriptor, what the peer will do (\<open>sock\<close>).

  A switch to a coroutine is a parameter \<open>swap\<close> of the functions that resume one: it maps
  the state at the switch to the state in which control comes back, either because the
  coroutine called \<open>async_yield\<close> or because its function returned. System calls enter as
  arguments that hold their results.
\<close>

subsection \<open>Types\<close>

datatype main_stat_e = RUNING | EXITING
datatype conn_stat = CONN_USED | CONN_FREE | CONN_CLOSED
datatype async_stat = ASYNC_INIT | ASYNC_RUNNING | ASYNC_PAUSE | ASYNC_FINISH
datatype async_yield_type = YIELD_INVALID | YIELD_NONE | CONN_IO_WILL_BLOCK | CONN_WAIT_FOR_EVENT

datatype conn_notice = IoBlock fd "32 word" | WaitEvent event_id

text \<open>Handlers registered with the epoll wrapper and with the event queue: the function and
  the data pointer it is called with.\<close>

datatype cb =
    ConnAccept nat          \<comment> \<open>\<^verbatim>\<open>conn_accept_handler\<close>, \<^verbatim>\<open>sfds + i\<close>\<close>
  | ConnEpoll addr          \<comment> \<open>\<^verbatim>\<open>conn_epoll_handler\<close>, a coroutine\<close>
  | ConnErr addr            \<comment> \<open>\<^verbatim>\<open>conn_err_handler\<close>, a connection\<close>
  | FreeClosed addr         \<comment> \<open>\<^verbatim>\<open>conn_notice_free_connection_closed\<close>, a connection\<close>
  | DnsNotify               \<comment> \<open>\<^verbatim>\<open>dns_notify_handler\<close>\<close>

datatype ev_handler = ConnEvent   \<comment> \<open>\<^verbatim>\<open>conn_event_handler\<close>\<close>

record conn_endpoint =
  ep_family :: "32 word"
  ep_port :: "16 word"
  ep_addr :: string

definition AF_INET :: "32 word" where "AF_INET = 2"
definition AF_INET6 :: "32 word" where "AF_INET6 = 10"

text \<open>The bytes of \<^verbatim>\<open>struct conn_endpoint\<close>, which the hash tables use as a key: family, port, two
  bytes of padding (cleared by \<^verbatim>\<open>memset\<close>) and the 16 bytes of the address union.\<close>

definition le16 :: "16 word \<Rightarrow> string" where
  "le16 w = [char_of (unat w mod 256), char_of (unat w div 256 mod 256)]"

definition ep_key :: "conn_endpoint \<Rightarrow> string" where
  "ep_key ep = le32 (ep_family ep) @ le16 (ep_port ep) @ [NUL, NUL] @ ep_addr ep"

record conn =
  c_fd :: fd
  c_buf :: string
  buf_cap :: nat
  buf_s :: nat
  buf_e :: nat
  c_rx :: "32 word"
  c_tx :: "32 word"
  c_stat :: conn_stat
  c_ep :: conn_endpoint
  c_apool :: "addr option"

datatype co_entry = CoReq addr | CoRsp addr

record async_cxt =
  cx_stat :: async_stat
  yield_type :: async_yield_type
  yield_data :: "conn_notice option"
  cx_entry :: "co_entry option"

text \<open>
  What a descriptor will deliver and accept. \<open>RData d\<close>: the bytes \<open>d\<close> are ready; a \<open>recv\<close> takes
  as many as it asks for. \<open>RAgain w\<close>: nothing is ready, \<open>recv\<close> fails with \<^verbatim>\<open>EAGAIN\<close>; if the
  caller yields, the actions \<open>w\<close> of the rest of the program happen before it is resumed.
  \<open>SAccept n\<close>: room for \<open>n + 1\<close> bytes. The end of a script is a peer that does nothing any more.
\<close>

datatype env_act = EnvConnErr addr | EnvExit

datatype recv_ev = RData string | REof | RErr | RAgain "env_act list"
datatype send_ev = SAccept nat | SErr | SAgain "env_act list"

record sock =
  sk_in :: "recv_ev list"
  sk_wr :: "send_ev list"
  sk_out :: string

record mach = "(ev_handler, addr, cb) pull_state" +
  main_stat :: main_stat_e
  conns :: "conn rheap"
  cxts :: "async_cxt rheap"
  call_cxt :: "addr option"
  yield_ret :: int
  data_p :: addr
  free_pool :: "(addr \<times> addr) list UT_hash_table"
  pool_fresh :: addr
  sfds :: "int list"
  sfd_cnt :: nat
  socks :: "fd \<Rightarrow> sock"

definition SERVER_MAX_FD :: nat where "SERVER_MAX_FD = 32"
definition CONN_IOBUF_SIZE :: nat where "CONN_IOBUF_SIZE = 16384"

subsection \<open>Coroutines\<close>

definition cxt_upd :: "mach \<Rightarrow> addr \<Rightarrow> (async_cxt \<Rightarrow> async_cxt) \<Rightarrow> mach option" where
  "cxt_upd m p f =
     Option.bind (mem_read (cxts m) p) (\<lambda>cx. map_option (\<lambda>h. m\<lparr>cxts := h\<rparr>) (mem_write (cxts m) p (f cx)))"

text \<open>\<^verbatim>\<open>async_init\<close> on a fresh block.\<close>

definition async_init :: async_cxt where
  "async_init = \<lparr>cx_stat = ASYNC_INIT, yield_type = YIELD_INVALID, yield_data = None, cx_entry = None\<rparr>"

definition async_yield :: "mach \<Rightarrow> async_yield_type \<Rightarrow> conn_notice \<Rightarrow> mach option" where
  "async_yield m ty d =
     Option.bind (call_cxt m) (\<lambda>p.
       cxt_upd m p (\<lambda>cx. cx\<lparr>cx_stat := ASYNC_PAUSE, yield_type := ty, yield_data := Some d\<rparr>))"

definition async_resume :: "(addr \<Rightarrow> mach \<Rightarrow> mach option) \<Rightarrow> mach \<Rightarrow> addr \<Rightarrow> int \<Rightarrow> mach option" where
  "async_resume swap m p retval =
     Option.bind (mem_read (cxts m) p) (\<lambda>cx.
       if cx_stat cx \<noteq> ASYNC_PAUSE then Some m
       else
         Option.bind (cxt_upd (m\<lparr>call_cxt := Some p\<rparr>) p
             (\<lambda>cx. cx\<lparr>cx_stat := ASYNC_RUNNING, yield_type := YIELD_NONE, yield_data := None\<rparr>)) (\<lambda>m1.
         Option.bind (swap p (m1\<lparr>yield_ret := retval\<rparr>)) (\<lambda>m2.
         Option.bind (cxt_upd m2 p (\<lambda>cx. if cx_stat cx = ASYNC_RUNNING then cx\<lparr>cx_stat := ASYNC_FINISH\<rparr> else cx)) (\<lambda>m3.
         Some (m3\<lparr>call_cxt := None\<rparr>)))))"

text \<open>\<^verbatim>\<open>mem_decref(cxt, async_done)\<close>; the finaliser releases the stack.\<close>

definition cxt_decref :: "mach \<Rightarrow> addr \<Rightarrow> mach option" where
  "cxt_decref m p = map_option (\<lambda>(r, h, s). s\<lparr>cxts := h\<rparr>) (mem_decref (cxts m) p (\<lambda>cx s. s) m)"

definition conn_async_final :: "mach \<Rightarrow> addr \<Rightarrow> (int \<times> mach) option" where
  "conn_async_final m p =
     Option.bind (mem_read (cxts m) p) (\<lambda>cx.
       if cx_stat cx \<noteq> ASYNC_PAUSE then map_option (Pair (-1)) (cxt_decref m p)
       else case (yield_type cx, yield_data cx) of
              (CONN_IO_WILL_BLOCK, Some (IoBlock fd flag)) \<Rightarrow>
                Some (0, snd (net_pull_set_handler m fd flag (Some (ConnEpoll p))))
            | (CONN_WAIT_FOR_EVENT, Some (WaitEvent eid)) \<Rightarrow>
                Some (0, event_set_handler m eid ConnEvent p)
            | (CONN_IO_WILL_BLOCK, _) \<Rightarrow> None
            | (CONN_WAIT_FOR_EVENT, _) \<Rightarrow> None
            | _ \<Rightarrow> Some (0, m))"

definition conn_epoll_handler :: "(addr \<Rightarrow> mach \<Rightarrow> mach option) \<Rightarrow> addr \<Rightarrow> epoll_event \<Rightarrow> mach \<Rightarrow> mach option" where
  "conn_epoll_handler swap p ev m =
     Option.bind (async_resume swap m p (if proxy_epoll_err ev then -1 else 0)) (\<lambda>m1.
       map_option snd (conn_async_final m1 p))"

definition conn_event_handler :: "(addr \<Rightarrow> mach \<Rightarrow> mach option) \<Rightarrow> addr \<Rightarrow> addr \<Rightarrow> mach \<Rightarrow> mach option" where
  "conn_event_handler swap data0 data1 m =
     Option.bind (async_resume swap m data0 (if data1 = 0 then 1 else 0)) (\<lambda>m1.
       map_option snd (conn_async_final m1 data0))"

subsection \<open>Connections\<close>

definition conn_get :: "mach \<Rightarrow> addr \<Rightarrow> conn option" where
  "conn_get m p = mem_read (conns m) p"

definition conn_upd :: "mach \<Rightarrow> addr \<Rightarrow> (conn \<Rightarrow> conn) \<Rightarrow> mach option" where
  "conn_upd m p f =
     Option.bind (mem_read (conns m) p) (\<lambda>c. map_option (\<lambda>h. m\<lparr>conns := h\<rparr>) (mem_write (conns m) p (f c)))"

definition conn_init :: "conn \<Rightarrow> fd \<Rightarrow> conn_endpoint option \<Rightarrow> conn" where
  "conn_init c fd ep =
     c\<lparr>c_fd := fd, c_buf := [], buf_cap := CONN_IOBUF_SIZE, buf_s := 0, buf_e := 0, c_stat := CONN_FREE,
       c_rx := 0, c_tx := 0, c_ep := (case ep of None \<Rightarrow> c_ep c | Some e \<Rightarrow> e), c_apool := None\<rparr>"

text \<open>\<^verbatim>\<open>net_pull_del(fd); close(fd)\<close>.\<close>

definition drop_fd :: "mach \<Rightarrow> fd \<Rightarrow> mach" where
  "drop_fd m fd = k_close (snd (net_pull_del m fd)) fd"

definition conn_close :: "mach \<Rightarrow> addr \<Rightarrow> mach option" where
  "conn_close m p =
     Option.bind (conn_get m p) (\<lambda>c.
       if c_stat c = CONN_CLOSED then Some m
       else conn_upd (drop_fd m (c_fd c)) p (\<lambda>c. c\<lparr>c_stat := CONN_CLOSED\<rparr>))"

text \<open>The finaliser. Its two branches do the same to the descriptor: \<^verbatim>\<open>conn_close\<close> on an open
  connection (the status it writes is in the block that is about to be released), the
  explicit calls on a closed one.\<close>

definition conn_done :: "conn \<Rightarrow> mach \<Rightarrow> mach" where
  "conn_done c m = (if c_stat c \<noteq> CONN_CLOSED then drop_fd m (c_fd c) else drop_fd m (c_fd c))"

definition conn_decref :: "mach \<Rightarrow> addr \<Rightarrow> mach option" where
  "conn_decref m p =
     map_option (\<lambda>(r, h, s). s\<lparr>conns := h\<rparr>) (mem_decref (conns m) p conn_done m)"

definition conn_incref :: "mach \<Rightarrow> addr \<Rightarrow> mach option" where
  "conn_incref m p = map_option (\<lambda>h. m\<lparr>conns := h\<rparr>) (mem_incref (conns m) p)"

definition conn_err_handler :: "addr \<Rightarrow> mach \<Rightarrow> mach option" where
  "conn_err_handler p m = conn_upd m p (\<lambda>c. c\<lparr>c_stat := CONN_CLOSED\<rparr>)"

subsection \<open>The pool of idle connections\<close>

text \<open>An entry of the table is the list behind \<^verbatim>\<open>head\<close>: pairs of a list element and its connection,
  in the order of the \<^verbatim>\<open>next\<close> pointers.\<close>

definition conn_addrpool_add :: "mach \<Rightarrow> addr \<Rightarrow> mach option" where
  "conn_addrpool_add m p =
     Option.bind (conn_get m p) (\<lambda>c.
     Option.bind (conn_incref m p) (\<lambda>m1.
       let elem = pool_fresh m1; key = ep_key (c_ep c) in
       Option.bind (conn_upd (m1\<lparr>pool_fresh := Suc elem\<rparr>) p
           (\<lambda>c. c\<lparr>c_stat := CONN_FREE, c_apool := Some elem\<rparr>)) (\<lambda>m2.
       Some (m2\<lparr>free_pool := (case HASH_FIND (free_pool m2) key of
                  None \<Rightarrow> HASH_ADD (free_pool m2) key [(elem, p)]
                | Some e \<Rightarrow> hash_assign (free_pool m2) (h_id e) ((elem, p) # h_val e))\<rparr>))))"

definition pool_unlink :: "(addr \<times> addr) list UT_hash_table \<Rightarrow> addr \<Rightarrow> (addr \<times> addr) list UT_hash_table" where
  "pool_unlink t elem =
     t\<lparr>ht_app := map (\<lambda>e. e\<lparr>h_val := filter (\<lambda>x. fst x \<noteq> elem) (h_val e)\<rparr>) (ht_app t)\<rparr>"

definition conn_addrpool_del :: "mach \<Rightarrow> addr \<Rightarrow> mach option" where
  "conn_addrpool_del m p =
     Option.bind (conn_get m p) (\<lambda>c.
       case c_apool c of
         None \<Rightarrow> Some m
       | Some elem \<Rightarrow>
           if list_ex (\<lambda>e. list_ex (\<lambda>x. fst x = elem) (h_val e)) (ht_app (free_pool m))
           then conn_decref (m\<lparr>free_pool := pool_unlink (free_pool m) elem\<rparr>) p
           else None)"

definition conn_addrpool_try_get_and_del :: "mach \<Rightarrow> conn_endpoint \<Rightarrow> (addr option \<times> mach) option" where
  "conn_addrpool_try_get_and_del m ep =
     (case HASH_FIND (free_pool m) (ep_key ep) of
        None \<Rightarrow> Some (None, m)
      | Some h \<Rightarrow>
          (case h_val h of
             [] \<Rightarrow> Some (None, m)
           | (elem, p) # l \<Rightarrow>
               map_option (Pair (Some p))
                 (conn_upd (m\<lparr>free_pool := hash_assign (free_pool m) (h_id h) l\<rparr>) p
                    (\<lambda>c. c\<lparr>c_apool := None\<rparr>))))"

definition conn_free :: "mach \<Rightarrow> addr \<Rightarrow> mach option" where
  "conn_free m p =
     Option.bind (conn_get m p) (\<lambda>c.
       if c_stat c = CONN_CLOSED \<or> main_stat m = EXITING then Some m
       else
         Option.bind (conn_upd m p (\<lambda>c. c\<lparr>c_stat := CONN_FREE\<rparr>)) (\<lambda>m1.
         Option.bind (conn_addrpool_add m1 p) (\<lambda>m2.
         Some (snd (net_pull_set_handler m2 (c_fd c) EPOLLIN (Some (FreeClosed p)))))))"

definition conn_notice_free_connection_closed :: "addr \<Rightarrow> epoll_event \<Rightarrow> mach \<Rightarrow> mach option" where
  "conn_notice_free_connection_closed p ev m =
     Option.bind (conn_get m p) (\<lambda>c.
       if proxy_epoll_err ev
       then Option.bind (conn_close m p) (\<lambda>m1. conn_addrpool_del m1 p)
       else Some (snd (net_pull_set_handler m (c_fd c) EPOLLIN (Some (FreeClosed p)))))"

text \<open>What the other coroutines and handlers may do while a coroutine is suspended, as far as
  the code after the switch can tell.\<close>

definition env_step :: "env_act \<Rightarrow> mach \<Rightarrow> mach" where
  "env_step a m =
     (case a of
        EnvConnErr p \<Rightarrow> (case conn_err_handler p m of None \<Rightarrow> m | Some m' \<Rightarrow> m')
      | EnvExit \<Rightarrow> m\<lparr>main_stat := EXITING\<rparr>)"

definition env_steps :: "env_act list \<Rightarrow> mach \<Rightarrow> mach" where
  "env_steps as m = fold env_step as m"

text \<open>
  \<^verbatim>\<open>conn_get_by_endpoint\<close>: the arguments are the results of \<^verbatim>\<open>socket\<close>, of
  \<^verbatim>\<open>net_setnonblocking\<close> and of \<^verbatim>\<open>connect\<close>; a connection in progress yields, and \<open>ConnProgress w r\<close>
  gives what happens meanwhile and the value the coroutine is resumed with. The fields of a
  fresh block are indeterminate; they are written before they are read.
\<close>

datatype connect_res = ConnOk | ConnProgress "env_act list" int | ConnFail

definition conn_blank :: conn where
  "conn_blank = \<lparr>c_fd = 0, c_buf = [], buf_cap = 0, buf_s = 0, buf_e = 0, c_rx = 0, c_tx = 0,
     c_stat = CONN_CLOSED, c_ep = \<lparr>ep_family = 0, ep_port = 0, ep_addr = []\<rparr>, c_apool = None\<rparr>"

definition conn_alloc :: "mach \<Rightarrow> conn \<Rightarrow> addr \<times> mach" where
  "conn_alloc m c = (let (p, h) = mem_alloc_auto (conns m) c in (p, m\<lparr>conns := h\<rparr>))"

definition k_socket :: "mach \<Rightarrow> fd \<Rightarrow> mach" where
  "k_socket m fd = m\<lparr>k_open := insert fd (k_open m)\<rparr>"

definition conn_get_by_endpoint ::
  "fd option \<Rightarrow> bool \<Rightarrow> connect_res \<Rightarrow> mach \<Rightarrow> conn_endpoint \<Rightarrow> (addr option \<times> mach) option" where
  "conn_get_by_endpoint sock_r nonblock conn_r m ep =
     Option.bind (conn_addrpool_try_get_and_del m ep) (\<lambda>(got, m).
       case got of
         Some p \<Rightarrow>
           Option.bind (conn_upd m p (\<lambda>c. c\<lparr>c_stat := CONN_USED\<rparr>)) (\<lambda>m1.
           Option.bind (conn_get m1 p) (\<lambda>c.
             Some (Some p, snd (net_pull_set_handler m1 (c_fd c) (EPOLLIN OR EPOLLOUT) None))))
       | None \<Rightarrow>
           (case sock_r of
              None \<Rightarrow> Some (None, m)
            | Some fd \<Rightarrow>
                let m1 = k_socket m fd in
                if \<not> nonblock \<or> conn_r = ConnFail then Some (None, k_close m1 fd)
                else
                  let (p, m2) = conn_alloc m1 conn_blank;
                      m3 = snd (net_pull_add m2 fd (Some (ConnErr p)));
                      finish = (\<lambda>m. map_option (Pair (Some p)) (conn_upd m p (\<lambda>c. conn_init c fd (Some ep))))
                  in (case conn_r of
                        ConnProgress w r \<Rightarrow>
                          let m4 = env_steps w m3 in
                          if r = -1
                          then map_option (\<lambda>(_, h, s). (None, s\<lparr>conns := h\<rparr>))
                                 (mem_decref (conns m4) p (\<lambda>_ s. s) (snd (net_pull_del m4 fd)))
                          else finish m4
                      | _ \<Rightarrow> finish m3)))"

subsection \<open>Accepting clients\<close>

text \<open>One client: \<open>AccFd fd ep nb\<close> is a descriptor, its address (\<^term>\<open>None\<close>: a family that is neither
  IPv4 nor IPv6) and whether it could be made non-blocking. The end of the list is
  \<^verbatim>\<open>EAGAIN\<close>. \<^verbatim>\<open>makecontext\<close> records the entry function.\<close>

datatype accept_res = AccFd fd "conn_endpoint option" bool | AccErr

definition cxt_start :: "(addr \<Rightarrow> mach \<Rightarrow> mach option) \<Rightarrow> mach \<Rightarrow> co_entry \<Rightarrow> (addr \<times> mach) option" where
  "cxt_start swap m entry =
     (let (q, h) = mem_alloc_auto (cxts m) (async_init\<lparr>cx_stat := ASYNC_PAUSE, cx_entry := Some entry\<rparr>)
      in map_option (Pair q) (async_resume swap (m\<lparr>cxts := h\<rparr>) q 0))"

definition accept_conn ::
  "(addr \<Rightarrow> mach \<Rightarrow> mach option) \<Rightarrow> mach \<Rightarrow> fd \<Rightarrow> conn_endpoint \<Rightarrow> (bool \<times> mach) option" where
  "accept_conn swap m fd ep =
     (let (p, m1) = conn_alloc m ((conn_init conn_blank fd (Some ep))\<lparr>c_stat := CONN_USED\<rparr>);
          m2 = snd (net_pull_add m1 fd (Some (ConnErr p)))
      in Option.bind (cxt_start swap (m2\<lparr>data_p := 0\<rparr>) (CoReq p)) (\<lambda>(q, m3).
         Option.bind (conn_async_final m3 q) (\<lambda>(ret, m4).
           if ret \<noteq> 0 then map_option (Pair False) (conn_decref m4 p)
           else
             Option.bind (cxt_start swap m4 (CoRsp (data_p m4))) (\<lambda>(q', m5).
             Option.bind (conn_decref m5 p) (\<lambda>m6.
             map_option (\<lambda>(_, m7). (True, m7)) (conn_async_final m6 q'))))))"

fun accept_loop :: "(addr \<Rightarrow> mach \<Rightarrow> mach option) \<Rightarrow> mach \<Rightarrow> accept_res list \<Rightarrow> (int \<times> mach) option" where
  "accept_loop swap m [] = Some (0, m)"
| "accept_loop swap m (AccErr # rs) = Some (-1, m)"
| "accept_loop swap m (AccFd fd ep nb # rs) =
     (let m1 = k_socket m fd in
      if \<not> nb then Some (-1, k_close m1 fd)
      else case ep of
             None \<Rightarrow> Some (-1, k_close m1 fd)
           | Some e \<Rightarrow> Option.bind (accept_conn swap m1 fd e) (\<lambda>(go, m2).
                         if go then accept_loop swap m2 rs else Some (0, m2)))"

definition conn_accept_handler ::
  "(addr \<Rightarrow> mach \<Rightarrow> mach option) \<Rightarrow> accept_res list \<Rightarrow> nat \<Rightarrow> epoll_event \<Rightarrow> mach \<Rightarrow> (int \<times> mach) option" where
  "conn_accept_handler swap accs i ev m =
     (if length (sfds m) \<le> i then None
      else
        let sfd = word_of_int (sfds m ! i) in
        if proxy_epoll_err ev then Some (-1, snd (net_pull_del m sfd))
        else accept_loop swap (snd (net_pull_set_handler m sfd EPOLLIN (Some (ConnAccept i)))) accs)"

subsection \<open>Start and end of the module\<close>

text \<open>One result of the address lookup with the outcome of the system calls made for it:
  \<^verbatim>\<open>socket\<close> (a non-negative descriptor, or \<^term>\<open>None\<close>), then \<^verbatim>\<open>setsockopt\<close>, \<^verbatim>\<open>bind\<close>,
  \<^verbatim>\<open>net_setnonblocking\<close> and \<^verbatim>\<open>listen\<close>. The first failure, or an unknown family, leads to the label
  \<^verbatim>\<open>bind_failed\<close>.\<close>

record bind_res =
  br_family :: "32 word"
  br_sock :: "nat option"
  br_sockopt :: bool
  br_bind :: bool
  br_nonblock :: bool
  br_listen :: bool

definition br_ok :: "bind_res \<Rightarrow> bool" where
  "br_ok b \<longleftrightarrow> br_sockopt b \<and> (br_family b = AF_INET \<or> br_family b = AF_INET6) \<and> br_bind b \<and>
     br_nonblock b \<and> br_listen b"

fun bind_all :: "mach \<Rightarrow> bind_res list \<Rightarrow> mach option" where
  "bind_all m [] = Some m"
| "bind_all m (b # bs) =
     (case br_sock b of
        None \<Rightarrow> bind_all m bs
      | Some n \<Rightarrow>
          let fd = of_nat n; m1 = k_socket m fd in
          if \<not> br_ok b then bind_all (k_close m1 fd) bs
          else
            let m2 = snd (net_pull_add m1 fd None);
                m3 = snd (net_pull_set_handler m2 fd EPOLLIN (Some (ConnAccept (sfd_cnt m2))))
            in if sfd_cnt m3 < length (sfds m3)
               then bind_all (m3\<lparr>sfds := (sfds m3)[sfd_cnt m3 := int n], sfd_cnt := sfd_cnt m3 + 1\<rparr>) bs
               else None)"

definition conn_module_init :: "mach \<Rightarrow> bind_res list \<Rightarrow> (int \<times> mach) option" where
  "conn_module_init m bs =
     map_option (\<lambda>m'. (if sfd_cnt m' = 0 then -1 else 0, m'))
       (bind_all (m\<lparr>sfds := replicate SERVER_MAX_FD (-1), sfd_cnt := 0\<rparr>) bs)"

text \<open>The loop over \<^verbatim>\<open>sfds\<close> stops at the first negative entry and runs off a full array.\<close>

fun close_sfds :: "int list \<Rightarrow> mach \<Rightarrow> mach option" where
  "close_sfds [] m = None"
| "close_sfds (x # xs) m = (if x < 0 then Some m else close_sfds xs (k_close m (word_of_int x)))"

fun drop_pool :: "(addr \<times> addr) list \<Rightarrow> mach \<Rightarrow> mach option" where
  "drop_pool [] m = Some m"
| "drop_pool ((e, p) # l) m = Option.bind (conn_decref m p) (drop_pool l)"

definition conn_module_done :: "mach \<Rightarrow> mach option" where
  "conn_module_done m =
     Option.bind (close_sfds (sfds m) m) (\<lambda>m1.
     map_option (\<lambda>m2. m2\<lparr>free_pool := hash_empty\<rparr>)
       (drop_pool (concat (map h_val (ht_app (free_pool m1)))) m1))"

subsection \<open>Descriptors and reference counts\<close>

lemma net_pull_del_frame:
  "main_stat (snd (net_pull_del m fd)) = main_stat m" "conns (snd (net_pull_del m fd)) = conns m"
  "cxts (snd (net_pull_del m fd)) = cxts m" "socks (snd (net_pull_del m fd)) = socks m"
  "free_pool (snd (net_pull_del m fd)) = free_pool m" "epollfd (snd (net_pull_del m fd)) = epollfd m"
  "k_open (snd (net_pull_del m fd)) = k_open m"
  by (simp_all add: net_pull_del_def epoll_ctl_del_def split: option.splits)

lemma k_close_frame [simp]:
  "main_stat (k_close m fd) = main_stat m" "conns (k_close m fd) = conns m" "cxts (k_close m fd) = cxts m"
  "socks (k_close m fd) = socks m" "free_pool (k_close m fd) = free_pool m" "epollfd (k_close m fd) = epollfd m"
  "k_open (k_close m fd) = k_open m - {fd}" "k_interest (k_close m fd) = k_interest m - {fd}"
  by (simp_all add: k_close_def)

lemma drop_fd_frame [simp]:
  "main_stat (drop_fd m fd) = main_stat m" "conns (drop_fd m fd) = conns m" "cxts (drop_fd m fd) = cxts m"
  "socks (drop_fd m fd) = socks m" "free_pool (drop_fd m fd) = free_pool m" "epollfd (drop_fd m fd) = epollfd m"
  "k_open (drop_fd m fd) = k_open m - {fd}"
  by (simp_all add: drop_fd_def net_pull_del_frame)

text \<open>Dropping a descriptor keeps the epoll bookkeeping consistent, whether it was registered
  or not.\<close>

lemma drop_fd_inv:
  assumes inv: "pull_inv m" and e: "0 \<le> epollfd m"
  shows "pull_inv (drop_fd m fd)" "k_interest (drop_fd m fd) = k_interest m - {fd}"
proof -
  have "pull_inv (drop_fd m fd) \<and> k_interest (drop_fd m fd) = k_interest m - {fd}"
  proof (cases "fd \<in> k_interest m")
    case True
    from net_pull_del_ok [OF inv e True] show ?thesis
      by (auto simp: drop_fd_def intro!: pull_inv_k_close)
  next
    case False
    then show ?thesis using net_pull_del_fail [OF inv False] inv
      by (auto simp: drop_fd_def intro!: pull_inv_k_close)
  qed
  then show "pull_inv (drop_fd m fd)" "k_interest (drop_fd m fd) = k_interest m - {fd}" by auto
qed

lemma mem_read_write: "mem_write h p x = Some h' \<Longrightarrow> mem_read h' q = (if q = p then Some x else mem_read h q)"
  by (auto simp: mem_write_def mem_read_def split: option.splits)

lemma conn_upd_Some: "conn_get m p = Some c \<Longrightarrow> \<exists>m'. conn_upd m p f = Some m'"
  by (auto simp: conn_upd_def conn_get_def mem_write_def mem_read_def)

lemma conn_upd_get:
  "conn_upd m p f = Some m' \<Longrightarrow> conn_get m' q = (if q = p then map_option f (conn_get m p) else conn_get m q)"
  by (auto simp: conn_upd_def conn_get_def bind_eq_Some_conv mem_read_write)

lemma conn_upd_frame:
  assumes "conn_upd m p f = Some m'"
  shows "\<exists>h. m' = m\<lparr>conns := h\<rparr> \<and> (\<forall>q. mem_cnt h q = mem_cnt (conns m) q)"
  using assms by (auto simp: conn_upd_def bind_eq_Some_conv intro!: mem_cnt_write)

lemma pull_inv_conns [simp]: "pull_inv (m\<lparr>conns := h\<rparr>) = pull_inv m"
  by (simp add: pull_inv_def np_handler_of_def)

lemma conn_close_spec:
  assumes c: "conn_get m p = Some c" and inv: "pull_inv m" "0 \<le> epollfd m"
  shows "\<exists>m'. conn_close m p = Some m' \<and> conn_get m' p = Some (c\<lparr>c_stat := CONN_CLOSED\<rparr>) \<and>
    (\<forall>q. q \<noteq> p \<longrightarrow> conn_get m' q = conn_get m q) \<and> pull_inv m' \<and> epollfd m' = epollfd m \<and>
    (\<forall>q. mem_cnt (conns m') q = mem_cnt (conns m) q) \<and> socks m' = socks m \<and>
    k_open m' = (if c_stat c = CONN_CLOSED then k_open m else k_open m - {c_fd c}) \<and>
    k_interest m' = (if c_stat c = CONN_CLOSED then k_interest m else k_interest m - {c_fd c})"
proof (cases "c_stat c = CONN_CLOSED")
  case True
  then have "c\<lparr>c_stat := CONN_CLOSED\<rparr> = c" by (cases c) simp
  with True c inv show ?thesis by (simp add: conn_close_def)
next
  case False
  have c': "conn_get (drop_fd m (c_fd c)) p = Some c" using c by (simp add: conn_get_def)
  then obtain m' where m': "conn_upd (drop_fd m (c_fd c)) p (\<lambda>c. c\<lparr>c_stat := CONN_CLOSED\<rparr>) = Some m'"
    using conn_upd_Some by blast
  from conn_upd_frame [OF m'] obtain h where h: "m' = (drop_fd m (c_fd c))\<lparr>conns := h\<rparr>"
    "\<forall>q. mem_cnt h q = mem_cnt (conns m) q" by auto
  have get: "conn_get m' q = (if q = p then Some (c\<lparr>c_stat := CONN_CLOSED\<rparr>) else conn_get m q)" for q
    using conn_upd_get [OF m'] c' by (simp add: conn_get_def)
  have "conn_close m p = Some m'" using c False m' by (simp add: conn_close_def)
  with get h drop_fd_inv [OF inv, of "c_fd c"] False show ?thesis by simp
qed

lemma conn_decref_last:
  assumes "cells (conns m) p = Some (1, c)"
  shows "\<exists>m'. conn_decref m p = Some m' \<and> conn_get m' p = None \<and> k_open m' = k_open m - {c_fd c} \<and>
    (\<forall>q. q \<noteq> p \<longrightarrow> conn_get m' q = conn_get m q)"
  using assms by (simp add: conn_decref_def mem_decref_def conn_done_def conn_get_def mem_read_def)

lemma conn_decref_more:
  assumes "cells (conns m) p = Some (n, c)" "1 < n"
  shows "\<exists>m'. conn_decref m p = Some m' \<and> k_open m' = k_open m \<and> (\<forall>q. conn_get m' q = conn_get m q) \<and>
    mem_cnt (conns m') p = n - 1"
  using assms by (simp add: conn_decref_def mem_decref_def conn_get_def mem_read_def mem_cnt_def)

lemma conn_decref_inv: "pull_inv m \<Longrightarrow> 0 \<le> epollfd m \<Longrightarrow> conn_decref m p = Some m' \<Longrightarrow> pull_inv m'"
  by (auto simp: conn_decref_def mem_decref_def conn_done_def drop_fd_inv split: option.splits if_splits)

text \<open>A connection that was closed while still referenced leaves a stale descriptor number behind:
  if the number has been given to another socket meanwhile, releasing the last reference
  closes that other socket.\<close>

lemma stale_fd_closed_again:
  assumes "cells (conns m) p = Some (1, c)" "c_stat c = CONN_CLOSED" "conn_get m q = Some d"
    "q \<noteq> p" "c_stat d = CONN_USED" "c_fd d = c_fd c"
  shows "\<exists>m'. conn_decref m p = Some m' \<and> conn_get m' q = Some d \<and> c_fd d \<notin> k_open m'"
  using assms by (auto simp: conn_decref_def mem_decref_def conn_done_def conn_get_def mem_read_def)

subsection \<open>The idle pool\<close>

definition pool_of :: "mach \<Rightarrow> conn_endpoint \<Rightarrow> (addr \<times> addr) list" where
  "pool_of m ep = (case hash_lookup (free_pool m) (ep_key ep) of None \<Rightarrow> [] | Some l \<Rightarrow> l)"

lemma conn_incref_frame:
  assumes "conn_incref m p = Some m'"
  shows "\<exists>h. m' = m\<lparr>conns := h\<rparr> \<and> (\<forall>q. mem_read h q = mem_read (conns m) q) \<and>
    (\<forall>q. mem_cnt h q = mem_cnt (conns m) q + (if q = p then 1 else 0))"
  using assms by (auto simp: conn_incref_def mem_incref_def mem_read_def mem_cnt_def split: option.splits)

lemma conn_addrpool_add_spec:
  assumes c: "conn_get m p = Some c" and u: "uniq_table (free_pool m)"
  shows "\<exists>m'. conn_addrpool_add m p = Some m' \<and> uniq_table (free_pool m') \<and>
    pool_of m' (c_ep c) = (pool_fresh m, p) # pool_of m (c_ep c) \<and>
    conn_get m' p = Some (c\<lparr>c_stat := CONN_FREE, c_apool := Some (pool_fresh m)\<rparr>) \<and>
    mem_cnt (conns m') p = mem_cnt (conns m) p + 1 \<and> np_handlers m' = np_handlers m"
proof -
  have "\<exists>m1. conn_incref m p = Some m1"
    using c by (auto simp: conn_incref_def mem_incref_def conn_get_def mem_read_def)
  then obtain m1 where m1: "conn_incref m p = Some m1" ..
  from conn_incref_frame [OF m1] obtain h where h: "m1 = m\<lparr>conns := h\<rparr>" "mem_read h p = Some c"
    "mem_cnt h p = mem_cnt (conns m) p + 1" using c by (auto simp: conn_get_def)
  let ?m1 = "m1\<lparr>pool_fresh := Suc (pool_fresh m1)\<rparr>"
  let ?f = "\<lambda>c. c\<lparr>c_stat := CONN_FREE, c_apool := Some (pool_fresh m1)\<rparr>"
  have g: "conn_get ?m1 p = Some c" using h by (simp add: conn_get_def)
  then obtain m2 where m2: "conn_upd ?m1 p ?f = Some m2" using conn_upd_Some by blast
  from conn_upd_frame [OF m2] obtain h2 where h2: "m2 = ?m1\<lparr>conns := h2\<rparr>" "mem_cnt h2 p = mem_cnt h p"
    using h by auto
  have get2: "conn_get m2 p = Some (c\<lparr>c_stat := CONN_FREE, c_apool := Some (pool_fresh m)\<rparr>)"
    using conn_upd_get [OF m2, of p] g h by simp
  let ?t = "hash_put (free_pool m) (ep_key (c_ep c)) ((pool_fresh m, p) # pool_of m (c_ep c))"
  have eq: "conn_addrpool_add m p = Some (m2\<lparr>free_pool := ?t\<rparr>)"
    using c m1 m2 h h2 by (simp add: conn_addrpool_add_def Let_def hash_put_def pool_of_def hash_lookup_def
        split: option.splits)
  have "pool_of (m2\<lparr>free_pool := ?t\<rparr>) (c_ep c) = (pool_fresh m, p) # pool_of m (c_ep c)" "uniq_table ?t"
    using u by (simp_all add: pool_of_def hash_simps)
  with eq get2 h h2 show ?thesis by (simp add: conn_get_def)
qed

text \<open>The pool hands back the connection that was put in last, together with the reference the
  pool held.\<close>

lemma conn_pool_take:
  assumes "pool_of m ep = (elem, p) # l" "conn_get m p = Some c" "uniq_table (free_pool m)"
  shows "\<exists>m'. conn_addrpool_try_get_and_del m ep = Some (Some p, m') \<and> pool_of m' ep = l \<and>
    conn_get m' p = Some (c\<lparr>c_apool := None\<rparr>) \<and> mem_cnt (conns m') p = mem_cnt (conns m) p \<and>
    np_handlers m' = np_handlers m \<and> uniq_table (free_pool m')"
proof -
  from assms(1) obtain e where e: "HASH_FIND (free_pool m) (ep_key ep) = Some e" "h_val e = (elem, p) # l"
    by (auto simp: pool_of_def hash_lookup_def split: option.splits)
  let ?t = "hash_put (free_pool m) (ep_key ep) l"
  have "conn_get (m\<lparr>free_pool := ?t\<rparr>) p = Some c" using assms(2) by (simp add: conn_get_def)
  then obtain m1 where m1: "conn_upd (m\<lparr>free_pool := ?t\<rparr>) p (\<lambda>c. c\<lparr>c_apool := None\<rparr>) = Some m1"
    using conn_upd_Some by blast
  from conn_upd_frame [OF m1] obtain h where h: "m1 = m\<lparr>free_pool := ?t, conns := h\<rparr>"
    "mem_cnt h p = mem_cnt (conns m) p" by auto
  have "conn_addrpool_try_get_and_del m ep = Some (Some p, m1)"
    using e m1 by (simp add: conn_addrpool_try_get_and_del_def hash_put_unfold_Some)
  moreover have "conn_get m1 p = Some (c\<lparr>c_apool := None\<rparr>)"
    using conn_upd_get [OF m1, of p] assms(2) by (simp add: conn_get_def)
  ultimately show ?thesis using h assms(3) by (simp add: pool_of_def hash_simps)
qed

lemma conn_get_by_endpoint_pooled:
  assumes "pool_of m ep = (elem, p) # l" "conn_get m p = Some c" "uniq_table (free_pool m)"
  shows "\<exists>m'. conn_get_by_endpoint a b r m ep = Some (Some p, m') \<and>
    conn_get m' p = Some (c\<lparr>c_apool := None, c_stat := CONN_USED\<rparr>) \<and>
    mem_cnt (conns m') p = mem_cnt (conns m) p"
proof -
  from conn_pool_take [OF assms] obtain m1 where m1: "conn_addrpool_try_get_and_del m ep = Some (Some p, m1)"
    "conn_get m1 p = Some (c\<lparr>c_apool := None\<rparr>)" "mem_cnt (conns m1) p = mem_cnt (conns m) p" by blast
  obtain m2 where m2: "conn_upd m1 p (\<lambda>c. c\<lparr>c_stat := CONN_USED\<rparr>) = Some m2"
    using conn_upd_Some [OF m1(2)] by blast
  have g: "conn_get m2 p = Some (c\<lparr>c_apool := None, c_stat := CONN_USED\<rparr>)"
    using conn_upd_get [OF m2, of p] m1(2) by simp
  have "mem_cnt (conns m2) p = mem_cnt (conns m1) p" using conn_upd_frame [OF m2] by auto
  moreover have "conns (snd (net_pull_set_handler m2 fd fl None)) = conns m2" for fd fl
    by (simp add: net_pull_set_handler_def Let_def split: option.splits)
  ultimately show ?thesis using m1 m2 g by (auto simp: conn_get_by_endpoint_def conn_get_def)
qed

text \<open>A failed asynchronous connect gives the block back but leaves the descriptor open.\<close>

lemma async_connect_leaks_fd:
  assumes inv: "pull_inv m" "0 \<le> epollfd m" and none: "pool_of m ep = []" and fresh: "fd \<notin> k_open m"
  shows "\<exists>m'. conn_get_by_endpoint (Some fd) True (ConnProgress [] (-1)) m ep = Some (None, m') \<and>
    fd \<in> k_open m' \<and> fd \<notin> k_interest m' \<and> (\<forall>q. conn_get m' q \<noteq> None \<longrightarrow> conn_get m q \<noteq> None)"
proof -
  have none': "conn_addrpool_try_get_and_del m ep = Some (None, m)"
    using none by (auto simp: conn_addrpool_try_get_and_del_def pool_of_def hash_lookup_def split: option.splits list.splits)
  obtain p m2 where m2: "conn_alloc (k_socket m fd) conn_blank = (p, m2)" by fastforce
  then have p: "cells (conns m2) p = Some (1, conn_blank)" "k_open m2 = insert fd (k_open m)" "k_interest m2 = k_interest m"
    "epollfd m2 = epollfd m" "pull_inv m2 = pull_inv (k_socket m fd)"
    "\<forall>q. q \<noteq> p \<longrightarrow> cells (conns m2) q = cells (conns m) q"
    by (auto simp: conn_alloc_def mem_alloc_auto_def k_socket_def pull_inv_def np_handler_of_def)
  have "pull_inv (k_socket m fd)" using inv by (auto simp: pull_inv_def k_socket_def np_handler_of_def)
  then have i2: "pull_inv m2" using p by simp
  have fi: "fd \<notin> k_interest m2" using inv fresh p by (auto simp: pull_inv_def)
  obtain m3 where m3: "net_pull_add m2 fd (Some (ConnErr p)) = (0, m3)" "pull_inv m3" "k_open m3 = k_open m2" "epollfd m3 = epollfd m2"
    "np_handler_of m3 fd \<noteq> None"
    using net_pull_add_ok [OF i2 _ _ fi, of "Some (ConnErr p)"] p inv by auto
  have c3: "conns m3 = conns m2"
    using m3(1) by (auto simp: net_pull_add_def epoll_ctl_add_def split: option.splits if_splits)
  have in3: "fd \<in> k_interest m3" using m3 by (auto simp: pull_inv_def)
  obtain m4 where m4: "net_pull_del m3 fd = (0, m4)" "k_open m4 = k_open m3" "k_interest m4 = k_interest m3 - {fd}"
    using net_pull_del_ok [OF m3(2) _ in3] m3 p inv by auto
  show ?thesis
    using none' m2 m3(1) m4 c3 p m3(3)
    by (auto simp: conn_get_by_endpoint_def env_steps_def mem_decref_def Let_def conn_get_def mem_read_def)
qed

text \<open>Connections obey the laws of counted references, whatever the finaliser does to the descriptor.\<close>

interpretation rc_conn: ref_counted "\<lambda>m. mem_cnt (conns m)" conn_incref conn_decref
  by unfold_locales
    (auto simp: conn_incref_def conn_decref_def conn_done_def drop_fd_def mem_cnt_incref mem_cnt_decref mem_incref_live mem_decref_live split: if_splits)

end
