(* ===== verification/ConnIO.thy ===== *)
theory ConnIO
  imports Conn Strbuf
begin

text \<open>
  Input and output on connections, \<^verbatim>\<open>src/core/conn_io.c\<close>.

  All functions block by yielding to the scheduler; the peer's behaviour, and what the rest
  of the program does during a yield, come from the script of the descriptor (theory
  \<open>Conn\<close>). A call returns a value and the new state (\<open>Ret\<close>), waits for a peer that does
  nothing any more (\<open>Blocked\<close>), or runs into undefined behaviour (\<open>Undef\<close>).
\<close>

datatype 'a io = Ret 'a mach | Blocked | Undef

primrec io_bind :: "'a io \<Rightarrow> ('a \<Rightarrow> mach \<Rightarrow> 'b io) \<Rightarrow> 'b io" where
  "io_bind (Ret x m) f = f x m"
| "io_bind Blocked f = Blocked"
| "io_bind Undef f = Undef"

definition io_opt :: "mach option \<Rightarrow> (mach \<Rightarrow> 'a io) \<Rightarrow> 'a io" where
  "io_opt r f = (case r of None \<Rightarrow> Undef | Some m \<Rightarrow> f m)"

definition io_conn :: "mach \<Rightarrow> addr \<Rightarrow> (conn \<Rightarrow> 'a io) \<Rightarrow> 'a io" where
  "io_conn m p f = (case conn_get m p of None \<Rightarrow> Undef | Some c \<Rightarrow> f c)"

lemma io_opt_simps [simp]: "io_opt (Some m) f = f m" "io_opt None f = Undef"
  by (simp_all add: io_opt_def)

subsection \<open>The system calls\<close>

text \<open>\<^verbatim>\<open>recv(fd, buf, len)\<close> and \<^verbatim>\<open>send(fd, buf, len)\<close> on a descriptor with a given script: the result
  and the rest of the script. \<open>None\<close>: the script is at its end.\<close>

datatype sys_res = SysData string | SysSent nat | SysZero | SysErr | SysAgain "env_act list"

fun sys_recv :: "nat \<Rightarrow> recv_ev list \<Rightarrow> (sys_res \<times> recv_ev list) option" where
  "sys_recv len [] = None"
| "sys_recv len (RData d # r) =
     (if len = 0 \<or> d = [] then Some (SysZero, RData d # r)
      else if length d \<le> len then Some (SysData d, r)
      else Some (SysData (take len d), RData (drop len d) # r))"
| "sys_recv len (REof # r) = Some (SysZero, REof # r)"
| "sys_recv len (RErr # r) = Some (SysErr, r)"
| "sys_recv len (RAgain w # r) = Some (SysAgain w, r)"

fun sys_send :: "nat \<Rightarrow> send_ev list \<Rightarrow> (sys_res \<times> send_ev list) option" where
  "sys_send len [] = None"
| "sys_send len (SAccept n # r) = Some (if len = 0 then SysZero else SysSent (min len (Suc n)), r)"
| "sys_send len (SErr # r) = Some (SysErr, r)"
| "sys_send len (SAgain w # r) = Some (SysAgain w, r)"

definition set_sock :: "mach \<Rightarrow> fd \<Rightarrow> sock \<Rightarrow> mach" where
  "set_sock m fd s = m\<lparr>socks := (socks m)(fd := s)\<rparr>"

lemma socks_env_steps [simp]: "socks (env_steps w m) = socks m"
proof (induction w arbitrary: m)
  case (Cons a w)
  have "socks (env_step a m) = socks m"
    by (auto simp: env_step_def conn_err_handler_def dest!: conn_upd_frame split: env_act.splits option.splits)
  with Cons show ?case by (simp add: env_steps_def)
qed (simp add: env_steps_def)

lemma conns_set_sock [simp]: "conns (set_sock m fd s) = conns m" "ev_queue (set_sock m fd s) = ev_queue m"
  by (simp_all add: set_sock_def)

lemma sys_recv_shrinks: "sys_recv len evs = Some (SysAgain w, r) \<Longrightarrow> length r < length evs"
  by (induction len evs rule: sys_recv.induct) (auto split: if_splits)

lemma sys_send_shrinks: "sys_send len evs = Some (SysAgain w, r) \<Longrightarrow> length r < length evs"
  by (induction len evs rule: sys_send.induct) (auto split: if_splits)

lemma sys_recv_data: "sys_recv len evs = Some (SysData d, r) \<Longrightarrow> d \<noteq> [] \<and> length d \<le> len"
  by (induction len evs rule: sys_recv.induct) (auto split: if_splits)

lemma sys_send_sent: "sys_send len evs = Some (SysSent n, r) \<Longrightarrow> 0 < n \<and> n \<le> len"
  by (induction len evs rule: sys_send.induct) (auto split: if_splits)

subsection \<open>The functions\<close>

text \<open>
  \<^verbatim>\<open>conn_try_io\<close>, once for each direction: the loop repeats after every yield, whatever the
  yield returned. The value is the data received, or the number of bytes sent; \<^term>\<open>None\<close> is the
  return value \<open>-1\<close>. A closed descriptor fails with \<^verbatim>\<open>EBADF\<close>.
\<close>

function conn_try_recv :: "mach \<Rightarrow> fd \<Rightarrow> nat \<Rightarrow> bool \<Rightarrow> string option io" where
  "conn_try_recv m fd len can_block =
     (if main_stat m = EXITING then Ret None m
      else if fd \<notin> k_open m then Ret None m
      else case sys_recv len (sk_in (socks m fd)) of
             None \<Rightarrow> if can_block then Blocked else Ret None m
           | Some (SysData d, r) \<Rightarrow> Ret (Some d) (set_sock m fd ((socks m fd)\<lparr>sk_in := r\<rparr>))
           | Some (SysAgain w, r) \<Rightarrow>
               (let m1 = set_sock m fd ((socks m fd)\<lparr>sk_in := r\<rparr>)
                in if can_block then conn_try_recv (env_steps w m1) fd len can_block else Ret None m1)
           | Some (_, r) \<Rightarrow> Ret None (set_sock m fd ((socks m fd)\<lparr>sk_in := r\<rparr>)))"
  by pat_completeness auto
termination
  by (relation "measure (\<lambda>(m, fd, len, b). length (sk_in (socks m fd)))")
    (auto simp: set_sock_def dest: sys_recv_shrinks)

function conn_try_send :: "mach \<Rightarrow> fd \<Rightarrow> string \<Rightarrow> bool \<Rightarrow> nat option io" where
  "conn_try_send m fd buf can_block =
     (if main_stat m = EXITING then Ret None m
      else if fd \<notin> k_open m then Ret None m
      else case sys_send (length buf) (sk_wr (socks m fd)) of
             None \<Rightarrow> if can_block then Blocked else Ret None m
           | Some (SysSent n, r) \<Rightarrow>
               Ret (Some n) (set_sock m fd ((socks m fd)\<lparr>sk_wr := r, sk_out := sk_out (socks m fd) @ take n buf\<rparr>))
           | Some (SysAgain w, r) \<Rightarrow>
               (let m1 = set_sock m fd ((socks m fd)\<lparr>sk_wr := r\<rparr>)
                in if can_block then conn_try_send (env_steps w m1) fd buf can_block else Ret None m1)
           | Some (_, r) \<Rightarrow> Ret None (set_sock m fd ((socks m fd)\<lparr>sk_wr := r\<rparr>)))"
  by pat_completeness auto
termination
  by (relation "measure (\<lambda>(m, fd, buf, b). length (sk_wr (socks m fd)))")
    (auto simp: set_sock_def dest: sys_send_shrinks)

declare conn_try_recv.simps [simp del] conn_try_send.simps [simp del]

text \<open>The label \<^verbatim>\<open>..._failed\<close>: close the connection, return \<open>-1\<close>.\<close>

definition io_fail :: "mach \<Rightarrow> addr \<Rightarrow> (int \<times> 'a) \<Rightarrow> (int \<times> 'a) io" where
  "io_fail m p r = io_opt (conn_close m p) (\<lambda>m'. Ret r m')"

text \<open>The receive loop of \<^verbatim>\<open>conn_read\<close>; the second component is what has been stored in the caller's
  buffer. Every round delivers at least one byte or ends, so \<open>len\<close> decreases.\<close>

lemma conn_try_recv_len:
  "conn_try_recv m fd len b = Ret (Some d) m' \<Longrightarrow> d \<noteq> [] \<and> length d \<le> len"
proof (induction m fd len b rule: conn_try_recv.induct)
  case (1 m fd len b)
  show ?case
  proof (cases "sys_recv len (sk_in (socks m fd))")
    case (Some x)
    then obtain res r where x: "sys_recv len (sk_in (socks m fd)) = Some (res, r)" by (cases x) auto
    have data: "res = SysData e \<Longrightarrow> e \<noteq> [] \<and> length e \<le> len" for e
      using x sys_recv_data by blast
    show ?thesis
      using "1.prems" "1.IH" x data
      by (subst (asm) conn_try_recv.simps) (auto split: if_splits sys_res.splits simp: Let_def)
  qed (use "1.prems" in \<open>subst (asm) conn_try_recv.simps, auto split: if_splits\<close>)
qed

function conn_read_loop :: "mach \<Rightarrow> addr \<Rightarrow> nat \<Rightarrow> string \<Rightarrow> (int \<times> string) io" where
  "conn_read_loop m p len got =
     (if len = 0 then Ret (0, got) m
      else io_conn m p (\<lambda>c.
             case conn_try_recv m (c_fd c) len (c_stat c \<noteq> CONN_CLOSED) of
               Ret (Some d) m1 \<Rightarrow> conn_read_loop m1 p (len - length d) (got @ d)
             | Ret None m1 \<Rightarrow> io_fail m1 p (-1, got)
             | Blocked \<Rightarrow> Blocked
             | Undef \<Rightarrow> Undef))"
  by pat_completeness auto
termination
  by (relation "measure (\<lambda>(m, p, len, got). len)") (auto dest: conn_try_recv_len)

declare conn_read_loop.simps [simp del]

definition conn_read :: "mach \<Rightarrow> addr \<Rightarrow> nat \<Rightarrow> (int \<times> string) io" where
  "conn_read m p len =
     io_conn m p (\<lambda>c.
       if c_stat c = CONN_CLOSED then io_fail m p (-1, '''')
       else if buf_s c < buf_e c
       then (let copy_len = min len (buf_e c - buf_s c)
             in io_opt (conn_upd m p (\<lambda>c. c\<lparr>buf_s := buf_s c + copy_len\<rparr>)) (\<lambda>m1.
                  conn_read_loop m1 p (len - copy_len) (take copy_len (drop (buf_s c) (c_buf c)))))
       else conn_read_loop m p len '''')"

text \<open>A \<^verbatim>\<open>char\<close> is signed on the platforms the proxy runs on: the byte 255 comes back as \<open>-1\<close>.\<close>

definition char_int :: "char \<Rightarrow> int" where
  "char_int c = (let n = of_char c in if n < 128 then n else n - 256)"

definition buf_pop :: "mach \<Rightarrow> addr \<Rightarrow> int io" where
  "buf_pop m p =
     io_conn m p (\<lambda>c.
       if buf_s c < length (c_buf c)
       then io_opt (conn_upd m p (\<lambda>c. c\<lparr>buf_s := buf_s c + 1\<rparr>)) (\<lambda>m1. Ret (char_int (c_buf c ! buf_s c)) m1)
       else Undef)"

definition conn_getc :: "mach \<Rightarrow> addr \<Rightarrow> int io" where
  "conn_getc m p =
     io_conn m p (\<lambda>c.
       if buf_s c < buf_e c then buf_pop m p
       else
         io_opt (conn_upd m p (\<lambda>c. c\<lparr>buf_s := 0, buf_e := 0\<rparr>)) (\<lambda>m1.
         io_bind (conn_try_recv m1 (c_fd c) (buf_cap c) (c_stat c \<noteq> CONN_CLOSED)) (\<lambda>r m2.
           case r of
             None \<Rightarrow> io_opt (conn_close m2 p) (\<lambda>m3. Ret (-1) m3)
           | Some d \<Rightarrow>
               io_opt (conn_upd m2 p (\<lambda>c. c\<lparr>c_buf := d, buf_e := length d, c_rx := c_rx c + 1\<rparr>)) (\<lambda>m3.
                 buf_pop m3 p))))"

definition conn_ungetc :: "mach \<Rightarrow> addr \<Rightarrow> mach option" where
  "conn_ungetc m p =
     Option.bind (conn_get m p) (\<lambda>c.
       if buf_s c \<noteq> 0 then conn_upd m p (\<lambda>c. c\<lparr>buf_s := buf_s c - 1, c_rx := c_rx c - 1\<rparr>) else Some m)"

text \<open>
  \<^verbatim>\<open>conn_gets\<close>: the loop is bounded by the distance of the buffer's length to the limit when
  it starts below it, and is cut off by \<open>fuel\<close> otherwise (the comparison is an equality). The
  result pairs the return value with the buffer.
\<close>

fun conn_gets_loop :: "nat \<Rightarrow> mach \<Rightarrow> addr \<Rightarrow> nat \<Rightarrow> strbuf \<Rightarrow> int \<Rightarrow> (int \<times> int \<times> strbuf) io" where
  "conn_gets_loop 0 m p lim b ret = Undef"
| "conn_gets_loop (Suc fuel) m p lim b ret =
     (if sb_len b + 1 = lim then Ret (-1, -1, b) m
      else io_bind (conn_getc m p) (\<lambda>ch m1.
        if ch = -1 then Ret (-1, -1, b) m1
        else if ch = 13 \<or> ch = 10 then Ret (ch, ret, b) m1
        else case strbuf_append b (char_of ch) of
               None \<Rightarrow> Undef
             | Some b' \<Rightarrow> conn_gets_loop fuel m1 p lim b' (ret + 1)))"

definition conn_gets :: "mach \<Rightarrow> addr \<Rightarrow> nat \<Rightarrow> strbuf \<Rightarrow> (int \<times> strbuf) io" where
  "conn_gets m p lim b =
     io_bind (conn_gets_loop (if sb_len b < lim then lim - sb_len b else 2 ^ 31) m p lim b 0) (\<lambda>(ch, ret, b1) m1.
       if ch \<noteq> 13 then Ret (ret, b1) m1
       else
         io_bind (conn_getc m1 p) (\<lambda>ch2 m2.
           if ch2 = -1 then Ret (-1, b1) m2
           else if ch2 \<noteq> 10 then io_opt (conn_ungetc m2 p) (\<lambda>m3. Ret (ret, b1) m3)
           else Ret (ret, b1) m2))"

lemma conn_try_send_len:
  "conn_try_send m fd buf b = Ret (Some n) m' \<Longrightarrow> 0 < n \<and> n \<le> length buf"
proof (induction m fd buf b rule: conn_try_send.induct)
  case (1 m fd buf b)
  show ?case
  proof (cases "sys_send (length buf) (sk_wr (socks m fd))")
    case (Some x)
    then obtain res r where x: "sys_send (length buf) (sk_wr (socks m fd)) = Some (res, r)" by (cases x) auto
    have sent: "res = SysSent k \<Longrightarrow> 0 < k \<and> k \<le> length buf" for k
      using x sys_send_sent by blast
    show ?thesis
      using "1.prems" "1.IH" x sent
      by (subst (asm) conn_try_send.simps) (auto split: if_splits sys_res.splits simp: Let_def)
  qed (use "1.prems" in \<open>subst (asm) conn_try_send.simps, auto split: if_splits\<close>)
qed

function conn_write_loop :: "mach \<Rightarrow> addr \<Rightarrow> string \<Rightarrow> int io" where
  "conn_write_loop m p buf =
     (if buf = [] then Ret 0 m
      else io_conn m p (\<lambda>c.
             case conn_try_send m (c_fd c) buf (c_stat c \<noteq> CONN_CLOSED) of
               Ret (Some n) m1 \<Rightarrow>
                 (case conn_upd m1 p (\<lambda>c. c\<lparr>c_tx := c_tx c + of_nat n\<rparr>) of
                    None \<Rightarrow> Undef
                  | Some m2 \<Rightarrow> conn_write_loop m2 p (drop n buf))
             | Ret None m1 \<Rightarrow> io_opt (conn_close m1 p) (\<lambda>m2. Ret (-1) m2)
             | Blocked \<Rightarrow> Blocked
             | Undef \<Rightarrow> Undef))"
  by pat_completeness auto
termination
  by (relation "measure (\<lambda>(m, p, buf). length buf)") (auto dest!: conn_try_send_len)

declare conn_write_loop.simps [simp del]

definition conn_write :: "mach \<Rightarrow> addr \<Rightarrow> string \<Rightarrow> int io" where
  "conn_write m p buf =
     io_conn m p (\<lambda>c.
       if c_stat c = CONN_CLOSED then io_opt (conn_close m p) (\<lambda>m1. Ret (-1) m1)
       else conn_write_loop m p buf)"

text \<open>\<^verbatim>\<open>conn_copy\<close>; \<open>len\<close> is the non-negative length its callers pass.\<close>

function conn_copy_loop :: "mach \<Rightarrow> addr \<Rightarrow> addr \<Rightarrow> nat \<Rightarrow> int io" where
  "conn_copy_loop m po pin len =
     (if len = 0 then Ret 0 m
      else io_conn m pin (\<lambda>c.
        io_opt (conn_upd m pin (\<lambda>c. c\<lparr>buf_s := 0, buf_e := 0\<rparr>)) (\<lambda>m0.
        case conn_try_recv m0 (c_fd c) (buf_cap c) (c_stat c \<noteq> CONN_CLOSED) of
          Ret None m1 \<Rightarrow> io_opt (conn_close m1 pin) (\<lambda>m2. Ret (-1) m2)
        | Ret (Some d) m1 \<Rightarrow>
            (let copy_len = min len (length d) in
             case conn_upd m1 pin (\<lambda>c. c\<lparr>c_buf := d, buf_e := length d\<rparr>) of
               None \<Rightarrow> Undef
             | Some m2 \<Rightarrow>
                 (case conn_write m2 po (take copy_len d) of
                    Ret r m3 \<Rightarrow>
                      if r = -1 then Ret (-1) m3
                      else
                        (case conn_upd m3 pin (\<lambda>c. c\<lparr>buf_s := buf_s c + copy_len, c_rx := c_rx c + of_nat copy_len\<rparr>) of
                           None \<Rightarrow> Undef
                         | Some m4 \<Rightarrow> conn_copy_loop m4 po pin (len - copy_len))
                  | Blocked \<Rightarrow> Blocked
                  | Undef \<Rightarrow> Undef))
        | Blocked \<Rightarrow> Blocked
        | Undef \<Rightarrow> Undef)))"
  by pat_completeness auto
termination
  by (relation "measure (\<lambda>(m, po, pin, len). len)") (auto dest!: conn_try_recv_len simp: min_def)

declare conn_copy_loop.simps [simp del]

definition conn_copy :: "mach \<Rightarrow> addr \<Rightarrow> addr \<Rightarrow> nat \<Rightarrow> int io" where
  "conn_copy m po pin len =
     io_conn m pin (\<lambda>c.
       if buf_s c < buf_e c
       then
         (let copy_len = min len (buf_e c - buf_s c) in
          io_bind (conn_write m po (take copy_len (drop (buf_s c) (c_buf c)))) (\<lambda>_ m1.
          io_opt (conn_upd m1 pin (\<lambda>c. c\<lparr>buf_s := buf_s c + copy_len, c_rx := c_rx c + of_nat copy_len\<rparr>)) (\<lambda>m2.
            conn_copy_loop m2 po pin (len - copy_len))))
       else conn_copy_loop m po pin len)"

subsection \<open>What the calls leave alone\<close>

text \<open>\<open>cview\<close>: a connection up to its status, which handlers may change at any yield. \<open>stream\<close>: all
  bytes a script will deliver. \<open>in_bytes\<close>: the unread bytes of a connection, in its buffer and
  still to come; \<open>out_bytes\<close>: what has been sent on it.\<close>

definition cview :: "mach \<Rightarrow> addr \<Rightarrow> conn option" where
  "cview m p = map_option (\<lambda>c. c\<lparr>c_stat := CONN_FREE\<rparr>) (conn_get m p)"

fun stream :: "recv_ev list \<Rightarrow> string" where
  "stream [] = ''''"
| "stream (RData d # r) = d @ stream r"
| "stream (REof # r) = ''''"
| "stream (RErr # r) = stream r"
| "stream (RAgain w # r) = stream r"

definition inbuf :: "conn \<Rightarrow> string" where
  "inbuf c = take (buf_e c - buf_s c) (drop (buf_s c) (c_buf c))"

definition buf_ok :: "conn \<Rightarrow> bool" where
  "buf_ok c \<longleftrightarrow> buf_s c \<le> buf_e c \<and> buf_e c = length (c_buf c) \<and> buf_e c \<le> buf_cap c \<or>
     buf_s c = 0 \<and> buf_e c = 0"

definition in_bytes :: "mach \<Rightarrow> conn \<Rightarrow> string" where
  "in_bytes m c = inbuf c @ stream (sk_in (socks m (c_fd c)))"

definition out_bytes :: "mach \<Rightarrow> conn \<Rightarrow> string" where
  "out_bytes m c = sk_out (socks m (c_fd c))"

lemma cview_Some: "cview m p = Some v \<Longrightarrow> \<exists>c. conn_get m p = Some c \<and> v = c\<lparr>c_stat := CONN_FREE\<rparr>"
  by (auto simp: cview_def)

lemma cview_eq:
  "cview m' p = cview m p \<Longrightarrow> conn_get m p = Some c \<Longrightarrow> \<exists>st. conn_get m' p = Some (c\<lparr>c_stat := st\<rparr>)"
proof -
  assume v: "cview m' p = cview m p" and c: "conn_get m p = Some c"
  then obtain c' where c': "conn_get m' p = Some c'" "c'\<lparr>c_stat := CONN_FREE\<rparr> = c\<lparr>c_stat := CONN_FREE\<rparr>"
    by (auto simp: cview_def)
  then have "c' = c\<lparr>c_stat := c_stat c'\<rparr>" by (cases c; cases c') simp
  with c' show ?thesis by metis
qed

lemma cview_socks [simp]: "cview (set_sock m fd s) = cview m"
  by (simp add: cview_def conn_get_def set_sock_def fun_eq_iff)

lemma conn_get_socks [simp]: "conn_get (set_sock m fd s) = conn_get m"
  by (simp add: conn_get_def set_sock_def fun_eq_iff)

lemma conn_upd_cview:
  assumes "conn_upd m p f = Some m'" "\<And>c. (f c)\<lparr>c_stat := CONN_FREE\<rparr> = c\<lparr>c_stat := CONN_FREE\<rparr>"
  shows "cview m' = cview m"
  using conn_upd_get [OF assms(1)] assms(2) by (auto simp: cview_def fun_eq_iff option.map_comp o_def)

lemma conn_upd_socks: "conn_upd m p f = Some m' \<Longrightarrow> socks m' = socks m"
  by (auto dest: conn_upd_frame)

lemma cview_env_steps [simp]: "cview (env_steps w m) = cview m"
proof (induction w arbitrary: m)
  case (Cons a w)
  have "cview (env_step a m) = cview m"
  proof (cases a)
    case (EnvConnErr p)
    then show ?thesis using conn_upd_cview [of m p "\<lambda>c. c\<lparr>c_stat := CONN_CLOSED\<rparr>"]
      by (cases "conn_upd m p (\<lambda>c. c\<lparr>c_stat := CONN_CLOSED\<rparr>)") (simp_all add: env_step_def conn_err_handler_def)
  qed (simp add: env_step_def cview_def conn_get_def fun_eq_iff)
  with Cons show ?case by (simp add: env_steps_def)
qed (simp add: env_steps_def)

lemma conn_close_view:
  assumes "conn_close m p = Some m'"
  shows "cview m' = cview m \<and> socks m' = socks m \<and> (\<exists>c. conn_get m' p = Some c \<and> c_stat c = CONN_CLOSED)"
proof -
  obtain c where c: "conn_get m p = Some c" using assms by (auto simp: conn_close_def bind_eq_Some_conv)
  show ?thesis
  proof (cases "c_stat c = CONN_CLOSED")
    case True
    with assms c show ?thesis by (auto simp: conn_close_def)
  next
    case False
    with assms c have u: "conn_upd (drop_fd m (c_fd c)) p (\<lambda>c. c\<lparr>c_stat := CONN_CLOSED\<rparr>) = Some m'"
      by (simp add: conn_close_def)
    have "cview m' = cview (drop_fd m (c_fd c))" by (rule conn_upd_cview [OF u]) simp
    moreover have "cview (drop_fd m (c_fd c)) = cview m" by (simp add: cview_def conn_get_def fun_eq_iff)
    moreover have "socks m' = socks m" using conn_upd_socks [OF u] by simp
    moreover have "conn_get m' p = Some (c\<lparr>c_stat := CONN_CLOSED\<rparr>)"
      using conn_upd_get [OF u, of p] c by (simp add: conn_get_def)
    ultimately show ?thesis by simp
  qed
qed

subsection \<open>Receiving\<close>

lemma sys_recv_stream:
  "sys_recv len evs = Some (res, r) \<Longrightarrow>
   stream evs = (case res of SysData d \<Rightarrow> d | _ \<Rightarrow> '''') @ stream r"
  by (induction len evs rule: sys_recv.induct) (auto split: if_splits)

text \<open>\<open>took m fd d m'\<close>: from \<open>m\<close> to \<open>m'\<close> exactly the bytes \<open>d\<close> were taken off the input of \<open>fd\<close>.\<close>

definition took :: "mach \<Rightarrow> fd \<Rightarrow> string \<Rightarrow> mach \<Rightarrow> bool" where
  "took m fd d m' \<longleftrightarrow> cview m' = cview m \<and>
     (\<exists>evs. socks m' = (socks m)(fd := (socks m fd)\<lparr>sk_in := evs\<rparr>) \<and>
       stream (sk_in (socks m fd)) = d @ stream evs)"

lemma took_refl: "took m fd '''' m"
  by (auto simp: took_def intro!: exI [of _ "sk_in (socks m fd)"])

lemma took_one:
  assumes "sys_recv len (sk_in (socks m fd)) = Some (sr, r)"
  shows "took m fd (case sr of SysData d \<Rightarrow> d | _ \<Rightarrow> '''') (set_sock m fd ((socks m fd)\<lparr>sk_in := r\<rparr>))"
  using sys_recv_stream [OF assms] by (auto simp: took_def set_sock_def cview_def conn_get_def)

lemma took_env: "took m fd d (env_steps w m') = took m fd d m'"
  by (simp add: took_def)

lemma took_trans: "took m fd d m1 \<Longrightarrow> took m1 fd e m2 \<Longrightarrow> took m fd (d @ e) m2"
  by (auto simp: took_def)

lemma conn_try_recv_spec:
  "conn_try_recv m fd len b = Ret res m' \<Longrightarrow> took m fd (case res of None \<Rightarrow> '''' | Some d \<Rightarrow> d) m'"
proof (induction m fd len b rule: conn_try_recv.induct)
  case (1 m fd len b)
  show ?case
  proof (cases "main_stat m = EXITING \<or> fd \<notin> k_open m")
    case True
    with "1.prems" took_refl show ?thesis by (subst (asm) conn_try_recv.simps) (auto split: if_splits)
  next
    case False
    show ?thesis
    proof (cases "sys_recv len (sk_in (socks m fd))")
      case None
      with False "1.prems" took_refl show ?thesis by (subst (asm) conn_try_recv.simps) (auto split: if_splits)
    next
      case (Some x)
      obtain sr r where x: "x = (sr, r)" by (cases x)
      note one = took_one [OF Some [unfolded x]]
      show ?thesis
      proof (cases "\<exists>w. sr = SysAgain w \<and> b")
        case True
        then obtain w where w: "sr = SysAgain w" "b" by blast
        let ?m = "env_steps w (set_sock m fd ((socks m fd)\<lparr>sk_in := r\<rparr>))"
        have "conn_try_recv ?m fd len b = Ret res m'"
          using "1.prems" False Some x w by (subst (asm) conn_try_recv.simps) (simp add: Let_def)
        from "1.IH" [OF _ _ Some _ _ refl w(2) this] False x w
        have "took ?m fd (case res of None \<Rightarrow> '''' | Some d \<Rightarrow> d) m'" by auto
        moreover have "took m fd '''' ?m" using one w by (simp add: took_env)
        ultimately show ?thesis using took_trans by fastforce
      next
        case no: False
        have "m' = set_sock m fd ((socks m fd)\<lparr>sk_in := r\<rparr>) \<and>
            res = (case sr of SysData d \<Rightarrow> Some d | _ \<Rightarrow> None)"
          using "1.prems" False Some x no
          by (subst (asm) conn_try_recv.simps) (auto split: sys_res.splits if_splits simp: Let_def)
        then show ?thesis using one by (auto split: sys_res.splits)
      qed
    qed
  qed
qed

subsection \<open>Sending\<close>

text \<open>\<open>gave m fd d m'\<close>: exactly the bytes \<open>d\<close> were put on the output of \<open>fd\<close>.\<close>

definition gave :: "mach \<Rightarrow> fd \<Rightarrow> string \<Rightarrow> mach \<Rightarrow> bool" where
  "gave m fd d m' \<longleftrightarrow>
     (\<exists>r. socks m' = (socks m)(fd := (socks m fd)\<lparr>sk_wr := r, sk_out := sk_out (socks m fd) @ d\<rparr>))"

lemma gave_refl: "gave m fd '''' m"
  by (auto simp: gave_def intro!: exI [of _ "sk_wr (socks m fd)"])

lemma gave_trans: "gave m fd d m1 \<Longrightarrow> gave m1 fd e m2 \<Longrightarrow> gave m fd (d @ e) m2"
  by (auto simp: gave_def)

lemma gave_same: "gave m fd d m1 \<Longrightarrow> socks m2 = socks m1 \<Longrightarrow> gave m fd d m2"
  by (auto simp: gave_def)

lemma conn_try_send_spec:
  "conn_try_send m fd buf b = Ret res m' \<Longrightarrow>
   cview m' = cview m \<and> gave m fd (case res of None \<Rightarrow> '''' | Some n \<Rightarrow> take n buf) m'"
proof (induction m fd buf b rule: conn_try_send.induct)
  case (1 m fd buf b)
  show ?case
  proof (cases "main_stat m = EXITING \<or> fd \<notin> k_open m")
    case True
    with "1.prems" gave_refl show ?thesis by (subst (asm) conn_try_send.simps) (auto split: if_splits)
  next
    case False
    show ?thesis
    proof (cases "sys_send (length buf) (sk_wr (socks m fd))")
      case None
      with False "1.prems" gave_refl show ?thesis by (subst (asm) conn_try_send.simps) (auto split: if_splits)
    next
      case (Some x)
      obtain sr r where x: "x = (sr, r)" by (cases x)
      have none: "gave m fd '''' (set_sock m fd ((socks m fd)\<lparr>sk_wr := r\<rparr>))"
        by (auto simp: gave_def set_sock_def intro!: exI [of _ r])
      show ?thesis
      proof (cases "\<exists>w. sr = SysAgain w \<and> b")
        case True
        then obtain w where w: "sr = SysAgain w" "b" by blast
        let ?m = "env_steps w (set_sock m fd ((socks m fd)\<lparr>sk_wr := r\<rparr>))"
        have "conn_try_send ?m fd buf b = Ret res m'"
          using "1.prems" False Some x w by (subst (asm) conn_try_send.simps) (simp add: Let_def)
        from "1.IH" [OF _ _ Some _ _ refl w(2) this] False x w
        have *: "cview m' = cview m" "gave ?m fd (case res of None \<Rightarrow> '''' | Some n \<Rightarrow> take n buf) m'" by auto
        have "gave m fd '''' ?m" by (rule gave_same [OF none]) simp
        from gave_trans [OF this *(2)] *(1) show ?thesis by simp
      next
        case no: False
        have "gave m fd (take n buf) (set_sock m fd ((socks m fd)\<lparr>sk_wr := r, sk_out := sk_out (socks m fd) @ take n buf\<rparr>))" for n
          by (auto simp: gave_def set_sock_def intro!: exI [of _ r])
        then show ?thesis
          using "1.prems" False Some x no none
          by (subst (asm) conn_try_send.simps) (auto split: sys_res.splits if_splits simp: Let_def)
      qed
    qed
  qed
qed

text \<open>A write sends a prefix of the data, all of it if it reports success, and counts the bytes in
  \<^verbatim>\<open>tx\<close>; when it fails the connection is closed.\<close>

definition wrote :: "mach \<Rightarrow> addr \<Rightarrow> conn \<Rightarrow> nat \<Rightarrow> mach \<Rightarrow> bool" where
  "wrote m p c k m' \<longleftrightarrow> (\<exists>c'. conn_get m' p = Some c' \<and>
     c'\<lparr>c_stat := CONN_FREE\<rparr> = c\<lparr>c_stat := CONN_FREE, c_tx := c_tx c + of_nat k\<rparr>) \<and>
     (\<forall>q. q \<noteq> p \<longrightarrow> cview m' q = cview m q)"

lemma conn_upd_tx:
  assumes "conn_upd m p (\<lambda>c. c\<lparr>c_tx := c_tx c + of_nat n\<rparr>) = Some m'" "conn_get m p = Some c"
  shows "conn_get m' p = Some (c\<lparr>c_tx := c_tx c + of_nat n\<rparr>)" "q \<noteq> p \<Longrightarrow> cview m' q = cview m q" "socks m' = socks m"
  using conn_upd_get [OF assms(1)] conn_upd_socks [OF assms(1)] assms(2) by (auto simp: cview_def)

lemma wrote_view: "cview m1 = cview m \<Longrightarrow> conn_get m p = Some c \<Longrightarrow> wrote m p c 0 m1"
  using cview_eq [of m1 p m c] by (auto simp: wrote_def)

lemma wrote_same: "wrote m p c k m1 \<Longrightarrow> cview m2 = cview m1 \<Longrightarrow> wrote m p c k m2"
  using cview_eq [of m2 p m1] by (fastforce simp: wrote_def cview_def)

lemma wrote_trans:
  assumes "conn_get m p = Some c" "wrote m p c n m1" "conn_get m1 p = Some c1" "wrote m1 p c1 k m2"
  shows "wrote m p c (n + k) m2"
proof -
  from assms have c1: "c1\<lparr>c_stat := CONN_FREE\<rparr> = c\<lparr>c_stat := CONN_FREE, c_tx := c_tx c + of_nat n\<rparr>"
    by (auto simp: wrote_def)
  then have "c1\<lparr>c_stat := CONN_FREE, c_tx := c_tx c1 + of_nat k\<rparr> = c\<lparr>c_stat := CONN_FREE, c_tx := c_tx c + of_nat (n + k)\<rparr>"
    by (cases c; cases c1) (simp add: add.assoc)
  with assms(2,4) show ?thesis by (auto simp: wrote_def)
qed

lemma conn_write_loop_spec:
  "conn_write_loop m p buf = Ret r m' \<Longrightarrow> conn_get m p = Some c \<Longrightarrow>
   \<exists>k. k \<le> length buf \<and> gave m (c_fd c) (take k buf) m' \<and> wrote m p c k m' \<and>
     (r = 0 \<and> k = length buf \<or> r = -1 \<and> (\<exists>c'. conn_get m' p = Some c' \<and> c_stat c' = CONN_CLOSED))"
proof (induction m p buf arbitrary: c rule: conn_write_loop.induct)
  case (1 m p buf)
  show ?case
  proof (cases "buf = []")
    case True
    with "1.prems" show ?thesis
      by (subst (asm) conn_write_loop.simps) (auto simp: gave_refl wrote_view)
  next
    case False
    note prem = "1.prems"(1) [unfolded conn_write_loop.simps [of m p buf]]
    obtain res m1 where t: "conn_try_send m (c_fd c) buf (c_stat c \<noteq> CONN_CLOSED) = Ret res m1"
      using prem False "1.prems"(2) by (auto simp: io_conn_def split: io.splits)
    note ts = conn_try_send_spec [OF t]
    show ?thesis
    proof (cases res)
      case None
      with prem t False "1.prems"(2) obtain m2 where m2: "conn_close m1 p = Some m2" "r = -1" "m' = m2"
        by (auto simp: io_conn_def io_opt_def split: option.splits)
      note cl = conn_close_view [OF m2(1)]
      have "gave m (c_fd c) '''' m'" using ts None cl m2 by (auto intro: gave_same)
      moreover have "wrote m p c 0 m'" using ts cl m2 "1.prems"(2) by (intro wrote_view) auto
      ultimately show ?thesis using cl m2 by (intro exI [of _ 0]) auto
    next
      case (Some n)
      have n: "0 < n" "n \<le> length buf" using conn_try_send_len t Some by blast+
      from prem t False "1.prems"(2) Some obtain m2 where
        m2: "conn_upd m1 p (\<lambda>c. c\<lparr>c_tx := c_tx c + of_nat n\<rparr>) = Some m2"
          "conn_write_loop m2 p (drop n buf) = Ret r m'"
        by (auto simp: io_conn_def split: option.splits)
      obtain st where c1: "conn_get m1 p = Some (c\<lparr>c_stat := st\<rparr>)"
        using cview_eq [of m1 p m c] ts "1.prems"(2) by auto
      note u = conn_upd_tx [OF m2(1) c1]
      let ?c2 = "c\<lparr>c_stat := st, c_tx := c_tx c + of_nat n\<rparr>"
      have c2: "conn_get m2 p = Some ?c2" using u(1) by simp
      have w2: "wrote m p c n m2" using u(1,2) ts by (auto simp: wrote_def)
      from "1.IH" [OF False t Some m2(1) m2(2) c2] obtain k where
        k: "k \<le> length (drop n buf)" "gave m2 (c_fd ?c2) (take k (drop n buf)) m'" "wrote m2 p ?c2 k m'"
          "r = 0 \<and> k = length (drop n buf) \<or> r = -1 \<and> (\<exists>c'. conn_get m' p = Some c' \<and> c_stat c' = CONN_CLOSED)"
        by auto
      have "gave m (c_fd c) (take n buf) m2" using ts Some u(3) by (auto intro: gave_same)
      from gave_trans [OF this, of "take k (drop n buf)" m'] k(2)
      have "gave m (c_fd c) (take (n + k) buf) m'" by (simp add: take_add)
      moreover have "wrote m p c (n + k) m'" by (rule wrote_trans [OF "1.prems"(2) w2 c2 k(3)])
      ultimately show ?thesis using k(1,4) n by (intro exI [of _ "n + k"]) auto
    qed
  qed
qed

lemma conn_write_spec:
  assumes "conn_write m p buf = Ret r m'" "conn_get m p = Some c"
  shows "\<exists>k. k \<le> length buf \<and> gave m (c_fd c) (take k buf) m' \<and> wrote m p c k m' \<and>
     (r = 0 \<and> k = length buf \<or> r = -1 \<and> (\<exists>c'. conn_get m' p = Some c' \<and> c_stat c' = CONN_CLOSED))"
proof (cases "c_stat c = CONN_CLOSED")
  case True
  with assms have "m' = m" "r = -1"
    by (auto simp: conn_write_def io_conn_def conn_close_def)
  with True assms(2) show ?thesis by (intro exI [of _ 0]) (auto simp: gave_refl wrote_view)
next
  case False
  with assms show ?thesis by (intro conn_write_loop_spec) (simp_all add: conn_write_def io_conn_def)
qed

subsection \<open>Copying\<close>

text \<open>\<open>moved m po pin co ci k m'\<close>: \<open>k\<close> bytes were taken off the input of one connection and put on
  the output of the other, in order; everything else the peer sent is still there.\<close>

definition moved :: "mach \<Rightarrow> addr \<Rightarrow> addr \<Rightarrow> nat \<Rightarrow> mach \<Rightarrow> bool" where
  "moved m po pin k m' \<longleftrightarrow>
     (\<exists>co ci co' ci'. conn_get m po = Some co \<and> conn_get m pin = Some ci \<and>
        conn_get m' po = Some co' \<and> conn_get m' pin = Some ci' \<and>
        c_fd co' = c_fd co \<and> c_fd ci' = c_fd ci \<and> buf_cap ci' = buf_cap ci \<and> buf_ok ci' \<and>
        k \<le> length (in_bytes m ci) \<and> in_bytes m' ci' = drop k (in_bytes m ci) \<and>
        out_bytes m' co' = out_bytes m co @ take k (in_bytes m ci) \<and> c_tx co' = c_tx co + of_nat k)"

lemma moved_trans:
  assumes "moved m po pin k m1" "moved m1 po pin j m2"
  shows "moved m po pin (k + j) m2"
proof -
  from assms(1) obtain co ci co1 ci1 where 1: "conn_get m po = Some co" "conn_get m pin = Some ci"
      "conn_get m1 po = Some co1" "conn_get m1 pin = Some ci1" "c_fd co1 = c_fd co" "c_fd ci1 = c_fd ci"
      "buf_cap ci1 = buf_cap ci" "k \<le> length (in_bytes m ci)" "in_bytes m1 ci1 = drop k (in_bytes m ci)"
      "out_bytes m1 co1 = out_bytes m co @ take k (in_bytes m ci)" "c_tx co1 = c_tx co + of_nat k"
    unfolding moved_def by blast
  from assms(2) 1(3,4) obtain co2 ci2 where 2: "conn_get m2 po = Some co2" "conn_get m2 pin = Some ci2"
      "c_fd co2 = c_fd co1" "c_fd ci2 = c_fd ci1" "buf_cap ci2 = buf_cap ci1" "buf_ok ci2"
      "j \<le> length (in_bytes m1 ci1)" "in_bytes m2 ci2 = drop j (in_bytes m1 ci1)"
      "out_bytes m2 co2 = out_bytes m1 co1 @ take j (in_bytes m1 ci1)" "c_tx co2 = c_tx co1 + of_nat j"
    unfolding moved_def by auto
  have "k + j \<le> length (in_bytes m ci)" using 1(8,9) 2(7) by simp
  moreover have "in_bytes m2 ci2 = drop (k + j) (in_bytes m ci)" unfolding 2(8) 1(9) drop_drop by (simp only: add.commute)
  moreover have "out_bytes m2 co2 = out_bytes m co @ take (k + j) (in_bytes m ci)"
    unfolding 2(9) 1(9,10) take_add append_assoc ..
  moreover have "c_tx co2 = c_tx co + of_nat (k + j)" unfolding 2(10) 1(11) by (simp add: add.assoc)
  moreover have "c_fd co2 = c_fd co" "c_fd ci2 = c_fd ci" "buf_cap ci2 = buf_cap ci" using 1 2 by metis+
  ultimately show ?thesis unfolding moved_def using 1(1,2) 2(1,2,6) by blast
qed

text \<open>Refilling the buffer from the socket keeps the unread bytes.\<close>

definition set_buf :: "string \<Rightarrow> conn \<Rightarrow> conn" where
  "set_buf d c = c\<lparr>c_buf := d, buf_s := 0, buf_e := length d\<rparr>"

lemma inbuf_set_buf: "inbuf (set_buf d c) = d"
  by (simp add: inbuf_def set_buf_def)

lemma in_bytes_cong: "c_fd c' = c_fd c \<Longrightarrow> sk_in (socks m' (c_fd c)) = sk_in (socks m (c_fd c)) \<Longrightarrow>
    inbuf c' = inbuf c \<Longrightarrow> in_bytes m' c' = in_bytes m c"
  by (simp add: in_bytes_def)

lemma gave_in: "gave m fd d m' \<Longrightarrow> sk_in (socks m' x) = sk_in (socks m x)"
  by (auto simp: gave_def)

lemma gave_out: "gave m fd d m' \<Longrightarrow> sk_out (socks m' fd) = sk_out (socks m fd) @ d"
  by (auto simp: gave_def)

lemma took_out: "took m fd d m' \<Longrightarrow> sk_out (socks m' x) = sk_out (socks m x)"
  by (auto simp: took_def)

lemma took_in: "took m fd d m' \<Longrightarrow> stream (sk_in (socks m fd)) = d @ stream (sk_in (socks m' fd))"
  by (auto simp: took_def)

text \<open>Filling the buffer of \<open>pin\<close> from the socket: the first half of a round of the copy loop.\<close>

lemma copy_fill:
  assumes ci: "conn_get m pin = Some ci" and z: "conn_upd m pin (\<lambda>c. c\<lparr>buf_s := 0, buf_e := 0\<rparr>) = Some m0"
    and rc: "conn_try_recv m0 fd n b = Ret (Some d) m1" and fd: "fd = c_fd ci"
    and u: "conn_upd m1 pin (\<lambda>c. c\<lparr>c_buf := d, buf_e := length d\<rparr>) = Some m2" and e: "inbuf ci = ''''"
  shows "\<exists>st. conn_get m2 pin = Some ((set_buf d ci)\<lparr>c_stat := st\<rparr>)"
    "q \<noteq> pin \<Longrightarrow> cview m2 q = cview m q" "sk_out (socks m2 x) = sk_out (socks m x)"
    "in_bytes m ci = d @ stream (sk_in (socks m2 fd))"
proof -
  note t = conn_try_recv_spec [OF rc]
  have g0: "conn_get m0 pin = Some (ci\<lparr>buf_s := 0, buf_e := 0\<rparr>)" using conn_upd_get [OF z, of pin] ci by simp
  have v1: "cview m1 = cview m0" using t by (simp add: took_def)
  obtain st where g1: "conn_get m1 pin = Some (ci\<lparr>buf_s := 0, buf_e := 0, c_stat := st\<rparr>)"
    using cview_eq [of m1 pin m0] v1 g0 by auto
  have "conn_get m2 pin = Some ((set_buf d ci)\<lparr>c_stat := st\<rparr>)"
    using conn_upd_get [OF u, of pin] g1 by (simp add: set_buf_def)
  then show "\<exists>st. conn_get m2 pin = Some ((set_buf d ci)\<lparr>c_stat := st\<rparr>)" ..
  show "cview m2 q = cview m q" if "q \<noteq> pin"
    using conn_upd_get [OF u, of q] conn_upd_get [OF z, of q] v1 that by (auto simp: cview_def fun_eq_iff)
  have s: "socks m2 = socks m1" "socks m0 = socks m" using conn_upd_socks [OF u] conn_upd_socks [OF z] by auto
  show "sk_out (socks m2 x) = sk_out (socks m x)" using took_out [OF t, of x] s by simp
  show "in_bytes m ci = d @ stream (sk_in (socks m2 fd))"
    using took_in [OF t] s e fd by (simp add: in_bytes_def)
qed

lemma wrote_get:
  assumes "wrote m p c k m'" "conn_get m p = Some c"
  shows "\<exists>st. conn_get m' p = Some (c\<lparr>c_stat := st, c_tx := c_tx c + of_nat k\<rparr>)"
proof -
  from assms obtain c' where c': "conn_get m' p = Some c'"
    "c'\<lparr>c_stat := CONN_FREE\<rparr> = c\<lparr>c_stat := CONN_FREE, c_tx := c_tx c + of_nat k\<rparr>" by (auto simp: wrote_def)
  then have "c' = c\<lparr>c_stat := c_stat c', c_tx := c_tx c + of_nat k\<rparr>" by (cases c; cases c') simp
  with c' show ?thesis by metis
qed

text \<open>Writing out \<open>k\<close> of the bytes that stand in the buffer of \<open>pin\<close>, and stepping over them.\<close>

lemma copy_drain:
  assumes ci: "conn_get m pin = Some ci" and co: "conn_get m po = Some co" and ne: "po \<noteq> pin"
    and buf: "take k (inbuf ci) = d" "k \<le> length (inbuf ci)" "buf_ok ci"
    and w: "conn_write m po d = Ret 0 m1"
    and u: "conn_upd m1 pin (\<lambda>c. c\<lparr>buf_s := buf_s c + k, c_rx := c_rx c + of_nat k\<rparr>) = Some m2"
  shows "moved m po pin k m2"
    "\<exists>ci'. conn_get m2 pin = Some ci' \<and> inbuf ci' = drop k (inbuf ci)"
proof -
  from conn_write_spec [OF w co] have w1: "gave m (c_fd co) d m1" "wrote m po co (length d) m1"
    by auto
  have kd: "length d = k" using buf by auto
  obtain st where g1: "conn_get m1 pin = Some (ci\<lparr>c_stat := st\<rparr>)"
    using cview_eq [of m1 pin m ci] w1(2) ne ci by (auto simp: wrote_def)
  obtain st' where o1: "conn_get m1 po = Some (co\<lparr>c_stat := st', c_tx := c_tx co + of_nat k\<rparr>)"
    using wrote_get [OF w1(2) co] kd by auto
  let ?ci = "ci\<lparr>c_stat := st, buf_s := buf_s ci + k, c_rx := c_rx ci + of_nat k\<rparr>"
  have g2: "conn_get m2 pin = Some ?ci" "conn_get m2 po = conn_get m1 po"
    using conn_upd_get [OF u] g1 ne by auto
  have s: "socks m2 = socks m1" using conn_upd_socks [OF u] .
  have ib: "inbuf ?ci = drop k (inbuf ci)" by (simp add: inbuf_def drop_take add.commute diff_diff_eq)
  then show "\<exists>ci'. conn_get m2 pin = Some ci' \<and> inbuf ci' = drop k (inbuf ci)" using g2(1) by blast
  have ok: "buf_ok ?ci"
    using buf(2,3) by (auto simp: buf_ok_def inbuf_def)
  have "in_bytes m2 ?ci = drop k (in_bytes m ci)"
    using ib gave_in [OF w1(1)] s buf(2) by (simp add: in_bytes_def)
  moreover have "take k (in_bytes m ci) = d" using buf(1,2) by (simp add: in_bytes_def)
  moreover have "k \<le> length (in_bytes m ci)" using buf(2) by (simp add: in_bytes_def)
  moreover have "out_bytes m2 (co\<lparr>c_stat := st', c_tx := c_tx co + of_nat k\<rparr>) = out_bytes m co @ d"
    using gave_out [OF w1(1)] s by (simp add: out_bytes_def)
  ultimately show "moved m po pin k m2"
    unfolding moved_def using ci co g2 o1 ok
    by (intro exI [of _ co] exI [of _ ci] exI [of _ "co\<lparr>c_stat := st', c_tx := c_tx co + of_nat k\<rparr>"] exI [of _ ?ci]) simp
qed

lemma copy_fill_moved:
  assumes "conn_get m pin = Some ci" "conn_upd m pin (\<lambda>c. c\<lparr>buf_s := 0, buf_e := 0\<rparr>) = Some m0"
    "conn_try_recv m0 (c_fd ci) (buf_cap ci) b = Ret (Some d) m1"
    "conn_upd m1 pin (\<lambda>c. c\<lparr>c_buf := d, buf_e := length d\<rparr>) = Some m2" "inbuf ci = ''''"
    and co: "conn_get m po = Some co" "po \<noteq> pin"
  shows "moved m po pin 0 m2"
proof -
  note f = copy_fill [OF assms(1-3) refl assms(4,5)]
  obtain st where c: "conn_get m2 pin = Some ((set_buf d ci)\<lparr>c_stat := st\<rparr>)" using f(1) by blast
  obtain st' where o: "conn_get m2 po = Some (co\<lparr>c_stat := st'\<rparr>)" using cview_eq f(2) co by blast
  have len: "length d \<le> buf_cap ci" using conn_try_recv_len [OF assms(3)] by simp
  have "buf_ok ((set_buf d ci)\<lparr>c_stat := st\<rparr>)" using len by (simp add: buf_ok_def set_buf_def)
  moreover have "in_bytes m2 ((set_buf d ci)\<lparr>c_stat := st\<rparr>) = in_bytes m ci"
    using f(4) by (simp add: in_bytes_def inbuf_def set_buf_def)
  ultimately show ?thesis
    unfolding moved_def using assms(1) co(1) c o f(3)
    by (intro exI [of _ co] exI [of _ ci] exI [of _ "co\<lparr>c_stat := st'\<rparr>"] exI [of _ "(set_buf d ci)\<lparr>c_stat := st\<rparr>"])
      (simp add: set_buf_def out_bytes_def)
qed

text \<open>\<open>partly m po pin n m'\<close>: some prefix, of at most \<open>n\<close> bytes, of the input has been forwarded.\<close>

definition partly :: "mach \<Rightarrow> addr \<Rightarrow> addr \<Rightarrow> nat \<Rightarrow> mach \<Rightarrow> bool" where
  "partly m po pin n m' \<longleftrightarrow>
     (\<exists>co ci co' j. conn_get m po = Some co \<and> conn_get m pin = Some ci \<and> conn_get m' po = Some co' \<and>
        c_fd co' = c_fd co \<and> j \<le> n \<and> out_bytes m' co' = out_bytes m co @ take j (in_bytes m ci))"

lemma moved_partly:
  assumes 1: "moved m po pin k m1" and 2: "partly m1 po pin n m2"
  shows "partly m po pin (k + n) m2"
proof -
  from 1 obtain co ci co1 ci1 where a: "conn_get m po = Some co" "conn_get m pin = Some ci"
      "conn_get m1 po = Some co1" "conn_get m1 pin = Some ci1" "c_fd co1 = c_fd co"
      "in_bytes m1 ci1 = drop k (in_bytes m ci)" "out_bytes m1 co1 = out_bytes m co @ take k (in_bytes m ci)"
    unfolding moved_def by blast
  from 2 a(3,4) obtain co2 j where b: "conn_get m2 po = Some co2" "c_fd co2 = c_fd co1" "j \<le> n"
      "out_bytes m2 co2 = out_bytes m1 co1 @ take j (in_bytes m1 ci1)"
    unfolding partly_def by auto
  have "out_bytes m2 co2 = out_bytes m co @ take (k + j) (in_bytes m ci)"
    unfolding b(4) a(6,7) take_add append_assoc ..
  moreover have "k + j \<le> k + n" "c_fd co2 = c_fd co" using b a by simp_all
  ultimately show ?thesis unfolding partly_def using a(1,2) b(1) by blast
qed

lemma partly_write:
  assumes co: "conn_get m po = Some co" and ci: "conn_get m pin = Some ci"
    and w: "conn_write m po (take k (inbuf ci)) = Ret r m1" and k: "k \<le> length (inbuf ci)"
  shows "partly m po pin k m1"
proof -
  obtain j where j: "j \<le> length (take k (inbuf ci))"
    "gave m (c_fd co) (take j (take k (inbuf ci))) m1" "wrote m po co j m1"
    using conn_write_spec [OF w co] by blast
  obtain st where o: "conn_get m1 po = Some (co\<lparr>c_stat := st, c_tx := c_tx co + of_nat j\<rparr>)"
    using wrote_get [OF j(3) co] by blast
  have "j \<le> k" using j(1) k by simp
  then have "take j (take k (inbuf ci)) = take j (in_bytes m ci)" using k by (simp add: in_bytes_def min_def)
  then have "out_bytes m1 (co\<lparr>c_stat := st, c_tx := c_tx co + of_nat j\<rparr>) = out_bytes m co @ take j (in_bytes m ci)"
    using gave_out [OF j(2)] by (simp add: out_bytes_def)
  then show ?thesis unfolding partly_def
    using co ci o j(1) k
    by (intro exI [of _ co] exI [of _ ci] exI [of _ "co\<lparr>c_stat := st, c_tx := c_tx co + of_nat j\<rparr>"] exI [of _ j]) simp
qed

lemma partly_view:
  assumes "conn_get m po = Some co" "conn_get m pin = Some ci" "cview m' po = cview m po"
    "\<And>x. sk_out (socks m' x) = sk_out (socks m x)"
  shows "partly m po pin n m'"
proof -
  obtain st where "conn_get m' po = Some (co\<lparr>c_stat := st\<rparr>)" using cview_eq [OF assms(3,1)] by blast
  then show ?thesis unfolding partly_def using assms
    by (intro exI [of _ co] exI [of _ ci] exI [of _ "co\<lparr>c_stat := st\<rparr>"] exI [of _ 0]) (simp add: out_bytes_def)
qed

text \<open>The result of a copy: everything asked for was moved, or a prefix of it.\<close>

definition copied :: "mach \<Rightarrow> addr \<Rightarrow> addr \<Rightarrow> nat \<Rightarrow> int \<Rightarrow> mach \<Rightarrow> bool" where
  "copied m po pin n r m' \<longleftrightarrow> r = 0 \<and> moved m po pin n m' \<or> r = -1 \<and> partly m po pin n m'"

lemma moved_copied: "moved m po pin k m1 \<Longrightarrow> copied m1 po pin n r m2 \<Longrightarrow> copied m po pin (k + n) r m2"
  unfolding copied_def using moved_trans moved_partly by blast

lemma partly_mono: "partly m po pin k m' \<Longrightarrow> k \<le> n \<Longrightarrow> partly m po pin n m'"
  unfolding partly_def by (meson order_trans)

text \<open>The three ways a round of the copying loop goes: nothing came, the write failed, \<open>k\<close> bytes moved.\<close>

lemma copy_recv_failed:
  assumes co: "conn_get m po = Some co" and ci: "conn_get m pin = Some ci" and ne: "po \<noteq> pin"
    and z: "conn_upd m pin (\<lambda>c. c\<lparr>buf_s := 0, buf_e := 0\<rparr>) = Some m0"
    and t: "conn_try_recv m0 (c_fd ci) (buf_cap ci) b = Ret None m1" and c: "conn_close m1 pin = Some m2"
  shows "partly m po pin n m2"
proof (rule partly_view [OF co ci])
  show "cview m2 po = cview m po"
    using conn_close_view [OF c] conn_try_recv_spec [OF t] conn_upd_get [OF z, of po] ne
    by (auto simp: took_def cview_def fun_eq_iff)
  show "sk_out (socks m2 x) = sk_out (socks m x)" for x
    using conn_close_view [OF c] took_out [OF conn_try_recv_spec [OF t], of x] conn_upd_socks [OF z] by simp
qed

lemma copy_round:
  assumes co: "conn_get m po = Some co" and ci: "conn_get m pin = Some ci" and ne: "po \<noteq> pin" and e: "inbuf ci = ''''"
    and z: "conn_upd m pin (\<lambda>c. c\<lparr>buf_s := 0, buf_e := 0\<rparr>) = Some m0"
    and t: "conn_try_recv m0 (c_fd ci) (buf_cap ci) b = Ret (Some d) m1"
    and u: "conn_upd m1 pin (\<lambda>c. c\<lparr>c_buf := d, buf_e := length d\<rparr>) = Some m2"
    and w: "conn_write m2 po (take k d) = Ret r m3" and k: "k \<le> length d"
  shows "r = 0 \<or> r = -1" and "r = -1 \<Longrightarrow> partly m po pin k m3"
    and "r = 0 \<Longrightarrow> conn_upd m3 pin (\<lambda>c. c\<lparr>buf_s := buf_s c + k, c_rx := c_rx c + of_nat k\<rparr>) = Some m4 \<Longrightarrow>
      moved m po pin k m4 \<and> (\<exists>ci'. conn_get m4 pin = Some ci' \<and> inbuf ci' = drop k d)"
proof -
  note fill = copy_fill [OF ci z t refl u e]
  note mv = copy_fill_moved [OF ci z t u e co ne]
  obtain st where c2: "conn_get m2 pin = Some ((set_buf d ci)\<lparr>c_stat := st\<rparr>)" using fill(1) by blast
  let ?ci = "(set_buf d ci)\<lparr>c_stat := st\<rparr>"
  have ib: "inbuf ?ci = d" by (simp add: inbuf_def set_buf_def)
  obtain co2 where o2: "conn_get m2 po = Some co2" using cview_eq fill(2) ne co by blast
  have ok: "buf_ok ?ci" using conn_try_recv_len [OF t] by (simp add: buf_ok_def set_buf_def)
  show "r = 0 \<or> r = -1" using conn_write_spec [OF w o2] by auto
  show "partly m po pin k m3" if "r = -1"
    using moved_partly [OF mv partly_write [OF o2 c2]] w ib k by simp
  show "moved m po pin k m4 \<and> (\<exists>ci'. conn_get m4 pin = Some ci' \<and> inbuf ci' = drop k d)"
    if r: "r = 0" and n: "conn_upd m3 pin (\<lambda>c. c\<lparr>buf_s := buf_s c + k, c_rx := c_rx c + of_nat k\<rparr>) = Some m4"
    using copy_drain [OF c2 o2 ne _ _ ok w [unfolded r] n] moved_trans [OF mv] ib k by force
qed

lemma conn_copy_loop_spec:
  "conn_copy_loop m po pin len = Ret r m' \<Longrightarrow> po \<noteq> pin \<Longrightarrow> conn_get m po = Some co \<Longrightarrow>
   conn_get m pin = Some ci \<Longrightarrow> buf_ok ci \<Longrightarrow> len = 0 \<or> inbuf ci = '''' \<Longrightarrow> copied m po pin len r m'"
proof (induction m po pin len arbitrary: co ci rule: conn_copy_loop.induct)
  case (1 m po pin len)
  note prem = "1.prems"(1) [unfolded conn_copy_loop.simps [of m po pin len]]
  show ?case
  proof (cases "len = 0")
    case True
    then have "r = 0" "m' = m" using prem by auto
    moreover have "moved m po pin 0 m" using "1.prems"(3-5) by (auto simp: moved_def)
    ultimately show ?thesis using True by (simp add: copied_def)
  next
    case False
    then have e: "inbuf ci = ''''" using "1.prems"(6) by simp
    obtain m0 where z: "conn_upd m pin (\<lambda>c. c\<lparr>buf_s := 0, buf_e := 0\<rparr>) = Some m0"
      using conn_upd_Some [OF "1.prems"(4)] by blast
    obtain res m1 where t: "conn_try_recv m0 (c_fd ci) (buf_cap ci) (c_stat ci \<noteq> CONN_CLOSED) = Ret res m1"
      using prem False z "1.prems"(4) by (auto simp: io_conn_def split: io.splits)
    show ?thesis
    proof (cases res)
      case None
      then obtain m2 where m2: "conn_close m1 pin = Some m2" "r = -1" "m' = m2"
        using prem False z t "1.prems"(4) by (auto simp: io_conn_def io_opt_def split: option.splits)
      from copy_recv_failed [OF "1.prems"(3,4,2) z t [unfolded None] m2(1)] m2(2,3) show ?thesis by (simp add: copied_def)
    next
      case (Some d)
      let ?k = "min len (length d)"
      obtain m2 where m2: "conn_upd m1 pin (\<lambda>c. c\<lparr>c_buf := d, buf_e := length d\<rparr>) = Some m2"
        using prem False z t Some "1.prems"(4) by (auto simp: io_conn_def Let_def split: option.splits)
      obtain r3 m3 where w: "conn_write m2 po (take ?k d) = Ret r3 m3"
        using prem False z t Some m2 "1.prems"(4) by (auto simp: io_conn_def Let_def split: io.splits)
      note round = copy_round [OF "1.prems"(3,4,2) e z t [unfolded Some] m2 w min.cobounded2]
      show ?thesis
      proof (cases "r3 = -1")
        case True
        then have "r = -1" "m' = m3" using prem False z t Some m2 w "1.prems"(4) by (auto simp: io_conn_def Let_def)
        with round(2) True partly_mono show ?thesis by (fastforce simp: copied_def)
      next
        case no: False
        obtain m4 where m4: "conn_upd m3 pin (\<lambda>c. c\<lparr>buf_s := buf_s c + ?k, c_rx := c_rx c + of_nat ?k\<rparr>) = Some m4"
            "conn_copy_loop m4 po pin (len - ?k) = Ret r m'"
          using prem False z t Some m2 w no "1.prems"(4) by (auto simp: io_conn_def Let_def split: option.splits)
        have mv: "moved m po pin ?k m4" and ib: "\<exists>ci'. conn_get m4 pin = Some ci' \<and> inbuf ci' = drop ?k d"
          using round(1,3) no m4(1) by blast+
        then obtain co4 ci4 where c4: "conn_get m4 po = Some co4" "conn_get m4 pin = Some ci4" "buf_ok ci4"
          unfolding moved_def by blast
        then have "len - ?k = 0 \<or> inbuf ci4 = ''''" using ib by (auto simp: min_def)
        from "1.IH" [OF False t Some refl m2 w no m4(1) m4(2) "1.prems"(2) c4 this]
        have "copied m4 po pin (len - ?k) r m'" by simp
        from moved_copied [OF mv this] show ?thesis by simp
      qed
    qed
  qed
qed

text \<open>A closed connection stays closed while others work, and takes no data.\<close>

definition closed :: "mach \<Rightarrow> addr \<Rightarrow> bool" where
  "closed m p \<longleftrightarrow> (\<exists>c. conn_get m p = Some c \<and> c_stat c = CONN_CLOSED)"

lemma closed_env: "closed m p \<Longrightarrow> closed (env_steps w m) p"
proof (induction w arbitrary: m)
  case (Cons a w)
  have "closed (env_step a m) p"
    using Cons.prems conn_upd_get [of m _ "\<lambda>c. c\<lparr>c_stat := CONN_CLOSED\<rparr>" _ p]
    by (auto simp: env_step_def conn_err_handler_def closed_def conn_get_def split: env_act.splits option.splits)
  with Cons show ?case by (simp add: env_steps_def)
qed (simp add: env_steps_def)

lemma closed_sock [simp]: "closed (set_sock m fd s) p = closed m p"
  by (simp add: closed_def)

lemma closed_recv: "conn_try_recv m fd len b = Ret res m' \<Longrightarrow> closed m p \<Longrightarrow> closed m' p"
proof (induction m fd len b rule: conn_try_recv.induct)
  case (1 m fd len b)
  note prem = "1.prems"(1) [unfolded conn_try_recv.simps [of m fd len b]]
  show ?case
  proof (cases "\<exists>w r. main_stat m \<noteq> EXITING \<and> fd \<in> k_open m \<and> b \<and>
      sys_recv len (sk_in (socks m fd)) = Some (SysAgain w, r)")
    case True
    then obtain w r where w: "main_stat m \<noteq> EXITING" "fd \<in> k_open m" b
      "sys_recv len (sk_in (socks m fd)) = Some (SysAgain w, r)" by blast
    let ?m = "set_sock m fd ((socks m fd)\<lparr>sk_in := r\<rparr>)"
    have "conn_try_recv (env_steps w ?m) fd len b = Ret res m'" using prem w by (simp add: Let_def)
    from "1.IH" [OF w(1) _ w(4) refl refl refl w(3) this] w closed_env "1.prems"(2) show ?thesis by simp
  next
    case False
    with prem "1.prems"(2) show ?thesis
      by (auto split: if_splits option.splits sys_res.splits simp: Let_def)
  qed
qed

lemma closed_upd_other: "conn_upd m q f = Some m' \<Longrightarrow> q \<noteq> p \<Longrightarrow> closed m p \<Longrightarrow> closed m' p"
  using conn_upd_get [of m q f m' p] by (auto simp: closed_def)

lemma closed_close: "conn_close m q = Some m' \<Longrightarrow> closed m p \<Longrightarrow> closed m' p"
proof -
  assume cl: "conn_close m q = Some m'" "closed m p"
  show "closed m' p"
  proof (cases "q = p")
    case True
    with conn_close_view [OF cl(1)] show ?thesis by (auto simp: closed_def)
  next
    case False
    from cl(1) obtain c where c: "conn_get m q = Some c" "c_stat c = CONN_CLOSED \<and> m' = m \<or>
        conn_upd (drop_fd m (c_fd c)) q (\<lambda>c. c\<lparr>c_stat := CONN_CLOSED\<rparr>) = Some m'"
      by (auto simp: conn_close_def bind_eq_Some_conv split: if_splits)
    have "closed (drop_fd m (c_fd c)) p" using cl(2) by (simp add: closed_def conn_get_def)
    with c cl(2) False closed_upd_other show ?thesis by blast
  qed
qed

lemma closed_write: "closed m p \<Longrightarrow> conn_write m p buf = Ret (-1) m"
  by (auto simp: closed_def conn_write_def io_conn_def conn_close_def)

lemma conn_copy_loop_closed:
  assumes "conn_copy_loop m po pin len = Ret r m'" "po \<noteq> pin" "closed m po" "conn_get m pin = Some ci"
  shows "closed m' po"
proof (cases "len = 0")
  case True
  with assms show ?thesis by (subst (asm) conn_copy_loop.simps) simp
next
  case False
  note prem = assms(1) [unfolded conn_copy_loop.simps [of m po pin len]]
  obtain m0 where z: "conn_upd m pin (\<lambda>c. c\<lparr>buf_s := 0, buf_e := 0\<rparr>) = Some m0"
    using conn_upd_Some [OF assms(4)] by blast
  obtain res m1 where t: "conn_try_recv m0 (c_fd ci) (buf_cap ci) (c_stat ci \<noteq> CONN_CLOSED) = Ret res m1"
    using prem False z assms(4) by (auto simp: io_conn_def split: io.splits)
  have c1: "closed m1 po" using closed_recv [OF t] closed_upd_other [OF z] assms(2,3) by auto
  show ?thesis
  proof (cases res)
    case None
    then show ?thesis using prem False z t assms(4) closed_close [OF _ c1]
      by (auto simp: io_conn_def io_opt_def split: option.splits)
  next
    case (Some d)
    then obtain m2 where m2: "conn_upd m1 pin (\<lambda>c. c\<lparr>c_buf := d, buf_e := length d\<rparr>) = Some m2"
      using prem False z t assms(4) by (auto simp: io_conn_def Let_def split: option.splits)
    have c2: "closed m2 po" using closed_upd_other [OF m2] c1 assms(2) by auto
    with prem False z t assms(4) Some m2 show ?thesis by (auto simp: io_conn_def Let_def closed_write)
  qed
qed

lemma conn_copy_spec:
  assumes r: "conn_copy m po pin len = Ret r m'" and ne: "po \<noteq> pin"
    and co: "conn_get m po = Some co" and ci: "conn_get m pin = Some ci" and ok: "buf_ok ci"
  shows "copied m po pin len r m' \<or> closed m' po"
proof (cases "buf_s ci < buf_e ci")
  case False
  then have "inbuf ci = ''''" by (simp add: inbuf_def)
  moreover have "conn_copy_loop m po pin len = Ret r m'"
    using r False ci by (simp add: conn_copy_def io_conn_def)
  ultimately show ?thesis using conn_copy_loop_spec [OF _ ne co ci ok] by blast
next
  case True
  let ?k = "min len (buf_e ci - buf_s ci)"
  have ib: "length (inbuf ci) = buf_e ci - buf_s ci" "take ?k (inbuf ci) = take ?k (drop (buf_s ci) (c_buf ci))"
    using True ok by (auto simp: inbuf_def buf_ok_def min_def)
  obtain r1 m1 where w: "conn_write m po (take ?k (drop (buf_s ci) (c_buf ci))) = Ret r1 m1"
    using r True ci
    by (cases "conn_write m po (take ?k (drop (buf_s ci) (c_buf ci)))")
      (simp_all add: conn_copy_def io_conn_def Let_def)
  obtain m2 where m2: "conn_upd m1 pin (\<lambda>c. c\<lparr>buf_s := buf_s c + ?k, c_rx := c_rx c + of_nat ?k\<rparr>) = Some m2"
      "conn_copy_loop m2 po pin (len - ?k) = Ret r m'"
    using r True ci w by (auto simp: conn_copy_def io_conn_def Let_def io_opt_def split: option.splits)
  show ?thesis
  proof (cases "r1 = 0")
    case r0: True
    have k: "?k \<le> length (inbuf ci)" using ib by simp
    have w0: "conn_write m po (take ?k (drop (buf_s ci) (c_buf ci))) = Ret 0 m1" using w r0 by simp
    note dr = copy_drain [OF ci co ne ib(2) k ok w0 m2(1)]
    from dr(1) obtain co2 ci2 where c2: "conn_get m2 po = Some co2" "conn_get m2 pin = Some ci2" "buf_ok ci2"
      unfolding moved_def by blast
    have "inbuf ci2 = drop ?k (inbuf ci)" using dr(2) c2(2) by auto
    then have "len - ?k = 0 \<or> inbuf ci2 = ''''" using ib by (auto simp: min_def)
    from conn_copy_loop_spec [OF m2(2) ne c2 this] have "copied m2 po pin (len - ?k) r m'" .
    from moved_copied [OF dr(1) this] show ?thesis by simp
  next
    case no: False
    then have "closed m1 po" using conn_write_spec [OF w co] by (auto simp: closed_def)
    then have c2: "closed m2 po" using closed_upd_other [OF m2(1)] ne by auto
    have "\<exists>ci2. conn_get m2 pin = Some ci2"
      using m2(1) conn_upd_get [OF m2(1), of pin] by (auto simp: conn_upd_def conn_get_def bind_eq_Some_conv)
    then show ?thesis using conn_copy_loop_closed [OF m2(2) ne c2] by blast
  qed
qed

text \<open>The result of the first write is not looked at: bytes that stood in the buffer are dropped,
  and success is reported, when the destination is closed.\<close>

lemma conn_copy_drops_buffered:
  assumes "closed m po" "conn_get m pin = Some ci" "po \<noteq> pin" "buf_s ci < buf_e ci" "len \<le> buf_e ci - buf_s ci"
  shows "\<exists>m'. conn_copy m po pin len = Ret 0 m' \<and> socks m' = socks m \<and>
    conn_get m' pin = Some (ci\<lparr>buf_s := buf_s ci + len, c_rx := c_rx ci + of_nat len\<rparr>)"
proof -
  obtain m2 where m2: "conn_upd m pin (\<lambda>c. c\<lparr>buf_s := buf_s c + len, c_rx := c_rx c + of_nat len\<rparr>) = Some m2"
    using conn_upd_Some [OF assms(2)] by blast
  have "conn_copy m po pin len = conn_copy_loop m2 po pin 0"
    using assms m2 closed_write [OF assms(1)] by (simp add: conn_copy_def io_conn_def Let_def min_absorb1)
  moreover have "conn_copy_loop m2 po pin 0 = Ret 0 m2" by (subst conn_copy_loop.simps) simp
  ultimately show ?thesis using conn_upd_get [OF m2, of pin] conn_upd_socks [OF m2] assms(2) by auto
qed

end
