(* ===== verification/LineIO.thy ===== *)
theory LineIO
  imports ConnIO
begin

text \<open>
  What \<^verbatim>\<open>conn_getc\<close>, \<^verbatim>\<open>conn_ungetc\<close> and \<^verbatim>\<open>conn_gets\<close> deliver: as long as the peer does not fail, the
  bytes of the connection come out in order, a character that was read can be put back, and a
  line is split off at its terminator however the network cut the data into pieces.
\<close>

text \<open>A script without errors, in which nothing else happens during a yield.\<close>

definition quiet :: "recv_ev list \<Rightarrow> bool" where
  "quiet evs \<longleftrightarrow> list_all (\<lambda>e. case e of RData d \<Rightarrow> d \<noteq> [] | RAgain w \<Rightarrow> w = [] | _ \<Rightarrow> False) evs"

definition live :: "mach \<Rightarrow> addr \<Rightarrow> conn \<Rightarrow> bool" where
  "live m p c \<longleftrightarrow> conn_get m p = Some c \<and> c_stat c \<noteq> CONN_CLOSED \<and> main_stat m = RUNING \<and>
     c_fd c \<in> k_open m \<and> quiet (sk_in (socks m (c_fd c))) \<and> buf_ok c \<and> 0 < buf_cap c"

lemma sys_recv_quiet:
  "quiet evs \<Longrightarrow> stream evs \<noteq> '''' \<Longrightarrow> 0 < len \<Longrightarrow>
   (\<exists>d r. sys_recv len evs = Some (SysData d, r) \<and> quiet r \<and> stream evs = d @ stream r) \<or>
   (\<exists>r. sys_recv len evs = Some (SysAgain [], r) \<and> quiet r \<and> stream r = stream evs)"
  by (induction len evs rule: sys_recv.induct) (auto simp: quiet_def)

lemma conn_try_recv_quiet:
  "quiet (sk_in (socks m fd)) \<Longrightarrow> stream (sk_in (socks m fd)) \<noteq> '''' \<Longrightarrow> 0 < len \<Longrightarrow>
   main_stat m = RUNING \<Longrightarrow> fd \<in> k_open m \<Longrightarrow> b \<Longrightarrow>
   \<exists>d r. conn_try_recv m fd len b = Ret (Some d) (set_sock m fd ((socks m fd)\<lparr>sk_in := r\<rparr>)) \<and>
     quiet r \<and> stream (sk_in (socks m fd)) = d @ stream r \<and> d \<noteq> '''' \<and> length d \<le> len"
proof (induction m fd len b rule: conn_try_recv.induct)
  case (1 m fd len b)
  from sys_recv_quiet [OF "1.prems"(1-3)] show ?case
  proof (elim disjE exE conjE)
    fix d r
    assume s: "sys_recv len (sk_in (socks m fd)) = Some (SysData d, r)" "quiet r" "stream (sk_in (socks m fd)) = d @ stream r"
    then show ?thesis
      using "1.prems" sys_recv_data [OF s(1)]
      by (subst conn_try_recv.simps) (auto intro!: exI [of _ d] exI [of _ r])
  next
    fix r
    assume s: "sys_recv len (sk_in (socks m fd)) = Some (SysAgain [], r)" "quiet r"
      "stream r = stream (sk_in (socks m fd))"
    let ?m = "set_sock m fd ((socks m fd)\<lparr>sk_in := r\<rparr>)"
    have e: "env_steps [] ?m = ?m" by (simp add: env_steps_def)
    have f: "socks ?m fd = (socks m fd)\<lparr>sk_in := r\<rparr>" "main_stat ?m = main_stat m" "k_open ?m = k_open m"
      by (simp_all add: set_sock_def)
    have eq: "conn_try_recv m fd len b = conn_try_recv ?m fd len b"
      using "1.prems" s(1) by (subst conn_try_recv.simps) (simp add: Let_def e)
    have "\<exists>d r'. conn_try_recv ?m fd len b = Ret (Some d) (set_sock ?m fd ((socks ?m fd)\<lparr>sk_in := r'\<rparr>)) \<and>
        quiet r' \<and> stream (sk_in (socks ?m fd)) = d @ stream r' \<and> d \<noteq> '''' \<and> length d \<le> len"
      using "1.IH" [OF _ _ s(1) refl refl refl "1.prems"(6)] "1.prems" s(2,3) f by (simp add: e)
    then show ?thesis using s(3) f eq by (auto simp: set_sock_def)
  qed
qed

text \<open>\<open>popped m p d m'\<close>: the connection is as live as before and the bytes \<open>d\<close> have been read.\<close>

definition popped :: "mach \<Rightarrow> addr \<Rightarrow> conn \<Rightarrow> string \<Rightarrow> mach \<Rightarrow> conn \<Rightarrow> bool" where
  "popped m p c d m' c' \<longleftrightarrow> live m p c \<and> live m' p c' \<and> c_fd c' = c_fd c \<and> buf_cap c' = buf_cap c \<and>
     c_ep c' = c_ep c \<and> c_tx c' = c_tx c \<and>
     in_bytes m c = d @ in_bytes m' c' \<and> (\<forall>x. sk_out (socks m' x) = sk_out (socks m x)) \<and>
     (\<forall>q. (q \<noteq> p \<longrightarrow> conn_get m' q = conn_get m q) \<and> mem_cnt (conns m') q = mem_cnt (conns m) q) \<and>
     ev_queue m' = ev_queue m \<and> k_open m' = k_open m \<and>
     (\<forall>x. x \<noteq> c_fd c \<longrightarrow> socks m' x = socks m x) \<and> (\<forall>x. sk_wr (socks m' x) = sk_wr (socks m x))"

lemma popped_refl: "live m p c \<Longrightarrow> popped m p c '''' m c"
  by (simp add: popped_def)

lemma popped_trans: "popped m p c d m1 c1 \<Longrightarrow> popped m1 p c1 e m2 c2 \<Longrightarrow> popped m p c (d @ e) m2 c2"
  by (auto simp: popped_def)

lemma conn_upd_eq:
  assumes "conn_get m p = Some c"
  shows "\<exists>h. conn_upd m p f = Some (m\<lparr>conns := h\<rparr>) \<and> conn_get (m\<lparr>conns := h\<rparr>) p = Some (f c) \<and>
    (\<forall>q. (q \<noteq> p \<longrightarrow> conn_get (m\<lparr>conns := h\<rparr>) q = conn_get m q) \<and> mem_cnt h q = mem_cnt (conns m) q)"
proof -
  from conn_upd_Some [OF assms, of f] obtain m' where m': "conn_upd m p f = Some m'" ..
  from conn_upd_frame [OF m'] obtain h where "m' = m\<lparr>conns := h\<rparr>" "\<forall>q. mem_cnt h q = mem_cnt (conns m) q" by auto
  with m' conn_upd_get [OF m'] assms show ?thesis by auto
qed

lemma buf_pop_live:
  assumes l: "live m p c" and b: "buf_s c < buf_e c"
  shows "\<exists>m'. buf_pop m p = Ret (char_int (hd (in_bytes m c))) m' \<and>
    popped m p c [hd (in_bytes m c)] m' (c\<lparr>buf_s := buf_s c + 1\<rparr>)"
proof -
  have c: "conn_get m p = Some c" and ok: "buf_e c = length (c_buf c)" "buf_e c \<le> buf_cap c"
    using l b by (auto simp: live_def buf_ok_def)
  obtain h where h: "conn_upd m p (\<lambda>c. c\<lparr>buf_s := buf_s c + 1\<rparr>) = Some (m\<lparr>conns := h\<rparr>)"
    "conn_get (m\<lparr>conns := h\<rparr>) p = Some (c\<lparr>buf_s := buf_s c + 1\<rparr>)"
    "\<forall>q. (q \<noteq> p \<longrightarrow> conn_get (m\<lparr>conns := h\<rparr>) q = conn_get m q) \<and> mem_cnt h q = mem_cnt (conns m) q"
    using conn_upd_eq [OF c, of "\<lambda>c. c\<lparr>buf_s := buf_s c + 1\<rparr>"] by auto
  have "drop (buf_s c) (c_buf c) = c_buf c ! buf_s c # drop (Suc (buf_s c)) (c_buf c)"
    using b ok by (simp add: Cons_nth_drop_Suc)
  then have ib: "inbuf c = c_buf c ! buf_s c # inbuf (c\<lparr>buf_s := buf_s c + 1\<rparr>)"
    using b by (simp add: inbuf_def Suc_diff_le take_Cons')
  then have "in_bytes m c = c_buf c ! buf_s c # in_bytes (m\<lparr>conns := h\<rparr>) (c\<lparr>buf_s := buf_s c + 1\<rparr>)"
    by (simp add: in_bytes_def)
  moreover have "live (m\<lparr>conns := h\<rparr>) p (c\<lparr>buf_s := buf_s c + 1\<rparr>)"
    using l b ok h(2) by (auto simp: live_def buf_ok_def)
  moreover have "buf_pop m p = Ret (char_int (c_buf c ! buf_s c)) (m\<lparr>conns := h\<rparr>)"
    using c b ok h(1) by (simp add: buf_pop_def io_conn_def)
  ultimately show ?thesis using l h(3) by (auto simp: popped_def)
qed

lemma conn_getc_live:
  assumes l: "live m p c" and n: "in_bytes m c \<noteq> ''''"
  shows "\<exists>m' c'. conn_getc m p = Ret (char_int (hd (in_bytes m c))) m' \<and>
    popped m p c [hd (in_bytes m c)] m' c' \<and> 0 < buf_s c' \<and> buf_s c' \<le> length (c_buf c') \<and>
    buf_e c' = length (c_buf c') \<and> c_buf c' ! (buf_s c' - 1) = hd (in_bytes m c)"
proof (cases "buf_s c < buf_e c")
  case True
  from buf_pop_live [OF l True] obtain m' where m': "buf_pop m p = Ret (char_int (hd (in_bytes m c))) m'"
    "popped m p c [hd (in_bytes m c)] m' (c\<lparr>buf_s := buf_s c + 1\<rparr>)" by blast
  have ok: "buf_e c = length (c_buf c)" using l True by (auto simp: live_def buf_ok_def)
  have "c_buf c ! buf_s c = hd (in_bytes m c)"
    using True ok by (simp add: in_bytes_def inbuf_def hd_drop_conv_nth hd_append)
  moreover have "conn_getc m p = buf_pop m p"
    using l True by (simp add: conn_getc_def io_conn_def live_def)
  ultimately show ?thesis using m' True ok by (intro exI [of _ m'] exI [of _ "c\<lparr>buf_s := buf_s c + 1\<rparr>"]) simp
next
  case False
  have c: "conn_get m p = Some c" and st: "c_stat c \<noteq> CONN_CLOSED" using l by (auto simp: live_def)
  have ib: "inbuf c = ''''" using False by (simp add: inbuf_def)
  obtain h where h: "conn_upd m p (\<lambda>c. c\<lparr>buf_s := 0, buf_e := 0\<rparr>) = Some (m\<lparr>conns := h\<rparr>)"
    "conn_get (m\<lparr>conns := h\<rparr>) p = Some (c\<lparr>buf_s := 0, buf_e := 0\<rparr>)"
    "\<forall>q. (q \<noteq> p \<longrightarrow> conn_get (m\<lparr>conns := h\<rparr>) q = conn_get m q) \<and> mem_cnt h q = mem_cnt (conns m) q"
    using conn_upd_eq [OF c, of "\<lambda>c. c\<lparr>buf_s := 0, buf_e := 0\<rparr>"] by auto
  let ?m = "m\<lparr>conns := h\<rparr>"
  obtain d r where d: "conn_try_recv ?m (c_fd c) (buf_cap c) True =
        Ret (Some d) (set_sock ?m (c_fd c) ((socks m (c_fd c))\<lparr>sk_in := r\<rparr>))"
      "quiet r" "stream (sk_in (socks m (c_fd c))) = d @ stream r" "d \<noteq> ''''" "length d \<le> buf_cap c"
    using conn_try_recv_quiet [of ?m "c_fd c" "buf_cap c" True] l n ib by (auto simp: live_def in_bytes_def)
  let ?m1 = "set_sock ?m (c_fd c) ((socks m (c_fd c))\<lparr>sk_in := r\<rparr>)"
  let ?f = "\<lambda>c. c\<lparr>c_buf := d, buf_e := length d, c_rx := c_rx c + 1\<rparr>"
  have g1: "conn_get ?m1 p = Some (c\<lparr>buf_s := 0, buf_e := 0\<rparr>)" using h(2) by simp
  obtain h2 where h2: "conn_upd ?m1 p ?f = Some (?m1\<lparr>conns := h2\<rparr>)"
    "conn_get (?m1\<lparr>conns := h2\<rparr>) p = Some (?f (c\<lparr>buf_s := 0, buf_e := 0\<rparr>))"
    "\<forall>q. (q \<noteq> p \<longrightarrow> conn_get (?m1\<lparr>conns := h2\<rparr>) q = conn_get ?m1 q) \<and> mem_cnt h2 q = mem_cnt (conns ?m1) q"
    using conn_upd_eq [OF g1, of ?f] by auto
  let ?m2 = "?m1\<lparr>conns := h2\<rparr>" and ?c2 = "?f (c\<lparr>buf_s := 0, buf_e := 0\<rparr>)"
  have l2: "live ?m2 p ?c2" using l h2(2) d by (auto simp: live_def buf_ok_def set_sock_def)
  have in2: "in_bytes ?m2 ?c2 = in_bytes m c"
    using ib d by (simp add: in_bytes_def inbuf_def set_sock_def)
  have oth: "\<forall>q. (q \<noteq> p \<longrightarrow> conn_get ?m2 q = conn_get m q) \<and> mem_cnt (conns ?m2) q = mem_cnt (conns m) q" using h(3) h2(3) by simp
  have p2: "popped m p c '''' ?m2 ?c2"
    unfolding popped_def using l l2 in2 oth by (auto simp: set_sock_def)
  from buf_pop_live [OF l2] d(4) obtain m3 where m3: "buf_pop ?m2 p = Ret (char_int (hd (in_bytes m c))) m3"
    "popped ?m2 p ?c2 [hd (in_bytes m c)] m3 (?c2\<lparr>buf_s := 1\<rparr>)" using in2 by auto
  have "conn_getc m p = buf_pop ?m2 p"
    using False c st h(1) d(1) h2(1) by (simp add: conn_getc_def io_conn_def)
  moreover have "hd (in_bytes m c) = d ! 0" using ib d(3,4) by (simp add: in_bytes_def hd_conv_nth hd_append)
  ultimately show ?thesis using m3 popped_trans [OF p2 m3(2)] d(4)
    by (intro exI [of _ m3] exI [of _ "?c2\<lparr>buf_s := 1\<rparr>"]) (simp add: Suc_leI)
qed

text \<open>Putting back the character that was read last.\<close>

lemma conn_ungetc_live:
  assumes p: "popped m p c [x] m' c'" and b: "0 < buf_s c'" "buf_s c' \<le> length (c_buf c')"
    "buf_e c' = length (c_buf c')" "c_buf c' ! (buf_s c' - 1) = x"
  shows "\<exists>m2 c2. conn_ungetc m' p = Some m2 \<and> popped m p c '''' m2 c2"
proof -
  have l: "live m' p c'" using p by (simp add: popped_def)
  then have c: "conn_get m' p = Some c'" by (simp add: live_def)
  let ?f = "\<lambda>c. c\<lparr>buf_s := buf_s c - 1, c_rx := c_rx c - 1\<rparr>"
  obtain h where h: "conn_upd m' p ?f = Some (m'\<lparr>conns := h\<rparr>)" "conn_get (m'\<lparr>conns := h\<rparr>) p = Some (?f c')"
    "\<forall>q. (q \<noteq> p \<longrightarrow> conn_get (m'\<lparr>conns := h\<rparr>) q = conn_get m' q) \<and> mem_cnt h q = mem_cnt (conns m') q"
    using conn_upd_eq [OF c, of ?f] by auto
  have d: "drop (buf_s c' - 1) (c_buf c') = x # drop (buf_s c') (c_buf c')"
    using b Cons_nth_drop_Suc [of "buf_s c' - 1" "c_buf c'"] by simp
  have "inbuf (?f c') = x # inbuf c'" using b d by (simp add: inbuf_def Suc_diff_le)
  then have "in_bytes (m'\<lparr>conns := h\<rparr>) (?f c') = in_bytes m c" using p by (simp add: in_bytes_def popped_def)
  moreover have "live (m'\<lparr>conns := h\<rparr>) p (?f c')" using l h(2) b by (auto simp: live_def buf_ok_def)
  ultimately have "popped m p c '''' (m'\<lparr>conns := h\<rparr>) (?f c')" using p h(3) by (simp add: popped_def)
  moreover have "conn_ungetc m' p = Some (m'\<lparr>conns := h\<rparr>)" using c h(1) b(1) by (simp add: conn_ungetc_def)
  ultimately show ?thesis by blast
qed

text \<open>Characters of a line: neither end of line, nor the byte the code cannot tell from an error.\<close>

definition line_char :: "char \<Rightarrow> bool" where
  "line_char x \<longleftrightarrow> x \<noteq> CR \<and> x \<noteq> LF \<and> x \<noteq> CHR 0xFF"

lemma of_char_bound: "of_char c < (256 :: int)"
  using of_char_mod_256 [of c, where ?'a = int] by (metis mod_pos_pos_trivial pos_mod_bound zero_less_numeral)

lemma char_of_char_int: "char_of (char_int x) = x"
proof -
  have "char_of (of_char x - 256 :: int) = x"
    by (simp add: char_of_eq_iff take_bit_eq_mod)
  then show ?thesis by (simp add: char_int_def Let_def)
qed

lemma char_int_eqs: "char_int x = -1 \<longleftrightarrow> x = CHR 0xFF" "char_int x = 13 \<longleftrightarrow> x = CR" "char_int x = 10 \<longleftrightarrow> x = LF"
proof -
  have inj: "char_int x = char_int y \<longleftrightarrow> x = y" for y by (metis char_of_char_int)
  have v: "char_int CHR 0xFF = -1" "char_int CR = 13" "char_int LF = 10" by (simp_all add: char_int_def)
  show "char_int x = -1 \<longleftrightarrow> x = CHR 0xFF" "char_int x = 13 \<longleftrightarrow> x = CR" "char_int x = 10 \<longleftrightarrow> x = LF"
    using inj [of "CHR 0xFF"] inj [of CR] inj [of LF] v by simp_all
qed

lemma line_char_int: "line_char x \<Longrightarrow> char_int x \<noteq> -1 \<and> char_int x \<noteq> 13 \<and> char_int x \<noteq> 10"
  by (simp add: char_int_eqs line_char_def)

lemma conn_gets_loop_line:
  assumes "\<forall>x \<in> set l. line_char x" "e = CR \<or> e = LF" "live m p c" "in_bytes m c = l @ e # rest"
    "strbuf_wf b" "strbuf_str b = s" "length s + length l + 1 < lim" "lim < 2 ^ 30" "length l < fuel"
  shows "\<exists>m' c' b'. conn_gets_loop fuel m p lim b ret = Ret (char_int e, ret + int (length l), b') m' \<and>
    popped m p c (l @ [e]) m' c' \<and> strbuf_wf b' \<and> strbuf_str b' = s @ l \<and>
    (l \<noteq> [] \<or> strbuf_term b \<longrightarrow> strbuf_term b')"
  using assms
proof (induction l arbitrary: m c b s ret fuel)
  case Nil
  then obtain f where f: "fuel = Suc f" by (cases fuel) auto
  obtain m' c' where m': "conn_getc m p = Ret (char_int e) m'" "popped m p c [e] m' c'"
    using conn_getc_live [OF Nil.prems(3)] Nil.prems(4) by auto
  have "char_int e \<noteq> -1" "char_int e = 13 \<or> char_int e = 10" using Nil.prems(2) by (auto simp: char_int_eqs)
  moreover have "sb_len b + 1 \<noteq> lim" using strbuf_str_length [OF Nil.prems(5)] Nil.prems(6,7) by simp
  ultimately show ?case using m' Nil.prems(5,6) f by auto
next
  case (Cons x l)
  then obtain f where f: "fuel = Suc f" by (cases fuel) auto
  obtain m1 c1 where m1: "conn_getc m p = Ret (char_int x) m1" "popped m p c [x] m1 c1"
    using conn_getc_live [OF Cons.prems(3)] Cons.prems(4) by auto
  have n: "char_int x \<noteq> -1" "char_int x \<noteq> 13" "char_int x \<noteq> 10"
    using line_char_int Cons.prems(1) by auto
  have ne: "sb_len b + 1 \<noteq> lim" using strbuf_str_length [OF Cons.prems(5)] Cons.prems(6,7) by simp
  obtain b1 where b1: "strbuf_append b (char_of (char_int x)) = Some b1" "strbuf_wf b1" "strbuf_str b1 = s @ [x]" "strbuf_term b1"
    using strbuf_append_ok [OF Cons.prems(5), of x] strbuf_str_length [OF Cons.prems(5)] Cons.prems(6-8)
    by (auto simp: char_of_char_int)
  have l1: "live m1 p c1" "in_bytes m1 c1 = l @ e # rest" using m1(2) Cons.prems(4) by (auto simp: popped_def)
  obtain m2 c2 b2 where m2: "conn_gets_loop f m1 p lim b1 (ret + 1) = Ret (char_int e, ret + 1 + int (length l), b2) m2"
    "popped m1 p c1 (l @ [e]) m2 c2" "strbuf_wf b2" "strbuf_str b2 = (s @ [x]) @ l" "strbuf_term b2"
    using Cons.IH [OF _ Cons.prems(2) l1 b1(2,3), of f "ret + 1"] Cons.prems(1,7-9) b1(4) f by auto
  have "conn_gets_loop fuel m p lim b ret = Ret (char_int e, ret + 1 + int (length l), b2) m2"
    using f m1(1) n ne b1(1) m2(1) by simp
  with popped_trans [OF m1(2) m2(2)] m2(3-5) show ?case by (auto simp: add_ac)
qed

text \<open>A line closed by CR LF or by LF alone; a CR followed by something else also ends the line,
  and what follows it stays unread.\<close>

lemma conn_gets_line_raw:
  assumes l: "\<forall>x \<in> set l. line_char x" and lv: "live m p c"
    and i: "in_bytes m c = l @ t @ rest" and t: "t = [LF] \<or> t = [CR, LF] \<or> t = [CR] \<and> rest \<noteq> [] \<and> hd rest \<noteq> LF \<and> hd rest \<noteq> CHR 0xFF"
    and b: "strbuf_wf b" "strbuf_str b = s" and lim: "length s + length l + 1 < lim" "lim < 2 ^ 30"
  shows "\<exists>m' c' b'. conn_gets m p lim b = Ret (int (length l), b') m' \<and>
    popped m p c (l @ t) m' c' \<and> strbuf_wf b' \<and> strbuf_str b' = s @ l \<and>
    (l \<noteq> [] \<or> strbuf_term b \<longrightarrow> strbuf_term b')"
proof -
  obtain e t' where e: "t = e # t'" "e = CR \<or> e = LF" using t by (cases t) auto
  have sl: "sb_len b < lim" "length l < lim - sb_len b" using strbuf_str_length [OF b(1)] b(2) lim by simp_all
  obtain m1 c1 b1 where m1: "conn_gets_loop (lim - sb_len b) m p lim b 0 = Ret (char_int e, int (length l), b1) m1"
    "popped m p c (l @ [e]) m1 c1" "strbuf_wf b1" "strbuf_str b1 = s @ l"
    "l \<noteq> [] \<or> strbuf_term b \<longrightarrow> strbuf_term b1"
    using conn_gets_loop_line [OF l e(2) lv _ b lim sl(2), of "t' @ rest" 0] i e by auto
  have base: "conn_gets m p lim b = (if char_int e \<noteq> 13 then Ret (int (length l), b1) m1
      else io_bind (conn_getc m1 p) (\<lambda>ch2 m2.
           if ch2 = -1 then Ret (-1, b1) m2
           else if ch2 \<noteq> 10 then io_opt (conn_ungetc m2 p) (\<lambda>m3. Ret (int (length l), b1) m3)
           else Ret (int (length l), b1) m2))"
    using m1(1) sl by (simp add: conn_gets_def)
  have l1: "live m1 p c1" and in1: "in_bytes m1 c1 = t' @ rest"
    using m1(2) i e by (auto simp: popped_def)
  show ?thesis
  proof (cases "e = LF")
    case True
    then have "t = [LF]" using t e by auto
    with True base m1 show ?thesis by (auto simp: char_int_eqs)
  next
    case False
    then have cr: "e = CR" using e by auto
    have ne: "in_bytes m1 c1 \<noteq> ''''" using in1 t e cr by auto
    obtain m2 c2 where m2: "conn_getc m1 p = Ret (char_int (hd (t' @ rest))) m2" "popped m1 p c1 [hd (t' @ rest)] m2 c2"
      "0 < buf_s c2" "buf_s c2 \<le> length (c_buf c2)" "buf_e c2 = length (c_buf c2)" "c_buf c2 ! (buf_s c2 - 1) = hd (t' @ rest)"
      using conn_getc_live [OF l1 ne] in1 by auto
    show ?thesis
    proof (cases "t = [CR, LF]")
      case True
      then have "hd (t' @ rest) = LF" "t' = [LF]" using e by auto
      with popped_trans [OF m1(2) m2(2)] base m2(1) m1(3-5) True cr show ?thesis
        by (auto simp: char_int_eqs)
    next
      case no: False
      then have h: "t = [CR]" "t' = ''''" "hd rest \<noteq> LF" "hd rest \<noteq> CHR 0xFF" using t e cr by auto
      obtain m3 c3 where m3: "conn_ungetc m2 p = Some m3" "popped m1 p c1 '''' m3 c3"
        using conn_ungetc_live [OF m2(2-6)] by blast
      from popped_trans [OF m1(2) m3(2)] base m2(1) m3(1) m1(3-5) h cr show ?thesis
        by (auto simp: char_int_eqs)
    qed
  qed
qed

lemma conn_gets_line:
  assumes l: "\<forall>x \<in> set l. line_char x" and lv: "live m p c"
    and i: "in_bytes m c = l @ t @ rest" and t: "t = [LF] \<or> t = [CR, LF] \<or> t = [CR] \<and> rest \<noteq> [] \<and> hd rest \<noteq> LF \<and> hd rest \<noteq> CHR 0xFF"
    and b: "sb b s" and lim: "length s + length l + 1 < lim" "lim < 2 ^ 30"
  shows "\<exists>m' c' b'. conn_gets m p lim b = Ret (int (length l), b') m' \<and>
    popped m p c (l @ t) m' c' \<and> sb b' (s @ l)"
proof -
  have "strbuf_wf b" "strbuf_str b = s" "strbuf_term b" using b by (auto simp: sb_def)
  with conn_gets_line_raw [OF l lv i t _ _ lim] show ?thesis unfolding sb_def by blast
qed

end
