(* ===== verification/NetHandle.thy ===== *)
theory NetHandle
  imports NetParse LineIO Lqueue
begin

text \<open>
  Request handling, \<^verbatim>\<open>src/core/net_handle.c\<close>, with the address lookup of
  \<^verbatim>\<open>src/core/net_utils.c\<close> and the writers of \<^verbatim>\<open>src/core/net_data.c\<close>: the table of method
  handlers, reading a message, connecting to a server, and the error replies. The two
  coroutines themselves are in theory \<open>Pipeline\<close>.
\<close>

definition HTTP_HEADER_MAXLEN :: nat where "HTTP_HEADER_MAXLEN = 32768"
definition CONN_MAX_HANDLER_NUM :: nat where "CONN_MAX_HANDLER_NUM = 32"
definition DOMAIN_MAXLEN :: nat where "DOMAIN_MAXLEN = 256"

subsection \<open>The handler table\<close>

datatype req_fn = NetHttpReq | NetConnectReq
datatype rsp_fn = NetHttpRsp | NetConnectRsp

record net_handlers =
  nh_method :: string
  nh_req :: req_fn
  nh_rsp :: rsp_fn

type_synonym handler_table = "net_handlers option list"

fun net_handle_register :: "handler_table \<Rightarrow> string \<Rightarrow> req_fn \<Rightarrow> rsp_fn \<Rightarrow> handler_table" where
  "net_handle_register [] me rq rs = []"
| "net_handle_register (None # hs) me rq rs = Some \<lparr>nh_method = me, nh_req = rq, nh_rsp = rs\<rparr> # hs"
| "net_handle_register (Some h # hs) me rq rs = Some h # net_handle_register hs me rq rs"

fun method_strcmp :: "string \<Rightarrow> string \<Rightarrow> int" where
  "method_strcmp (a # m0) (b # m1) =
     (if b \<noteq> CHR '' '' then if a \<noteq> b then -1 else method_strcmp m0 m1 else -1)"
| "method_strcmp [] m1 = (if m1 = [] \<or> hd m1 = CHR '' '' then 0 else -1)"
| "method_strcmp (a # m0) [] = -1"

fun net_get_handler :: "handler_table \<Rightarrow> string \<Rightarrow> net_handlers option" where
  "net_get_handler [] me = None"
| "net_get_handler (None # hs) me = None"
| "net_get_handler (Some h # hs) me =
     (if method_strcmp (nh_method h) me = 0 then Some h else net_get_handler hs me)"

definition net_handle_module_init :: handler_table where
  "net_handle_module_init = replicate CONN_MAX_HANDLER_NUM None"

definition net_http_module_init :: "handler_table \<Rightarrow> handler_table" where
  "net_http_module_init hs0 =
     (let hs1 = net_handle_register hs0 ''GET'' NetHttpReq NetHttpRsp;
          hs2 = net_handle_register hs1 ''POST'' NetHttpReq NetHttpRsp;
          hs3 = net_handle_register hs2 ''HEAD'' NetHttpReq NetHttpRsp;
          hs4 = net_handle_register hs3 ''PUT'' NetHttpReq NetHttpRsp;
          hs5 = net_handle_register hs4 ''DELETE'' NetHttpReq NetHttpRsp
      in net_handle_register hs5 ''CONNECT'' NetConnectReq NetConnectRsp)"

subsection \<open>Reading a message\<close>

text \<open>Every round adds at least two characters to the buffer, whose length is limited by
  \<^verbatim>\<open>HTTP_HEADER_MAXLEN\<close>; that many rounds of fuel are enough.\<close>

fun net_fetch_headers_loop :: "nat \<Rightarrow> mach \<Rightarrow> addr \<Rightarrow> net_data \<Rightarrow> (int \<times> net_data) io" where
  "net_fetch_headers_loop 0 m p d = Undef"
| "net_fetch_headers_loop (Suc fuel) m p d =
     (let p0 = sb_len (nd_buf d) in
      io_bind (conn_gets m p HTTP_HEADER_MAXLEN (nd_buf d)) (\<lambda>(ret, b) m1.
        if ret \<le> 0 then Ret (ret, d\<lparr>nd_buf := b\<rparr>) m1
        else case strbuf_append b NUL of
               None \<Rightarrow> Undef
             | Some b1 \<Rightarrow>
                 (case net_parse_header (d\<lparr>nd_buf := b1\<rparr>) (int p0) of
                    None \<Rightarrow> Undef
                  | Some (r, d1) \<Rightarrow> if r \<noteq> 0 then Ret (-1, d1) m1 else net_fetch_headers_loop fuel m1 p d1)))"

definition net_fetch_headers :: "mach \<Rightarrow> addr \<Rightarrow> net_data \<Rightarrow> (int \<times> net_data) io" where
  "net_fetch_headers m p d = net_fetch_headers_loop HTTP_HEADER_MAXLEN m p d"

definition net_fetch_http :: "mach \<Rightarrow> addr \<Rightarrow> net_data \<Rightarrow> (int \<times> net_data) io" where
  "net_fetch_http m p d =
     io_bind (conn_gets m p HTTP_HEADER_MAXLEN (nd_buf d)) (\<lambda>(ret, b) m1.
       if ret \<le> 0 then Ret (ret, d\<lparr>nd_buf := b\<rparr>) m1
       else case strbuf_append b NUL of
              None \<Rightarrow> Undef
            | Some b1 \<Rightarrow> net_fetch_headers m1 p (d\<lparr>nd_buf := b1\<rparr>))"

subsection \<open>Writing headers and error replies\<close>

definition net_forward_req_header :: "mach \<Rightarrow> net_req \<Rightarrow> addr \<Rightarrow> int io" where
  "net_forward_req_header m rq p =
     (case req_header_buf rq of
        None \<Rightarrow> Undef
      | Some b \<Rightarrow> conn_write m p (strbuf_str b))"

text \<open>The result of the write is not returned.\<close>

definition net_forward_rsp_header :: "mach \<Rightarrow> net_rsp \<Rightarrow> addr \<Rightarrow> int io" where
  "net_forward_rsp_header m rs p =
     (case rsp_header_buf rs of
        None \<Rightarrow> Undef
      | Some b \<Rightarrow> io_bind (conn_write m p (strbuf_str b)) (\<lambda>_ m1. Ret 0 m1))"

definition crlf :: string where "crlf = [CR, LF]"

definition bad_request_msg :: string where
  "bad_request_msg = ''HTTP/1.1 400 Bad Request'' @ crlf @ ''Server: http-proxy'' @ crlf @ crlf"

definition bad_gateway_msg :: string where
  "bad_gateway_msg = ''HTTP/1.1 502 Bad Gateway'' @ crlf @ ''Server: http-proxy'' @ crlf @ crlf"

definition net_bad_request :: "mach \<Rightarrow> addr \<Rightarrow> unit io" where
  "net_bad_request m p =
     io_conn m p (\<lambda>c.
       if c_stat c = CONN_CLOSED then Ret () m
       else io_bind (conn_write m p bad_request_msg) (\<lambda>_ m1. io_opt (conn_close m1 p) (Ret ())))"

definition net_bad_gateway :: "mach \<Rightarrow> addr \<Rightarrow> unit io" where
  "net_bad_gateway m p =
     io_conn m p (\<lambda>c.
       if c_stat c = CONN_CLOSED then Ret () m
       else io_bind (conn_write m p bad_gateway_msg) (\<lambda>_ m1. Ret () m1))"

subsection \<open>Looking up and connecting to a server\<close>

record addrinfo =
  ai_family :: "32 word"
  ai_addr :: string

type_synonym dns_cache_table = "addrinfo list UT_hash_table"

text \<open>
  \<^verbatim>\<open>getaddrinfo_a\<close> either refuses the request with an error code, or delivers a result
  (possibly none) after a yield. The cache entry takes the name through \<^verbatim>\<open>strncpy\<close> into 256
  bytes; a longer name stays without a terminator.
\<close>

datatype gai_res = GaiFail int | GaiDone "env_act list" "addrinfo list option"

definition net_dns_lookup_a ::
  "mach \<Rightarrow> dns_cache_table \<Rightarrow> string \<Rightarrow> gai_res \<Rightarrow> (int \<times> addrinfo list option \<times> mach \<times> dns_cache_table) option" where
  "net_dns_lookup_a m cache host gai =
     (case HASH_FIND cache host of
        Some h \<Rightarrow> Some (0, Some (h_val h), m, cache)
      | None \<Rightarrow>
          let (eid, m1) = event_get_id m in
          (case gai of
             GaiFail r \<Rightarrow> Some (r, None, event_free_id m1 eid, cache)
           | GaiDone w res \<Rightarrow>
               let m2 = event_free_id (env_steps w m1) eid in
               (case res of
                  None \<Rightarrow> Some (0, None, m2, cache)
                | Some l \<Rightarrow> if length host < DOMAIN_MAXLEN then Some (0, Some l, m2, HASH_ADD cache host l) else None)))"

text \<open>The outcome of the system calls for one address: \<^verbatim>\<open>socket\<close>, \<^verbatim>\<open>net_setnonblocking\<close>, \<^verbatim>\<open>connect\<close>.\<close>

record conn_sys =
  cs_sock :: "fd option"
  cs_nonblock :: bool
  cs_conn :: connect_res

type_synonym server_pool = "addr UT_hash_table"

definition addr_endpoint :: "addrinfo \<Rightarrow> 16 word \<Rightarrow> conn_endpoint" where
  "addr_endpoint a port =
     (let n = (if ai_family a = AF_INET then 4 else 16)
      in \<lparr>ep_family = ai_family a, ep_port = port, ep_addr = take n (ai_addr a) @ replicate (16 - n) NUL\<rparr>)"

text \<open>The part of the loop body behind the look at the coroutine's own pool.\<close>

definition connect_new ::
  "mach \<Rightarrow> server_pool \<Rightarrow> conn_endpoint \<Rightarrow> conn_sys \<Rightarrow> (addr option \<times> mach \<times> server_pool) option" where
  "connect_new m pool ep sys =
     Option.bind (conn_get_by_endpoint (cs_sock sys) (cs_nonblock sys) (cs_conn sys) m ep) (\<lambda>(r, m1).
       case r of
         None \<Rightarrow> Some (None, m1, pool)
       | Some p \<Rightarrow>
           Option.bind (conn_get m1 p) (\<lambda>c.
           Option.bind (if c_stat c = CONN_CLOSED then conn_decref m1 p else Some m1) (\<lambda>m2.
           Option.bind (conn_incref m2 p) (\<lambda>m3.
             Some (Some p, m3, HASH_ADD pool (ep_key ep) p)))))"

fun connect_loop ::
  "mach \<Rightarrow> server_pool \<Rightarrow> 16 word \<Rightarrow> (addrinfo \<times> conn_sys) list \<Rightarrow> (addr option \<times> mach \<times> server_pool) option" where
  "connect_loop m pool port [] = Some (None, m, pool)"
| "connect_loop m pool port ((a, sys) # r) =
     (if main_stat m = EXITING then Some (None, m, pool)
      else if ai_family a \<noteq> AF_INET \<and> ai_family a \<noteq> AF_INET6 then connect_loop m pool port r
      else
        let ep = addr_endpoint a port;
            cont = (\<lambda>x. Option.bind x (\<lambda>(res, m1, pool1).
                      case res of None \<Rightarrow> connect_loop m1 pool1 port r | Some p \<Rightarrow> Some (Some p, m1, pool1)))
        in case HASH_FIND pool (ep_key ep) of
             None \<Rightarrow> cont (connect_new m pool ep sys)
           | Some t \<Rightarrow>
               Option.bind (conn_get m (h_val t)) (\<lambda>c.
                 if c_stat c = CONN_CLOSED
                 then Option.bind (conn_decref m (h_val t)) (\<lambda>m1.
                        cont (connect_new m1 (HASH_DELETE pool t) ep sys))
                 else map_option (\<lambda>m1. (Some (h_val t), m1, pool)) (conn_incref m (h_val t))))"

definition net_connect_to_server ::
  "mach \<Rightarrow> dns_cache_table \<Rightarrow> server_pool \<Rightarrow> string \<Rightarrow> 16 word \<Rightarrow> gai_res \<Rightarrow> (nat \<Rightarrow> conn_sys)
   \<Rightarrow> (addr option \<times> mach \<times> dns_cache_table \<times> server_pool) option" where
  "net_connect_to_server m cache pool host port gai sys =
     Option.bind (net_dns_lookup_a m cache host gai) (\<lambda>(ret, res, m1, cache1).
       if ret \<noteq> 0 then Some (None, m1, cache1, pool)
       else
         let as = (case res of None \<Rightarrow> [] | Some l \<Rightarrow> l) in
         map_option (\<lambda>(p, m2, pool2). (p, m2, cache1, pool2))
           (connect_loop m1 pool port (zip as (map sys [0..<length as]))))"

subsection \<open>Choosing the handler\<close>

definition first_word :: "string \<Rightarrow> string" where
  "first_word s = takeWhile (\<lambda>c. c \<noteq> CHR '' '') s"

lemma method_strcmp_word: "CHR '' '' \<notin> set me \<Longrightarrow> method_strcmp me s = 0 \<longleftrightarrow> first_word s = me"
proof (induction me s rule: method_strcmp.induct)
  case (2 s)
  then show ?case by (cases s) (auto simp: first_word_def)
qed (auto simp: first_word_def)

text \<open>Registrations fill the table from the front.\<close>

fun packed :: "handler_table \<Rightarrow> bool" where
  "packed [] = True"
| "packed (None # hs) = (\<forall>h \<in> set hs. h = None)"
| "packed (Some h # hs) = packed hs"

lemma net_get_handler_none [simp]: "\<forall>h \<in> set hs. h = None \<Longrightarrow> net_get_handler hs s = None"
  by (cases hs) auto

lemma packed_none: "\<forall>h \<in> set hs. h = None \<Longrightarrow> packed hs"
  by (cases hs) auto

lemma packed_register: "packed hs \<Longrightarrow> packed (net_handle_register hs me rq rs)"
  by (induction hs me rq rs rule: net_handle_register.induct) (auto simp: packed_none)

lemma net_get_handler_register:
  "packed hs \<Longrightarrow> CHR '' '' \<notin> set me \<Longrightarrow> None \<in> set hs \<Longrightarrow>
   net_get_handler (net_handle_register hs me rq rs) s =
     (case net_get_handler hs s of
        Some h \<Rightarrow> Some h
      | None \<Rightarrow> if first_word s = me then Some \<lparr>nh_method = me, nh_req = rq, nh_rsp = rs\<rparr> else None)"
  by (induction hs me rq rs rule: net_handle_register.induct) (auto simp: method_strcmp_word)

lemma replicate_numeral_None: "replicate CONN_MAX_HANDLER_NUM None = None # None # None # None # None # None # replicate 26 None"
  by (simp add: CONN_MAX_HANDLER_NUM_def numeral_eq_Suc)

lemma handlers_after_init:
  "net_get_handler (net_http_module_init net_handle_module_init) s =
     (if first_word s \<in> {''GET'', ''POST'', ''HEAD'', ''PUT'', ''DELETE''}
      then Some \<lparr>nh_method = first_word s, nh_req = NetHttpReq, nh_rsp = NetHttpRsp\<rparr>
      else if first_word s = ''CONNECT''
      then Some \<lparr>nh_method = ''CONNECT'', nh_req = NetConnectReq, nh_rsp = NetConnectRsp\<rparr> else None)"
  by (simp add: net_http_module_init_def net_handle_module_init_def replicate_numeral_None Let_def method_strcmp_word)

subsection \<open>Fetching a message\<close>

text \<open>\<open>wire kvs\<close>: header lines as they come in, a key, a colon, some blanks and the value.
  \<open>stored\<close>: what the parser makes of them in the buffer.\<close>

type_synonym hdr = "string \<times> nat \<times> string"

definition hdr_ok :: "hdr \<Rightarrow> bool" where
  "hdr_ok h \<longleftrightarrow> (case h of (k, n, v) \<Rightarrow> header_key k \<and> (\<forall>x \<in> set v. line_char x \<and> x \<noteq> NUL) \<and> (v = [] \<or> hd v \<noteq> CHR '' ''))"

definition hdr_line :: "hdr \<Rightarrow> string" where
  "hdr_line h = (case h of (k, n, v) \<Rightarrow> k @ CHR '':'' # replicate n CHR '' '' @ v)"

definition hdr_stored :: "hdr \<Rightarrow> string" where
  "hdr_stored h = (case h of (k, n, v) \<Rightarrow> k @ NUL # replicate n CHR '' '' @ v @ [NUL])"

definition hdr_kv :: "hdr \<Rightarrow> string \<times> string" where
  "hdr_kv h = (case h of (k, n, v) \<Rightarrow> (k, v))"

definition wire :: "hdr list \<Rightarrow> string" where
  "wire hs = concat (map (\<lambda>h. hdr_line h @ crlf) hs)"

definition stored :: "hdr list \<Rightarrow> string" where
  "stored hs = concat (map hdr_stored hs)"

text \<open>\<open>ents_at n s es kvs\<close>: the entries point at the values, which stand in \<open>s\<close>, the part of the
  buffer that starts at offset \<open>n\<close>.\<close>

definition ents_at :: "nat \<Rightarrow> string \<Rightarrow> (string \<times> int) list \<Rightarrow> (string \<times> string) list \<Rightarrow> bool" where
  "ents_at n s es kvs \<longleftrightarrow> list_all2 (\<lambda>(k, off) (k', v). k' = k \<and> NUL \<notin> set k \<and> NUL \<notin> set v \<and>
     (\<exists>pre post. s = pre @ v @ NUL # post \<and> off = int (n + length pre))) es kvs"

lemma ents_at_mono: "ents_at n s es kvs \<Longrightarrow> ents_at n (s @ t) es kvs"
  unfolding ents_at_def by (erule list_all2_mono) fastforce

lemma ents_at_vals:
  assumes "ents_at n s (hash_iter (nd_table d)) kvs" "sb (nd_buf d) (xs @ s @ ys)" "length xs = n"
  shows "ent_vals d kvs"
proof -
  have "cstr_ofs (nd_buf d) (int (n + length pre)) = Some v"
    if s: "s = pre @ v @ NUL # post" and v: "NUL \<notin> set v" for pre v post
    by (rule sb_word [where pre = "xs @ pre" and post = "post @ ys"]) (use assms(2,3) s v in auto)
  with assms(1) show ?thesis unfolding ents_at_def ent_vals_def by (elim list_all2_mono) auto
qed

lemma key_line_char: "key_char x \<Longrightarrow> line_char x \<and> x \<noteq> NUL"
  by (auto simp: line_char_def key_char_def ch_class_defs)

lemma blank_line_char [simp]: "line_char CHR '' ''" "line_char CHR '':''"
  by (simp_all add: line_char_def)

lemma hdr_okD:
  "hdr_ok (k, n, v) \<Longrightarrow> header_key k \<and> NUL \<notin> set k \<and> NUL \<notin> set v \<and> (v = [] \<or> hd v \<noteq> CHR '' '') \<and>
     (\<forall>x \<in> set k \<union> set v. line_char x)"
  unfolding hdr_ok_def header_key_def using key_line_char by fastforce

lemma hdr_line_chars: "hdr_ok h \<Longrightarrow> \<forall>x \<in> set (hdr_line h). line_char x"
  using hdr_okD [of "fst h" "fst (snd h)" "snd (snd h)"] by (auto simp: hdr_line_def split: prod.splits)

lemma hdr_line_nonempty: "hdr_line h \<noteq> ''''"
  by (simp add: hdr_line_def split: prod.splits)

lemma hdr_stored_length: "length (hdr_stored h) = length (hdr_line h) + 1"
  by (simp add: hdr_stored_def hdr_line_def split: prod.splits)

lemma parse_one_header:
  assumes h: "hdr_ok h" and b: "sb (nd_buf d) ((s0 @ s) @ hdr_line h @ [NUL])" and n: "length s0 = n"
    and e: "ents_at n s (hash_iter (nd_table d)) kvs"
  shows "\<exists>d' off. net_parse_header d (int (length (s0 @ s))) = Some (0, d') \<and>
    sb (nd_buf d') (s0 @ s @ hdr_stored h) \<and> nd_table d' = HASH_ADD (nd_table d) (fst (hdr_kv h)) off \<and>
    ents_at n (s @ hdr_stored h) (hash_iter (nd_table d')) (kvs @ [hdr_kv h])"
proof -
  obtain k i v where kv: "h = (k, i, v)" by (cases h)
  have k: "header_key k" "NUL \<notin> set k" and v: "v = [] \<or> hd v \<noteq> CHR '' ''" "NUL \<notin> set v"
    using hdr_okD [of k i v] h kv by auto
  have "sb (nd_buf d) ((s0 @ s) @ k @ CHR '':'' # replicate i CHR '' '' @ v @ NUL # [])"
    using b kv by (simp add: hdr_line_def)
  from net_parse_header_ok [OF this k(1) v] obtain b' where
    b': "net_parse_header d (int (length (s0 @ s))) = Some (0, \<lparr>nd_buf = b',
        nd_table = HASH_ADD (nd_table d) k (int (length (s0 @ s) + length k + 1 + i))\<rparr>)"
      "sb b' (s0 @ s @ hdr_stored h)" by (auto simp: hdr_stored_def kv)
  have new: "s @ hdr_stored h = (s @ k @ NUL # replicate i CHR '' '') @ v @ NUL # []"
    by (simp add: hdr_stored_def kv)
  have val: "\<exists>pre post. s @ hdr_stored h = pre @ v @ NUL # post \<and>
      int (length (s0 @ s) + length k + 1 + i) = int (n + length pre)"
    by (rule exI [of _ "s @ k @ NUL # replicate i CHR '' ''"], rule exI [of _ "[]"]) (use new n in simp)
  have "list_all2 (\<lambda>(k, off) (k', v). k' = k \<and> NUL \<notin> set k \<and> NUL \<notin> set v \<and>
      (\<exists>pre post. s @ hdr_stored h = pre @ v @ NUL # post \<and> off = int (n + length pre)))
      (hash_iter (nd_table d) @ [(k, int (length (s0 @ s) + length k + 1 + i))]) (kvs @ [(k, v)])"
    using ents_at_mono [OF e, of "hdr_stored h"] k v val
    unfolding ents_at_def by (intro list_all2_appendI) simp_all
  then have "ents_at n (s @ hdr_stored h) (hash_iter (HASH_ADD (nd_table d) k (int (length (s0 @ s) + length k + 1 + i))))
      (kvs @ [hdr_kv h])" by (simp add: ents_at_def hash_simps hdr_kv_def kv)
  with b' show ?thesis by (auto simp: hdr_kv_def kv)
qed

lemma net_fetch_headers_live:
  assumes "\<forall>h \<in> set hs. hdr_ok h" "live m p c" "in_bytes m c = wire hs @ crlf @ rest"
    "sb (nd_buf d) (s0 @ s)" "length s0 = n" "ents_at n s (hash_iter (nd_table d)) kvs" "hash_inv (nd_table d)"
    "length (s0 @ s @ stored hs) + 1 < HTTP_HEADER_MAXLEN" "length hs < fuel"
  shows "\<exists>m' c' d'. net_fetch_headers_loop fuel m p d = Ret (0, d') m' \<and> popped m p c (wire hs @ crlf) m' c' \<and>
    sb (nd_buf d') (s0 @ s @ stored hs) \<and> hash_inv (nd_table d') \<and>
    ents_at n (s @ stored hs) (hash_iter (nd_table d')) (kvs @ map hdr_kv hs)"
  using assms
proof (induction hs arbitrary: m c d s kvs fuel)
  case Nil
  then obtain f where f: "fuel = Suc f" by (cases fuel) auto
  obtain m' c' b' where g: "conn_gets m p HTTP_HEADER_MAXLEN (nd_buf d) = Ret (0, b') m'" "popped m p c crlf m' c'"
      "sb b' (s0 @ s)"
    using conn_gets_line [of "''''" m p c crlf rest "nd_buf d" "s0 @ s" HTTP_HEADER_MAXLEN] Nil.prems
    by (auto simp: wire_def stored_def crlf_def HTTP_HEADER_MAXLEN_def)
  have "net_fetch_headers_loop fuel m p d = Ret (0, d\<lparr>nd_buf := b'\<rparr>) m'" using f g(1) by (simp add: Let_def)
  with g Nil.prems show ?case
    by (intro exI [of _ m'] exI [of _ c'] exI [of _ "d\<lparr>nd_buf := b'\<rparr>"]) (simp add: wire_def stored_def)
next
  case (Cons h hs)
  then obtain f where f: "fuel = Suc f" by (cases fuel) auto
  have ho: "hdr_ok h" using Cons.prems(1) by simp
  have len: "length (s0 @ s) + length (hdr_line h) + 1 + length (stored hs) + 1 < HTTP_HEADER_MAXLEN"
    using Cons.prems(8) by (simp add: stored_def hdr_stored_length)
  obtain m1 c1 b1 where g: "conn_gets m p HTTP_HEADER_MAXLEN (nd_buf d) = Ret (int (length (hdr_line h)), b1) m1"
      "popped m p c (hdr_line h @ crlf) m1 c1" "sb b1 ((s0 @ s) @ hdr_line h)"
    using conn_gets_line [OF hdr_line_chars [OF ho] Cons.prems(2), of crlf "wire hs @ crlf @ rest" "nd_buf d" "s0 @ s" HTTP_HEADER_MAXLEN]
      Cons.prems(3,4) len by (auto simp: wire_def crlf_def HTTP_HEADER_MAXLEN_def)
  obtain b2 where b2: "strbuf_append b1 NUL = Some b2" "sb b2 ((s0 @ s) @ hdr_line h @ [NUL])"
    using sb_append [OF g(3), of NUL] len by (auto simp: HTTP_HEADER_MAXLEN_def)
  obtain d1 off where d1: "net_parse_header (d\<lparr>nd_buf := b2\<rparr>) (int (length (s0 @ s))) = Some (0, d1)"
      "sb (nd_buf d1) (s0 @ s @ hdr_stored h)" "nd_table d1 = HASH_ADD (nd_table d) (fst (hdr_kv h)) off"
      "ents_at n (s @ hdr_stored h) (hash_iter (nd_table d1)) (kvs @ [hdr_kv h])"
    using parse_one_header [OF ho, of "d\<lparr>nd_buf := b2\<rparr>" s0 s n kvs] b2(2) Cons.prems(5,6) by auto
  have step: "net_fetch_headers_loop fuel m p d = net_fetch_headers_loop f m1 p d1"
    using f g(1) hdr_line_nonempty [of h] b2(1) d1(1) sb_len [OF Cons.prems(4)] by (simp add: Let_def)
  have l1: "live m1 p c1" "in_bytes m1 c1 = wire hs @ crlf @ rest"
    using g(2) Cons.prems(3) by (auto simp: popped_def wire_def)
  have "\<exists>m' c' d'. net_fetch_headers_loop f m1 p d1 = Ret (0, d') m' \<and> popped m1 p c1 (wire hs @ crlf) m' c' \<and>
      sb (nd_buf d') (s0 @ (s @ hdr_stored h) @ stored hs) \<and> hash_inv (nd_table d') \<and>
      ents_at n ((s @ hdr_stored h) @ stored hs) (hash_iter (nd_table d')) ((kvs @ [hdr_kv h]) @ map hdr_kv hs)"
    using Cons.prems(1,5,7-9) d1 l1 f by (intro Cons.IH) (auto simp: hash_simps stored_def)
  then obtain m2 c2 d2 where 2: "net_fetch_headers_loop f m1 p d1 = Ret (0, d2) m2" "popped m1 p c1 (wire hs @ crlf) m2 c2"
      "sb (nd_buf d2) (s0 @ s @ stored (h # hs))" "hash_inv (nd_table d2)"
      "ents_at n (s @ stored (h # hs)) (hash_iter (nd_table d2)) (kvs @ map hdr_kv (h # hs))"
    by (auto simp: stored_def)
  have "popped m p c (wire (h # hs) @ crlf) m2 c2"
    using popped_trans [OF g(2) 2(2)] by (simp add: wire_def)
  with step 2 show ?case by auto
qed

lemma net_fetch_http_live:
  assumes "\<forall>x \<in> set l. line_char x" "l \<noteq> ''''" "\<forall>h \<in> set hs. hdr_ok h" "live m p c"
    "in_bytes m c = l @ crlf @ wire hs @ crlf @ rest" "length (l @ NUL # stored hs) + 1 < HTTP_HEADER_MAXLEN"
  shows "\<exists>m' c' d'. net_fetch_http m p net_data_init = Ret (0, d') m' \<and>
    popped m p c (l @ crlf @ wire hs @ crlf) m' c' \<and> sb (nd_buf d') (l @ NUL # stored hs) \<and> hash_inv (nd_table d') \<and>
    ents_at (length l + 1) (stored hs) (hash_iter (nd_table d')) (map hdr_kv hs)"
proof -
  obtain m1 c1 b1 where g: "conn_gets m p HTTP_HEADER_MAXLEN (nd_buf net_data_init) = Ret (int (length l), b1) m1"
      "popped m p c (l @ crlf) m1 c1" "sb b1 l"
    using conn_gets_line [OF assms(1,4), of crlf "wire hs @ crlf @ rest" "nd_buf net_data_init" "''''" HTTP_HEADER_MAXLEN]
      assms(5,6) by (auto simp: crlf_def HTTP_HEADER_MAXLEN_def net_data_init_def)
  obtain b2 where b2: "strbuf_append b1 NUL = Some b2" "sb b2 (l @ [NUL])"
    using sb_append [OF g(3), of NUL] assms(6) by (auto simp: HTTP_HEADER_MAXLEN_def)
  have l1: "live m1 p c1" "in_bytes m1 c1 = wire hs @ crlf @ rest" using g(2) assms(5) by (auto simp: popped_def)
  have hl: "length hs \<le> length (stored hs)"
    by (induction hs) (auto simp: stored_def hdr_stored_def split: prod.splits)
  let ?d = "net_data_init\<lparr>nd_buf := b2\<rparr>"
  have e0: "hash_inv (nd_table ?d)" "ents_at k '''' (hash_iter (nd_table ?d)) []" for k
    by (simp add: net_data_init_def) (simp add: net_data_init_def ents_at_def hash_iter_def hash_empty_def)
  have "\<exists>m' c' d'. net_fetch_headers_loop HTTP_HEADER_MAXLEN m1 p ?d = Ret (0, d') m' \<and>
      popped m1 p c1 (wire hs @ crlf) m' c' \<and> sb (nd_buf d') ((l @ [NUL]) @ '''' @ stored hs) \<and> hash_inv (nd_table d') \<and>
      ents_at (length l + 1) ('''' @ stored hs) (hash_iter (nd_table d')) ([] @ map hdr_kv hs)"
    by (rule net_fetch_headers_live [OF assms(3) l1 _ _ e0(2,1)]) (use assms(6) b2(2) hl in auto)
  then obtain m2 c2 d2 where 2: "net_fetch_headers_loop HTTP_HEADER_MAXLEN m1 p ?d = Ret (0, d2) m2"
      "popped m1 p c1 (wire hs @ crlf) m2 c2" "sb (nd_buf d2) (l @ NUL # stored hs)" "hash_inv (nd_table d2)"
      "ents_at (length l + 1) (stored hs) (hash_iter (nd_table d2)) (map hdr_kv hs)" by auto
  have "net_fetch_http m p net_data_init = Ret (0, d2) m2"
    using g(1) b2(1) 2(1) assms(2) by (simp add: net_fetch_http_def net_fetch_headers_def)
  with popped_trans [OF g(2) 2(2)] 2 show ?thesis by auto
qed

end
