(* ===== verification/Forward.thy ===== *)
theory Forward
  imports LineIO
begin

text \<open>
  Forwarding between two healthy connections: a source whose peer keeps delivering and a
  destination whose peer keeps accepting. \<open>passes\<close> is the calculus the body transfer is
  verified with: reading a line, writing a string and copying are its steps, and steps
  compose.
\<close>

text \<open>A send script without errors, and the number of sends it allows (each takes at least one
  byte).\<close>

definition quiet_w :: "send_ev list \<Rightarrow> bool" where
  "quiet_w evs \<longleftrightarrow> list_all (\<lambda>e. case e of SAccept n \<Rightarrow> True | SAgain w \<Rightarrow> w = [] | SErr \<Rightarrow> False) evs"

fun room :: "send_ev list \<Rightarrow> nat" where
  "room [] = 0"
| "room (SAccept n # r) = Suc (room r)"
| "room (e # r) = room r"

definition wlive :: "mach \<Rightarrow> addr \<Rightarrow> conn \<Rightarrow> nat \<Rightarrow> bool" where
  "wlive m p c n \<longleftrightarrow> conn_get m p = Some c \<and> c_stat c \<noteq> CONN_CLOSED \<and> main_stat m = RUNING \<and>
     c_fd c \<in> k_open m \<and> quiet_w (sk_wr (socks m (c_fd c))) \<and> n \<le> room (sk_wr (socks m (c_fd c)))"

lemma sys_send_quiet:
  "quiet_w evs \<Longrightarrow> 0 < room evs \<Longrightarrow> 0 < len \<Longrightarrow>
   (\<exists>n r. sys_send len evs = Some (SysSent n, r) \<and> quiet_w r \<and> room evs = Suc (room r) \<and> 0 < n \<and> n \<le> len) \<or>
   (\<exists>r. sys_send len evs = Some (SysAgain [], r) \<and> quiet_w r \<and> room r = room evs)"
  by (induction len evs rule: sys_send.induct) (auto simp: quiet_w_def)

lemma conn_try_send_quiet:
  "quiet_w (sk_wr (socks m fd)) \<Longrightarrow> 0 < room (sk_wr (socks m fd)) \<Longrightarrow> buf \<noteq> '''' \<Longrightarrow>
   main_stat m = RUNING \<Longrightarrow> fd \<in> k_open m \<Longrightarrow> b \<Longrightarrow>
   \<exists>n r. conn_try_send m fd buf b =
       Ret (Some n) (set_sock m fd ((socks m fd)\<lparr>sk_wr := r, sk_out := sk_out (socks m fd) @ take n buf\<rparr>)) \<and>
     quiet_w r \<and> room (sk_wr (socks m fd)) = Suc (room r) \<and> 0 < n \<and> n \<le> length buf"
proof (induction m fd buf b rule: conn_try_send.induct)
  case (1 m fd buf b)
  have "0 < length buf" using "1.prems"(3) by simp
  from sys_send_quiet [OF "1.prems"(1,2) this] show ?case
  proof (elim disjE exE conjE)
    fix n r
    assume s: "sys_send (length buf) (sk_wr (socks m fd)) = Some (SysSent n, r)" "quiet_w r"
      "room (sk_wr (socks m fd)) = Suc (room r)" "0 < n" "n \<le> length buf"
    then show ?thesis
      using "1.prems" by (subst conn_try_send.simps) (auto intro!: exI [of _ n] exI [of _ r])
  next
    fix r
    assume s: "sys_send (length buf) (sk_wr (socks m fd)) = Some (SysAgain [], r)" "quiet_w r"
      "room r = room (sk_wr (socks m fd))"
    let ?m = "set_sock m fd ((socks m fd)\<lparr>sk_wr := r\<rparr>)"
    have e: "env_steps [] ?m = ?m" by (simp add: env_steps_def)
    have f: "socks ?m fd = (socks m fd)\<lparr>sk_wr := r\<rparr>" "main_stat ?m = main_stat m" "k_open ?m = k_open m"
      by (simp_all add: set_sock_def)
    have eq: "conn_try_send m fd buf b = conn_try_send ?m fd buf b"
      using "1.prems" s(1) by (subst conn_try_send.simps) (simp add: Let_def e)
    have "\<exists>n r'. conn_try_send ?m fd buf b =
        Ret (Some n) (set_sock ?m fd ((socks ?m fd)\<lparr>sk_wr := r', sk_out := sk_out (socks ?m fd) @ take n buf\<rparr>)) \<and>
        quiet_w r' \<and> room (sk_wr (socks ?m fd)) = Suc (room r') \<and> 0 < n \<and> n \<le> length buf"
      using "1.IH" [OF _ _ s(1) refl refl refl "1.prems"(6)] "1.prems" s(2,3) f by (simp add: e)
    then show ?thesis using s(3) f eq by (auto simp: set_sock_def)
  qed
qed

text \<open>\<open>pushed m p c d m' c'\<close>: the bytes \<open>d\<close> have been sent on \<open>p\<close>, nothing else changed.\<close>

definition pushed :: "mach \<Rightarrow> addr \<Rightarrow> conn \<Rightarrow> nat \<Rightarrow> string \<Rightarrow> mach \<Rightarrow> conn \<Rightarrow> bool" where
  "pushed m p c n d m' c' \<longleftrightarrow> wlive m p c n \<and> length d \<le> n \<and> wlive m' p c' (n - length d) \<and>
     (\<exists>r. socks m' = (socks m)(c_fd c := (socks m (c_fd c))\<lparr>sk_wr := r, sk_out := sk_out (socks m (c_fd c)) @ d\<rparr>)) \<and>
     c' = c\<lparr>c_tx := c_tx c + of_nat (length d)\<rparr> \<and>
     (\<forall>q. (q \<noteq> p \<longrightarrow> conn_get m' q = conn_get m q) \<and> mem_cnt (conns m') q = mem_cnt (conns m) q) \<and>
     ev_queue m' = ev_queue m \<and> k_open m' = k_open m"

lemma pushed_refl: "wlive m p c n \<Longrightarrow> pushed m p c n '''' m c"
  by (auto simp: pushed_def intro!: exI [of _ "sk_wr (socks m (c_fd c))"])

lemma pushed_trans:
  assumes 1: "pushed m p c n d m1 c1" and 2: "pushed m1 p c1 (n - length d) e m2 c2"
  shows "pushed m p c n (d @ e) m2 c2"
proof -
  have fd: "c_fd c1 = c_fd c" using 1 by (auto simp: pushed_def)
  have "c2 = c\<lparr>c_tx := c_tx c + of_nat (length (d @ e))\<rparr>" using 1 2 by (auto simp: pushed_def add.assoc)
  then show ?thesis using 1 2 fd by (auto simp: pushed_def)
qed

lemma conn_write_loop_live:
  "wlive m p c n \<Longrightarrow> length buf \<le> n \<Longrightarrow> \<exists>m' c'. conn_write_loop m p buf = Ret 0 m' \<and> pushed m p c n buf m' c'"
proof (induction m p buf arbitrary: c n rule: conn_write_loop.induct)
  case (1 m p buf)
  show ?case
  proof (cases "buf = ''''")
    case True
    then have "conn_write_loop m p buf = Ret 0 m" by (subst conn_write_loop.simps) simp
    with True pushed_refl [OF "1.prems"(1)] show ?thesis by blast
  next
    case False
    have c: "conn_get m p = Some c" "c_stat c \<noteq> CONN_CLOSED" using "1.prems"(1) by (auto simp: wlive_def)
    have "0 < n" using False "1.prems"(2) by (cases buf) auto
    then have rm: "0 < room (sk_wr (socks m (c_fd c)))" using "1.prems"(1) by (simp add: wlive_def)
    obtain k r where t: "conn_try_send m (c_fd c) buf True = Ret (Some k)
        (set_sock m (c_fd c) ((socks m (c_fd c))\<lparr>sk_wr := r, sk_out := sk_out (socks m (c_fd c)) @ take k buf\<rparr>))"
      "quiet_w r" "room (sk_wr (socks m (c_fd c))) = Suc (room r)" "0 < k" "k \<le> length buf"
      using conn_try_send_quiet [of m "c_fd c" buf True] "1.prems"(1) rm False by (auto simp: wlive_def)
    let ?m1 = "set_sock m (c_fd c) ((socks m (c_fd c))\<lparr>sk_wr := r, sk_out := sk_out (socks m (c_fd c)) @ take k buf\<rparr>)"
    let ?f = "\<lambda>c. c\<lparr>c_tx := c_tx c + of_nat k\<rparr>"
    have g1: "conn_get ?m1 p = Some c" using c by simp
    obtain h where h: "conn_upd ?m1 p ?f = Some (?m1\<lparr>conns := h\<rparr>)" "conn_get (?m1\<lparr>conns := h\<rparr>) p = Some (?f c)"
      "\<forall>q. (q \<noteq> p \<longrightarrow> conn_get (?m1\<lparr>conns := h\<rparr>) q = conn_get ?m1 q) \<and> mem_cnt h q = mem_cnt (conns ?m1) q"
      using conn_upd_eq [OF g1, of ?f] by auto
    have oth: "\<forall>q. (q \<noteq> p \<longrightarrow> conn_get (?m1\<lparr>conns := h\<rparr>) q = conn_get m q) \<and> mem_cnt h q = mem_cnt (conns m) q" using h(3) by simp
    have lk: "length (take k buf) = k" using t(5) by simp
    have w1: "wlive (?m1\<lparr>conns := h\<rparr>) p (?f c) (n - k)"
      using "1.prems"(1) h(2) t(2-4) by (auto simp: wlive_def set_sock_def)
    have p1: "pushed m p c n (take k buf) (?m1\<lparr>conns := h\<rparr>) (?f c)"
      unfolding pushed_def lk using "1.prems" w1 oth t(5) by (auto simp: set_sock_def)
    have t': "conn_try_send m (c_fd c) buf (c_stat c \<noteq> CONN_CLOSED) = Ret (Some k) ?m1" using t(1) c(2) by simp
    have len: "length (drop k buf) \<le> n - k" using "1.prems"(2) by simp
    obtain m2 c2 where 2: "conn_write_loop (?m1\<lparr>conns := h\<rparr>) p (drop k buf) = Ret 0 m2"
      "pushed (?m1\<lparr>conns := h\<rparr>) p (?f c) (n - k) (drop k buf) m2 c2"
      using "1.IH" [OF False t' refl h(1) w1 len] by blast
    have "conn_write_loop m p buf = Ret 0 m2"
      using False c(1) t' h(1) 2(1) by (subst conn_write_loop.simps) (simp add: io_conn_def)
    moreover have "pushed m p c n (take k buf @ drop k buf) m2 c2"
      by (rule pushed_trans [OF p1]) (use 2(2) lk in simp)
    ultimately show ?thesis by auto
  qed
qed

lemma conn_write_live:
  "wlive m p c n \<Longrightarrow> length buf \<le> n \<Longrightarrow> \<exists>m' c'. conn_write m p buf = Ret 0 m' \<and> pushed m p c n buf m' c'"
  using conn_write_loop_live [of m p c n buf] by (simp add: conn_write_def io_conn_def wlive_def)

subsection \<open>Source and destination together\<close>

definition link :: "mach \<Rightarrow> addr \<Rightarrow> addr \<Rightarrow> conn \<Rightarrow> conn \<Rightarrow> nat \<Rightarrow> bool" where
  "link m dst src cd cs n \<longleftrightarrow> dst \<noteq> src \<and> live m src cs \<and> wlive m dst cd n"

text \<open>\<open>passes\<close>: \<open>d\<close> was read from the source and \<open>e\<close> was sent to the destination.\<close>

definition passes :: "addr \<Rightarrow> addr \<Rightarrow> mach \<Rightarrow> conn \<Rightarrow> conn \<Rightarrow> nat \<Rightarrow> string \<Rightarrow> string \<Rightarrow> mach \<Rightarrow> conn \<Rightarrow> conn \<Rightarrow> bool" where
  "passes dst src m cd cs n d e m' cd' cs' \<longleftrightarrow>
     link m dst src cd cs n \<and> length e \<le> n \<and> link m' dst src cd' cs' (n - length e) \<and>
     in_bytes m cs = d @ in_bytes m' cs' \<and> out_bytes m' cd' = out_bytes m cd @ e \<and>
     c_fd cd' = c_fd cd \<and> c_fd cs' = c_fd cs \<and> c_tx cd' = c_tx cd + of_nat (length e) \<and>
     (\<forall>q. mem_cnt (conns m') q = mem_cnt (conns m) q) \<and> ev_queue m' = ev_queue m"

lemma passes_refl: "link m dst src cd cs n \<Longrightarrow> passes dst src m cd cs n '''' '''' m cd cs"
  by (simp add: passes_def)

lemma passes_trans:
  "passes dst src m cd cs n d e m1 cd1 cs1 \<Longrightarrow> passes dst src m1 cd1 cs1 (n - length e) d' e' m2 cd2 cs2 \<Longrightarrow>
   passes dst src m cd cs n (d @ d') (e @ e') m2 cd2 cs2"
  by (auto simp: passes_def add.assoc)

lemma popped_passes:
  assumes l: "link m dst src cd cs n" and p: "popped m src cs d m' cs'"
  shows "passes dst src m cd cs n d '''' m' cd cs'"
proof -
  have "conn_get m' dst = conn_get m dst" "k_open m' = k_open m" "sk_wr (socks m' x) = sk_wr (socks m x)"
    "sk_out (socks m' x) = sk_out (socks m x)" "main_stat m' = RUNING" for x
    using l p by (auto simp: popped_def link_def live_def)
  then have "wlive m' dst cd n" using l by (auto simp: link_def wlive_def)
  moreover have "out_bytes m' cd = out_bytes m cd" using p by (simp add: out_bytes_def popped_def)
  ultimately show ?thesis using l p by (auto simp: passes_def link_def popped_def)
qed

lemma pushed_passes:
  assumes l: "link m dst src cd cs n" and p: "pushed m dst cd n e m' cd'"
  shows "passes dst src m cd cs n '''' e m' cd' cs"
proof -
  have "conn_get m' src = conn_get m src" "k_open m' = k_open m" "sk_in (socks m' x) = sk_in (socks m x)"
    "main_stat m' = RUNING" for x
    using l p by (auto simp: pushed_def link_def wlive_def)
  then have "live m' src cs" "in_bytes m' cs = in_bytes m cs"
    using l by (auto simp: link_def live_def in_bytes_def)
  moreover have "out_bytes m' cd' = out_bytes m cd @ e" "c_fd cd' = c_fd cd"
    "c_tx cd' = c_tx cd + of_nat (length e)"
    using p by (auto simp: out_bytes_def pushed_def)
  ultimately show ?thesis using l p by (auto simp: passes_def link_def pushed_def)
qed

lemma write_passes:
  assumes l: "link m dst src cd cs n" and n: "length e \<le> n"
  shows "\<exists>m' cd'. conn_write m dst e = Ret 0 m' \<and> passes dst src m cd cs n '''' e m' cd' cs"
proof -
  have "wlive m dst cd n" using l by (simp add: link_def)
  from conn_write_live [OF this n] pushed_passes [OF l] show ?thesis by blast
qed

lemma gets_passes:
  assumes "link m dst src cd cs n" "\<forall>x \<in> set l. line_char x" "in_bytes m cs = l @ [CR, LF] @ rest"
    "sb b s" "length s + length l + 1 < lim" "lim < 2 ^ 30"
  shows "\<exists>m' cs' b'. conn_gets m src lim b = Ret (int (length l), b') m' \<and>
    passes dst src m cd cs n (l @ [CR, LF]) '''' m' cd cs' \<and> sb b' (s @ l)"
  using conn_gets_line [OF assms(2) _ assms(3) _ assms(4-6)] popped_passes [OF assms(1)] assms(1)
  unfolding link_def by blast

subsection \<open>Copying\<close>

text \<open>Stepping over bytes that have been written out of the buffer.\<close>

lemma skip_passes:
  assumes l: "link m dst src cd cs n" and k: "k \<le> length (inbuf cs)"
  shows "\<exists>m' cs'. conn_upd m src (\<lambda>c. c\<lparr>buf_s := buf_s c + k, c_rx := c_rx c + of_nat k\<rparr>) = Some m' \<and>
    passes dst src m cd cs n (take k (inbuf cs)) '''' m' cd cs' \<and> inbuf cs' = drop k (inbuf cs)"
proof -
  have lv: "live m src cs" using l by (simp add: link_def)
  then have c: "conn_get m src = Some cs" by (simp add: live_def)
  let ?f = "\<lambda>c. c\<lparr>buf_s := buf_s c + k, c_rx := c_rx c + of_nat k\<rparr>"
  obtain h where h: "conn_upd m src ?f = Some (m\<lparr>conns := h\<rparr>)" "conn_get (m\<lparr>conns := h\<rparr>) src = Some (?f cs)"
    "\<forall>q. (q \<noteq> src \<longrightarrow> conn_get (m\<lparr>conns := h\<rparr>) q = conn_get m q) \<and> mem_cnt h q = mem_cnt (conns m) q"
    using conn_upd_eq [OF c, of ?f] by auto
  have ib: "inbuf (?f cs) = drop k (inbuf cs)" by (simp add: inbuf_def drop_take add.commute diff_diff_eq)
  have ok: "buf_ok (?f cs)" using lv k by (auto simp: live_def buf_ok_def inbuf_def)
  have "popped m src cs (take k (inbuf cs)) (m\<lparr>conns := h\<rparr>) (?f cs)"
    unfolding popped_def using lv h(2,3) ib ok
    by (auto simp: live_def in_bytes_def)
  with h(1) ib popped_passes [OF l] show ?thesis by blast
qed

lemma fill_passes:
  assumes l: "link m dst src cd cs n" and e: "inbuf cs = ''''" and s: "in_bytes m cs \<noteq> ''''"
  shows "\<exists>m0 m1 m2 cs' d. conn_upd m src (\<lambda>c. c\<lparr>buf_s := 0, buf_e := 0\<rparr>) = Some m0 \<and>
    conn_try_recv m0 (c_fd cs) (buf_cap cs) (c_stat cs \<noteq> CONN_CLOSED) = Ret (Some d) m1 \<and>
    conn_upd m1 src (\<lambda>c. c\<lparr>c_buf := d, buf_e := length d\<rparr>) = Some m2 \<and> d \<noteq> '''' \<and>
    passes dst src m cd cs n '''' '''' m2 cd cs' \<and> inbuf cs' = d"
proof -
  have lv: "live m src cs" using l by (simp add: link_def)
  then have c: "conn_get m src = Some cs" "c_stat cs \<noteq> CONN_CLOSED" by (auto simp: live_def)
  obtain h where h: "conn_upd m src (\<lambda>c. c\<lparr>buf_s := 0, buf_e := 0\<rparr>) = Some (m\<lparr>conns := h\<rparr>)"
    "conn_get (m\<lparr>conns := h\<rparr>) src = Some (cs\<lparr>buf_s := 0, buf_e := 0\<rparr>)"
    "\<forall>q. (q \<noteq> src \<longrightarrow> conn_get (m\<lparr>conns := h\<rparr>) q = conn_get m q) \<and> mem_cnt h q = mem_cnt (conns m) q"
    using conn_upd_eq [OF c(1), of "\<lambda>c. c\<lparr>buf_s := 0, buf_e := 0\<rparr>"] by auto
  let ?m = "m\<lparr>conns := h\<rparr>"
  obtain d r where d: "conn_try_recv ?m (c_fd cs) (buf_cap cs) True =
        Ret (Some d) (set_sock ?m (c_fd cs) ((socks m (c_fd cs))\<lparr>sk_in := r\<rparr>))"
      "quiet r" "stream (sk_in (socks m (c_fd cs))) = d @ stream r" "d \<noteq> ''''" "length d \<le> buf_cap cs"
    using conn_try_recv_quiet [of ?m "c_fd cs" "buf_cap cs" True] lv s e by (auto simp: live_def in_bytes_def)
  let ?m1 = "set_sock ?m (c_fd cs) ((socks m (c_fd cs))\<lparr>sk_in := r\<rparr>)"
  let ?f = "\<lambda>c. c\<lparr>c_buf := d, buf_e := length d\<rparr>"
  have g1: "conn_get ?m1 src = Some (cs\<lparr>buf_s := 0, buf_e := 0\<rparr>)" using h(2) by simp
  obtain h2 where h2: "conn_upd ?m1 src ?f = Some (?m1\<lparr>conns := h2\<rparr>)"
    "conn_get (?m1\<lparr>conns := h2\<rparr>) src = Some (?f (cs\<lparr>buf_s := 0, buf_e := 0\<rparr>))"
    "\<forall>q. (q \<noteq> src \<longrightarrow> conn_get (?m1\<lparr>conns := h2\<rparr>) q = conn_get ?m1 q) \<and> mem_cnt h2 q = mem_cnt (conns ?m1) q"
    using conn_upd_eq [OF g1, of ?f] by auto
  let ?m2 = "?m1\<lparr>conns := h2\<rparr>" and ?c2 = "?f (cs\<lparr>buf_s := 0, buf_e := 0\<rparr>)"
  have l2: "live ?m2 src ?c2" using lv h2(2) d by (auto simp: live_def buf_ok_def set_sock_def)
  have ib: "inbuf ?c2 = d" by (simp add: inbuf_def)
  have in2: "in_bytes ?m2 ?c2 = in_bytes m cs" using e ib d by (simp add: in_bytes_def set_sock_def)
  have oth: "\<forall>q. (q \<noteq> src \<longrightarrow> conn_get ?m2 q = conn_get m q) \<and> mem_cnt (conns ?m2) q = mem_cnt (conns m) q" using h(3) h2(3) by simp
  have "popped m src cs '''' ?m2 ?c2"
    unfolding popped_def using lv l2 in2 oth by (auto simp: set_sock_def)
  from popped_passes [OF l this] h(1) d(1,4) h2(1) ib c(2) show ?thesis
    by (intro exI [of _ ?m] exI [of _ ?m1] exI [of _ ?m2] exI [of _ ?c2] exI [of _ d]) simp
qed

lemma passes_link: "passes dst src m cd cs n d e m' cd' cs' \<Longrightarrow> link m' dst src cd' cs' (n - length e)"
  by (simp add: passes_def)

lemma conn_copy_loop_live:
  "link m dst src cd cs n \<Longrightarrow> len \<le> n \<Longrightarrow> len \<le> length (in_bytes m cs) \<Longrightarrow> len = 0 \<or> inbuf cs = '''' \<Longrightarrow>
   \<exists>m' cd' cs'. conn_copy_loop m dst src len = Ret 0 m' \<and>
     passes dst src m cd cs n (take len (in_bytes m cs)) (take len (in_bytes m cs)) m' cd' cs'"
proof (induction len arbitrary: m cd cs n rule: less_induct)
  case (less len)
  show ?case
  proof (cases "len = 0")
    case True
    then have "conn_copy_loop m dst src len = Ret 0 m" by (subst conn_copy_loop.simps) simp
    with True passes_refl [OF less.prems(1)] show ?thesis by auto
  next
    case False
    have e: "inbuf cs = ''''" "in_bytes m cs \<noteq> ''''" using False less.prems(3,4) by auto
    obtain m0 m1 m2 cs2 d where f: "conn_upd m src (\<lambda>c. c\<lparr>buf_s := 0, buf_e := 0\<rparr>) = Some m0"
      "conn_try_recv m0 (c_fd cs) (buf_cap cs) (c_stat cs \<noteq> CONN_CLOSED) = Ret (Some d) m1"
      "conn_upd m1 src (\<lambda>c. c\<lparr>c_buf := d, buf_e := length d\<rparr>) = Some m2" "d \<noteq> ''''"
      "passes dst src m cd cs n '''' '''' m2 cd cs2" "inbuf cs2 = d"
      using fill_passes [OF less.prems(1) e] by blast
    let ?k = "min len (length d)"
    have l2: "link m2 dst src cd cs2 n" using passes_link [OF f(5)] by simp
    have kn: "length (take ?k d) \<le> n" using less.prems(2) by simp
    obtain m3 cd3 where w: "conn_write m2 dst (take ?k d) = Ret 0 m3"
      "passes dst src m2 cd cs2 n '''' (take ?k d) m3 cd3 cs2" using write_passes [OF l2 kn] by blast
    have l3: "link m3 dst src cd3 cs2 (n - ?k)" using passes_link [OF w(2)] by simp
    obtain m4 cs4 where s: "conn_upd m3 src (\<lambda>c. c\<lparr>buf_s := buf_s c + ?k, c_rx := c_rx c + of_nat ?k\<rparr>) = Some m4"
      "passes dst src m3 cd3 cs2 (n - ?k) (take ?k d) '''' m4 cd3 cs4" "inbuf cs4 = drop ?k d"
      using skip_passes [OF l3, of ?k] f(6) by auto
    have p4: "passes dst src m cd cs n (take ?k d) (take ?k d) m4 cd3 cs4"
      using passes_trans [OF f(5), of "''''" "take ?k d" m3 cd3 cs2] w(2)
        passes_trans [of dst src m cd cs n "''''" "take ?k d" m3 cd3 cs2 "take ?k d" "''''" m4 cd3 cs4] s(2) by simp
    then have in4: "in_bytes m cs = take ?k d @ in_bytes m4 cs4" by (simp add: passes_def)
    have "\<exists>m' cd' cs'. conn_copy_loop m4 dst src (len - ?k) = Ret 0 m' \<and>
        passes dst src m4 cd3 cs4 (n - ?k) (take (len - ?k) (in_bytes m4 cs4)) (take (len - ?k) (in_bytes m4 cs4)) m' cd' cs'"
    proof (rule less.IH)
      show "len - ?k < len" using False f(4) by (cases d) auto
      show "link m4 dst src cd3 cs4 (n - ?k)" using passes_link [OF s(2)] by simp
      show "len - ?k \<le> n - ?k" using less.prems(2) by simp
      show "len - ?k \<le> length (in_bytes m4 cs4)" using less.prems(3) in4 by simp
      show "len - ?k = 0 \<or> inbuf cs4 = ''''" using s(3) by auto
    qed
    then obtain m5 cd5 cs5 where 5: "conn_copy_loop m4 dst src (len - ?k) = Ret 0 m5"
        "passes dst src m4 cd3 cs4 (n - ?k) (take (len - ?k) (in_bytes m4 cs4)) (take (len - ?k) (in_bytes m4 cs4)) m5 cd5 cs5"
      by blast
    have c: "conn_get m src = Some cs" using less.prems(1) by (simp add: link_def live_def)
    have "conn_copy_loop m dst src len = Ret 0 m5"
      using False c f(1-3) w(1) s(1) 5(1) by (subst conn_copy_loop.simps) (simp add: io_conn_def Let_def)
    moreover have "take len (in_bytes m cs) = take ?k d @ take (len - ?k) (in_bytes m4 cs4)"
      unfolding in4 by (auto simp: min_def)
    ultimately show ?thesis using passes_trans [OF p4, of _ _ m5 cd5 cs5] 5(2) by auto
  qed
qed

lemma copy_passes:
  assumes l: "link m dst src cd cs n" and n: "len \<le> n" "len \<le> length (in_bytes m cs)"
  shows "\<exists>m' cd' cs'. conn_copy m dst src len = Ret 0 m' \<and>
    passes dst src m cd cs n (take len (in_bytes m cs)) (take len (in_bytes m cs)) m' cd' cs'"
proof (cases "buf_s cs < buf_e cs")
  case False
  then have e: "inbuf cs = ''''" by (simp add: inbuf_def)
  have "conn_copy m dst src len = conn_copy_loop m dst src len"
    using False l by (simp add: conn_copy_def io_conn_def link_def live_def)
  with conn_copy_loop_live [OF l n] e show ?thesis by simp
next
  case True
  have c: "conn_get m src = Some cs" and ok: "buf_ok cs" using l by (auto simp: link_def live_def)
  have buf_e: "buf_e cs = length (c_buf cs)" using True ok by (auto simp: buf_ok_def)
  let ?k = "min len (buf_e cs - buf_s cs)" and ?d = "take (min len (buf_e cs - buf_s cs)) (inbuf cs)"
  have ib: "length (inbuf cs) = buf_e cs - buf_s cs" "?d = take ?k (drop (buf_s cs) (c_buf cs))"
    using buf_e by (simp_all add: inbuf_def)
  have ld: "length ?d = ?k" by (simp only: length_take ib(1) min.absorb2 min.cobounded2)
  obtain m3 cd3 where w: "conn_write m dst ?d = Ret 0 m3" "passes dst src m cd cs n '''' ?d m3 cd3 cs"
    using write_passes [OF l, of ?d] n(1) ld by (metis min.coboundedI1)
  have l3: "link m3 dst src cd3 cs (n - ?k)" using passes_link [OF w(2)] ld by simp
  obtain m4 cs4 where s: "conn_upd m3 src (\<lambda>c. c\<lparr>buf_s := buf_s c + ?k, c_rx := c_rx c + of_nat ?k\<rparr>) = Some m4"
    "passes dst src m3 cd3 cs (n - ?k) ?d '''' m4 cd3 cs4" "inbuf cs4 = drop ?k (inbuf cs)"
    using skip_passes [OF l3, of ?k] ib by auto
  have p4: "passes dst src m cd cs n ?d ?d m4 cd3 cs4"
    using passes_trans [OF w(2), of ?d "''''" m4 cd3 cs4] s(2) ld by simp
  then have in4: "in_bytes m cs = ?d @ in_bytes m4 cs4" by (simp add: passes_def)
  have l4: "link m4 dst src cd3 cs4 (n - ?k)" using passes_link [OF s(2)] by simp
  have "length (in_bytes m cs) = ?k + length (in_bytes m4 cs4)" by (subst in4) (simp only: length_append ld)
  then have b: "len - ?k \<le> length (in_bytes m4 cs4)" using n(2) by linarith
  have b': "len - ?k = 0 \<or> inbuf cs4 = ''''"
    using s(3) ib(1) by (cases "len \<le> buf_e cs - buf_s cs") simp_all
  note b = diff_le_mono [OF n(1), of ?k] b b'
  obtain m5 cd5 cs5 where 5: "conn_copy_loop m4 dst src (len - ?k) = Ret 0 m5"
      "passes dst src m4 cd3 cs4 (n - ?k) (take (len - ?k) (in_bytes m4 cs4)) (take (len - ?k) (in_bytes m4 cs4)) m5 cd5 cs5"
    using conn_copy_loop_live [OF l4 b] by blast
  have "conn_copy m dst src len = Ret 0 m5"
    using True c w(1) s(1) 5(1) ib(2) by (simp add: conn_copy_def io_conn_def Let_def)
  moreover have "take len (in_bytes m cs) = ?d @ take (len - ?k) (in_bytes m4 cs4)"
    unfolding in4 using ld by (auto simp: min_def)
  ultimately show ?thesis using passes_trans [OF p4, of _ _ m5 cd5 cs5] 5(2) ld by auto
qed

end
