(* ===== verification/NetHttp.thy ===== *)
theory NetHttp
  imports NetHandle Forward
begin

text \<open>
  The method handlers, \<^verbatim>\<open>src/core/net_http.c\<close>: the transfer of a message body (by length, or
  chunk by chunk), the handlers of ordinary requests and responses, and the tunnel of
  \<^verbatim>\<open>CONNECT\<close>.
\<close>

definition HTTP_CHUNK_HEADER_MAXLEN :: nat where "HTTP_CHUNK_HEADER_MAXLEN = 256"

subsection \<open>The body\<close>

text \<open>\<^verbatim>\<open>conn_copy\<close> with its \<^verbatim>\<open>int\<close> argument; a negative length, or one that overflowed, is outside what
  the copy loop is written for.\<close>

definition conn_copy_int :: "mach \<Rightarrow> addr \<Rightarrow> addr \<Rightarrow> int \<Rightarrow> int io" where
  "conn_copy_int m dst src len = (if len < 0 \<or> 2 ^ 31 \<le> len then Undef else conn_copy m dst src (nat len))"

definition c_string :: "strbuf \<Rightarrow> string option" where
  "c_string b = cstr_ofs b 0"

text \<open>Every round reads a line of at least one character from the source, so the number of bytes it
  has to offer bounds the number of rounds.\<close>

fun chunk_loop :: "nat \<Rightarrow> mach \<Rightarrow> addr \<Rightarrow> addr \<Rightarrow> strbuf \<Rightarrow> (int \<times> strbuf) io" where
  "chunk_loop 0 m dst src b = Undef"
| "chunk_loop (Suc fuel) m dst src b =
     io_bind (conn_gets m src HTTP_CHUNK_HEADER_MAXLEN (strbuf_reset b)) (\<lambda>(ret, b1) m1.
       if ret \<le> 0 then Ret (-1, b1) m1
       else case strbuf_cat b1 crlf of
              None \<Rightarrow> Undef
            | Some b2 \<Rightarrow>
                io_bind (conn_write m1 dst (strbuf_str b2)) (\<lambda>r m2.
                  if r \<noteq> 0 then Ret (r, b2) m2
                  else case c_string b2 of
                         None \<Rightarrow> Undef
                       | Some s \<Rightarrow>
                           (let len = (case sscanf_x s of None \<Rightarrow> -1 | Some x \<Rightarrow> x) in
                            if len = 0 then Ret (0, b2) m2
                            else io_bind (conn_copy_int m2 dst src (len + 2)) (\<lambda>r m3.
                                   if r \<noteq> 0 then Ret (r, b2) m3 else chunk_loop fuel m3 dst src b2))))"

fun trailer_loop :: "nat \<Rightarrow> mach \<Rightarrow> addr \<Rightarrow> addr \<Rightarrow> strbuf \<Rightarrow> int io" where
  "trailer_loop 0 m dst src b = Undef"
| "trailer_loop (Suc fuel) m dst src b =
     io_bind (conn_gets m src HTTP_HEADER_MAXLEN (strbuf_reset b)) (\<lambda>(ret, b1) m1.
       if ret < 0 then Ret ret m1
       else case strbuf_cat b1 crlf of
              None \<Rightarrow> Undef
            | Some b2 \<Rightarrow>
                io_bind (conn_write m1 dst (strbuf_str b2)) (\<lambda>r m2.
                  if r \<noteq> 0 then Ret (-1) m2
                  else if ret = 0 then Ret 0 m2 else trailer_loop fuel m2 dst src b2))"

definition round_bound :: "mach \<Rightarrow> addr \<Rightarrow> nat" where
  "round_bound m p = (case conn_get m p of None \<Rightarrow> 1 | Some c \<Rightarrow> Suc (length (in_bytes m c)))"

definition ent_string :: "net_data \<Rightarrow> string \<Rightarrow> string option option" where
  "ent_string d key =
     (case net_data_get_ent d key of None \<Rightarrow> Some None | Some off \<Rightarrow> map_option Some (cstr_ofs (nd_buf d) off))"

definition net_transfer_body_HTTP_1_1 :: "mach \<Rightarrow> addr \<Rightarrow> addr \<Rightarrow> net_data \<Rightarrow> int io" where
  "net_transfer_body_HTTP_1_1 m dst src d =
     (case c_string (nd_buf d) of
        None \<Rightarrow> Undef
      | Some start \<Rightarrow>
          if start = ''HEAD'' then Ret 0 m
          else
            case ent_string d ''Transfer-Encoding'' of
              None \<Rightarrow> Undef
            | Some te \<Rightarrow>
                if te \<noteq> Some ''chunked''
                then (case ent_string d ''Content-Length'' of
                        None \<Rightarrow> Undef
                      | Some cl \<Rightarrow>
                          let len = (case cl of None \<Rightarrow> 0 | Some s \<Rightarrow> atoi s)
                          in if 0 < len then conn_copy_int m dst src len else Ret 0 m)
                else
                  io_bind (chunk_loop (round_bound m src) m dst src strbuf_init) (\<lambda>(ret, b) m1.
                    if ret = 0 then trailer_loop (round_bound m1 src) m1 dst src b else Ret ret m1))"

subsection \<open>Bodies on the wire\<close>

text \<open>A chunk: its size line (a hexadecimal number, possibly followed by extensions) and its data.\<close>

type_synonym chunk = "string \<times> string"

definition chunk_ok :: "chunk \<Rightarrow> bool" where
  "chunk_ok k \<longleftrightarrow> (case k of (l, data) \<Rightarrow>
     l \<noteq> '''' \<and> (\<forall>x \<in> set l. line_char x \<and> x \<noteq> NUL) \<and> length l + 1 < HTTP_CHUNK_HEADER_MAXLEN \<and>
     sscanf_x (l @ crlf) = Some (int (length data)) \<and> data \<noteq> '''' \<and> length data + 2 < 2 ^ 31)"

definition last_chunk_ok :: "string \<Rightarrow> bool" where
  "last_chunk_ok l \<longleftrightarrow> l \<noteq> '''' \<and> (\<forall>x \<in> set l. line_char x \<and> x \<noteq> NUL) \<and>
     length l + 1 < HTTP_CHUNK_HEADER_MAXLEN \<and> sscanf_x (l @ crlf) = Some 0"

definition chunks_wire :: "chunk list \<Rightarrow> string" where
  "chunks_wire ks = concat (map (\<lambda>(l, data). l @ crlf @ data @ crlf) ks)"

definition trailer_ok :: "string \<Rightarrow> bool" where
  "trailer_ok l \<longleftrightarrow> l \<noteq> '''' \<and> (\<forall>x \<in> set l. line_char x \<and> x \<noteq> NUL) \<and> length l + 1 < HTTP_HEADER_MAXLEN"

definition lines_wire :: "string list \<Rightarrow> string" where
  "lines_wire ls = concat (map (\<lambda>l. l @ crlf) ls)"

subsection \<open>Transfer of well-formed bodies\<close>

lemma reset_line_passes:
  assumes l: "link m dst src cd cs n" and x: "\<forall>x \<in> set l. line_char x \<and> x \<noteq> NUL" and i: "in_bytes m cs = l @ crlf @ rest"
    and b: "strbuf_wf b" and lim: "length l + 1 < lim" "lim < 2 ^ 29"
  shows "\<exists>m' cs' b1 b2. conn_gets m src lim (strbuf_reset b) = Ret (int (length l), b1) m' \<and>
    passes dst src m cd cs n (l @ crlf) '''' m' cd cs' \<and> strbuf_cat b1 crlf = Some b2 \<and> sb b2 (l @ crlf)"
proof -
  have lv: "live m src cs" using l by (simp add: link_def)
  have r: "strbuf_wf (strbuf_reset b)" "strbuf_str (strbuf_reset b) = ''''" using b by simp_all
  obtain m' cs' b1 where g: "conn_gets m src lim (strbuf_reset b) = Ret (int (length l), b1) m'"
      "popped m src cs (l @ crlf) m' cs'" "strbuf_wf b1" "strbuf_str b1 = l"
    using conn_gets_line_raw [OF _ lv _ _ r, of l crlf rest lim] x i lim by (auto simp: crlf_def)
  have "sb_len b1 + length crlf < 2 ^ 30" using strbuf_str_length [OF g(3)] g(4) lim by (simp add: crlf_def)
  then obtain b2 where "strbuf_cat b1 crlf = Some b2" "sb b2 (l @ crlf)"
    using strbuf_cat_ok [OF g(3), of crlf] g(4) by (auto simp: crlf_def sb_def)
  with g popped_passes [OF l g(2)] show ?thesis by blast
qed

lemma sb_c_string: "sb b s \<Longrightarrow> NUL \<notin> set s \<Longrightarrow> c_string b = Some s"
  using sb_last_word [of b "''''" s 0] by (simp add: c_string_def)

lemma sb_str: "sb b s \<Longrightarrow> strbuf_str b = s" "sb b s \<Longrightarrow> strbuf_wf b"
  by (simp_all add: sb_def)

lemma passes_lens: "passes dst src m cd cs n d e m' cd' cs' \<Longrightarrow>
    length e \<le> n \<and> link m' dst src cd' cs' (n - length e) \<and> in_bytes m cs = d @ in_bytes m' cs'"
  by (simp add: passes_def)

text \<open>One line read, completed by CR LF and written out.\<close>

lemma relay_line:
  assumes l: "link m dst src cd cs n" and x: "\<forall>x \<in> set l. line_char x \<and> x \<noteq> NUL" and i: "in_bytes m cs = l @ crlf @ rest"
    and b: "strbuf_wf b" and lim: "length l + 1 < lim" "lim < 2 ^ 29" and n: "length (l @ crlf) \<le> n"
  shows "\<exists>m1 b1 b2 m2 cd' cs'. conn_gets m src lim (strbuf_reset b) = Ret (int (length l), b1) m1 \<and>
    strbuf_cat b1 crlf = Some b2 \<and> sb b2 (l @ crlf) \<and> conn_write m1 dst (l @ crlf) = Ret 0 m2 \<and>
    passes dst src m cd cs n (l @ crlf) (l @ crlf) m2 cd' cs'"
proof -
  obtain m1 cs1 b1 b2 where g: "conn_gets m src lim (strbuf_reset b) = Ret (int (length l), b1) m1"
    "passes dst src m cd cs n (l @ crlf) '''' m1 cd cs1" "strbuf_cat b1 crlf = Some b2" "sb b2 (l @ crlf)"
    using reset_line_passes [OF l x i b lim] by blast
  have l1: "link m1 dst src cd cs1 n" using passes_link [OF g(2)] by simp
  obtain m2 cd2 where w: "conn_write m1 dst (l @ crlf) = Ret 0 m2" "passes dst src m1 cd cs1 n '''' (l @ crlf) m2 cd2 cs1"
    using write_passes [OF l1 n] by blast
  have "passes dst src m cd cs n (l @ crlf) (l @ crlf) m2 cd2 cs1"
    using passes_trans [OF g(2), of "''''" "l @ crlf" m2 cd2 cs1] w(2) by simp
  with g w show ?thesis by blast
qed

lemma chunk_loop_live:
  "link m dst src cd cs n \<Longrightarrow> in_bytes m cs = chunks_wire ks @ z @ crlf @ rest \<Longrightarrow> strbuf_wf b \<Longrightarrow>
   \<forall>k \<in> set ks. chunk_ok k \<Longrightarrow> last_chunk_ok z \<Longrightarrow> length (chunks_wire ks @ z @ crlf) \<le> n \<Longrightarrow> length ks < fuel \<Longrightarrow>
   \<exists>m' b' cd' cs'. chunk_loop fuel m dst src b = Ret (0, b') m' \<and> strbuf_wf b' \<and>
     passes dst src m cd cs n (chunks_wire ks @ z @ crlf) (chunks_wire ks @ z @ crlf) m' cd' cs'"
proof (induction ks arbitrary: m cd cs n b fuel)
  case Nil
  then obtain f where f: "fuel = Suc f" by (cases fuel) auto
  have z: "z \<noteq> ''''" "\<forall>x \<in> set z. line_char x \<and> x \<noteq> NUL" "length z + 1 < HTTP_CHUNK_HEADER_MAXLEN"
      "sscanf_x (z @ crlf) = Some 0" using Nil.prems(5) by (auto simp: last_chunk_ok_def)
  have in0: "in_bytes m cs = z @ crlf @ rest" and n0: "length (z @ crlf) \<le> n"
    using Nil.prems(2,6) by (auto simp: chunks_wire_def)
  obtain m1 b1 b2 m2 cd2 cs2 where r: "conn_gets m src HTTP_CHUNK_HEADER_MAXLEN (strbuf_reset b) = Ret (int (length z), b1) m1"
    "strbuf_cat b1 crlf = Some b2" "sb b2 (z @ crlf)" "conn_write m1 dst (z @ crlf) = Ret 0 m2"
    "passes dst src m cd cs n (z @ crlf) (z @ crlf) m2 cd2 cs2"
    using relay_line [OF Nil.prems(1) z(2) in0 Nil.prems(3) z(3) _ n0] by (auto simp: HTTP_CHUNK_HEADER_MAXLEN_def)
  have "c_string b2 = Some (z @ crlf)" using sb_c_string [OF r(3)] z(2) by (auto simp: crlf_def)
  then have "chunk_loop fuel m dst src b = Ret (0, b2) m2"
    using f r sb_str [OF r(3)] z(1,4) by simp
  with r(5) sb_str [OF r(3)] show ?case by (auto simp: chunks_wire_def)
next
  case (Cons k ks)
  then obtain f where f: "fuel = Suc f" by (cases fuel) auto
  obtain l data where k: "k = (l, data)" by (cases k)
  have ko: "l \<noteq> ''''" "\<forall>x \<in> set l. line_char x \<and> x \<noteq> NUL" "length l + 1 < HTTP_CHUNK_HEADER_MAXLEN"
      "sscanf_x (l @ crlf) = Some (int (length data))" "data \<noteq> ''''" "length data + 2 < 2 ^ 31"
    using Cons.prems(4) k by (auto simp: chunk_ok_def)
  let ?tail = "chunks_wire ks @ z @ crlf"
  have in0: "in_bytes m cs = l @ crlf @ (data @ crlf @ ?tail @ rest)" and w0: "chunks_wire (k # ks) = l @ crlf @ data @ crlf @ chunks_wire ks"
    using Cons.prems(2) k by (auto simp: chunks_wire_def)
  have n0: "length (l @ crlf) \<le> n" using Cons.prems(6) w0 by simp
  obtain m1 b1 b2 m2 cd2 cs2 where r: "conn_gets m src HTTP_CHUNK_HEADER_MAXLEN (strbuf_reset b) = Ret (int (length l), b1) m1"
    "strbuf_cat b1 crlf = Some b2" "sb b2 (l @ crlf)" "conn_write m1 dst (l @ crlf) = Ret 0 m2"
    "passes dst src m cd cs n (l @ crlf) (l @ crlf) m2 cd2 cs2"
    using relay_line [OF Cons.prems(1) ko(2) in0 Cons.prems(3) ko(3) _ n0] by (auto simp: HTTP_CHUNK_HEADER_MAXLEN_def)
  have cstr: "c_string b2 = Some (l @ crlf)" using sb_c_string [OF r(3)] ko(2) by (auto simp: crlf_def)
  have in2: "in_bytes m2 cs2 = (data @ crlf) @ ?tail @ rest" using passes_lens [OF r(5)] in0 by simp
  have l2: "link m2 dst src cd2 cs2 (n - length (l @ crlf))" using passes_link [OF r(5)] .
  have n2: "length (data @ crlf) \<le> n - length (l @ crlf)" using Cons.prems(6) w0 by simp
  have n2': "length (data @ crlf) \<le> length (in_bytes m2 cs2)" unfolding in2 by simp
  have tk: "take (length (data @ crlf)) (in_bytes m2 cs2) = data @ crlf" unfolding in2 by simp
  obtain m3 cd3 cs3 where c: "conn_copy m2 dst src (length (data @ crlf)) = Ret 0 m3"
    "passes dst src m2 cd2 cs2 (n - length (l @ crlf)) (data @ crlf) (data @ crlf) m3 cd3 cs3"
    using copy_passes [OF l2 n2 n2'] unfolding tk by blast
  have ci: "conn_copy_int m2 dst src (int (length data) + 2) = Ret 0 m3"
    using c(1) ko(6) by (simp add: conn_copy_int_def crlf_def nat_add_distrib)
  have p3: "passes dst src m cd cs n (l @ crlf @ data @ crlf) (l @ crlf @ data @ crlf) m3 cd3 cs3"
    using passes_trans [OF r(5) c(2)] by simp
  have in3: "in_bytes m3 cs3 = chunks_wire ks @ z @ crlf @ rest" using passes_lens [OF c(2)] in2 by simp
  have "\<exists>m' b' cd' cs'. chunk_loop f m3 dst src b2 = Ret (0, b') m' \<and> strbuf_wf b' \<and>
      passes dst src m3 cd3 cs3 (n - length (l @ crlf @ data @ crlf)) ?tail ?tail m' cd' cs'"
    using Cons.prems(4-7) f passes_link [OF p3] in3 sb_str [OF r(3)] w0 by (intro Cons.IH) auto
  then obtain m4 b4 cd4 cs4 where 4: "chunk_loop f m3 dst src b2 = Ret (0, b4) m4" "strbuf_wf b4"
      "passes dst src m3 cd3 cs3 (n - length (l @ crlf @ data @ crlf)) ?tail ?tail m4 cd4 cs4" by blast
  have "chunk_loop fuel m dst src b = Ret (0, b4) m4"
    using f r cstr sb_str [OF r(3)] ko(1,4,5) ci 4(1) by (simp add: Let_def)
  with passes_trans [OF p3 4(3)] 4(2) w0 show ?case by auto
qed

lemma trailer_loop_live:
  "link m dst src cd cs n \<Longrightarrow> in_bytes m cs = lines_wire ls @ crlf @ rest \<Longrightarrow> strbuf_wf b \<Longrightarrow>
   \<forall>l \<in> set ls. trailer_ok l \<Longrightarrow> length (lines_wire ls @ crlf) \<le> n \<Longrightarrow> length ls < fuel \<Longrightarrow>
   \<exists>m' cd' cs'. trailer_loop fuel m dst src b = Ret 0 m' \<and>
     passes dst src m cd cs n (lines_wire ls @ crlf) (lines_wire ls @ crlf) m' cd' cs'"
proof (induction ls arbitrary: m cd cs n b fuel)
  case Nil
  then obtain f where f: "fuel = Suc f" by (cases fuel) auto
  have in0: "in_bytes m cs = '''' @ crlf @ rest" and n0: "length ('''' @ crlf) \<le> n" and lim: "length '''' + 1 < HTTP_HEADER_MAXLEN" "HTTP_HEADER_MAXLEN < 2 ^ 29"
    using Nil.prems(2,5) by (auto simp: lines_wire_def HTTP_HEADER_MAXLEN_def)
  obtain m1 b1 b2 m2 cd2 cs2 where r: "conn_gets m src HTTP_HEADER_MAXLEN (strbuf_reset b) = Ret (int (length ''''), b1) m1"
    "strbuf_cat b1 crlf = Some b2" "sb b2 ('''' @ crlf)" "conn_write m1 dst ('''' @ crlf) = Ret 0 m2"
    "passes dst src m cd cs n ('''' @ crlf) ('''' @ crlf) m2 cd2 cs2"
    using relay_line [OF Nil.prems(1) _ in0 Nil.prems(3) lim n0] by auto
  then have "trailer_loop fuel m dst src b = Ret 0 m2" using f sb_str [OF r(3)] by simp
  with r(5) show ?case by (auto simp: lines_wire_def)
next
  case (Cons l ls)
  then obtain f where f: "fuel = Suc f" by (cases fuel) auto
  have lo: "l \<noteq> ''''" "\<forall>x \<in> set l. line_char x \<and> x \<noteq> NUL" "length l + 1 < HTTP_HEADER_MAXLEN"
    using Cons.prems(4) by (auto simp: trailer_ok_def)
  let ?tail = "lines_wire ls @ crlf"
  have in0: "in_bytes m cs = l @ crlf @ (?tail @ rest)" and w0: "lines_wire (l # ls) = l @ crlf @ lines_wire ls"
    using Cons.prems(2) by (auto simp: lines_wire_def)
  have n0: "length (l @ crlf) \<le> n" using Cons.prems(5) w0 by simp
  obtain m1 b1 b2 m2 cd2 cs2 where r: "conn_gets m src HTTP_HEADER_MAXLEN (strbuf_reset b) = Ret (int (length l), b1) m1"
    "strbuf_cat b1 crlf = Some b2" "sb b2 (l @ crlf)" "conn_write m1 dst (l @ crlf) = Ret 0 m2"
    "passes dst src m cd cs n (l @ crlf) (l @ crlf) m2 cd2 cs2"
    using relay_line [OF Cons.prems(1) lo(2) in0 Cons.prems(3) lo(3) _ n0] by (auto simp: HTTP_HEADER_MAXLEN_def)
  have in2: "in_bytes m2 cs2 = lines_wire ls @ crlf @ rest" using passes_lens [OF r(5)] in0 by simp
  have "\<exists>m' cd' cs'. trailer_loop f m2 dst src b2 = Ret 0 m' \<and>
      passes dst src m2 cd2 cs2 (n - length (l @ crlf)) ?tail ?tail m' cd' cs'"
    using Cons.prems(4-6) f passes_link [OF r(5)] in2 sb_str [OF r(3)] w0 by (intro Cons.IH) auto
  then obtain m3 cd3 cs3 where 3: "trailer_loop f m2 dst src b2 = Ret 0 m3"
      "passes dst src m2 cd2 cs2 (n - length (l @ crlf)) ?tail ?tail m3 cd3 cs3" by blast
  have "trailer_loop fuel m dst src b = Ret 0 m3" using f r sb_str [OF r(3)] lo(1) 3(1) by simp
  with passes_trans [OF r(5) 3(2)] w0 show ?case by auto
qed

lemma round_bound_live: "live m p c \<Longrightarrow> round_bound m p = Suc (length (in_bytes m c))"
  by (simp add: round_bound_def live_def)

lemma chunks_wire_length: "\<forall>k \<in> set ks. chunk_ok k \<Longrightarrow> length ks \<le> length (chunks_wire ks)"
  by (induction ks) (auto simp: chunks_wire_def crlf_def)

lemma lines_wire_length: "length ls \<le> length (lines_wire ls)"
  by (induction ls) (auto simp: lines_wire_def crlf_def)

lemma transfer_chunked:
  assumes l: "link m dst src cd cs n" and st: "c_string (nd_buf d) = Some start" "start \<noteq> ''HEAD''"
    and te: "ent_string d ''Transfer-Encoding'' = Some (Some ''chunked'')"
    and ks: "\<forall>k \<in> set ks. chunk_ok k" "last_chunk_ok z" "\<forall>l \<in> set ls. trailer_ok l"
    and i: "in_bytes m cs = chunks_wire ks @ z @ crlf @ lines_wire ls @ crlf @ rest"
    and n: "length (chunks_wire ks @ z @ crlf @ lines_wire ls @ crlf) \<le> n"
  shows "\<exists>m' cd' cs'. net_transfer_body_HTTP_1_1 m dst src d = Ret 0 m' \<and>
    passes dst src m cd cs n (chunks_wire ks @ z @ crlf @ lines_wire ls @ crlf)
      (chunks_wire ks @ z @ crlf @ lines_wire ls @ crlf) m' cd' cs'"
proof -
  have f1: "length ks < round_bound m src"
    using round_bound_live [of m src cs] l chunks_wire_length [OF ks(1)] i by (auto simp: link_def)
  obtain m1 b1 cd1 cs1 where 1: "chunk_loop (round_bound m src) m dst src strbuf_init = Ret (0, b1) m1" "strbuf_wf b1"
    "passes dst src m cd cs n (chunks_wire ks @ z @ crlf) (chunks_wire ks @ z @ crlf) m1 cd1 cs1"
    using chunk_loop_live [OF l _ strbuf_init_wf ks(1,2) _ f1, of "lines_wire ls @ crlf @ rest"] i n by auto
  have l1: "link m1 dst src cd1 cs1 (n - length (chunks_wire ks @ z @ crlf))"
    and i1: "in_bytes m1 cs1 = lines_wire ls @ crlf @ rest" using passes_lens [OF 1(3)] i by auto
  have f2: "length ls < round_bound m1 src"
    using round_bound_live [of m1 src cs1] l1 lines_wire_length [of ls] i1 by (auto simp: link_def)
  have n2: "length (lines_wire ls @ crlf) \<le> n - length (chunks_wire ks @ z @ crlf)" using n by simp
  obtain m2 cd2 cs2 where 2: "trailer_loop (round_bound m1 src) m1 dst src b1 = Ret 0 m2"
    "passes dst src m1 cd1 cs1 (n - length (chunks_wire ks @ z @ crlf)) (lines_wire ls @ crlf) (lines_wire ls @ crlf) m2 cd2 cs2"
    using trailer_loop_live [OF l1 i1 1(2) ks(3) n2 f2] by blast
  have "net_transfer_body_HTTP_1_1 m dst src d = Ret 0 m2"
    using st te 1(1) 2(1) by (simp add: net_transfer_body_HTTP_1_1_def)
  with passes_trans [OF 1(3) 2(2)] show ?thesis by auto
qed

lemma transfer_length:
  assumes l: "link m dst src cd cs n" and st: "c_string (nd_buf d) = Some start" "start \<noteq> ''HEAD''"
    and te: "ent_string d ''Transfer-Encoding'' = Some te" "te \<noteq> Some ''chunked''"
    and cl: "ent_string d ''Content-Length'' = Some (Some v)" "atoi v = int k" "0 < k" "k < 2 ^ 31"
    and n: "k \<le> n" "k \<le> length (in_bytes m cs)"
  shows "\<exists>m' cd' cs'. net_transfer_body_HTTP_1_1 m dst src d = Ret 0 m' \<and>
    passes dst src m cd cs n (take k (in_bytes m cs)) (take k (in_bytes m cs)) m' cd' cs'"
  using copy_passes [OF l n] st te cl by (auto simp: net_transfer_body_HTTP_1_1_def conn_copy_int_def)

lemma transfer_none:
  assumes "c_string (nd_buf d) = Some start" "ent_string d ''Transfer-Encoding'' = Some te" "te \<noteq> Some ''chunked''"
    "ent_string d ''Content-Length'' = Some cl" "case cl of None \<Rightarrow> True | Some v \<Rightarrow> atoi v \<le> 0"
  shows "net_transfer_body_HTTP_1_1 m dst src d = Ret 0 m"
  using assms by (auto simp: net_transfer_body_HTTP_1_1_def Let_def split: option.splits)

text \<open>The test for \<^verbatim>\<open>HEAD\<close> looks at the start line of the message that carries the body. For a response
  that is \<^verbatim>\<open>HTTP\<close>, so the body announced by the answer to a \<^verbatim>\<open>HEAD\<close> request is waited for.\<close>

lemma transfer_waits:
  assumes l: "live m src cs" and d: "dst \<noteq> src" "conn_get m dst = Some cd"
    and st: "c_string (nd_buf d) = Some ''HTTP/1''" and te: "ent_string d ''Transfer-Encoding'' = Some None"
    and cl: "ent_string d ''Content-Length'' = Some (Some v)" "atoi v = int k" "0 < k" "k < 2 ^ 31"
    and e: "inbuf cs = ''''" "sk_in (socks m (c_fd cs)) = []"
  shows "net_transfer_body_HTTP_1_1 m dst src d = Blocked"
proof -
  have c: "conn_get m src = Some cs" "c_stat cs \<noteq> CONN_CLOSED" "main_stat m = RUNING" "c_fd cs \<in> k_open m"
    and bs: "\<not> buf_s cs < buf_e cs"
    using l e(1) by (auto simp: live_def inbuf_def buf_ok_def)
  obtain h where h: "conn_upd m src (\<lambda>c. c\<lparr>buf_s := 0, buf_e := 0\<rparr>) = Some (m\<lparr>conns := h\<rparr>)"
    using conn_upd_eq [OF c(1), of "\<lambda>c. c\<lparr>buf_s := 0, buf_e := 0\<rparr>"] by auto
  have "conn_try_recv (m\<lparr>conns := h\<rparr>) (c_fd cs) (buf_cap cs) True = Blocked"
    using c e by (subst conn_try_recv.simps) simp
  then have "conn_copy m dst src k = Blocked"
    using c bs h cl(3) by (simp add: conn_copy_def io_conn_def) (subst conn_copy_loop.simps, simp add: io_conn_def)
  then show ?thesis using st te cl by (simp add: net_transfer_body_HTTP_1_1_def conn_copy_int_def)
qed

end
