(* ===== verification/HttpHandlers.thy ===== *)
theory HttpHandlers
  imports NetHttp
begin

text \<open>
  The handlers of \<^verbatim>\<open>src/core/net_http.c\<close> on the state of one client, \<^verbatim>\<open>struct net_handle_cxt\<close> of
  \<^verbatim>\<open>src/core/net_handle.h\<close>: what happens to one request on its way to the server and to one
  response on its way back.

  The record holds, beside the fields of the C struct, the heap of reference-counted requests,
  the cache of addresses and the access log. What the other coroutine of the client does to
  these during a yield is the subject of theory \<open>Pipeline\<close>.
\<close>

record net_handle_cxt =
  hc_client :: addr
  hc_pool :: server_pool
  hc_list :: "(addr \<times> addr) lqueue"
  ev_notice_req :: event_id
  ev_notice_rsp :: event_id
  req_blocked :: bool
  rsp_blocked :: bool
  req_will_exit :: bool
  rsp_will_exited :: bool
  hc_reqs :: "net_req rheap"
  hc_dns :: dns_cache_table
  hc_log :: "(conn_endpoint \<times> string \<times> string \<times> int) list"

definition htons :: "int \<Rightarrow> 16 word" where
  "htons x = (let w = word_of_int x :: 16 word in or (push_bit 8 w) (drop_bit 8 w))"

text \<open>Appending to the list of requests: the test is on the head pointer.\<close>

definition list_append :: "'a lqueue \<Rightarrow> 'a \<Rightarrow> 'a lqueue option" where
  "list_append q x =
     (let a = lq_fresh q; n = \<lparr>ln_val = x, ln_next = None\<rparr>
      in if lq_head q = None
         then Some (q\<lparr>lq_nodes := (lq_nodes q)(a \<mapsto> n), lq_head := Some a, lq_tail := Some a, lq_fresh := Suc a\<rparr>)
         else case lq_tail q of
                None \<Rightarrow> None
              | Some t \<Rightarrow>
                  (case lq_nodes q t of
                     None \<Rightarrow> None
                   | Some tn \<Rightarrow> Some (q\<lparr>lq_nodes := (lq_nodes q)(a \<mapsto> n, t \<mapsto> tn\<lparr>ln_next := Some a\<rparr>),
                                       lq_tail := Some a, lq_fresh := Suc a\<rparr>)))"

lemma list_append_enq: "lq_head q = None \<longleftrightarrow> lq_tail q = None \<Longrightarrow> list_append q x = lq_enq q x"
  by (auto simp: list_append_def lq_enq_def Let_def split: option.splits)

text \<open>The connection with a reference, and the request with a reference, in a new list element.\<close>

definition enqueue_req :: "mach \<Rightarrow> net_handle_cxt \<Rightarrow> addr \<Rightarrow> addr \<Rightarrow> (mach \<times> net_handle_cxt) option" where
  "enqueue_req m h server rq =
     Option.bind (conn_incref m server) (\<lambda>m1.
     Option.bind (mem_incref (hc_reqs h) rq) (\<lambda>rs.
     Option.bind (list_append (hc_list h) (server, rq)) (\<lambda>q.
       Some (m1, h\<lparr>hc_reqs := rs, hc_list := q\<rparr>))))"

text \<open>The notice to the response coroutine touches only the event queue.\<close>

definition notify_rsp :: "mach \<Rightarrow> net_handle_cxt \<Rightarrow> mach option" where
  "notify_rsp m h = (if rsp_blocked h then event_post m (ev_notice_rsp h) 1 else Some m)"

text \<open>
  \<^verbatim>\<open>net_http_req_handler\<close>. \<open>tries\<close> holds, for each round of the connect loop, what the address
  lookup and the system calls return.
\<close>

type_synonym attempt = "gai_res \<times> (nat \<Rightarrow> conn_sys)"

definition add_host_header :: "net_req \<Rightarrow> net_req option" where
  "add_host_header rq =
     (if net_data_get_ent (rq_data rq) ''Host'' = None
      then map_option (\<lambda>d. rq\<lparr>rq_data := d\<rparr>) (net_data_set_ent_offset (rq_data rq) ''Host'' (rq_host rq))
      else Some rq)"

fun http_connect :: "mach \<Rightarrow> net_handle_cxt \<Rightarrow> addr \<Rightarrow> attempt list \<Rightarrow> (addr option \<times> net_handle_cxt) io" where
  "http_connect m h p [] = Blocked"
| "http_connect m h p ((gai, sys) # tries) =
     (case mem_read (hc_reqs h) p of
        None \<Rightarrow> Undef
      | Some rq \<Rightarrow>
          case cstr_ofs (rq_buf rq) (rq_host rq) of
            None \<Rightarrow> Undef
          | Some host \<Rightarrow>
              case net_connect_to_server m (hc_dns h) (hc_pool h) host (htons (rq_port rq)) gai sys of
                None \<Rightarrow> Undef
              | Some (None, m1, dns, pool) \<Rightarrow>
                  io_bind (net_bad_gateway m1 (hc_client h)) (\<lambda>_ m2. Ret (None, h\<lparr>hc_dns := dns, hc_pool := pool\<rparr>) m2)
              | Some (Some server, m1, dns, pool) \<Rightarrow>
                  case add_host_header rq of
                    None \<Rightarrow> Undef
                  | Some rq1 \<Rightarrow>
                      case mem_write (hc_reqs h) p rq1 of
                        None \<Rightarrow> Undef
                      | Some rs \<Rightarrow>
                          let h1 = h\<lparr>hc_dns := dns, hc_pool := pool, hc_reqs := rs\<rparr> in
                          io_bind (net_forward_req_header m1 rq1 server) (\<lambda>ret m2.
                            if ret = 0 then Ret (Some server, h1) m2
                            else io_opt (conn_decref m2 server) (\<lambda>m3. http_connect m3 h1 p tries)))"

definition net_http_req_handler :: "mach \<Rightarrow> net_handle_cxt \<Rightarrow> addr \<Rightarrow> attempt list \<Rightarrow> (int \<times> net_handle_cxt) io" where
  "net_http_req_handler m h p tries =
     io_bind (http_connect m h p tries) (\<lambda>(srv, h1) m1.
       case srv of
         None \<Rightarrow> Ret (-1, h1) m1
       | Some server \<Rightarrow>
           case enqueue_req m1 h1 server p of
             None \<Rightarrow> Undef
           | Some (m2, h2) \<Rightarrow>
               case notify_rsp m2 h2 of
                 None \<Rightarrow> Undef
               | Some m3 \<Rightarrow>
                   case mem_read (hc_reqs h2) p of
                     None \<Rightarrow> Undef
                   | Some rq \<Rightarrow>
                       io_bind (net_transfer_body_HTTP_1_1 m3 server (hc_client h2) (rq_data rq)) (\<lambda>ret m4.
                       io_bind (if ret \<noteq> 0 then net_bad_gateway m4 (hc_client h2) else Ret () m4) (\<lambda>_ m5.
                       io_opt (conn_decref m5 server) (\<lambda>m6. Ret (ret, h2) m6))))"

definition log_http_req :: "net_handle_cxt \<Rightarrow> conn_endpoint \<Rightarrow> string \<Rightarrow> string \<Rightarrow> int \<Rightarrow> net_handle_cxt" where
  "log_http_req h ep host path len = h\<lparr>hc_log := hc_log h @ [(ep, host, path, len)]\<rparr>"

text \<open>Copying in pieces of 64 KiB until a copy fails; each success takes at least one byte.\<close>

fun copy_until :: "nat \<Rightarrow> mach \<Rightarrow> addr \<Rightarrow> addr \<Rightarrow> int io" where
  "copy_until 0 m dst src = Undef"
| "copy_until (Suc fuel) m dst src =
     io_bind (conn_copy_int m dst src 65536) (\<lambda>ret m1.
       if ret \<noteq> 0 then Ret ret m1 else copy_until fuel m1 dst src)"

definition net_http_rsp_handler :: "mach \<Rightarrow> net_handle_cxt \<Rightarrow> addr \<Rightarrow> (int \<times> net_handle_cxt) io" where
  "net_http_rsp_handler m h server =
     (let client = hc_client h in
      io_opt (conn_upd m client (\<lambda>c. c\<lparr>c_tx := 0\<rparr>)) (\<lambda>m0.
      io_bind (net_fetch_http m0 server net_data_init) (\<lambda>(ret, d) m1.
        if ret \<noteq> 0
        then io_opt (conn_close m1 server) (\<lambda>m2. io_bind (net_bad_gateway m2 client) (\<lambda>_ m3. Ret (ret, h) m3))
        else
          case net_parse_rsp \<lparr>rs_data = d, rs_code = 0, rs_major = 0, rs_minor = 0, http_msg = 0\<rparr> of
            None \<Rightarrow> Undef
          | Some (ret, rs) \<Rightarrow>
              if ret \<noteq> 0
              then io_opt (conn_close m1 server) (\<lambda>m2. io_bind (net_bad_gateway m2 client) (\<lambda>_ m3. Ret (ret, h) m3))
              else
                io_bind (net_forward_rsp_header m1 rs client) (\<lambda>ret m2.
                if ret \<noteq> 0 then Ret (ret, h) m2
                else
                  io_bind
                    (if 100 < rs_major rs * 100 + rs_minor rs
                     then net_transfer_body_HTTP_1_1 m2 client server (rs_data rs)
                     else io_bind (copy_until (round_bound m2 server) m2 client server) (\<lambda>_ m3.
                            io_opt (conn_close m3 client) (\<lambda>m4. io_opt (conn_close m4 server) (Ret 0))))
                    (\<lambda>ret m3.
                       case lq_first (hc_list h) of
                         None \<Rightarrow> Undef
                       | Some (_, rqp) \<Rightarrow>
                           case mem_read (hc_reqs h) rqp of
                             None \<Rightarrow> Undef
                           | Some rq \<Rightarrow>
                               io_conn m3 client (\<lambda>c.
                                 case (cstr_ofs (rq_buf rq) (rq_host rq), cstr_ofs (rq_buf rq) (rq_path rq)) of
                                   (Some host, Some path) \<Rightarrow>
                                     Ret (if ret = 0 then rs_code rs else ret,
                                          log_http_req h (c_ep c) host path (sint (c_tx c))) m3
                                 | _ \<Rightarrow> Undef))))))"

definition connect_msg :: string where
  "connect_msg = ''HTTP/1.1 200 OK'' @ crlf @ crlf"

definition net_connect_req_handler :: "mach \<Rightarrow> net_handle_cxt \<Rightarrow> addr \<Rightarrow> attempt \<Rightarrow> (int \<times> net_handle_cxt) io" where
  "net_connect_req_handler m h p try =
     (case mem_read (hc_reqs h) p of
        None \<Rightarrow> Undef
      | Some rq0 \<Rightarrow>
          let rq = rq0\<lparr>rq_host := rq_path rq0\<rparr>; client = hc_client h in
          case mem_write (hc_reqs h) p rq of
            None \<Rightarrow> Undef
          | Some rs \<Rightarrow>
              case cstr_ofs (rq_buf rq) (rq_host rq) of
                None \<Rightarrow> Undef
              | Some host \<Rightarrow>
                  case net_connect_to_server m (hc_dns h) (hc_pool h) host (htons (rq_port rq)) (fst try) (snd try) of
                    None \<Rightarrow> Undef
                  | Some (srv, m1, dns, pool) \<Rightarrow>
                      let h1 = h\<lparr>hc_reqs := rs, hc_dns := dns, hc_pool := pool\<rparr> in
                      case srv of
                        None \<Rightarrow> io_bind (net_bad_gateway m1 client) (\<lambda>_ m2. Ret (-1, h1) m2)
                      | Some server \<Rightarrow>
                          case enqueue_req m1 h1 server p of
                            None \<Rightarrow> Undef
                          | Some (m2, h2) \<Rightarrow>
                              io_opt (event_post m2 (ev_notice_rsp h2) 1) (\<lambda>m3.
                              io_bind (conn_write m3 client connect_msg) (\<lambda>ret m4.
                                if ret \<noteq> 0
                                then io_bind (net_bad_gateway m4 client) (\<lambda>_ m5.
                                     io_opt (conn_decref m5 server) (Ret (-1, h2)))
                                else io_bind (copy_until (round_bound m4 client) m4 server client) (\<lambda>ret m5.
                                     io_opt (conn_decref m5 server) (Ret (ret, h2))))))"

definition net_connect_rsp_handler :: "mach \<Rightarrow> net_handle_cxt \<Rightarrow> addr \<Rightarrow> (int \<times> net_handle_cxt) io" where
  "net_connect_rsp_handler m h server =
     io_bind (copy_until (round_bound m server) m (hc_client h) server) (\<lambda>ret m1. Ret (ret, h) m1)"

subsection \<open>A framed message and its body\<close>

text \<open>Which bytes form the body of a message with given headers.\<close>

definition by_length :: "(string \<times> string) list \<Rightarrow> string \<Rightarrow> bool" where
  "by_length kvs w \<longleftrightarrow>
     (case map_of kvs ''Content-Length'' of
        None \<Rightarrow> w = ''''
      | Some v \<Rightarrow> if 0 < atoi v then int (length w) = atoi v else w = '''')"

definition framed :: "(string \<times> string) list \<Rightarrow> string \<Rightarrow> bool" where
  "framed kvs w \<longleftrightarrow>
     (if map_of kvs ''Transfer-Encoding'' = Some ''chunked''
      then \<exists>ks z ls. (\<forall>k \<in> set ks. chunk_ok k) \<and> last_chunk_ok z \<and> (\<forall>l \<in> set ls. trailer_ok l) \<and>
             w = chunks_wire ks @ z @ crlf @ lines_wire ls @ crlf
      else by_length kvs w)"

lemma ent_vals_keys: "ent_vals d kvs \<Longrightarrow> map fst (hash_iter (nd_table d)) = map fst kvs"
  unfolding ent_vals_def by (induction rule: list_all2_induct) auto

lemma ent_vals_lookup:
  assumes "list_all2 (\<lambda>(k, off) (k', v). k' = k \<and> NUL \<notin> set k \<and> cstr_ofs b off = Some v) es kvs"
  shows "(case map_of es k of None \<Rightarrow> Some None | Some off \<Rightarrow> map_option Some (cstr_ofs b off)) = Some (map_of kvs k)"
  using assms by (induction rule: list_all2_induct) auto

lemma ent_string_map:
  assumes "ent_vals d kvs" "hash_inv (nd_table d)" "distinct (map fst kvs)"
  shows "ent_string d k = Some (map_of kvs k)"
proof -
  have u: "uniq_table (nd_table d)"
    using assms ent_vals_keys [OF assms(1)] by (simp add: uniq_table_def hash_keys_iter)
  have "net_data_get_ent d k = map_of (hash_iter (nd_table d)) k"
    using ht.lookup_entries [OF u, of k] by (simp add: net_data_get_ent_def hash_lookup_def)
  with ent_vals_lookup [of "nd_buf d" "hash_iter (nd_table d)" kvs k] assms(1) show ?thesis
    by (simp add: ent_string_def ent_vals_def)
qed

lemma transfer_framed:
  assumes l: "link m dst src cd cs n" and st: "c_string (nd_buf d) = Some start" "start \<noteq> ''HEAD''"
    and e: "ent_vals d kvs" "hash_inv (nd_table d)" "distinct (map fst kvs)" and w: "framed kvs w"
    and i: "in_bytes m cs = w @ rest" and n: "length w \<le> n"
  shows "\<exists>m' cd' cs'. net_transfer_body_HTTP_1_1 m dst src d = Ret 0 m' \<and> passes dst src m cd cs n w w m' cd' cs'"
proof (cases "map_of kvs ''Transfer-Encoding'' = Some ''chunked''")
  case True
  then obtain ks z ls where k: "\<forall>k \<in> set ks. chunk_ok k" "last_chunk_ok z" "\<forall>l \<in> set ls. trailer_ok l"
    "w = chunks_wire ks @ z @ crlf @ lines_wire ls @ crlf" using w by (auto simp: framed_def)
  have te: "ent_string d ''Transfer-Encoding'' = Some (Some ''chunked'')" using ent_string_map [OF e] True by simp
  show ?thesis using transfer_chunked [OF l st te k(1-3), of rest] i n k(4) by simp
next
  case False
  note es = ent_string_map [OF e]
  have bl: "by_length kvs w" using w False by (simp add: framed_def)
  show ?thesis
  proof (cases "\<exists>v. map_of kvs ''Content-Length'' = Some v \<and> 0 < atoi v")
    case True
    then obtain v where v: "map_of kvs ''Content-Length'' = Some v" "0 < atoi v" by blast
    with bl have len: "atoi v = int (length w)" "0 < length w" by (auto simp: by_length_def)
    have "length w < 2 ^ 31" using atoi_range [of v] len(1) by simp
    from transfer_length [OF l st es False _ len(1,2) this n] v(1) es i show ?thesis by simp
  next
    case no: False
    then have "w = ''''" using bl by (auto simp: by_length_def split: option.splits)
    moreover have "net_transfer_body_HTTP_1_1 m dst src d = Ret 0 m"
      by (rule transfer_none [OF st(1) es False es]) (use no in \<open>auto split: option.splits\<close>)
    ultimately show ?thesis using passes_refl [OF l] by auto
  qed
qed

lemma link_tx0:
  assumes l: "link m dst src cd cs n"
  shows "\<exists>m'. conn_upd m dst (\<lambda>c. c\<lparr>c_tx := 0\<rparr>) = Some m' \<and> link m' dst src (cd\<lparr>c_tx := 0\<rparr>) cs n \<and>
    in_bytes m' cs = in_bytes m cs \<and> out_bytes m' (cd\<lparr>c_tx := 0\<rparr>) = out_bytes m cd"
proof -
  have c: "conn_get m dst = Some cd" using l by (simp add: link_def wlive_def)
  obtain h where h: "conn_upd m dst (\<lambda>c. c\<lparr>c_tx := 0\<rparr>) = Some (m\<lparr>conns := h\<rparr>)"
    "conn_get (m\<lparr>conns := h\<rparr>) dst = Some (cd\<lparr>c_tx := 0\<rparr>)"
    "\<forall>q. (q \<noteq> dst \<longrightarrow> conn_get (m\<lparr>conns := h\<rparr>) q = conn_get m q) \<and> mem_cnt h q = mem_cnt (conns m) q"
    using conn_upd_eq [OF c, of "\<lambda>c. c\<lparr>c_tx := 0\<rparr>"] by auto
  then have "link (m\<lparr>conns := h\<rparr>) dst src (cd\<lparr>c_tx := 0\<rparr>) cs n"
    using l by (auto simp: link_def live_def wlive_def)
  with h(1) show ?thesis by (auto simp: in_bytes_def out_bytes_def)
qed

text \<open>A response message: status line, headers, body.\<close>

definition rsp_ok :: "string \<Rightarrow> string \<Rightarrow> string \<Rightarrow> string \<Rightarrow> hdr list \<Rightarrow> bool" where
  "rsp_ok a b code msg hs \<longleftrightarrow> http_version a b \<and> digs code \<and> digits_val code < 2 ^ 31 \<and>
     msg \<noteq> '''' \<and> (\<forall>x \<in> set msg. line_char x \<and> x \<noteq> NUL) \<and> (\<forall>h \<in> set hs. hdr_ok h) \<and>
     distinct (map (fst \<circ> hdr_kv) hs) \<and> length (rsp_line a b code msg @ NUL # stored hs) + 1 < HTTP_HEADER_MAXLEN"

abbreviation norm :: "string \<Rightarrow> string" where "norm ds \<equiv> dec_digits (digits_val ds)"

lemma digit_line_char: "is_digit x \<Longrightarrow> line_char x"
  by (auto simp: line_char_def ch_class_defs)

lemma lit_line_chars: "\<forall>x \<in> set ''HTTP/''. line_char x" "line_char CHR ''.''" "line_char CHR ''/''"
  by (simp_all add: line_char_def)

lemma rsp_line_chars: "rsp_ok a b code msg hs \<Longrightarrow> \<forall>x \<in> set (rsp_line a b code msg). line_char x"
  using digit_line_char lit_line_chars by (auto simp: rsp_ok_def http_version_def)

lemma hdr_text_length: "length (header_text (map hdr_kv hs)) \<le> 2 * length (stored hs)"
  by (induction hs) (auto simp: header_text_def stored_def hdr_stored_def hdr_kv_def split: prod.splits)

lemma hdr_kv_fst: "map fst (map hdr_kv hs) = map (fst \<circ> hdr_kv) hs"
  by simp

lemma parsed_rsp:
  assumes r: "rsp_ok a b code msg hs" and d: "sb (nd_buf d) (rsp_line a b code msg @ NUL # stored hs)"
    "hash_inv (nd_table d)" "ents_at (length (rsp_line a b code msg) + 1) (stored hs) (hash_iter (nd_table d)) (map hdr_kv hs)"
  shows "\<exists>rs buf. net_parse_rsp \<lparr>rs_data = d, rs_code = 0, rs_major = 0, rs_minor = 0, http_msg = 0\<rparr> = Some (0, rs) \<and>
    rs_code rs = int (digits_val code) \<and> rs_major rs = int (digits_val a) \<and> rs_minor rs = int (digits_val b) \<and>
    ent_vals (rs_data rs) (map hdr_kv hs) \<and> hash_inv (nd_table (rs_data rs)) \<and>
    c_string (nd_buf (rs_data rs)) = Some (''HTTP/'' @ a) \<and> rsp_header_buf rs = Some buf \<and>
    sb buf (rsp_line (norm a) (norm b) (norm code) msg @ crlf @ header_text (map hdr_kv hs) @ crlf)"
proof -
  have v: "http_version a b" "digs code" "digits_val code < 2 ^ 31" "msg \<noteq> ''''" "NUL \<notin> set msg"
    using r by (auto simp: rsp_ok_def)
  let ?rs0 = "\<lparr>rs_data = d, rs_code = 0, rs_major = 0, rs_minor = 0, http_msg = 0\<rparr>"
  have d0: "sb (nd_buf (rs_data ?rs0)) (rsp_line a b code msg @ NUL # stored hs)" using d(1) by simp
  from net_parse_rsp_ok [OF d0 v] obtain rs where rs: "net_parse_rsp ?rs0 = Some (0, rs)"
      "rs_code rs = int (digits_val code)" "rs_major rs = int (digits_val a)" "rs_minor rs = int (digits_val b)"
      "cstr_ofs (nd_buf (rs_data rs)) (http_msg rs) = Some msg" "nd_table (rs_data rs) = nd_table d"
      "sb (nd_buf (rs_data rs)) (''HTTP/'' @ a @ NUL # b @ NUL # code @ NUL # msg @ NUL # stored hs)"
    by auto
  have ev: "ent_vals (rs_data rs) (map hdr_kv hs)"
    by (rule ents_at_vals [where n = "length (rsp_line a b code msg) + 1" and s = "stored hs" and ys = "''''"
          and xs = "''HTTP/'' @ a @ NUL # b @ NUL # code @ NUL # msg @ [NUL]"])
      (use rs(6,7) d(3) in auto)
  have na: "NUL \<notin> set a" using v(1) digit_no_space by (auto simp: http_version_def)
  have cs: "c_string (nd_buf (rs_data rs)) = Some (''HTTP/'' @ a)"
    unfolding c_string_def
    by (rule sb_word [where pre = "''''" and post = "b @ NUL # code @ NUL # msg @ NUL # stored hs"]) (use rs(7) na in auto)
  have sm: "small_int (rs_major rs)" "small_int (rs_minor rs)" "small_int (rs_code rs)"
    using v rs(2-4) by (auto simp: small_int_def http_version_def)
  have len: "length msg + length (header_text (map hdr_kv hs)) + 80 < 2 ^ 30"
    using r hdr_text_length [of hs] by (simp add: rsp_ok_def HTTP_HEADER_MAXLEN_def)
  obtain buf where buf: "rsp_header_buf rs = Some buf"
      "sb buf (rsp_line (norm a) (norm b) (norm code) msg @ [CR, LF] @ header_text (map hdr_kv hs) @ [CR, LF])"
    using rsp_header_buf_text [OF rs(5) sm ev len] rs(2-4) by auto
  from rs ev cs buf d(2) show ?thesis by (auto simp: crlf_def)
qed

definition rsp_wire :: "string \<Rightarrow> string \<Rightarrow> string \<Rightarrow> string \<Rightarrow> hdr list \<Rightarrow> string \<Rightarrow> string" where
  "rsp_wire a b code msg hs w = rsp_line a b code msg @ crlf @ wire hs @ crlf @ w"

definition rsp_out :: "string \<Rightarrow> string \<Rightarrow> string \<Rightarrow> string \<Rightarrow> hdr list \<Rightarrow> string \<Rightarrow> string" where
  "rsp_out a b code msg hs w =
     rsp_line (norm a) (norm b) (norm code) msg @ crlf @ header_text (map hdr_kv hs) @ crlf @ w"

text \<open>The head of a response, fetched and parsed.\<close>

lemma fetched_rsp:
  assumes r: "rsp_ok a b code msg hs" and lv: "live m p c"
    and i: "in_bytes m c = rsp_line a b code msg @ crlf @ wire hs @ crlf @ rest"
  shows "\<exists>m' c' d rs buf. net_fetch_http m p net_data_init = Ret (0, d) m' \<and>
    popped m p c (rsp_line a b code msg @ crlf @ wire hs @ crlf) m' c' \<and> in_bytes m' c' = rest \<and>
    net_parse_rsp \<lparr>rs_data = d, rs_code = 0, rs_major = 0, rs_minor = 0, http_msg = 0\<rparr> = Some (0, rs) \<and>
    rs_code rs = int (digits_val code) \<and> rs_major rs = int (digits_val a) \<and> rs_minor rs = int (digits_val b) \<and>
    ent_vals (rs_data rs) (map hdr_kv hs) \<and> hash_inv (nd_table (rs_data rs)) \<and>
    c_string (nd_buf (rs_data rs)) = Some (''HTTP/'' @ a) \<and> rsp_header_buf rs = Some buf \<and>
    sb buf (rsp_line (norm a) (norm b) (norm code) msg @ crlf @ header_text (map hdr_kv hs) @ crlf)"
proof -
  have ne: "rsp_line a b code msg \<noteq> ''''" by simp
  have ho: "\<forall>h \<in> set hs. hdr_ok h" and lim: "length (rsp_line a b code msg @ NUL # stored hs) + 1 < HTTP_HEADER_MAXLEN"
    using r by (auto simp: rsp_ok_def)
  obtain m1 c1 d where f: "net_fetch_http m p net_data_init = Ret (0, d) m1" "popped m p c (rsp_line a b code msg @ crlf @ wire hs @ crlf) m1 c1"
    "sb (nd_buf d) (rsp_line a b code msg @ NUL # stored hs)" "hash_inv (nd_table d)"
    "ents_at (length (rsp_line a b code msg) + 1) (stored hs) (hash_iter (nd_table d)) (map hdr_kv hs)"
    using net_fetch_http_live [OF rsp_line_chars [OF r] ne ho lv i lim] by blast
  have "in_bytes m1 c1 = rest" using f(2) i by (auto simp: popped_def)
  with f(1,2) parsed_rsp [OF r f(3-5)] show ?thesis by blast
qed

lemma response_relayed:
  assumes l: "link m (hc_client h) server cd cs n" and r: "rsp_ok a b code msg hs"
    and v: "100 < digits_val a * 100 + digits_val b" and w: "framed (map hdr_kv hs) w"
    and i: "in_bytes m cs = rsp_wire a b code msg hs w @ rest" and n: "length (rsp_out a b code msg hs w) \<le> n"
    and q: "lq_first (hc_list h) = Some (s0, rqp)" "mem_read (hc_reqs h) rqp = Some rq" "req_is rq me host path port"
  shows "\<exists>m' cd' cs'. net_http_rsp_handler m h server =
      Ret (int (digits_val code), log_http_req h (c_ep cd') host path (sint (c_tx cd'))) m' \<and>
    out_bytes m' cd' = out_bytes m cd @ rsp_out a b code msg hs w \<and> in_bytes m' cs' = rest \<and>
    c_tx cd' = of_nat (length (rsp_out a b code msg hs w)) \<and>
    link m' (hc_client h) server cd' cs' (n - length (rsp_out a b code msg hs w)) \<and>
    (\<forall>q. mem_cnt (conns m') q = mem_cnt (conns m) q)"
proof -
  let ?c = "hc_client h" and ?hd = "rsp_line (norm a) (norm b) (norm code) msg @ crlf @ header_text (map hdr_kv hs) @ crlf"
  let ?cd0 = "cd\<lparr>c_tx := 0\<rparr>"
  obtain m0 where m0: "conn_upd m ?c (\<lambda>c. c\<lparr>c_tx := 0\<rparr>) = Some m0" "link m0 ?c server ?cd0 cs n"
    "in_bytes m0 cs = in_bytes m cs" "out_bytes m0 ?cd0 = out_bytes m cd" using link_tx0 [OF l] by blast
  have lv: "live m0 server cs" using m0(2) by (simp add: link_def)
  have i0: "in_bytes m0 cs = rsp_line a b code msg @ crlf @ wire hs @ crlf @ (w @ rest)"
    using i m0(3) by (simp add: rsp_wire_def)
  obtain m1 cs1 d rs buf where f: "net_fetch_http m0 server net_data_init = Ret (0, d) m1"
      "popped m0 server cs (rsp_line a b code msg @ crlf @ wire hs @ crlf) m1 cs1" and i1: "in_bytes m1 cs1 = w @ rest" and rs: "net_parse_rsp \<lparr>rs_data = d, rs_code = 0, rs_major = 0, rs_minor = 0, http_msg = 0\<rparr> = Some (0, rs)"
    "rs_code rs = int (digits_val code)" "rs_major rs = int (digits_val a)" "rs_minor rs = int (digits_val b)"
    "ent_vals (rs_data rs) (map hdr_kv hs)" "hash_inv (nd_table (rs_data rs))"
    "c_string (nd_buf (rs_data rs)) = Some (''HTTP/'' @ a)" "rsp_header_buf rs = Some buf" "sb buf ?hd"
    using fetched_rsp [OF r lv i0] by blast
  note p1 = popped_passes [OF m0(2) f(2)]
  have l1: "link m1 ?c server ?cd0 cs1 n" using passes_link [OF p1] by simp
  have nh: "length ?hd \<le> n" using n by (simp add: rsp_out_def)
  obtain m2 cd2 where w2: "conn_write m1 ?c ?hd = Ret 0 m2" "passes ?c server m1 ?cd0 cs1 n '''' ?hd m2 cd2 cs1"
    using write_passes [OF l1 nh] by blast
  have fw: "net_forward_rsp_header m1 rs ?c = Ret 0 m2"
    using rs(8) w2(1) sb_str [OF rs(9)] by (simp add: net_forward_rsp_header_def)
  have l2: "link m2 ?c server cd2 cs1 (n - length ?hd)" using passes_link [OF w2(2)] .
  have i2: "in_bytes m2 cs1 = w @ rest" using passes_lens [OF w2(2)] i1 by simp
  have dk: "distinct (map fst (map hdr_kv hs))" using r by (simp add: rsp_ok_def)
  have nw: "length w \<le> n - length ?hd" using n by (simp add: rsp_out_def)
  have nhd: "''HTTP/'' @ a \<noteq> ''HEAD''" by simp
  obtain m3 cd3 cs3 where t: "net_transfer_body_HTTP_1_1 m2 ?c server (rs_data rs) = Ret 0 m3"
      "passes ?c server m2 cd2 cs1 (n - length ?hd) w w m3 cd3 cs3"
    using transfer_framed [OF l2 rs(7) nhd rs(5,6) dk w i2 nw] by blast
  have g3: "conn_get m3 ?c = Some cd3" "conn_get m3 server = Some cs3"
    using t(2) by (auto simp: passes_def link_def live_def wlive_def)
  have ver: "100 < rs_major rs * 100 + rs_minor rs" using v rs(3,4) by simp
  have tx: "c_tx cd3 = of_nat (length (rsp_out a b code msg hs w))"
    using w2(2) t(2) by (simp add: passes_def rsp_out_def)
  have "net_http_rsp_handler m h server =
      Ret (int (digits_val code), log_http_req h (c_ep cd3) host path (sint (c_tx cd3))) m3"
    using m0(1) f(1) rs(1,2) fw ver t(1) q g3(1) by (simp add: net_http_rsp_handler_def Let_def io_conn_def req_is_def)
  moreover have "out_bytes m3 cd3 = out_bytes m cd @ rsp_out a b code msg hs w"
    using p1 w2(2) t(2) m0(4) by (simp add: passes_def rsp_out_def)
  moreover have "in_bytes m3 cs3 = rest" using passes_lens [OF t(2)] i2 by simp
  moreover have "link m3 ?c server cd3 cs3 (n - length (rsp_out a b code msg hs w))"
    using passes_link [OF t(2)] by (simp add: rsp_out_def add.assoc)
  moreover have "\<forall>q. mem_cnt (conns m3) q = mem_cnt (conns m) q"
  proof -
    have "\<forall>q. mem_cnt (conns m0) q = mem_cnt (conns m) q" using conn_upd_frame [OF m0(1)] by auto
    then show ?thesis using p1 w2(2) t(2) by (simp add: passes_def)
  qed
  ultimately show ?thesis using tx by blast
qed

subsection \<open>A request on its way to the server\<close>

definition uri_text :: "string \<Rightarrow> string \<Rightarrow> string option \<Rightarrow> string \<Rightarrow> string" where
  "uri_text sch host po pa = sch @ ''://'' @ host @ port_text po @ pa"

definition req_ok :: "string \<Rightarrow> string \<Rightarrow> string \<Rightarrow> string option \<Rightarrow> string \<Rightarrow> string \<Rightarrow> string \<Rightarrow> hdr list \<Rightarrow> bool" where
  "req_ok me sch host po pa a b hs \<longleftrightarrow>
     method_word me \<and> me \<noteq> ''CONNECT'' \<and> http_version a b \<and> sch \<noteq> '''' \<and> (\<forall>c \<in> set sch. is_lower c) \<and>
     host_name host \<and> port_ok po \<and> abs_path pa \<and> (\<forall>x \<in> set pa. line_char x) \<and> (\<forall>h \<in> set hs. hdr_ok h) \<and>
     distinct (map (fst \<circ> hdr_kv) hs) \<and>
     length (req_line me (uri_text sch host po pa) a b @ NUL # stored hs) + 1 < HTTP_HEADER_MAXLEN"

definition path_or_root :: "string \<Rightarrow> string" where
  "path_or_root pa = (if pa = '''' then ''/'' else pa)"

lemma alpha_line_char: "is_alpha x \<Longrightarrow> line_char x"
  by (auto simp: line_char_def ch_class_defs)

lemma lower_line_char: "is_lower x \<Longrightarrow> line_char x"
  by (auto simp: line_char_def ch_class_defs)

lemma hostport_line_char: "hostport_char x \<Longrightarrow> line_char x"
  by (auto simp: line_char_def hostport_char_def ch_class_defs)

lemma req_line_chars:
  assumes "req_ok me sch host po pa a b hs"
  shows "\<forall>x \<in> set (req_line me (uri_text sch host po pa) a b). line_char x"
proof -
  have hp: "\<forall>x \<in> set (host @ port_text po). line_char x"
    using hostport_chars(2) [of host po] hostport_line_char assms by (auto simp: req_ok_def)
  have m: "\<forall>x \<in> set me. line_char x" "\<forall>x \<in> set sch. line_char x" "\<forall>x \<in> set (a @ b). line_char x"
    "\<forall>x \<in> set pa. line_char x"
    using assms alpha_line_char lower_line_char digit_line_char by (auto simp: req_ok_def method_word_def http_version_def)
  have c: "line_char CHR ''H''" "line_char CHR ''T''" "line_char CHR ''P''" by (simp_all add: line_char_def)
  show ?thesis using hp m c lit_line_chars by (auto simp: uri_text_def)
qed

lemma parsed_req:
  assumes r: "req_ok me sch host po pa a b hs"
    and d: "sb (rq_buf rq0) (req_line me (uri_text sch host po pa) a b @ NUL # stored hs)" "hash_inv (nd_table (rq_data rq0))"
    and e: "ents_at (length (req_line me (uri_text sch host po pa) a b) + 1) (stored hs)
      (hash_iter (nd_table (rq_data rq0))) (map hdr_kv hs)"
  shows "\<exists>rq. net_parse_req rq0 = Some (0, rq) \<and> req_is rq me host (path_or_root pa) (port_num po) \<and>
    ver_major rq = int (digits_val a) \<and> ver_minor rq = int (digits_val b) \<and>
    ent_vals (rq_data rq) (map hdr_kv hs) \<and> hash_inv (nd_table (rq_data rq))"
proof -
  have p: "method_word me" "me \<noteq> ''CONNECT''" "http_version a b" "sch \<noteq> ''''" "\<forall>c \<in> set sch. is_lower c"
    "host_name host" "port_ok po" "abs_path pa" using r by (auto simp: req_ok_def)
  have len: "2 * length (req_line me (sch @ ''://'' @ host @ port_text po @ pa) a b @ NUL # stored hs) + 4 < 2 ^ 30"
    using r by (simp add: req_ok_def HTTP_HEADER_MAXLEN_def uri_text_def)
  from net_parse_req_abs [OF d(1) [unfolded uri_text_def] p len] obtain rq where
    rq: "net_parse_req rq0 = Some (0, rq)" "req_is rq me host (path_or_root pa) (port_num po)"
      "ver_major rq = int (digits_val a)" "ver_minor rq = int (digits_val b)"
      "nd_table (rq_data rq) = nd_table (rq_data rq0)"
      "tail_kept (length (req_line me (sch @ ''://'' @ host @ port_text po @ pa) a b) + 1) (stored hs) rq"
    by (auto simp: path_or_root_def)
  then obtain xs ys where xy: "sb (rq_buf rq) (xs @ stored hs @ ys)" "length xs = length (req_line me (uri_text sch host po pa) a b) + 1"
    by (auto simp: tail_kept_def uri_text_def)
  have "ent_vals (rq_data rq) (map hdr_kv hs)"
    by (rule ents_at_vals [OF _ _ xy(2)]) (use e rq(5) xy(1) in \<open>auto simp: rq_buf_def\<close>)
  with rq d(2) show ?thesis by auto
qed

text \<open>The header list that is sent: a missing \<^verbatim>\<open>Host\<close> is added from the URI.\<close>

definition with_host :: "(string \<times> string) list \<Rightarrow> string \<Rightarrow> (string \<times> string) list" where
  "with_host kvs host = (if ''Host'' \<in> set (map fst kvs) then kvs else kvs @ [(''Host'', host)])"

lemma add_host_header_ok:
  assumes e: "ent_vals (rq_data rq) kvs" "hash_inv (nd_table (rq_data rq))" "distinct (map fst kvs)"
    and h: "cstr_ofs (rq_buf rq) (rq_host rq) = Some host"
  shows "\<exists>rq1. add_host_header rq = Some rq1 \<and> ent_vals (rq_data rq1) (with_host kvs host) \<and>
    hash_inv (nd_table (rq_data rq1)) \<and> distinct (map fst (with_host kvs host)) \<and> rq_buf rq1 = rq_buf rq \<and>
    rq_host rq1 = rq_host rq \<and> rq_path rq1 = rq_path rq \<and> rq_port rq1 = rq_port rq \<and>
    ver_major rq1 = ver_major rq \<and> ver_minor rq1 = ver_minor rq"
proof (cases "''Host'' \<in> set (map fst kvs)")
  case True
  have u: "uniq_table (nd_table (rq_data rq))"
    using e ent_vals_keys [OF e(1)] by (simp add: uniq_table_def hash_keys_iter)
  have "map_of (hash_iter (nd_table (rq_data rq))) ''Host'' \<noteq> None"
    using True ent_vals_keys [OF e(1)] by (simp add: map_of_eq_None_iff_keys)
  then have "net_data_get_ent (rq_data rq) ''Host'' \<noteq> None"
    using ht.lookup_entries [OF u] by (simp add: net_data_get_ent_def hash_lookup_def)
  then have "add_host_header rq = Some rq" by (auto simp: add_host_header_def)
  with True e show ?thesis by (simp add: with_host_def)
next
  case False
  have u: "uniq_table (nd_table (rq_data rq))"
    using e ent_vals_keys [OF e(1)] by (simp add: uniq_table_def hash_keys_iter)
  have "map_of (hash_iter (nd_table (rq_data rq))) ''Host'' = None"
    using False ent_vals_keys [OF e(1)] by (simp add: map_of_eq_None_iff_keys)
  then have "net_data_get_ent (rq_data rq) ''Host'' = None"
    using ht.lookup_entries [OF u] by (simp add: net_data_get_ent_def hash_lookup_def)
  moreover have "net_data_set_ent_offset (rq_data rq) ''Host'' (rq_host rq) =
      Some ((rq_data rq)\<lparr>nd_table := HASH_ADD (nd_table (rq_data rq)) ''Host'' (rq_host rq)\<rparr>)"
    by (simp add: net_data_set_ent_offset_def new_ent_def HTTP_HEADER_KEY_MAXLEN_def)
  moreover have "list_all2 (\<lambda>(k, off) (k', v). k' = k \<and> NUL \<notin> set k \<and> cstr_ofs (rq_buf rq) off = Some v)
      (hash_iter (nd_table (rq_data rq)) @ [(''Host'', rq_host rq)]) (kvs @ [(''Host'', host)])"
    using e(1) h by (intro list_all2_appendI) (simp_all add: ent_vals_def rq_buf_def)
  ultimately show ?thesis
    using False e by (auto simp: add_host_header_def with_host_def ent_vals_def hash_simps rq_buf_def)
qed

definition req_out :: "string \<Rightarrow> string \<Rightarrow> int \<Rightarrow> int \<Rightarrow> (string \<times> string) list \<Rightarrow> string" where
  "req_out me path v0 v1 kvs =
     req_line me path (dec_digits (nat v0)) (dec_digits (nat v1)) @ crlf @ header_text kvs @ crlf"

lemma forward_req_header:
  assumes r: "req_is rq me host path port" and v: "small_int (ver_major rq)" "small_int (ver_minor rq)"
    and e: "ent_vals (rq_data rq) kvs" and s: "length me + length path + length (header_text kvs) + 80 < 2 ^ 30"
    and l: "link m server src cd cs n" and n: "length (req_out me path (ver_major rq) (ver_minor rq) kvs) \<le> n"
  shows "\<exists>m' cd'. net_forward_req_header m rq server = Ret 0 m' \<and>
    passes server src m cd cs n '''' (req_out me path (ver_major rq) (ver_minor rq) kvs) m' cd' cs"
proof -
  obtain b where b: "req_header_buf rq = Some b" "sb b (req_out me path (ver_major rq) (ver_minor rq) kvs)"
    using req_header_buf_text [OF r v e s] by (auto simp: req_out_def crlf_def)
  with write_passes [OF l n] sb_str [OF b(2)] show ?thesis by (auto simp: net_forward_req_header_def)
qed

text \<open>Bookkeeping on the side does not disturb the two connections.\<close>

lemma link_same:
  assumes "link m dst src cd cs n" "\<And>q. conn_get m' q = conn_get m q" "socks m' = socks m"
    "main_stat m' = main_stat m" "k_open m' = k_open m"
  shows "link m' dst src cd cs n" "in_bytes m' c = in_bytes m c" "out_bytes m' c = out_bytes m c"
  using assms by (auto simp: link_def live_def wlive_def in_bytes_def out_bytes_def)

lemma conn_incref_ok:
  assumes "conn_get m p = Some c"
  shows "\<exists>h. conn_incref m p = Some (m\<lparr>conns := h\<rparr>) \<and> (\<forall>q. conn_get (m\<lparr>conns := h\<rparr>) q = conn_get m q) \<and>
    (\<forall>q. mem_cnt h q = mem_cnt (conns m) q + (if q = p then 1 else 0))"
proof -
  have "\<exists>m'. conn_incref m p = Some m'"
    using assms by (auto simp: conn_incref_def mem_incref_def conn_get_def mem_read_def)
  then obtain m' where m': "conn_incref m p = Some m'" ..
  from conn_incref_frame [OF m'] m' show ?thesis by (auto simp: conn_get_def)
qed

lemma conn_decref_more_ok:
  assumes "conn_get m p = Some c" "1 < mem_cnt (conns m) p"
  shows "\<exists>h. conn_decref m p = Some (m\<lparr>conns := h\<rparr>) \<and> (\<forall>q. conn_get (m\<lparr>conns := h\<rparr>) q = conn_get m q) \<and>
    (\<forall>q. mem_cnt h q = mem_cnt (conns m) q - (if q = p then 1 else 0))"
proof -
  obtain n x where x: "cells (conns m) p = Some (n, x)" using assms(1) by (auto simp: conn_get_def mem_read_def)
  then have "1 < n" using assms(2) by (simp add: mem_cnt_def)
  with x show ?thesis
    by (auto simp: conn_decref_def mem_decref_def conn_get_def mem_read_def mem_cnt_def)
qed

lemma passes_cnt_get:
  "passes dst src m cd cs n d e m' cd' cs' \<Longrightarrow> conn_get m' dst = Some cd' \<and> conn_get m' src = Some cs'"
  by (simp add: passes_def link_def live_def wlive_def)

lemma list_append_holds:
  assumes "lq_holds q xs"
  shows "\<exists>q'. list_append q x = Some q' \<and> lq_holds q' (xs @ [x])"
proof -
  have "lq_head q = None \<longleftrightarrow> lq_tail q = None"
    using assms by (auto simp: lq_holds_def lq_rep_def lq_vals_def elim: lpath.elims)
  from list_append_enq [OF this, of x] lq.enq_holds [OF assms, of x] show ?thesis by metis
qed

text \<open>\<open>enqueue_req\<close> takes one reference to each of the two and appends the pair.\<close>

lemma enqueue_req_ok:
  assumes "conn_get m server = Some c" "mem_read (hc_reqs h) p = Some rq" "lq_holds (hc_list h) xs"
  shows "\<exists>hp rs q. enqueue_req m h server p = Some (m\<lparr>conns := hp\<rparr>, h\<lparr>hc_reqs := rs, hc_list := q\<rparr>) \<and>
    (\<forall>x. conn_get (m\<lparr>conns := hp\<rparr>) x = conn_get m x) \<and>
    (\<forall>x. mem_cnt hp x = mem_cnt (conns m) x + (if x = server then 1 else 0)) \<and>
    mem_read rs p = Some rq \<and> mem_cnt rs p = mem_cnt (hc_reqs h) p + 1 \<and> lq_holds q (xs @ [(server, p)])"
proof -
  from conn_incref_ok [OF assms(1)] obtain hp where hp: "conn_incref m server = Some (m\<lparr>conns := hp\<rparr>)"
    "\<forall>x. conn_get (m\<lparr>conns := hp\<rparr>) x = conn_get m x"
    "\<forall>x. mem_cnt hp x = mem_cnt (conns m) x + (if x = server then 1 else 0)" by blast
  have "\<exists>rs. mem_incref (hc_reqs h) p = Some rs \<and> mem_read rs p = Some rq \<and> mem_cnt rs p = mem_cnt (hc_reqs h) p + 1"
    using assms(2) by (auto simp: mem_incref_def mem_read_def mem_cnt_def)
  then obtain rs where rs: "mem_incref (hc_reqs h) p = Some rs" "mem_read rs p = Some rq" "mem_cnt rs p = mem_cnt (hc_reqs h) p + 1"
    by blast
  obtain q where q: "list_append (hc_list h) (server, p) = Some q" "lq_holds q (xs @ [(server, p)])"
    using list_append_holds [OF assms(3)] by blast
  have "enqueue_req m h server p = Some (m\<lparr>conns := hp\<rparr>, h\<lparr>hc_reqs := rs, hc_list := q\<rparr>)"
    using hp(1) rs(1) q(1) by (simp add: enqueue_req_def)
  with hp(2,3) rs(2,3) q(2) show ?thesis by blast
qed

lemma notify_rsp_ok:
  assumes "lq_holds (ev_queue m) evs"
  shows "\<exists>q. notify_rsp m h = Some (m\<lparr>ev_queue := q\<rparr>) \<and>
    lq_holds q (evs @ (if rsp_blocked h then [(ev_notice_rsp h, 1)] else []))"
proof (cases "rsp_blocked h")
  case True
  with event_post_holds [OF assms, of "ev_notice_rsp h" 1] show ?thesis by (simp add: notify_rsp_def)
next
  case False
  with assms show ?thesis by (intro exI [of _ "ev_queue m"]) (simp add: notify_rsp_def)
qed

text \<open>The head of the request reaches the server.\<close>

lemma http_connect_relays:
  assumes rq: "mem_read (hc_reqs h) p = Some rq" "req_is rq me host path port"
    and v: "small_int (ver_major rq)" "small_int (ver_minor rq)"
    and e: "ent_vals (rq_data rq) kvs" "hash_inv (nd_table (rq_data rq))" "distinct (map fst kvs)"
    and con: "net_connect_to_server m (hc_dns h) (hc_pool h) host (htons port) gai sys = Some (Some server, m1, dns, pool)"
    and l: "link m1 server (hc_client h) cd cs n"
    and s: "length me + length path + length (header_text (with_host kvs host)) + 80 < 2 ^ 30"
    and n: "length (req_out me path (ver_major rq) (ver_minor rq) (with_host kvs host)) \<le> n"
  shows "\<exists>rq1 rs m2 cd2.
    http_connect m h p ((gai, sys) # tries) = Ret (Some server, h\<lparr>hc_dns := dns, hc_pool := pool, hc_reqs := rs\<rparr>) m2 \<and>
    passes server (hc_client h) m1 cd cs n '''' (req_out me path (ver_major rq) (ver_minor rq) (with_host kvs host)) m2 cd2 cs \<and>
    mem_read rs p = Some rq1 \<and> mem_cnt rs p = mem_cnt (hc_reqs h) p \<and> req_is rq1 me host path port \<and>
    c_string (nd_buf (rq_data rq1)) = Some me \<and> ent_vals (rq_data rq1) (with_host kvs host) \<and>
    hash_inv (nd_table (rq_data rq1)) \<and> distinct (map fst (with_host kvs host))"
proof -
  have str: "cstr_ofs (rq_buf rq) 0 = Some me" "cstr_ofs (rq_buf rq) (rq_host rq) = Some host" "rq_port rq = port"
    using rq(2) by (auto simp: req_is_def)
  obtain rq1 where rq1: "add_host_header rq = Some rq1" "ent_vals (rq_data rq1) (with_host kvs host)" "hash_inv (nd_table (rq_data rq1))"
    "distinct (map fst (with_host kvs host))" "rq_buf rq1 = rq_buf rq" "rq_host rq1 = rq_host rq" "rq_path rq1 = rq_path rq"
    "rq_port rq1 = rq_port rq" "ver_major rq1 = ver_major rq" "ver_minor rq1 = ver_minor rq"
    using add_host_header_ok [OF e str(2)] by blast
  have is1: "req_is rq1 me host path port" using rq(2) rq1 by (simp add: req_is_def)
  obtain rs where rs: "mem_write (hc_reqs h) p rq1 = Some rs" "mem_read rs p = Some rq1" "mem_cnt rs p = mem_cnt (hc_reqs h) p"
    using rq(1) by (auto simp: mem_write_def mem_read_def mem_cnt_def)
  obtain m2 cd2 where fw: "net_forward_req_header m1 rq1 server = Ret 0 m2"
    "passes server (hc_client h) m1 cd cs n '''' (req_out me path (ver_major rq) (ver_minor rq) (with_host kvs host)) m2 cd2 cs"
    using forward_req_header [OF is1 _ _ rq1(2) s l] v n rq1(9,10) by auto
  have "http_connect m h p ((gai, sys) # tries) = Ret (Some server, h\<lparr>hc_dns := dns, hc_pool := pool, hc_reqs := rs\<rparr>) m2"
    using rq(1) str(2,3) con rq1(1) rs(1) fw(1) by simp
  moreover have "c_string (nd_buf (rq_data rq1)) = Some me" using str(1) rq1(5) by (simp add: c_string_def rq_buf_def)
  ultimately show ?thesis using fw(2) rs(2,3) is1 rq1(2-4) by blast
qed

text \<open>The request is entered in the list and announced; the link is as before.\<close>

lemma enqueue_announced:
  assumes l: "link m server (hc_client h) cd cs n" and rq: "mem_read (hc_reqs h) p = Some rq"
    and q: "lq_holds (hc_list h) xs" "lq_holds (ev_queue m) evs"
  shows "\<exists>hp rs q eq m'. enqueue_req m h server p = Some (m\<lparr>conns := hp\<rparr>, h\<lparr>hc_reqs := rs, hc_list := q\<rparr>) \<and>
    notify_rsp (m\<lparr>conns := hp\<rparr>) (h\<lparr>hc_reqs := rs, hc_list := q\<rparr>) = Some m' \<and> ev_queue m' = eq \<and>
    lq_holds eq (evs @ (if rsp_blocked h then [(ev_notice_rsp h, 1)] else [])) \<and> lq_holds q (xs @ [(server, p)]) \<and>
    link m' server (hc_client h) cd cs n \<and> socks m' = socks m \<and>
    mem_cnt (conns m') server = mem_cnt (conns m) server + 1 \<and>
    mem_read rs p = Some rq \<and> mem_cnt rs p = mem_cnt (hc_reqs h) p + 1"
proof -
  have g: "conn_get m server = Some cd" using l by (simp add: link_def wlive_def)
  obtain hp rs q2 where en: "enqueue_req m h server p = Some (m\<lparr>conns := hp\<rparr>, h\<lparr>hc_reqs := rs, hc_list := q2\<rparr>)"
    "\<forall>x. conn_get (m\<lparr>conns := hp\<rparr>) x = conn_get m x" "\<forall>x. mem_cnt hp x = mem_cnt (conns m) x + (if x = server then 1 else 0)"
    "mem_read rs p = Some rq" "mem_cnt rs p = mem_cnt (hc_reqs h) p + 1" "lq_holds q2 (xs @ [(server, p)])"
    using enqueue_req_ok [OF g rq q(1)] by blast
  let ?m = "m\<lparr>conns := hp\<rparr>" and ?h = "h\<lparr>hc_reqs := rs, hc_list := q2\<rparr>"
  have "lq_holds (ev_queue ?m) evs" using q(2) by simp
  from notify_rsp_ok [OF this, of ?h] obtain eq where
    nt: "notify_rsp ?m ?h = Some (?m\<lparr>ev_queue := eq\<rparr>)"
      "lq_holds eq (evs @ (if rsp_blocked h then [(ev_notice_rsp h, 1)] else []))" by (auto cong: if_cong)
  have "conn_get (?m\<lparr>ev_queue := eq\<rparr>) x = conn_get m x" for x using en(2) by (simp add: conn_get_def)
  then have "link (?m\<lparr>ev_queue := eq\<rparr>) server (hc_client h) cd cs n" by (intro link_same(1) [OF l]) auto
  with en nt show ?thesis
    by (intro exI [of _ hp] exI [of _ rs] exI [of _ q2] exI [of _ eq] exI [of _ "?m\<lparr>ev_queue := eq\<rparr>"]) simp
qed

lemma request_relayed:
  assumes rq: "mem_read (hc_reqs h) p = Some rq" "req_is rq me host path port" "me \<noteq> ''HEAD''"
    and v: "small_int (ver_major rq)" "small_int (ver_minor rq)"
    and e: "ent_vals (rq_data rq) kvs" "hash_inv (nd_table (rq_data rq))" "distinct (map fst kvs)"
    and con: "net_connect_to_server m (hc_dns h) (hc_pool h) host (htons port) gai sys = Some (Some server, m1, dns, pool)"
    and l: "link m1 server (hc_client h) cd cs n" and cnt: "0 < mem_cnt (conns m1) server"
    and q: "lq_holds (hc_list h) xs" "lq_holds (ev_queue m1) evs"
    and w: "framed (with_host kvs host) w" and i: "in_bytes m1 cs = w @ rest"
    and s: "length me + length path + length (header_text (with_host kvs host)) + 80 < 2 ^ 30"
    and n: "length (req_out me path (ver_major rq) (ver_minor rq) (with_host kvs host) @ w) \<le> n"
  shows "\<exists>m' h' cd' cs'. net_http_req_handler m h p ((gai, sys) # tries) = Ret (0, h') m' \<and>
    conn_get m' server = Some cd' \<and> conn_get m' (hc_client h) = Some cs' \<and>
    out_bytes m' cd' = out_bytes m1 cd @ req_out me path (ver_major rq) (ver_minor rq) (with_host kvs host) @ w \<and>
    in_bytes m' cs' = rest \<and> lq_holds (hc_list h') (xs @ [(server, p)]) \<and>
    lq_holds (ev_queue m') (evs @ (if rsp_blocked h then [(ev_notice_rsp h, 1)] else [])) \<and>
    mem_cnt (conns m') server = mem_cnt (conns m1) server \<and> mem_cnt (hc_reqs h') p = mem_cnt (hc_reqs h) p + 1 \<and>
    (\<exists>rq'. mem_read (hc_reqs h') p = Some rq' \<and> req_is rq' me host path port) \<and>
    hc_client h' = hc_client h \<and> hc_dns h' = dns \<and> hc_pool h' = pool \<and>
    link m' server (hc_client h) cd' cs' (n - length (req_out me path (ver_major rq) (ver_minor rq) (with_host kvs host) @ w))"
proof -
  let ?kvs = "with_host kvs host" and ?o = "req_out me path (ver_major rq) (ver_minor rq) (with_host kvs host)"
  have no: "length ?o \<le> n" "length w \<le> n - length ?o" using n by simp_all
  obtain rq1 rs m2 cd2 where
    hc: "http_connect m h p ((gai, sys) # tries) = Ret (Some server, h\<lparr>hc_dns := dns, hc_pool := pool, hc_reqs := rs\<rparr>) m2"
    and fw: "passes server (hc_client h) m1 cd cs n '''' ?o m2 cd2 cs"
    and rs: "mem_read rs p = Some rq1" "mem_cnt rs p = mem_cnt (hc_reqs h) p" and is1: "req_is rq1 me host path port"
    and d1: "c_string (nd_buf (rq_data rq1)) = Some me" "ent_vals (rq_data rq1) ?kvs"
      "hash_inv (nd_table (rq_data rq1))" "distinct (map fst ?kvs)"
    using http_connect_relays [OF rq(1,2) v e con l s no(1)] by blast
  let ?h1 = "h\<lparr>hc_dns := dns, hc_pool := pool, hc_reqs := rs\<rparr>"
  have l2: "link m2 server (hc_client ?h1) cd2 cs (n - length ?o)" using passes_link [OF fw] by simp
  have p1: "mem_read (hc_reqs ?h1) p = Some rq1" "lq_holds (hc_list ?h1) xs" "lq_holds (ev_queue m2) evs"
    using rs(1) q fw by (simp_all add: passes_def)
  obtain hp rs2 q2 eq m3 where en: "enqueue_req m2 ?h1 server p = Some (m2\<lparr>conns := hp\<rparr>, ?h1\<lparr>hc_reqs := rs2, hc_list := q2\<rparr>)"
      "notify_rsp (m2\<lparr>conns := hp\<rparr>) (?h1\<lparr>hc_reqs := rs2, hc_list := q2\<rparr>) = Some m3" "ev_queue m3 = eq"
      "lq_holds eq (evs @ (if rsp_blocked ?h1 then [(ev_notice_rsp ?h1, 1)] else []))" "lq_holds q2 (xs @ [(server, p)])"
    and l3: "link m3 server (hc_client ?h1) cd2 cs (n - length ?o)" and s3: "socks m3 = socks m2"
    and c3: "mem_cnt (conns m3) server = mem_cnt (conns m2) server + 1"
    and rs2: "mem_read rs2 p = Some rq1" "mem_cnt rs2 p = mem_cnt (hc_reqs ?h1) p + 1"
    using enqueue_announced [OF l2 p1] by blast
  let ?h2 = "?h1\<lparr>hc_reqs := rs2, hc_list := q2\<rparr>"
  have i3: "in_bytes m3 cs = w @ rest" using passes_lens [OF fw] i s3 by (simp add: in_bytes_def)
  obtain m4 cd4 cs4 where t: "net_transfer_body_HTTP_1_1 m3 server (hc_client ?h1) (rq_data rq1) = Ret 0 m4"
      "passes server (hc_client ?h1) m3 cd2 cs (n - length ?o) w w m4 cd4 cs4"
    using transfer_framed [OF l3 d1(1) rq(3) d1(2-4) w i3 no(2)] by blast
  have g4: "conn_get m4 server = Some cd4" "conn_get m4 (hc_client h) = Some cs4" using passes_cnt_get [OF t(2)] by auto
  have "mem_cnt (conns m4) server = mem_cnt (conns m1) server + 1" using t(2) fw c3 by (simp add: passes_def)
  then obtain h5 where d: "conn_decref m4 server = Some (m4\<lparr>conns := h5\<rparr>)"
    "\<forall>q. conn_get (m4\<lparr>conns := h5\<rparr>) q = conn_get m4 q" "mem_cnt h5 server = mem_cnt (conns m1) server"
    using conn_decref_more_ok [OF g4(1)] cnt by auto
  let ?m5 = "m4\<lparr>conns := h5\<rparr>"
  have "net_http_req_handler m h p ((gai, sys) # tries) = Ret (0, ?h2) ?m5"
    using hc en(1,2) rs2(1) t(1) d(1) by (simp add: net_http_req_handler_def del: http_connect.simps)
  moreover have "out_bytes ?m5 cd4 = out_bytes m1 cd @ ?o @ w"
  proof -
    have "out_bytes m4 cd4 = out_bytes m3 cd2 @ w" "out_bytes m2 cd2 = out_bytes m1 cd @ ?o"
      using fw t(2) by (simp_all only: passes_def)
    moreover have "out_bytes m3 cd2 = out_bytes m2 cd2" "out_bytes ?m5 cd4 = out_bytes m4 cd4"
      using s3 by (simp_all add: out_bytes_def)
    ultimately show ?thesis by simp
  qed
  moreover have "in_bytes ?m5 cs4 = rest" using passes_lens [OF t(2)] i3 by (simp add: in_bytes_def)
  moreover have "ev_queue ?m5 = eq" using t(2) en(3) by (simp add: passes_def)
  moreover have "lq_holds eq (evs @ (if rsp_blocked h then [(ev_notice_rsp h, 1)] else []))" using en(4) by (simp split: if_splits)
  moreover have "link ?m5 server (hc_client h) cd4 cs4 (n - length (?o @ w))"
  proof (rule link_same(1))
    show "link m4 server (hc_client h) cd4 cs4 (n - length (?o @ w))" using passes_link [OF t(2)] by simp
  qed (use d(2) in auto)
  ultimately show ?thesis using d g4 en(5) rs2 rs(2) is1
    by (intro exI [of _ ?m5] exI [of _ ?h2] exI [of _ cd4] exI [of _ cs4]) simp
qed

end
