(* ===== verification/Pipeline.thy ===== *)
theory Pipeline
  imports HttpHandlers
begin

text \<open>
  The two coroutines of one client, \<^verbatim>\<open>net_req_handler\<close> and \<^verbatim>\<open>net_rsp_handler\<close> of
  \<^verbatim>\<open>src/core/net_handle.c\<close>. The first reads requests, sends them to their servers and appends
  them to a list; the second takes them off the list and relays the responses.

  First come the pieces of the two functions between their yields. \<open>req_round\<close> and
  \<open>rsp_round\<close> compose them with the handlers into one round of each loop, run on the scripts
  of the peers. The relation \<open>pstep\<close> then interleaves the two coroutines the way the
  scheduler does: a coroutine runs until it yields, and the main loop resumes a coroutine
  when its descriptor is ready or when an event it is registered for is dispatched. What
  input and output do inside a round is left open there (\<open>io_effect\<close>).
\<close>

definition handlers :: handler_table where
  "handlers = net_http_module_init net_handle_module_init"

subsection \<open>The pieces of the request coroutine\<close>

text \<open>From the entry to the first yield. The heap of requests, the address cache and the access
  log are global; they are parameters.\<close>

definition req_start ::
  "mach \<Rightarrow> addr \<Rightarrow> net_req rheap \<Rightarrow> dns_cache_table \<Rightarrow> (conn_endpoint \<times> string \<times> string \<times> int) list
   \<Rightarrow> (mach \<times> net_handle_cxt) option" where
  "req_start m client reqs dns lg =
     Option.bind (conn_incref m client) (\<lambda>m1.
       let (e1, m2) = event_get_id m1; (e2, m3) = event_get_id m2;
           h = \<lparr>hc_client = client, hc_pool = hash_empty, hc_list = lq_empty, ev_notice_req = e1, ev_notice_rsp = e2,
                req_blocked = False, rsp_blocked = False, req_will_exit = False, rsp_will_exited = False,
                hc_reqs = reqs, hc_dns = dns, hc_log = lg\<rparr>
       in map_option (\<lambda>m4. (m4, h\<lparr>req_blocked := True\<rparr>)) (event_post m3 e1 1))"

text \<open>The label \<^verbatim>\<open>req_done\<close> up to the second yield; the flag tells whether it yields.\<close>

definition req_exit :: "mach \<Rightarrow> net_handle_cxt \<Rightarrow> (bool \<times> mach \<times> net_handle_cxt) option" where
  "req_exit m h =
     (let h1 = h\<lparr>req_will_exit := True\<rparr> in
      if \<not> rsp_will_exited h1
      then map_option (\<lambda>m1. (True, m1, h1\<lparr>req_blocked := True\<rparr>)) (event_post m (ev_notice_rsp h1) 0)
      else Some (False, m, h1))"

text \<open>After it: close and release the connections of the pool, release what the list still holds,
  free the event identifier, release the client.\<close>

fun close_pool :: "(string \<times> addr) list \<Rightarrow> mach \<Rightarrow> mach option" where
  "close_pool [] m = Some m"
| "close_pool ((k, p) # r) m =
     Option.bind (conn_close m p) (\<lambda>m1. Option.bind (conn_decref m1 p) (close_pool r))"

definition req_decref :: "net_handle_cxt \<Rightarrow> addr \<Rightarrow> net_handle_cxt option" where
  "req_decref h p = map_option (\<lambda>(r, rs, s). s\<lparr>hc_reqs := rs\<rparr>) (mem_decref (hc_reqs h) p (\<lambda>_ s. s) h)"

partial_function (option) drop_list :: "mach \<Rightarrow> net_handle_cxt \<Rightarrow> (mach \<times> net_handle_cxt) option" where
  "drop_list m h =
     (case lq_head (hc_list h) of
        None \<Rightarrow> Some (m, h)
      | Some a \<Rightarrow>
          (case lq_first (hc_list h) of
             None \<Rightarrow> None
           | Some (server, p) \<Rightarrow>
               Option.bind (conn_decref m server) (\<lambda>m1.
               Option.bind (req_decref h p) (\<lambda>h1.
               Option.bind (lq_unlink (hc_list h1)) (\<lambda>q. drop_list m1 (h1\<lparr>hc_list := q\<rparr>))))))"

definition req_cleanup :: "mach \<Rightarrow> net_handle_cxt \<Rightarrow> (mach \<times> net_handle_cxt) option" where
  "req_cleanup m h =
     Option.bind (close_pool (hash_iter (hc_pool h)) m) (\<lambda>m1.
     Option.bind (drop_list m1 (h\<lparr>hc_pool := HASH_CLEAR (hc_pool h)\<rparr>)) (\<lambda>(m2, h2).
     map_option (\<lambda>m3. (m3, h2)) (conn_decref (event_free_id m2 (ev_notice_req h2)) (hc_client h2))))"

text \<open>One round of the loop; \<open>junk\<close> stands for the indeterminate fields of the fresh request.
  \<^term>\<open>Some r\<close>: leave the loop with the return value \<open>r\<close>.\<close>

definition call_req_handler ::
  "req_fn \<Rightarrow> mach \<Rightarrow> net_handle_cxt \<Rightarrow> addr \<Rightarrow> attempt list \<Rightarrow> (int \<times> net_handle_cxt) io" where
  "call_req_handler f m h p tries =
     (case f of
        NetHttpReq \<Rightarrow> net_http_req_handler m h p tries
      | NetConnectReq \<Rightarrow> (case tries of [] \<Rightarrow> Blocked | t # _ \<Rightarrow> net_connect_req_handler m h p t))"

definition req_round ::
  "mach \<Rightarrow> net_handle_cxt \<Rightarrow> net_req \<Rightarrow> attempt list \<Rightarrow> (int option \<times> net_handle_cxt) io" where
  "req_round m h junk tries =
     (let client = hc_client h in
      io_conn m client (\<lambda>c.
        if c_stat c = CONN_CLOSED \<or> main_stat m = EXITING then Ret (Some 0, h) m
        else
          io_bind (net_fetch_http m client net_data_init) (\<lambda>(ret, d) m1.
            if ret \<noteq> 0 then io_bind (net_bad_request m1 client) (\<lambda>_ m2. Ret (Some ret, h) m2)
            else
              case c_string (nd_buf d) of
                None \<Rightarrow> Undef
              | Some start \<Rightarrow>
                  case net_get_handler handlers start of
                    None \<Rightarrow> io_bind (net_bad_request m1 client) (\<lambda>_ m2. Ret (Some (-1), h) m2)
                  | Some nh \<Rightarrow>
                      (case net_parse_req (junk\<lparr>rq_data := d\<rparr>) of
                         None \<Rightarrow> Undef
                       | Some (ret, rq) \<Rightarrow>
                           let (p, rs) = mem_alloc_auto (hc_reqs h) rq; h1 = h\<lparr>hc_reqs := rs\<rparr> in
                           io_bind (if ret \<noteq> 0 then io_bind (net_bad_request m1 client) (\<lambda>_ m2. Ret (ret, h1) m2)
                                    else call_req_handler (nh_req nh) m1 h1 p tries) (\<lambda>(ret, h2) m2.
                             case req_decref h2 p of
                               None \<Rightarrow> Undef
                             | Some h3 \<Rightarrow> Ret (if ret \<noteq> 0 then Some ret else None, h3) m2)))))"

subsection \<open>The pieces of the response coroutine\<close>

definition rsp_start :: "mach \<Rightarrow> net_handle_cxt \<Rightarrow> (mach \<times> net_handle_cxt) option" where
  "rsp_start m h =
     Option.bind (conn_incref m (hc_client h)) (\<lambda>m1.
       map_option (\<lambda>m2. (m2, h\<lparr>rsp_blocked := True\<rparr>)) (event_post m1 (ev_notice_rsp h) 1))"

text \<open>After the handler has returned \<open>ret\<close>. If the server connection is closed its entry is
  looked up in the pool by address, deleted and its reference released; the entry is not
  checked to exist, nor to belong to this connection.\<close>

definition rsp_finish :: "mach \<Rightarrow> net_handle_cxt \<Rightarrow> int \<Rightarrow> (mach \<times> net_handle_cxt) option" where
  "rsp_finish m h ret =
     (case lq_first (hc_list h) of
        None \<Rightarrow> None
      | Some (server, p) \<Rightarrow>
          let release = (\<lambda>m1 h1.
                Option.bind (conn_decref m1 server) (\<lambda>m2.
                Option.bind (req_decref h1 p) (\<lambda>h2.
                map_option (\<lambda>q. (m2, h2\<lparr>hc_list := q\<rparr>)) (lq_deq (hc_list h2)))))
          in Option.bind (conn_get m server) (\<lambda>c.
               if c_stat c = CONN_CLOSED
               then (case HASH_FIND (hc_pool h) (ep_key (c_ep c)) of
                       None \<Rightarrow> None
                     | Some t \<Rightarrow>
                         Option.bind (conn_decref m server) (\<lambda>m1.
                           release m1 (h\<lparr>hc_pool := HASH_DELETE (hc_pool h) t\<rparr>)))
               else if ret = 100 then Some (m, h)
               else release m h))"

text \<open>The flag that is set here is the one of the request coroutine.\<close>

definition rsp_exit :: "mach \<Rightarrow> net_handle_cxt \<Rightarrow> (mach \<times> net_handle_cxt) option" where
  "rsp_exit m h =
     (let h1 = h\<lparr>req_will_exit := True\<rparr> in
      Option.bind (if req_blocked h1 then event_post m (ev_notice_req h1) 0 else Some m) (\<lambda>m1.
        map_option (\<lambda>m2. (m2, h1)) (conn_decref (event_free_id m1 (ev_notice_rsp h1)) (hc_client h1))))"

text \<open>One round of the loop: \<open>RspBreak\<close> leaves it, \<open>RspWait\<close> is the yield on an empty list.\<close>

datatype rsp_next = RspBreak | RspWait | RspAgain

definition call_rsp_handler :: "rsp_fn \<Rightarrow> mach \<Rightarrow> net_handle_cxt \<Rightarrow> addr \<Rightarrow> (int \<times> net_handle_cxt) io" where
  "call_rsp_handler f m h server =
     (case f of
        NetHttpRsp \<Rightarrow> net_http_rsp_handler m h server
      | NetConnectRsp \<Rightarrow> net_connect_rsp_handler m h server)"

definition rsp_round :: "mach \<Rightarrow> net_handle_cxt \<Rightarrow> (rsp_next \<times> net_handle_cxt) io" where
  "rsp_round m h =
     io_conn m (hc_client h) (\<lambda>c.
       if c_stat c = CONN_CLOSED \<or> main_stat m = EXITING then Ret (RspBreak, h) m
       else if lq_head (hc_list h) = None then Ret (RspWait, h\<lparr>rsp_blocked := True\<rparr>) m
       else
         case lq_first (hc_list h) of
           None \<Rightarrow> Undef
         | Some (server, p) \<Rightarrow>
             case Option.bind (mem_read (hc_reqs h) p) (\<lambda>rq. c_string (rq_buf rq)) of
               None \<Rightarrow> Undef
             | Some start \<Rightarrow>
                 case net_get_handler handlers start of
                   None \<Rightarrow> Undef
                 | Some nh \<Rightarrow>
                     io_bind (call_rsp_handler (nh_rsp nh) m h server) (\<lambda>(ret, h1) m1.
                       case rsp_finish m1 h1 ret of
                         None \<Rightarrow> Undef
                       | Some (m2, h2) \<Rightarrow> Ret (RspAgain, h2) m2))"

subsection \<open>Interleaving\<close>

text \<open>
  Where each coroutine stands. \<open>RqFetch\<close>, \<open>RqReady p\<close>, \<open>RqHead\<close>, \<open>RqSend\<close> and \<open>RsBusy\<close> are inside
  functions that do input and output and may yield for it; \<open>RqReady p\<close> has parsed the request \<open>p\<close>,
  \<open>RqHead server p\<close> has a connection and sends the header, \<open>RqSend server p\<close> has appended the
  request to the list and sends the body. \<open>RqWaitStart\<close>, \<open>RqWaitExit\<close>,
  \<open>RsWaitStart\<close> and \<open>RsWaitReq\<close> wait for an event.
\<close>

datatype rq_pc = RqWaitStart | RqLoop | RqFetch | RqReady addr | RqHead addr addr | RqSend addr addr
  | RqExit | RqWaitExit | RqCleanup | RqDone
datatype rs_pc = RsWaitStart | RsLoop | RsBusy | RsWaitReq | RsExit | RsDone
datatype who = Main | Rq | Rs

record pipe =
  pi_m :: mach
  pi_h :: net_handle_cxt
  pi_rq :: rq_pc
  pi_rs :: rs_pc
  pi_cur :: who
  rq_cx :: addr              \<comment> \<open>the contexts of the two coroutines\<close>
  rs_cx :: addr
  pi_enq :: "addr list"      \<comment> \<open>history: the requests appended to the list\<close>
  pi_ans :: "addr list"      \<comment> \<open>history: the requests taken off it\<close>

text \<open>What input and output, and the handlers of descriptors, may do: anything but post events,
  change the registrations of the two identifiers or touch reference counts and addresses.\<close>

definition io_effect :: "event_id \<Rightarrow> event_id \<Rightarrow> mach \<Rightarrow> mach \<Rightarrow> bool" where
  "io_effect e1 e2 m m' \<longleftrightarrow> ev_queue m' = ev_queue m \<and>
     ev_handler_of m' e1 = ev_handler_of m e1 \<and> ev_handler_of m' e2 = ev_handler_of m e2 \<and>
     uniq_table (ev_handlers m') \<and>
     (\<forall>p. mem_cnt (conns m') p = mem_cnt (conns m) p \<and> map_option c_ep (conn_get m' p) = map_option c_ep (conn_get m p))"

abbreviation pio :: "pipe \<Rightarrow> mach \<Rightarrow> bool" where
  "pio s m' \<equiv> io_effect (ev_notice_req (pi_h s)) (ev_notice_rsp (pi_h s)) (pi_m s) m'"

definition leave_loop :: "mach \<Rightarrow> net_handle_cxt \<Rightarrow> bool" where
  "leave_loop m h \<longleftrightarrow> (case conn_get m (hc_client h) of None \<Rightarrow> False | Some c \<Rightarrow> c_stat c = CONN_CLOSED) \<or> main_stat m = EXITING"

text \<open>The request handlers connect, forward the header and append the request; \<^verbatim>\<open>CONNECT\<close> posts the
  notice even if the response coroutine is not waiting.\<close>

definition enqueue_notify :: "bool \<Rightarrow> mach \<Rightarrow> net_handle_cxt \<Rightarrow> addr \<Rightarrow> addr \<Rightarrow> (mach \<times> net_handle_cxt) option" where
  "enqueue_notify tunnel m h server p =
     Option.bind (enqueue_req m h server p) (\<lambda>(m1, h1).
       map_option (\<lambda>m2. (m2, h1)) (if tunnel then event_post m1 (ev_notice_rsp h1) 1 else notify_rsp m1 h1))"

definition rq_io :: "rq_pc \<Rightarrow> bool" where
  "rq_io pc \<longleftrightarrow> pc = RqFetch \<or> (\<exists>p. pc = RqReady p) \<or> (\<exists>s p. pc = RqHead s p) \<or> (\<exists>s p. pc = RqSend s p)"

text \<open>The coroutine that is registered for an event runs when the event is dispatched; one that is
  suspended in input or output tries its system call again.\<close>

definition resume_rq :: "pipe \<Rightarrow> pipe" where
  "resume_rq s =
     (case pi_rq s of
        RqWaitStart \<Rightarrow> s\<lparr>pi_rq := RqLoop, pi_h := (pi_h s)\<lparr>req_blocked := False\<rparr>, pi_cur := Rq\<rparr>
      | RqWaitExit \<Rightarrow> s\<lparr>pi_rq := RqCleanup, pi_h := (pi_h s)\<lparr>req_blocked := False\<rparr>, pi_cur := Rq\<rparr>
      | pc \<Rightarrow> s\<lparr>pi_cur := Rq\<rparr>)"

definition resume_rs :: "pipe \<Rightarrow> addr \<Rightarrow> pipe" where
  "resume_rs s d =
     (case pi_rs s of
        RsWaitStart \<Rightarrow> s\<lparr>pi_rs := RsLoop, pi_h := (pi_h s)\<lparr>rsp_blocked := False\<rparr>, pi_cur := Rs\<rparr>
      | RsWaitReq \<Rightarrow> s\<lparr>pi_rs := (if d = 0 then RsExit else RsLoop), pi_h := (pi_h s)\<lparr>rsp_blocked := False\<rparr>, pi_cur := Rs\<rparr>
      | pc \<Rightarrow> s\<lparr>pi_cur := Rs\<rparr>)"

definition dispatch :: "pipe \<Rightarrow> addr \<Rightarrow> addr \<Rightarrow> pipe" where
  "dispatch s cx d = (if cx = rq_cx s then resume_rq s else if cx = rs_cx s then resume_rs s d else s)"

text \<open>
  The steps. \<open>io\<close> is any effect of input and output; \<open>foreign_post\<close> and the events of other
  identifiers belong to other clients and to the address lookup. A resumption after an address
  lookup is \<open>ready_rq\<close>. Looking up and connecting is one step; nothing that the response
  coroutine does meanwhile adds an entry to the pool.
\<close>

abbreviation at_rq :: "pipe \<Rightarrow> rq_pc \<Rightarrow> bool" where "at_rq s pc \<equiv> pi_cur s = Rq \<and> pi_rq s = pc"
abbreviation at_rs :: "pipe \<Rightarrow> rs_pc \<Rightarrow> bool" where "at_rs s pc \<equiv> pi_cur s = Rs \<and> pi_rs s = pc"

inductive pstep :: "pipe \<Rightarrow> pipe \<Rightarrow> bool" where
  io: "pio s m \<Longrightarrow> pstep s (s\<lparr>pi_m := m\<rparr>)"
| foreign_post: "e \<noteq> ev_notice_req (pi_h s) \<Longrightarrow> e \<noteq> ev_notice_rsp (pi_h s) \<Longrightarrow> event_post (pi_m s) e d = Some m \<Longrightarrow>
    pstep s (s\<lparr>pi_m := m\<rparr>)"
| yield_rq: "pi_cur s = Rq \<Longrightarrow> rq_io (pi_rq s) \<Longrightarrow> pstep s (s\<lparr>pi_cur := Main\<rparr>)"
| yield_rs: "at_rs s RsBusy \<Longrightarrow> pstep s (s\<lparr>pi_cur := Main\<rparr>)"
| ready_rq: "pi_cur s = Main \<Longrightarrow> rq_io (pi_rq s) \<Longrightarrow> pstep s (s\<lparr>pi_cur := Rq\<rparr>)"
| ready_rs: "pi_cur s = Main \<Longrightarrow> pi_rs s = RsBusy \<Longrightarrow> pstep s (s\<lparr>pi_cur := Rs\<rparr>)"
| event: "pi_cur s = Main \<Longrightarrow> lq_first (ev_queue (pi_m s)) = Some (e, d) \<Longrightarrow> lq_deq (ev_queue (pi_m s)) = Some q \<Longrightarrow>
    ev_handler_of (pi_m s) e = Some (ConnEvent, cx) \<Longrightarrow>
    e = ev_notice_req (pi_h s) \<or> e = ev_notice_rsp (pi_h s) \<or> cx \<noteq> rq_cx s \<and> cx \<noteq> rs_cx s \<Longrightarrow>
    pstep s (dispatch (s\<lparr>pi_m := (pi_m s)\<lparr>ev_queue := q\<rparr>\<rparr>) cx d)"
| event_unhandled: "pi_cur s = Main \<Longrightarrow> lq_first (ev_queue (pi_m s)) = Some (e, d) \<Longrightarrow> lq_deq (ev_queue (pi_m s)) = Some q \<Longrightarrow>
    ev_handler_of (pi_m s) e = None \<Longrightarrow> pstep s (s\<lparr>pi_m := (pi_m s)\<lparr>ev_queue := q\<rparr>\<rparr>)"
| rq_break: "at_rq s RqLoop \<Longrightarrow> leave_loop (pi_m s) (pi_h s) \<Longrightarrow> pstep s (s\<lparr>pi_rq := RqExit\<rparr>)"
| rq_fetch: "at_rq s RqLoop \<Longrightarrow> \<not> leave_loop (pi_m s) (pi_h s) \<Longrightarrow> pstep s (s\<lparr>pi_rq := RqFetch\<rparr>)"
| rq_fail: "at_rq s RqFetch \<Longrightarrow> pstep s (s\<lparr>pi_rq := RqExit\<rparr>)"
| rq_parsed: "at_rq s RqFetch \<Longrightarrow> mem_alloc_auto (hc_reqs (pi_h s)) rq = (p, rs) \<Longrightarrow>
    pstep s (s\<lparr>pi_rq := RqReady p, pi_h := (pi_h s)\<lparr>hc_reqs := rs\<rparr>\<rparr>)"
| rq_drop: "at_rq s (RqReady p) \<Longrightarrow> req_decref (pi_h s) p = Some h \<Longrightarrow> pstep s (s\<lparr>pi_rq := RqExit, pi_h := h\<rparr>)"
| rq_touch: "at_rq s (RqReady p) \<or> at_rq s (RqHead server p) \<Longrightarrow> mem_write (hc_reqs (pi_h s)) p rq = Some rs \<Longrightarrow>
    pstep s (s\<lparr>pi_h := (pi_h s)\<lparr>hc_reqs := rs\<rparr>\<rparr>)"
| rq_connect: "at_rq s (RqReady p) \<Longrightarrow> id_max (pi_m s) \<noteq> ev_notice_req (pi_h s) \<Longrightarrow> id_max (pi_m s) \<noteq> ev_notice_rsp (pi_h s) \<Longrightarrow>
    net_connect_to_server (pi_m s) (hc_dns (pi_h s)) (hc_pool (pi_h s)) host port gai sys = Some (srv, m, dns, pool) \<Longrightarrow>
    pstep s (s\<lparr>pi_rq := (case srv of None \<Rightarrow> RqReady p | Some server \<Rightarrow> RqHead server p),
               pi_m := m, pi_h := (pi_h s)\<lparr>hc_dns := dns, hc_pool := pool\<rparr>\<rparr>)"
| rq_retry: "at_rq s (RqHead server p) \<Longrightarrow> conn_decref (pi_m s) server = Some m \<Longrightarrow>
    pstep s (s\<lparr>pi_rq := RqReady p, pi_m := m\<rparr>)"
| rq_enqueue: "at_rq s (RqHead server p) \<Longrightarrow> enqueue_notify tunnel (pi_m s) (pi_h s) server p = Some (m, h) \<Longrightarrow>
    pstep s (s\<lparr>pi_rq := RqSend server p, pi_m := m, pi_h := h, pi_enq := pi_enq s @ [p]\<rparr>)"
| rq_sent: "at_rq s (RqSend server p) \<Longrightarrow> conn_decref (pi_m s) server = Some m \<Longrightarrow> req_decref (pi_h s) p = Some h \<Longrightarrow>
    pc = RqLoop \<or> pc = RqExit \<Longrightarrow> pstep s (s\<lparr>pi_rq := pc, pi_m := m, pi_h := h\<rparr>)"
| rq_exit: "at_rq s RqExit \<Longrightarrow> req_exit (pi_m s) (pi_h s) = Some (True, m, h) \<Longrightarrow>
    pstep s (s\<lparr>pi_rq := RqWaitExit, pi_cur := Main, pi_m := event_set_handler m (ev_notice_req h) ConnEvent (rq_cx s), pi_h := h\<rparr>)"
| rq_exit_now: "at_rq s RqExit \<Longrightarrow> req_exit (pi_m s) (pi_h s) = Some (False, m, h) \<Longrightarrow>
    pstep s (s\<lparr>pi_rq := RqCleanup, pi_m := m, pi_h := h\<rparr>)"
| rq_cleanup: "at_rq s RqCleanup \<Longrightarrow> req_cleanup (pi_m s) (pi_h s) = Some (m, h) \<Longrightarrow>
    pstep s (s\<lparr>pi_rq := RqDone, pi_cur := Main, pi_m := m, pi_h := h\<rparr>)"
| rs_break: "at_rs s RsLoop \<Longrightarrow> leave_loop (pi_m s) (pi_h s) \<Longrightarrow> pstep s (s\<lparr>pi_rs := RsExit\<rparr>)"
| rs_wait: "at_rs s RsLoop \<Longrightarrow> \<not> leave_loop (pi_m s) (pi_h s) \<Longrightarrow> lq_head (hc_list (pi_h s)) = None \<Longrightarrow>
    pstep s (s\<lparr>pi_rs := RsWaitReq, pi_cur := Main, pi_h := (pi_h s)\<lparr>rsp_blocked := True\<rparr>,
               pi_m := event_set_handler (pi_m s) (ev_notice_rsp (pi_h s)) ConnEvent (rs_cx s)\<rparr>)"
| rs_take: "at_rs s RsLoop \<Longrightarrow> \<not> leave_loop (pi_m s) (pi_h s) \<Longrightarrow> lq_head (hc_list (pi_h s)) \<noteq> None \<Longrightarrow>
    pstep s (s\<lparr>pi_rs := RsBusy\<rparr>)"
| rs_log: "at_rs s RsBusy \<Longrightarrow> pstep s (s\<lparr>pi_h := log_http_req (pi_h s) ep host path len\<rparr>)"
| rs_again: "at_rs s RsBusy \<Longrightarrow> lq_first (hc_list (pi_h s)) = Some (server, p) \<Longrightarrow> conn_get (pi_m s) server = Some c \<Longrightarrow>
    c_stat c \<noteq> CONN_CLOSED \<Longrightarrow> rsp_finish (pi_m s) (pi_h s) 100 = Some (m, h) \<Longrightarrow>
    pstep s (s\<lparr>pi_rs := RsLoop, pi_m := m, pi_h := h\<rparr>)"
| rs_finish: "at_rs s RsBusy \<Longrightarrow> lq_first (hc_list (pi_h s)) = Some (server, p) \<Longrightarrow> conn_get (pi_m s) server = Some c \<Longrightarrow>
    c_stat c = CONN_CLOSED \<or> ret \<noteq> 100 \<Longrightarrow> rsp_finish (pi_m s) (pi_h s) ret = Some (m, h) \<Longrightarrow>
    pstep s (s\<lparr>pi_rs := RsLoop, pi_m := m, pi_h := h, pi_ans := pi_ans s @ [p]\<rparr>)"
| rs_exit: "at_rs s RsExit \<Longrightarrow> rsp_exit (pi_m s) (pi_h s) = Some (m, h) \<Longrightarrow>
    pstep s (s\<lparr>pi_rs := RsDone, pi_cur := Main, pi_m := m, pi_h := h\<rparr>)"

text \<open>The state in which \<^verbatim>\<open>conn_accept_handler\<close> has run both coroutines to their first yield.\<close>

definition pipe_start :: "mach \<Rightarrow> addr \<Rightarrow> addr \<Rightarrow> addr \<Rightarrow> net_req rheap \<Rightarrow> dns_cache_table
    \<Rightarrow> (conn_endpoint \<times> string \<times> string \<times> int) list \<Rightarrow> pipe option" where
  "pipe_start m client cx1 cx2 reqs dns lg =
     Option.bind (req_start m client reqs dns lg) (\<lambda>(m1, h1).
     Option.bind (rsp_start (event_set_handler m1 (ev_notice_req h1) ConnEvent cx1) h1) (\<lambda>(m2, h2).
       Some \<lparr>pi_m = event_set_handler m2 (ev_notice_rsp h2) ConnEvent cx2, pi_h = h2,
             pi_rq = RqWaitStart, pi_rs = RsWaitStart, pi_cur = Main, rq_cx = cx1, rs_cx = cx2, pi_enq = [], pi_ans = []\<rparr>))"

inductive reachable :: "pipe \<Rightarrow> bool" where
  start: "pipe_start m client cx1 cx2 reqs dns lg = Some s \<Longrightarrow> cx1 \<noteq> cx2 \<Longrightarrow> uniq_table (ev_handlers m) \<Longrightarrow>
    lq_holds (ev_queue m) evs \<Longrightarrow> \<forall>e \<in> fst ` set evs. e \<noteq> id_max m \<and> e \<noteq> id_max m + 1 \<Longrightarrow>
    \<forall>e cx. ev_handler_of m e = Some (ConnEvent, cx) \<longrightarrow> cx \<noteq> cx1 \<and> cx \<noteq> cx2 \<Longrightarrow> rheap_inv reqs \<Longrightarrow> reachable s"
| step: "reachable s \<Longrightarrow> pstep s t \<Longrightarrow> reachable t"

subsection \<open>Frames\<close>

text \<open>What the coroutines share besides connections and requests: identifiers and flags of the
  context, queue and registrations of the event module.\<close>

definition ctl :: "net_handle_cxt \<Rightarrow> addr \<times> event_id \<times> event_id \<times> bool \<times> bool \<times> bool" where
  "ctl h = (hc_client h, ev_notice_req h, ev_notice_rsp h, req_blocked h, rsp_blocked h, rsp_will_exited h)"

definition evc :: "mach \<Rightarrow> (event_id \<times> addr) lqueue \<times> (ev_handler \<times> addr) UT_hash_table" where
  "evc m = (ev_queue m, ev_handlers m)"

lemma evc_conns [simp]: "evc (m\<lparr>conns := x\<rparr>) = evc m"
  by (simp add: evc_def)

lemma evc_drop_fd [simp]: "evc (drop_fd m fd) = evc m"
  by (simp add: evc_def drop_fd_def k_close_def net_pull_del_def epoll_ctl_del_def split: option.splits)

lemma conn_decref_evc: "conn_decref m p = Some m' \<Longrightarrow> evc m' = evc m"
  by (auto simp: conn_decref_def mem_decref_def conn_done_def split: option.splits if_splits)

lemma conn_incref_evc: "conn_incref m p = Some m' \<Longrightarrow> evc m' = evc m"
  by (auto simp: conn_incref_def)

lemma conn_upd_evc: "conn_upd m p f = Some m' \<Longrightarrow> evc m' = evc m"
  by (auto dest: conn_upd_frame)

lemma conn_close_evc: "conn_close m p = Some m' \<Longrightarrow> evc m' = evc m"
  by (auto simp: conn_close_def bind_eq_Some_conv split: if_splits dest!: conn_upd_evc)

lemma req_decref_frame:
  "req_decref h p = Some h' \<Longrightarrow> \<exists>rs r u. h' = h\<lparr>hc_reqs := rs\<rparr> \<and> mem_decref (hc_reqs h) p (\<lambda>_ s. s) () = Some (r, rs, u)"
  by (auto simp: req_decref_def mem_decref_def split: option.splits if_splits)

lemma req_decref_ctl: "req_decref h p = Some h' \<Longrightarrow> ctl h' = ctl h \<and> hc_list h' = hc_list h"
  by (auto dest!: req_decref_frame simp: ctl_def)

lemma enqueue_req_frame:
  "enqueue_req m h server p = Some (m', h') \<Longrightarrow> evc m' = evc m \<and> ctl h' = ctl h \<and>
    list_append (hc_list h) (server, p) = Some (hc_list h') \<and> mem_incref (hc_reqs h) p = Some (hc_reqs h')"
  by (auto simp: enqueue_req_def bind_eq_Some_conv ctl_def dest: conn_incref_evc)

lemma event_post_frame:
  "event_post m e d = Some m' \<Longrightarrow> lq_enq (ev_queue m) (e, d) = Some (ev_queue m') \<and> ev_handlers m' = ev_handlers m"
  by (auto simp: event_post_def)

lemma rsp_finish_frame:
  assumes "rsp_finish m h ret = Some (m', h')"
  shows "evc m' = evc m \<and> ctl h' = ctl h"
  using assms by (auto simp: rsp_finish_def Let_def bind_eq_Some_conv split: option.splits prod.splits if_splits
      dest!: conn_decref_evc req_decref_ctl) (auto simp: ctl_def)

lemma close_pool_evc: "close_pool es m = Some m' \<Longrightarrow> evc m' = evc m"
  by (induction es m rule: close_pool.induct) (fastforce simp: bind_eq_Some_conv dest: conn_close_evc conn_decref_evc)+

lemma drop_list_frame: "drop_list m h = Some r \<Longrightarrow> evc (fst r) = evc m \<and> ctl (snd r) = ctl h"
proof (rule drop_list.raw_induct [where P = "\<lambda>m h r. evc (fst r) = evc m \<and> ctl (snd r) = ctl h"])
  fix f :: "mach \<Rightarrow> net_handle_cxt \<Rightarrow> (mach \<times> net_handle_cxt) option" and m h r
  assume IH: "\<And>m h r. f m h = Some r \<Longrightarrow> evc (fst r) = evc m \<and> ctl (snd r) = ctl h"
    and r: "(case lq_head (hc_list h) of None \<Rightarrow> Some (m, h)
      | Some a \<Rightarrow> (case lq_first (hc_list h) of None \<Rightarrow> None
         | Some (server, p) \<Rightarrow> Option.bind (conn_decref m server) (\<lambda>m1. Option.bind (req_decref h p) (\<lambda>h1.
             Option.bind (lq_unlink (hc_list h1)) (\<lambda>q. f m1 (h1\<lparr>hc_list := q\<rparr>)))))) = Some r"
  have q: "ctl (h\<lparr>hc_list := x\<rparr>) = ctl h" for h x by (simp add: ctl_def)
  show "evc (fst r) = evc m \<and> ctl (snd r) = ctl h"
    using r by (fastforce simp: bind_eq_Some_conv q split: option.splits prod.splits
        dest: IH conn_decref_evc req_decref_ctl)
qed

lemma req_cleanup_frame:
  assumes "req_cleanup m h = Some (m', h')"
  shows "ctl h' = ctl h \<and> ev_queue m' = ev_queue m \<and> ev_handlers m' = hash_remove (ev_handlers m) (le32 (ev_notice_req h))"
proof -
  from assms obtain m1 m2 where 1: "evc m1 = evc m" "evc m2 = evc m1" "ctl h' = ctl (h\<lparr>hc_pool := HASH_CLEAR (hc_pool h)\<rparr>)"
    "evc m' = evc (event_free_id m2 (ev_notice_req h'))"
    by (auto simp: req_cleanup_def bind_eq_Some_conv dest!: close_pool_evc drop_list_frame conn_decref_evc)
  then show ?thesis by (simp add: evc_def event_free_id_def ctl_def)
qed

lemma rsp_exit_frame:
  assumes "rsp_exit m h = Some (m', h')"
  shows "ctl h' = ctl h \<and> ev_handlers m' = hash_remove (ev_handlers m) (le32 (ev_notice_rsp h)) \<and>
    (if req_blocked h then lq_enq (ev_queue m) (ev_notice_req h, 0) = Some (ev_queue m') else ev_queue m' = ev_queue m)"
  using assms by (auto simp: rsp_exit_def Let_def bind_eq_Some_conv ctl_def evc_def event_free_id_def
      dest!: conn_decref_evc event_post_frame split: if_splits)

lemma env_steps_evc [simp]: "evc (env_steps w m) = evc m"
proof (induction w arbitrary: m)
  case (Cons a w)
  have "evc (env_step a m) = evc m"
    by (auto simp: env_step_def conn_err_handler_def evc_def dest!: conn_upd_frame split: env_act.splits option.splits)
  with Cons show ?case by (simp add: env_steps_def)
qed (simp add: env_steps_def)

lemma net_pull_evc [simp]:
  "evc (snd (net_pull_add m fd c)) = evc m" "evc (snd (net_pull_set_handler m fd fl c)) = evc m"
  "evc (snd (net_pull_del m fd)) = evc m"
  by (auto simp: evc_def net_pull_add_def net_pull_set_handler_def net_pull_del_def epoll_ctl_add_def epoll_ctl_del_def
      Let_def split: option.splits)

lemma conn_get_by_endpoint_evc:
  assumes "conn_get_by_endpoint a b r m ep = Some (res, m')"
  shows "evc m' = evc m"
proof -
  have g: "conn_addrpool_try_get_and_del m ep = Some (got, m1) \<Longrightarrow> evc m1 = evc m" for got m1
    by (auto simp: conn_addrpool_try_get_and_del_def evc_def dest!: conn_upd_frame split: option.splits list.splits)
  have k: "evc (k_close m fd) = evc m" "evc (k_socket m fd) = evc m" for m fd
    by (simp_all add: evc_def k_close_def k_socket_def)
  have al: "conn_alloc m c = (p, m1) \<Longrightarrow> evc m1 = evc m" for m c p m1
    by (auto simp: conn_alloc_def evc_def split: prod.splits)
  have dec: "mem_decref hp p (\<lambda>_ s. s) m2 = Some (x, y, m3) \<Longrightarrow> evc m3 = evc m2" for hp :: "conn rheap" and p m2 x y m3
    by (auto simp: mem_decref_def split: option.splits if_splits)
  obtain got m1 where g1: "conn_addrpool_try_get_and_del m ep = Some (got, m1)"
    using assms by (auto simp: conn_get_by_endpoint_def bind_eq_Some_conv)
  note e1 = g [OF g1]
  show ?thesis
  proof (cases got)
    case (Some p)
    with assms g1 e1 show ?thesis
      by (auto simp: conn_get_by_endpoint_def bind_eq_Some_conv dest!: conn_upd_evc)
  next
    case None
    obtain p m2 where m2: "conn_alloc (k_socket m1 (the a)) conn_blank = (p, m2)" by fastforce
    have e2: "evc m2 = evc m" using al [OF m2] e1 k by simp
    show ?thesis
      using assms g1 None m2 e1 e2 k
      by (cases a; cases r) (auto simp: conn_get_by_endpoint_def Let_def split: if_splits dest!: conn_upd_evc dec)
  qed
qed

lemma connect_loop_evc: "connect_loop m pool port as = Some (r, m', pool') \<Longrightarrow> evc m' = evc m"
proof (induction m pool port as rule: connect_loop.induct)
  case (2 m pool port a sys r')
  have cn: "connect_new m pool ep sys = Some (x, m1, p1) \<Longrightarrow> evc m1 = evc m" for m pool ep sys x m1 p1
    by (fastforce simp: connect_new_def bind_eq_Some_conv split: option.splits if_splits
        dest: conn_get_by_endpoint_evc conn_decref_evc conn_incref_evc)
  show ?case using "2.prems"
    by (fastforce simp: Let_def bind_eq_Some_conv split: if_splits option.splits prod.splits
        dest: cn conn_decref_evc conn_incref_evc "2.IH")
qed simp

lemma connect_frame:
  assumes "net_connect_to_server m dns pool host port gai sys = Some (srv, m', dns', pool')" "uniq_table (ev_handlers m)"
  shows "ev_queue m' = ev_queue m \<and> uniq_table (ev_handlers m') \<and>
    (\<forall>e. e \<noteq> id_max m \<longrightarrow> ev_handler_of m' e = ev_handler_of m e)"
proof -
  have lk: "net_dns_lookup_a m dns host gai = Some (r, l, m1, d1) \<Longrightarrow>
      evc m1 = evc m \<or> evc m1 = (ev_queue m, hash_remove (ev_handlers m) (le32 (id_max m)))" for r l m1 d1
  proof -
    have f: "evc (event_free_id m e) = (ev_queue m, hash_remove (ev_handlers m) (le32 e))" for m e
      by (simp add: evc_def event_free_id_def)
    have w: "ev_queue (env_steps w m) = ev_queue m" "ev_handlers (env_steps w m) = ev_handlers m" for w m
      using env_steps_evc [of w m] by (simp_all add: evc_def)
    show "net_dns_lookup_a m dns host gai = Some (r, l, m1, d1) \<Longrightarrow>
      evc m1 = evc m \<or> evc m1 = (ev_queue m, hash_remove (ev_handlers m) (le32 (id_max m)))"
      by (auto simp: net_dns_lookup_a_def event_get_id_def Let_def f w split: option.splits gai_res.splits if_splits)
  qed
  from assms(1) obtain r l m1 d1 where 1: "net_dns_lookup_a m dns host gai = Some (r, l, m1, d1)" "evc m' = evc m1"
    by (auto simp: net_connect_to_server_def bind_eq_Some_conv Let_def split: if_splits dest!: connect_loop_evc)
  from lk [OF 1(1)] 1(2) assms(2) show ?thesis
    by (auto simp: evc_def ev_handler_of_def hash_simps le32_inj)
qed

subsection \<open>The invariant of the control state\<close>

definition evs_of :: "event_id \<Rightarrow> (event_id \<times> addr) list \<Rightarrow> addr list" where
  "evs_of e evs = map snd (filter (\<lambda>x. fst x = e) evs)"

lemma evs_of_simps [simp]:
  "evs_of e [] = []" "evs_of e (evs @ evs') = evs_of e evs @ evs_of e evs'"
  "evs_of e (x # evs) = (if fst x = e then snd x # evs_of e evs else evs_of e evs)"
  by (simp_all add: evs_of_def)

lemma evs_of_filter: "filter (\<lambda>x. fst x = e1 \<or> fst x = e2) evs = l \<Longrightarrow> evs_of e1 evs = evs_of e1 l"
  by (induction evs arbitrary: l) (auto split: if_splits)

text \<open>
  \<open>pcs_ok\<close>: where the coroutines can stand, given the pending events of the two identifiers. The
  notice of the request coroutine is pending only at the very start, and after the response
  coroutine has finished.
\<close>

definition pcs_ok :: "event_id \<Rightarrow> event_id \<Rightarrow> rq_pc \<Rightarrow> rs_pc \<Rightarrow> who \<Rightarrow> bool \<Rightarrow> (event_id \<times> addr) list \<Rightarrow> bool" where
  "pcs_ok e1 e2 rq rs cur blocked evs \<longleftrightarrow>
     (blocked \<longleftrightarrow> rq = RqWaitStart \<or> rq = RqWaitExit) \<and>
     (rq = RqWaitStart \<longrightarrow> rs = RsWaitStart \<and> cur = Main \<and> filter (\<lambda>x. fst x = e1 \<or> fst x = e2) evs = [(e1, 1), (e2, 1)]) \<and>
     (rq \<noteq> RqWaitStart \<longrightarrow> evs_of e1 evs = [] \<or> evs_of e1 evs = [0] \<and> rq = RqWaitExit \<and> rs = RsDone) \<and>
     (rq = RqCleanup \<or> rq = RqDone \<longrightarrow> rs = RsDone) \<and>
     (cur = Rq \<longrightarrow> rq \<noteq> RqWaitStart \<and> rq \<noteq> RqWaitExit \<and> rq \<noteq> RqDone) \<and>
     (cur = Rs \<longrightarrow> rs \<noteq> RsWaitStart \<and> rs \<noteq> RsWaitReq \<and> rs \<noteq> RsDone)"

definition regs_ok :: "pipe \<Rightarrow> bool" where
  "regs_ok s \<longleftrightarrow> uniq_table (ev_handlers (pi_m s)) \<and>
     ev_notice_req (pi_h s) \<noteq> ev_notice_rsp (pi_h s) \<and> rq_cx s \<noteq> rs_cx s \<and> \<not> rsp_will_exited (pi_h s) \<and>
     ev_handler_of (pi_m s) (ev_notice_req (pi_h s)) = (if pi_rq s = RqDone then None else Some (ConnEvent, rq_cx s)) \<and>
     ev_handler_of (pi_m s) (ev_notice_rsp (pi_h s)) = (if pi_rs s = RsDone then None else Some (ConnEvent, rs_cx s))"

definition ctl_inv :: "pipe \<Rightarrow> bool" where
  "ctl_inv s \<longleftrightarrow> regs_ok s \<and> (\<exists>evs. lq_holds (ev_queue (pi_m s)) evs \<and>
     pcs_ok (ev_notice_req (pi_h s)) (ev_notice_rsp (pi_h s)) (pi_rq s) (pi_rs s) (pi_cur s) (req_blocked (pi_h s)) evs)"

text \<open>How the invariant passes from \<open>s\<close> to \<open>t\<close>: the queue grows by \<open>new\<close>, the registrations of the two
  identifiers stay, and the places agree with the longer queue.\<close>

lemma ctl_inv_trans:
  assumes inv: "ctl_inv s" and q: "\<And>evs. lq_holds (ev_queue (pi_m s)) evs \<Longrightarrow> lq_holds (ev_queue (pi_m t)) (evs @ new)"
    and h: "uniq_table (ev_handlers (pi_m t))" "\<And>e. e = ev_notice_req (pi_h s) \<or> e = ev_notice_rsp (pi_h s) \<Longrightarrow>
      ev_handler_of (pi_m t) e = ev_handler_of (pi_m s) e"
    and c: "ev_notice_req (pi_h t) = ev_notice_req (pi_h s)" "ev_notice_rsp (pi_h t) = ev_notice_rsp (pi_h s)"
      "rsp_will_exited (pi_h t) = rsp_will_exited (pi_h s)" "rq_cx t = rq_cx s" "rs_cx t = rs_cx s"
    and d: "(pi_rq t = RqDone) = (pi_rq s = RqDone)" "(pi_rs t = RsDone) = (pi_rs s = RsDone)"
    and p: "\<And>evs. ev_notice_req (pi_h s) \<noteq> ev_notice_rsp (pi_h s) \<Longrightarrow>
      pcs_ok (ev_notice_req (pi_h s)) (ev_notice_rsp (pi_h s)) (pi_rq s) (pi_rs s) (pi_cur s) (req_blocked (pi_h s)) evs \<Longrightarrow>
      pcs_ok (ev_notice_req (pi_h s)) (ev_notice_rsp (pi_h s)) (pi_rq t) (pi_rs t) (pi_cur t) (req_blocked (pi_h t)) (evs @ new)"
  shows "ctl_inv t"
proof -
  from inv obtain evs where evs: "regs_ok s" "lq_holds (ev_queue (pi_m s)) evs"
    "pcs_ok (ev_notice_req (pi_h s)) (ev_notice_rsp (pi_h s)) (pi_rq s) (pi_rs s) (pi_cur s) (req_blocked (pi_h s)) evs"
    by (auto simp: ctl_inv_def)
  from evs(1) have "regs_ok t" using h c d by (simp add: regs_ok_def)
  moreover have "pcs_ok (ev_notice_req (pi_h t)) (ev_notice_rsp (pi_h t)) (pi_rq t) (pi_rs t) (pi_cur t) (req_blocked (pi_h t)) (evs @ new)"
    using p [OF _ evs(3)] evs(1) c by (simp add: regs_ok_def)
  ultimately show ?thesis using q [OF evs(2)] by (auto simp: ctl_inv_def)
qed

lemma ctl_inv_frame:
  assumes "ctl_inv s" "evc (pi_m t) = evc (pi_m s)" "ctl (pi_h t) = ctl (pi_h s)" "rq_cx t = rq_cx s" "rs_cx t = rs_cx s"
    "(pi_rq t = RqDone) = (pi_rq s = RqDone)" "(pi_rs t = RsDone) = (pi_rs s = RsDone)"
    "\<And>e1 e2 b evs. pcs_ok e1 e2 (pi_rq s) (pi_rs s) (pi_cur s) b evs \<Longrightarrow> pcs_ok e1 e2 (pi_rq t) (pi_rs t) (pi_cur t) b evs"
  shows "ctl_inv t"
  by (rule ctl_inv_trans [where new = "[]", OF assms(1)])
    (use assms in \<open>auto simp: ctl_inv_def regs_ok_def evc_def ctl_def ev_handler_of_def\<close>)

lemma lq_enq_grows: "lq_enq q x = Some q' \<Longrightarrow> lq_holds q evs \<Longrightarrow> lq_holds q' (evs @ [x])"
  using lq.enq_holds [of q evs x] by auto

lemma ctl_inv_deq:
  assumes "ctl_inv s" "lq_first (ev_queue (pi_m s)) = Some (e, d)" "lq_deq (ev_queue (pi_m s)) = Some q"
  shows "\<exists>evs. lq_holds (ev_queue (pi_m s)) ((e, d) # evs) \<and> lq_holds q evs \<and>
    pcs_ok (ev_notice_req (pi_h s)) (ev_notice_rsp (pi_h s)) (pi_rq s) (pi_rs s) (pi_cur s) (req_blocked (pi_h s)) ((e, d) # evs)"
proof -
  from assms(1) obtain evs0 where 0: "lq_holds (ev_queue (pi_m s)) evs0"
    "pcs_ok (ev_notice_req (pi_h s)) (ev_notice_rsp (pi_h s)) (pi_rq s) (pi_rs s) (pi_cur s) (req_blocked (pi_h s)) evs0"
    by (auto simp: ctl_inv_def)
  have "evs0 \<noteq> []" using lq.peek_empty [of "ev_queue (pi_m s)"] 0(1) assms(2) by auto
  then obtain x evs where e: "evs0 = x # evs" by (cases evs0) auto
  with lq.peek_holds [of "ev_queue (pi_m s)" x evs] lq.deq_holds [of "ev_queue (pi_m s)" x evs] 0 assms(2,3)
  show ?thesis by auto
qed

text \<open>The dispatch of an event.\<close>

lemma ctl_inv_event:
  assumes inv: "ctl_inv s" and cur: "pi_cur s = Main"
    and q: "lq_first (ev_queue (pi_m s)) = Some (e, d)" "lq_deq (ev_queue (pi_m s)) = Some q"
    and h: "ev_handler_of (pi_m s) e = Some (ConnEvent, cx)"
    and own: "e = ev_notice_req (pi_h s) \<or> e = ev_notice_rsp (pi_h s) \<or> cx \<noteq> rq_cx s \<and> cx \<noteq> rs_cx s"
  shows "ctl_inv (dispatch (s\<lparr>pi_m := (pi_m s)\<lparr>ev_queue := q\<rparr>\<rparr>) cx d)"
proof -
  let ?e1 = "ev_notice_req (pi_h s)" and ?e2 = "ev_notice_rsp (pi_h s)"
  from ctl_inv_deq [OF inv q] obtain evs where evs: "lq_holds q evs"
    "pcs_ok ?e1 ?e2 (pi_rq s) (pi_rs s) (pi_cur s) (req_blocked (pi_h s)) ((e, d) # evs)" by blast
  have r: "regs_ok s" using inv by (simp add: ctl_inv_def)
  have r': "regs_ok (s\<lparr>pi_m := (pi_m s)\<lparr>ev_queue := q\<rparr>\<rparr>)" using r by (simp add: regs_ok_def ev_handler_of_def)
  consider (rq) "e = ?e1" "cx = rq_cx s" "pi_rq s \<noteq> RqDone" | (rs) "e = ?e2" "cx = rs_cx s" "e \<noteq> ?e1" "pi_rs s \<noteq> RsDone"
    | (other) "e \<noteq> ?e1" "e \<noteq> ?e2" "cx \<noteq> rq_cx s" "cx \<noteq> rs_cx s"
    using own h r by (cases "e = ?e1"; cases "e = ?e2") (auto simp: regs_ok_def split: if_splits)
  then show ?thesis
  proof cases
    case other
    then have "dispatch (s\<lparr>pi_m := (pi_m s)\<lparr>ev_queue := q\<rparr>\<rparr>) cx d = s\<lparr>pi_m := (pi_m s)\<lparr>ev_queue := q\<rparr>\<rparr>"
      by (simp add: dispatch_def)
    with r' evs other show ?thesis by (auto simp: ctl_inv_def pcs_ok_def)
  next
    case rq
    have "pi_rq s = RqWaitStart \<Longrightarrow> evs_of ?e1 evs = []"
      using evs(2) rq r evs_of_filter [of ?e1 ?e2 evs "[(?e2, 1)]"] by (auto simp: pcs_ok_def regs_ok_def)
    with rq show ?thesis using r' evs cur
      by (cases "pi_rq s") (auto simp: ctl_inv_def dispatch_def resume_rq_def regs_ok_def pcs_ok_def ev_handler_of_def
          split: if_splits)
  next
    case rs
    then show ?thesis using r' evs cur r
      by (cases "pi_rs s") (auto simp: ctl_inv_def dispatch_def resume_rs_def regs_ok_def pcs_ok_def ev_handler_of_def
          split: if_splits)
  qed
qed

lemma pcs_ok_move:
  "pcs_ok e1 e2 rq rs cur b evs \<Longrightarrow> rq_io rq \<or> rq = RqLoop \<or> rq = RqExit \<Longrightarrow> rq_io rq' \<or> rq' = RqLoop \<or> rq' = RqExit \<Longrightarrow>
   pcs_ok e1 e2 rq' rs cur b evs"
  "pcs_ok e1 e2 rq rs cur b evs \<Longrightarrow> rs = RsBusy \<or> rs = RsLoop \<or> rs = RsExit \<Longrightarrow> rs' = RsBusy \<or> rs' = RsLoop \<or> rs' = RsExit \<Longrightarrow>
   pcs_ok e1 e2 rq rs' cur b evs"
  by (auto simp: pcs_ok_def rq_io_def)

lemma rq_io_simps [simp]:
  "rq_io RqFetch" "rq_io (RqReady p)" "rq_io (RqHead server p)" "rq_io (RqSend server p)" "\<not> rq_io RqWaitStart"
  "\<not> rq_io RqLoop" "\<not> rq_io RqExit" "\<not> rq_io RqWaitExit" "\<not> rq_io RqCleanup" "\<not> rq_io RqDone"
  by (auto simp: rq_io_def)

lemma ctl_hc [simp]:
  "ctl (h\<lparr>hc_reqs := a\<rparr>) = ctl h" "ctl (h\<lparr>hc_dns := b, hc_pool := c\<rparr>) = ctl h" "ctl (log_http_req h ep host path len) = ctl h"
  by (simp_all add: ctl_def log_http_req_def)

lemma enqueue_notify_frame:
  assumes "enqueue_notify tunnel m h server p = Some (m', h')"
  shows "ctl h' = ctl h \<and> ev_handlers m' = ev_handlers m \<and> list_append (hc_list h) (server, p) = Some (hc_list h') \<and>
    mem_incref (hc_reqs h) p = Some (hc_reqs h') \<and>
    (evc m' = evc m \<or> lq_enq (ev_queue m) (ev_notice_rsp h, 1) = Some (ev_queue m'))"
proof -
  from assms obtain m1 where 1: "enqueue_req m h server p = Some (m1, h')"
    "(if tunnel then event_post m1 (ev_notice_rsp h') 1 else notify_rsp m1 h') = Some m'"
    by (auto simp: enqueue_notify_def bind_eq_Some_conv)
  from 1(2) have "(m' = m1 \<or> lq_enq (ev_queue m1) (ev_notice_rsp h', 1) = Some (ev_queue m')) \<and> ev_handlers m' = ev_handlers m1"
    by (auto simp: notify_rsp_def dest!: event_post_frame split: if_splits)
  with enqueue_req_frame [OF 1(1)] show ?thesis by (auto simp: evc_def ctl_def)
qed

lemma ctl_inv_set_handler:
  assumes "regs_ok s" "e = ev_notice_req (pi_h s) \<and> cx = rq_cx s \<and> pi_rq s \<noteq> RqDone \<or>
      e = ev_notice_rsp (pi_h s) \<and> cx = rs_cx s \<and> pi_rs s \<noteq> RsDone" "uniq_table (ev_handlers m)"
    "\<And>e'. e' = ev_notice_req (pi_h s) \<or> e' = ev_notice_rsp (pi_h s) \<Longrightarrow> ev_handler_of m e' = ev_handler_of (pi_m s) e'"
  shows "uniq_table (ev_handlers (event_set_handler m e ConnEvent cx)) \<and>
    (\<forall>e'. e' = ev_notice_req (pi_h s) \<or> e' = ev_notice_rsp (pi_h s) \<longrightarrow>
      ev_handler_of (event_set_handler m e ConnEvent cx) e' = ev_handler_of (pi_m s) e')"
proof -
  have "uniq_table (ev_handlers (event_set_handler m e ConnEvent cx))"
    using assms(3) by (simp add: event_set_handler_def hash_simps)
  with assms show ?thesis by (auto simp: handler_after_set regs_ok_def)
qed

lemma ctl_inv_step_rq_exit:
  assumes inv: "ctl_inv s" and at: "at_rq s RqExit" and x: "req_exit (pi_m s) (pi_h s) = Some (True, m, h)"
  shows "ctl_inv (s\<lparr>pi_rq := RqWaitExit, pi_cur := Main, pi_m := event_set_handler m (ev_notice_req h) ConnEvent (rq_cx s), pi_h := h\<rparr>)"
proof -
  have r: "regs_ok s" using inv by (simp add: ctl_inv_def)
  from x have h: "ctl h = ctl ((pi_h s)\<lparr>req_blocked := True\<rparr>)" and q: "lq_enq (ev_queue (pi_m s)) (ev_notice_rsp (pi_h s), 0) = Some (ev_queue m)"
    and e: "ev_handlers m = ev_handlers (pi_m s)"
    by (auto simp: req_exit_def Let_def ctl_def split: if_splits dest!: event_post_frame)
  have "pi_rq s \<noteq> RqDone" using at by auto
  with r have s: "uniq_table (ev_handlers (event_set_handler m (ev_notice_req h) ConnEvent (rq_cx s)))"
    "\<And>e'. e' = ev_notice_req (pi_h s) \<or> e' = ev_notice_rsp (pi_h s) \<Longrightarrow>
      ev_handler_of (event_set_handler m (ev_notice_req h) ConnEvent (rq_cx s)) e' = ev_handler_of (pi_m s) e'"
    using ctl_inv_set_handler [OF r, of "ev_notice_req h" "rq_cx s" m] e h by (auto simp: regs_ok_def ev_handler_of_def ctl_def)
  show ?thesis
    by (rule ctl_inv_trans [where new = "[(ev_notice_rsp (pi_h s), 0)]", OF inv])
      (use lq_enq_grows [OF q] s h at in \<open>auto simp: ctl_def pcs_ok_def event_set_handler_def\<close>)
qed

lemma ctl_inv_step_rs_wait:
  assumes inv: "ctl_inv s" and at: "at_rs s RsLoop"
  shows "ctl_inv (s\<lparr>pi_rs := RsWaitReq, pi_cur := Main, pi_h := (pi_h s)\<lparr>rsp_blocked := True\<rparr>,
    pi_m := event_set_handler (pi_m s) (ev_notice_rsp (pi_h s)) ConnEvent (rs_cx s)\<rparr>)"
proof -
  have r: "regs_ok s" "pi_rs s \<noteq> RsDone" using inv at by (auto simp: ctl_inv_def)
  note s = ctl_inv_set_handler [OF r(1), of "ev_notice_rsp (pi_h s)" "rs_cx s" "pi_m s"]
  show ?thesis
    by (rule ctl_inv_trans [where new = "[]", OF inv])
      (use s r at in \<open>auto simp: regs_ok_def pcs_ok_def event_set_handler_def\<close>)
qed

lemma ctl_inv_step_rs_exit:
  assumes inv: "ctl_inv s" and at: "at_rs s RsExit" and x: "rsp_exit (pi_m s) (pi_h s) = Some (m, h)"
  shows "ctl_inv (s\<lparr>pi_rs := RsDone, pi_cur := Main, pi_m := m, pi_h := h\<rparr>)"
proof -
  from rsp_exit_frame [OF x] have f: "ctl h = ctl (pi_h s)" "ev_handlers m = hash_remove (ev_handlers (pi_m s)) (le32 (ev_notice_rsp (pi_h s)))"
    "if req_blocked (pi_h s) then lq_enq (ev_queue (pi_m s)) (ev_notice_req (pi_h s), 0) = Some (ev_queue m) else ev_queue m = ev_queue (pi_m s)"
    by auto
  from inv obtain evs where evs: "regs_ok s" "lq_holds (ev_queue (pi_m s)) evs"
    "pcs_ok (ev_notice_req (pi_h s)) (ev_notice_rsp (pi_h s)) (pi_rq s) RsExit Rs (req_blocked (pi_h s)) evs"
    using at by (auto simp: ctl_inv_def)
  let ?new = "if req_blocked (pi_h s) then [(ev_notice_req (pi_h s), 0)] else []"
  have "lq_holds (ev_queue m) (evs @ ?new)" using f(3) evs(2) by (auto dest: lq_enq_grows split: if_splits)
  moreover have "pcs_ok (ev_notice_req h) (ev_notice_rsp h) (pi_rq s) RsDone Main (req_blocked h) (evs @ ?new)"
    using evs(3) f(1) by (auto simp: pcs_ok_def ctl_def)
  moreover have "regs_ok (s\<lparr>pi_rs := RsDone, pi_cur := Main, pi_m := m, pi_h := h\<rparr>)"
    using evs(1) f(1,2) by (auto simp: regs_ok_def ctl_def ev_handler_of_def hash_simps le32_inj)
  ultimately show ?thesis by (auto simp: ctl_inv_def)
qed

lemma ctl_inv_step_rq_cleanup:
  assumes inv: "ctl_inv s" and at: "at_rq s RqCleanup" and x: "req_cleanup (pi_m s) (pi_h s) = Some (m, h)"
  shows "ctl_inv (s\<lparr>pi_rq := RqDone, pi_cur := Main, pi_m := m, pi_h := h\<rparr>)"
proof -
  from req_cleanup_frame [OF x] have f: "ctl h = ctl (pi_h s)" "ev_queue m = ev_queue (pi_m s)"
    "ev_handlers m = hash_remove (ev_handlers (pi_m s)) (le32 (ev_notice_req (pi_h s)))" by auto
  from inv obtain evs where evs: "regs_ok s" "lq_holds (ev_queue (pi_m s)) evs"
    "pcs_ok (ev_notice_req (pi_h s)) (ev_notice_rsp (pi_h s)) RqCleanup (pi_rs s) Rq (req_blocked (pi_h s)) evs"
    using at by (auto simp: ctl_inv_def)
  have "pcs_ok (ev_notice_req h) (ev_notice_rsp h) RqDone (pi_rs s) Main (req_blocked h) evs"
    using evs(3) f(1) by (auto simp: pcs_ok_def ctl_def)
  moreover have "regs_ok (s\<lparr>pi_rq := RqDone, pi_cur := Main, pi_m := m, pi_h := h\<rparr>)"
    using evs(1) f(1,3) by (auto simp: regs_ok_def ctl_def ev_handler_of_def hash_simps le32_inj)
  ultimately show ?thesis using evs(2) f(2) by (auto simp: ctl_inv_def)
qed

lemma conn_decref_ev: "conn_decref m p = Some m' \<Longrightarrow> ev_queue m' = ev_queue m \<and> ev_handlers m' = ev_handlers m"
  using conn_decref_evc by (auto simp: evc_def)

lemma ctl_inv_step_post:
  assumes inv: "ctl_inv s" and p: "lq_enq (ev_queue (pi_m s)) (e, d) = Some (ev_queue (pi_m t))"
      "ev_handlers (pi_m t) = ev_handlers (pi_m s)" "ctl (pi_h t) = ctl (pi_h s)" "rq_cx t = rq_cx s" "rs_cx t = rs_cx s"
    and d: "(pi_rq t = RqDone) = (pi_rq s = RqDone)" "(pi_rs t = RsDone) = (pi_rs s = RsDone)"
    and o: "\<And>evs. ev_notice_req (pi_h s) \<noteq> ev_notice_rsp (pi_h s) \<Longrightarrow>
      pcs_ok (ev_notice_req (pi_h s)) (ev_notice_rsp (pi_h s)) (pi_rq s) (pi_rs s) (pi_cur s) (req_blocked (pi_h s)) evs \<Longrightarrow>
      pcs_ok (ev_notice_req (pi_h s)) (ev_notice_rsp (pi_h s)) (pi_rq t) (pi_rs t) (pi_cur t) (req_blocked (pi_h s)) (evs @ [(e, d)])"
  shows "ctl_inv t"
  by (rule ctl_inv_trans [where new = "[(e, d)]", OF inv])
    (use assms lq_enq_grows [OF p(1)] in \<open>auto simp: ctl_inv_def regs_ok_def ctl_def ev_handler_of_def\<close>)

lemma ctl_inv_unhandled:
  assumes inv: "ctl_inv s" and q: "lq_first (ev_queue (pi_m s)) = Some (e, d)" "lq_deq (ev_queue (pi_m s)) = Some q"
    and n: "ev_handler_of (pi_m s) e = None"
  shows "ctl_inv (s\<lparr>pi_m := (pi_m s)\<lparr>ev_queue := q\<rparr>\<rparr>)"
proof -
  obtain evs where evs: "lq_holds q evs"
    "pcs_ok (ev_notice_req (pi_h s)) (ev_notice_rsp (pi_h s)) (pi_rq s) (pi_rs s) (pi_cur s) (req_blocked (pi_h s)) ((e, d) # evs)"
    using ctl_inv_deq [OF inv q] by blast
  have r: "regs_ok s" using inv by (simp add: ctl_inv_def)
  have "pcs_ok (ev_notice_req (pi_h s)) (ev_notice_rsp (pi_h s)) (pi_rq s) (pi_rs s) (pi_cur s) (req_blocked (pi_h s)) evs"
    using evs(2) r n by (auto simp: pcs_ok_def regs_ok_def split: if_splits)
  with evs(1) r show ?thesis by (auto simp: ctl_inv_def regs_ok_def ev_handler_of_def)
qed

lemma ctl_inv_step: "pstep s t \<Longrightarrow> ctl_inv s \<Longrightarrow> ctl_inv t"
proof (induction rule: pstep.induct)
  case (io s m)
  show ?case by (rule ctl_inv_trans [where new = "[]", OF io.prems]) (use io.hyps in \<open>auto simp: io_effect_def\<close>)
next
  case (foreign_post e s d m)
  show ?case by (rule ctl_inv_step_post [OF foreign_post.prems, where e = e and d = d])
      (use foreign_post.hyps event_post_frame [OF foreign_post.hyps(3)] in \<open>auto simp: pcs_ok_def\<close>)
next
  case (event s e d q cx)
  then show ?case by (intro ctl_inv_event)
next
  case (event_unhandled s e d q)
  then show ?case by (intro ctl_inv_unhandled)
next
  case (rq_connect s p host port gai sys srv m dns pool)
  have u: "uniq_table (ev_handlers (pi_m s))" using rq_connect.prems by (simp add: ctl_inv_def regs_ok_def)
  show ?case by (rule ctl_inv_trans [where new = "[]", OF rq_connect.prems])
      (use rq_connect.hyps connect_frame [OF rq_connect.hyps(4) u] pcs_ok_move(1) in \<open>auto split: option.splits\<close>)
next
  case (rq_enqueue s server p tunnel m h)
  note f = enqueue_notify_frame [OF rq_enqueue.hyps(2)]
  show ?case
  proof (cases "evc m = evc (pi_m s)")
    case True
    show ?thesis by (rule ctl_inv_frame [OF rq_enqueue.prems]) (use True f rq_enqueue.hyps pcs_ok_move(1) in auto)
  next
    case False
    show ?thesis by (rule ctl_inv_step_post [OF rq_enqueue.prems, where e = "ev_notice_rsp (pi_h s)" and d = 1])
        (use False f rq_enqueue.hyps in \<open>auto simp: pcs_ok_def\<close>)
  qed
next
  case (rq_exit s m h)
  then show ?case by (intro ctl_inv_step_rq_exit)
next
  case (rq_exit_now s m h)
  then have "rsp_will_exited (pi_h s)" by (auto simp: req_exit_def Let_def split: if_splits)
  with rq_exit_now.prems show ?case by (simp add: ctl_inv_def regs_ok_def)
next
  case (rq_cleanup s m h)
  then show ?case by (intro ctl_inv_step_rq_cleanup)
next
  case (rs_wait s)
  then show ?case using ctl_inv_step_rs_wait by blast
next
  case (rs_exit s m h)
  then show ?case by (intro ctl_inv_step_rs_exit)
next
  case (rq_drop s p h)
  show ?case by (rule ctl_inv_frame [OF rq_drop.prems])
      (use rq_drop.hyps req_decref_ctl [OF rq_drop.hyps(2)] pcs_ok_move(1) in auto)
next
  case (rq_retry s server p m)
  show ?case by (rule ctl_inv_frame [OF rq_retry.prems])
      (use rq_retry.hyps conn_decref_evc [OF rq_retry.hyps(2)] pcs_ok_move(1) in auto)
next
  case (rq_sent s server p m h pc)
  show ?case by (rule ctl_inv_frame [OF rq_sent.prems])
      (use rq_sent.hyps conn_decref_evc [OF rq_sent.hyps(2)] req_decref_ctl [OF rq_sent.hyps(3)] pcs_ok_move(1) in auto)
next
  case (rs_again s server p c m h)
  show ?case by (rule ctl_inv_frame [OF rs_again.prems])
      (use rs_again.hyps rsp_finish_frame [OF rs_again.hyps(5)] pcs_ok_move(2) in auto)
next
  case (rs_finish s server p c ret m h)
  show ?case by (rule ctl_inv_frame [OF rs_finish.prems])
      (use rs_finish.hyps rsp_finish_frame [OF rs_finish.hyps(5)] pcs_ok_move(2) in auto)
qed (rule ctl_inv_frame, assumption, (auto intro: pcs_ok_move) [6], force simp: pcs_ok_def)+

lemma event_get_id_simps: "event_get_id m = (e, m') \<Longrightarrow> e = id_max m \<and> m' = m\<lparr>id_max := id_max m + 1\<rparr>"
  by (auto simp: event_get_id_def)

lemma ctl_inv_start:
  assumes st: "pipe_start m client cx1 cx2 reqs dns lg = Some s" and cx: "cx1 \<noteq> cx2" and u: "uniq_table (ev_handlers m)"
    and q: "lq_holds (ev_queue m) evs" "\<forall>e \<in> fst ` set evs. e \<noteq> id_max m \<and> e \<noteq> id_max m + 1"
  shows "ctl_inv s \<and> pi_enq s = [] \<and> pi_ans s = [] \<and> hc_list (pi_h s) = lq_empty \<and> hc_reqs (pi_h s) = reqs \<and>
    pi_rq s = RqWaitStart \<and> pi_rs s = RsWaitStart"
proof -
  obtain m1 where m1: "conn_incref m client = Some m1"
    using st by (auto simp: pipe_start_def req_start_def bind_eq_Some_conv)
  have e1: "ev_queue m1 = ev_queue m" "ev_handlers m1 = ev_handlers m" "id_max m1 = id_max m"
    using conn_incref_evc [OF m1] m1 by (auto simp: evc_def conn_incref_def)
  let ?e1 = "id_max m" and ?e2 = "id_max m + 1"
  obtain q1 where q1: "lq_enq (ev_queue m) (?e1, 1) = Some q1" "lq_holds q1 (evs @ [(?e1, 1)])"
    using lq.enq_holds [OF q(1)] by blast
  obtain q2 where q2: "lq_enq q1 (?e2, 1) = Some q2" "lq_holds q2 ((evs @ [(?e1, 1)]) @ [(?e2, 1)])"
    using lq.enq_holds [OF q1(2)] by blast
  have t: "uniq_table (hash_put (hash_put (ev_handlers m) (le32 ?e1) (ConnEvent, cx1)) (le32 ?e2) (ConnEvent, cx2))"
    using u by (simp add: hash_simps)
  have s: "ev_queue (pi_m s) = q2" "ev_notice_req (pi_h s) = ?e1" "ev_notice_rsp (pi_h s) = ?e2" "pi_rq s = RqWaitStart"
    "pi_rs s = RsWaitStart" "pi_cur s = Main" "rq_cx s = cx1" "rs_cx s = cx2" "req_blocked (pi_h s)" "\<not> rsp_will_exited (pi_h s)"
    "ev_handlers (pi_m s) = hash_put (hash_put (ev_handlers m) (le32 ?e1) (ConnEvent, cx1)) (le32 ?e2) (ConnEvent, cx2)"
    "pi_enq s = [] \<and> pi_ans s = [] \<and> hc_list (pi_h s) = lq_empty \<and> hc_reqs (pi_h s) = reqs"
    using st m1 e1 q1(1) q2(1)
    by (auto simp: pipe_start_def req_start_def rsp_start_def bind_eq_Some_conv event_get_id_def event_post_def
        event_set_handler_def Let_def conn_incref_def)
  have n: "filter (\<lambda>x. fst x = ?e1 \<or> fst x = ?e2) evs = []" using q(2) by (auto simp: filter_empty_conv)
  have "regs_ok s" using s cx u t by (simp add: regs_ok_def ev_handler_of_def hash_simps le32_inj)
  moreover have "pcs_ok ?e1 ?e2 RqWaitStart RsWaitStart Main True (evs @ [(?e1, 1), (?e2, 1)])"
    using n by (simp add: pcs_ok_def)
  ultimately show ?thesis using s q2(2) by (auto simp: ctl_inv_def)
qed

lemma reachable_ctl: "reachable s \<Longrightarrow> ctl_inv s"
  by (induction rule: reachable.induct) (auto dest: ctl_inv_step ctl_inv_start)

text \<open>The context lives on the stack of the request coroutine. It ends last.\<close>

lemma req_ends_last: "reachable s \<Longrightarrow> pi_rq s = RqDone \<Longrightarrow> pi_rs s = RsDone"
  using reachable_ctl by (auto simp: ctl_inv_def pcs_ok_def)

text \<open>The flag of the response coroutine is never set. Once it has ended without finding the request
  coroutine in a wait, the request coroutine can no longer end.\<close>

definition lost_exit :: "pipe \<Rightarrow> bool" where
  "lost_exit s \<longleftrightarrow> ctl_inv s \<and> pi_rs s = RsDone \<and> pi_rq s \<noteq> RqCleanup \<and> pi_rq s \<noteq> RqDone \<and>
     (\<exists>evs. lq_holds (ev_queue (pi_m s)) evs \<and> evs_of (ev_notice_req (pi_h s)) evs = [])"

lemma lost_exit_frame:
  assumes "lost_exit s" "ctl_inv t" "pi_rs t = RsDone" "pi_rq t \<noteq> RqCleanup" "pi_rq t \<noteq> RqDone"
    "ev_notice_req (pi_h t) = ev_notice_req (pi_h s)" "fst ` set new \<subseteq> - {ev_notice_req (pi_h s)}"
    "\<And>evs. lq_holds (ev_queue (pi_m s)) evs \<Longrightarrow> lq_holds (ev_queue (pi_m t)) (evs @ new)"
  shows "lost_exit t"
proof -
  have "evs_of (ev_notice_req (pi_h s)) new = []"
    using assms(7) by (force simp: evs_of_def filter_empty_conv)
  with assms show ?thesis by (fastforce simp: lost_exit_def)
qed

text \<open>The next event is no notice for the request coroutine.\<close>

lemma lost_exit_pop:
  assumes l: "lost_exit s" and q: "lq_first (ev_queue (pi_m s)) = Some (e, d)" "lq_deq (ev_queue (pi_m s)) = Some q"
  shows "\<exists>evs. lq_holds q evs \<and> evs_of (ev_notice_req (pi_h s)) evs = [] \<and> e \<noteq> ev_notice_req (pi_h s)"
proof -
  have inv: "ctl_inv s" using l by (simp add: lost_exit_def)
  from ctl_inv_deq [OF inv q] obtain evs where evs: "lq_holds (ev_queue (pi_m s)) ((e, d) # evs)" "lq_holds q evs" by blast
  have "evs_of (ev_notice_req (pi_h s)) ((e, d) # evs) = []"
    using l evs(1) lq_holds_unique by (fastforce simp: lost_exit_def)
  with evs(2) show ?thesis by (auto split: if_splits)
qed

lemma lost_exit_event:
  assumes l: "lost_exit s" and q: "lq_first (ev_queue (pi_m s)) = Some (e, d)" "lq_deq (ev_queue (pi_m s)) = Some q"
    and h: "ev_handler_of (pi_m s) e = Some (ConnEvent, cx)"
      "e = ev_notice_req (pi_h s) \<or> e = ev_notice_rsp (pi_h s) \<or> cx \<noteq> rq_cx s \<and> cx \<noteq> rs_cx s"
    and t: "ctl_inv (dispatch (s\<lparr>pi_m := (pi_m s)\<lparr>ev_queue := q\<rparr>\<rparr>) cx d)"
  shows "lost_exit (dispatch (s\<lparr>pi_m := (pi_m s)\<lparr>ev_queue := q\<rparr>\<rparr>) cx d)"
proof -
  let ?t = "dispatch (s\<lparr>pi_m := (pi_m s)\<lparr>ev_queue := q\<rparr>\<rparr>) cx d"
  obtain evs where evs: "lq_holds q evs" "evs_of (ev_notice_req (pi_h s)) evs = []" "e \<noteq> ev_notice_req (pi_h s)"
    using lost_exit_pop [OF l q] by blast
  have d: "pi_rs s = RsDone" "pi_rq s \<noteq> RqCleanup" "pi_rq s \<noteq> RqDone" "ctl_inv s" using l by (auto simp: lost_exit_def)
  then have "cx \<noteq> rq_cx s" using h evs(3) by (auto simp: ctl_inv_def regs_ok_def)
  then have "pi_rs ?t = RsDone \<and> pi_rq ?t = pi_rq s \<and> ev_queue (pi_m ?t) = q \<and> ev_notice_req (pi_h ?t) = ev_notice_req (pi_h s)"
    using d by (simp add: dispatch_def resume_rs_def)
  with evs(1,2) t d show ?thesis by (auto simp: lost_exit_def)
qed

lemma lost_exit_enqueue:
  assumes l: "lost_exit s" and t: "ctl_inv t" "pi_rs t = RsDone" "pi_rq t \<noteq> RqCleanup" "pi_rq t \<noteq> RqDone"
    and h: "enqueue_notify tunnel (pi_m s) (pi_h s) server p = Some (pi_m t, h)" "ev_notice_req (pi_h t) = ev_notice_req h"
  shows "lost_exit t"
proof -
  note f = enqueue_notify_frame [OF h(1)]
  have n: "ev_notice_req (pi_h t) = ev_notice_req (pi_h s)" using f h(2) by (auto simp: ctl_def)
  note fr = lost_exit_frame [OF l t n]
  show ?thesis
  proof (cases "evc (pi_m t) = evc (pi_m s)")
    case True
    show ?thesis by (rule fr [where new = "[]"]) (use True in \<open>simp_all add: evc_def\<close>)
  next
    case False
    then have "lq_enq (ev_queue (pi_m s)) (ev_notice_rsp (pi_h s), 1) = Some (ev_queue (pi_m t))" using f by blast
    moreover have "ev_notice_rsp (pi_h s) \<noteq> ev_notice_req (pi_h s)" using l by (auto simp: lost_exit_def ctl_inv_def regs_ok_def)
    ultimately show ?thesis by (intro fr [where new = "[(ev_notice_rsp (pi_h s), 1)]"]) (auto simp: lq_enq_grows)
  qed
qed

lemma lost_exit_step: "pstep s t \<Longrightarrow> lost_exit s \<Longrightarrow> lost_exit t"
proof -
  assume st: "pstep s t" and l: "lost_exit s"
  have inv: "ctl_inv s" "ctl_inv t" using l ctl_inv_step [OF st] by (auto simp: lost_exit_def)
  note fr = lost_exit_frame [OF l inv(2)]
  have e: "evc m' = evc m \<Longrightarrow> ev_queue m' = ev_queue m" for m m' :: mach by (simp add: evc_def)
  have c: "ctl h' = ctl h \<Longrightarrow> ev_notice_req h' = ev_notice_req h" for h h' by (simp add: ctl_def)
  have ne: "ev_notice_rsp (pi_h s) \<noteq> ev_notice_req (pi_h s)" "uniq_table (ev_handlers (pi_m s))"
    using inv(1) by (auto simp: ctl_inv_def regs_ok_def)
  have d: "pi_rs s = RsDone" "pi_rq s \<noteq> RqCleanup" "pi_rq s \<noteq> RqDone" using l by (auto simp: lost_exit_def)
  from st show ?thesis
  proof (cases rule: pstep.cases)
    case (event e d q cx)
    with lost_exit_event [OF l event(3-6)] inv(2) show ?thesis by simp
  next
    case (event_unhandled e d q)
    with lost_exit_pop [OF l event_unhandled(3,4)] inv(2) d show ?thesis by (auto simp: lost_exit_def)
  next
    case (foreign_post e d m)
    show ?thesis by (rule fr [where new = "[(e, d)]"])
        (use foreign_post d lq_enq_grows event_post_frame [OF foreign_post(4)] in auto)
  next
    case (rq_connect p host port gai sys srv m dns pool)
    have q: "ev_queue m = ev_queue (pi_m s)" using connect_frame [OF rq_connect(5) ne(2)] by blast
    have t: "pi_rs t = RsDone" "pi_rq t \<noteq> RqCleanup" "pi_rq t \<noteq> RqDone" "pi_m t = m"
      "ev_notice_req (pi_h t) = ev_notice_req (pi_h s)"
      using rq_connect(1) d by (auto split: option.splits)
    show ?thesis by (rule fr [where new = "[]", OF t(1-3,5)]) (simp_all add: t(4) q)
  next
    case (rq_enqueue server p tunnel m h)
    with d show ?thesis by (intro lost_exit_enqueue [OF l inv(2)]) auto
  next
    case (rq_exit m h)
    then have x: "lq_enq (ev_queue (pi_m s)) (ev_notice_rsp (pi_h s), 0) = Some (ev_queue m) \<and> ev_notice_req h = ev_notice_req (pi_h s)"
      by (auto simp: req_exit_def Let_def split: if_splits dest!: event_post_frame)
    show ?thesis by (rule fr [where new = "[(ev_notice_rsp (pi_h s), 0)]"])
        (use x rq_exit d ne lq_enq_grows in \<open>auto simp: event_set_handler_def\<close>)
  next
    case (rq_exit_now m h)
    then have "rsp_will_exited (pi_h s)" by (auto simp: req_exit_def Let_def split: if_splits)
    with inv(1) show ?thesis by (simp add: ctl_inv_def regs_ok_def)
  next
    case (rq_drop p h)
    show ?thesis by (rule fr [where new = "[]"])
        (use rq_drop(1,2) d req_decref_ctl [OF rq_drop(3)] in \<open>auto simp: ctl_def\<close>)
  next
    case (rq_touch p server rq rs)
    show ?thesis by (rule fr [where new = "[]"]) (use rq_touch(1) d in auto)
  next
    case (rq_retry server p m)
    show ?thesis by (rule fr [where new = "[]"]) (use rq_retry(1) d conn_decref_ev [OF rq_retry(3)] in auto)
  next
    case (rq_sent server p m h pc)
    show ?thesis by (rule fr [where new = "[]"])
        (use rq_sent(1,5) d conn_decref_ev [OF rq_sent(3)] req_decref_ctl [OF rq_sent(4)] in \<open>auto simp: ctl_def\<close>)
  qed ((use d in \<open>simp; fail\<close>) | (rule fr [where new = "[]"], (use d in \<open>simp_all add: io_effect_def\<close>) [6]))+
qed

lemma lost_exit_forever: "pstep\<^sup>*\<^sup>* s t \<Longrightarrow> lost_exit s \<Longrightarrow> pi_rq t \<noteq> RqDone"
proof -
  assume "pstep\<^sup>*\<^sup>* s t" "lost_exit s"
  then have "lost_exit t" by (induction rule: rtranclp_induct) (auto dest: lost_exit_step)
  then show "pi_rq t \<noteq> RqDone" by (simp add: lost_exit_def)
qed

lemma exit_unnoticed:
  assumes "reachable s" "pi_rs s = RsDone" "pi_rq s = RqLoop \<or> rq_io (pi_rq s) \<or> pi_rq s = RqExit"
  shows "lost_exit s"
  using reachable_ctl [OF assms(1)] assms(2,3) by (auto simp: lost_exit_def ctl_inv_def pcs_ok_def rq_io_def)

subsection \<open>Requests: order and reference counts\<close>

definition holds_req :: "rq_pc \<Rightarrow> addr \<Rightarrow> bool" where
  "holds_req pc p \<longleftrightarrow> pc = RqReady p \<or> (\<exists>s. pc = RqHead s p) \<or> (\<exists>s. pc = RqSend s p)"

text \<open>
  \<open>data_at xs enq ans rq h\<close>: what was appended and not yet taken off is what the list holds, in this
  order. Every request that was appended, or that the request coroutine works on, has one
  reference for its place in the list and one for the coroutine.
\<close>

definition listed :: "net_handle_cxt \<Rightarrow> addr list \<Rightarrow> bool" where
  "listed h ps \<longleftrightarrow> (\<exists>xs. lq_holds (hc_list h) xs \<and> ps = map snd xs)"

definition data_at :: "addr list \<Rightarrow> addr list \<Rightarrow> addr list \<Rightarrow> rq_pc \<Rightarrow> net_handle_cxt \<Rightarrow> bool" where
  "data_at ps enq ans rq h \<longleftrightarrow> rheap_inv (hc_reqs h) \<and> distinct enq \<and> listed h ps \<and> enq = ans @ ps \<and>
     (\<forall>p. p \<in> set enq \<or> holds_req rq p \<longrightarrow> p < next_addr (hc_reqs h) \<and>
        mem_cnt (hc_reqs h) p = (if p \<in> set ps then 1 else 0) + (if holds_req rq p then 1 else 0)) \<and>
     (\<forall>p. holds_req rq p \<longrightarrow> (p \<in> set enq \<longleftrightarrow> (\<exists>s. rq = RqSend s p)))"

definition data_inv :: "pipe \<Rightarrow> bool" where
  "data_inv s \<longleftrightarrow> (pi_rq s \<noteq> RqDone \<longrightarrow> (\<exists>ps. data_at ps (pi_enq s) (pi_ans s) (pi_rq s) (pi_h s)))"

lemma holds_req_simps [simp]:
  "holds_req (RqReady p) q \<longleftrightarrow> q = p" "holds_req (RqHead s p) q \<longleftrightarrow> q = p" "holds_req (RqSend s p) q \<longleftrightarrow> q = p"
  "\<not> holds_req RqWaitStart q" "\<not> holds_req RqLoop q" "\<not> holds_req RqFetch q" "\<not> holds_req RqExit q"
  "\<not> holds_req RqWaitExit q" "\<not> holds_req RqCleanup q" "\<not> holds_req RqDone q"
  by (auto simp: holds_req_def)

lemma listed_cong: "hc_list h' = hc_list h \<Longrightarrow> listed h' ps = listed h ps"
  by (simp add: listed_def)

lemma data_at_frame:
  assumes "data_at ps enq ans rq h" "hc_list h' = hc_list h" "next_addr (hc_reqs h') = next_addr (hc_reqs h)"
    "rheap_inv (hc_reqs h')" "\<And>p. mem_cnt (hc_reqs h') p = mem_cnt (hc_reqs h) p"
    "\<And>p. holds_req rq' p = holds_req rq p" "\<And>p. (\<exists>s. rq' = RqSend s p) = (\<exists>s. rq = RqSend s p)"
  shows "data_at ps enq ans rq' h'"
  using assms(1) listed_cong [OF assms(2), of ps] unfolding data_at_def assms(3,5,6,7) using assms(4) by blast

lemma data_atD:
  assumes "data_at ps enq ans rq h"
  shows "rheap_inv (hc_reqs h)" "distinct enq" "listed h ps" "enq = ans @ ps"
    "\<And>p. p \<in> set enq \<or> holds_req rq p \<Longrightarrow> p < next_addr (hc_reqs h) \<and>
      mem_cnt (hc_reqs h) p = (if p \<in> set ps then 1 else 0) + (if holds_req rq p then 1 else 0)"
    "\<And>p. holds_req rq p \<Longrightarrow> (p \<in> set enq \<longleftrightarrow> (\<exists>s. rq = RqSend s p))"
  using assms unfolding data_at_def by blast+

lemma data_atI:
  assumes "rheap_inv (hc_reqs h)" "distinct enq" "listed h ps" "enq = ans @ ps"
    "\<And>p. p \<in> set enq \<or> holds_req rq p \<Longrightarrow> p < next_addr (hc_reqs h) \<and>
      mem_cnt (hc_reqs h) p = (if p \<in> set ps then 1 else 0) + (if holds_req rq p then 1 else 0)"
    "\<And>p. holds_req rq p \<Longrightarrow> (p \<in> set enq \<longleftrightarrow> (\<exists>s. rq = RqSend s p))"
  shows "data_at ps enq ans rq h"
  using assms unfolding data_at_def by blast

lemma data_at_parsed:
  assumes d: "data_at ps enq ans RqFetch h" and a: "mem_alloc_auto (hc_reqs h) rq = (p, rs)"
  shows "data_at ps enq ans (RqReady p) (h\<lparr>hc_reqs := rs\<rparr>)"
proof -
  have p: "p = next_addr (hc_reqs h)" "next_addr rs = Suc p" "rs = snd (mem_alloc_auto (hc_reqs h) rq)"
    using a by (auto simp: mem_alloc_auto_def)
  have "\<And>q. q \<in> set enq \<Longrightarrow> q < p" using d unfolding data_at_def p(1) by blast
  moreover have "mem_cnt rs q = (if q = p then 1 else mem_cnt (hc_reqs h) q)" for q
    unfolding p(3) using p(1) by (simp add: mem_cnt_alloc)
  moreover have "rheap_inv rs" unfolding p(3) using d by (simp add: data_at_def)
  moreover have "listed (h\<lparr>hc_reqs := rs\<rparr>) ps" using data_atD(3) [OF d] by (simp add: listed_def)
  moreover have "p \<notin> set ps" using calculation(1) data_atD(4) [OF d] by fastforce
  ultimately show ?thesis using p(2) data_atD(2,5) [OF d]
    by (intro data_atI [OF _ _ _ data_atD(4) [OF d]]) (fastforce simp: less_Suc_eq)+
qed

lemma data_at_decref:
  assumes d: "data_at ps enq ans rq h" and r: "req_decref h p = Some h'" and h: "holds_req rq p"
    and n: "\<And>q. \<not> holds_req rq' q"
  shows "data_at ps enq ans rq' h'"
proof -
  from req_decref_frame [OF r] obtain rs c u where rs: "h' = h\<lparr>hc_reqs := rs\<rparr>" "mem_decref (hc_reqs h) p (\<lambda>_ s. s) () = Some (c, rs, u)"
    by blast
  have i: "rheap_inv (hc_reqs h)" using d by (simp add: data_at_def)
  have "mem_cnt rs q = mem_cnt (hc_reqs h) q - (if q = p then 1 else 0)" for q
    using mem_cnt_decref [OF rs(2)] by simp
  moreover have "next_addr rs = next_addr (hc_reqs h)" using next_addr_decref [OF rs(2)] .
  moreover have "holds_req rq q \<longleftrightarrow> q = p" for q using h by (auto simp: holds_req_def)
  moreover have "listed h' ps" using rs(1) data_atD(3) [OF d] by (simp add: listed_def)
  ultimately show ?thesis using n rheap_inv_decref [OF i rs(2)] rs(1) data_atD(2,5) [OF d]
    by (intro data_atI [OF _ _ _ data_atD(4) [OF d]]) auto
qed

lemma data_at_enqueue:
  assumes d: "data_at ps enq ans (RqHead server p) h" and e: "enqueue_notify tunnel m h server p = Some (m', h')"
  shows "data_at (ps @ [p]) (enq @ [p]) ans (RqSend server p) h'"
proof -
  note f = enqueue_notify_frame [OF e]
  have i: "rheap_inv (hc_reqs h)" using d by (simp add: data_at_def)
  have l: "listed h' (ps @ [p])"
  proof -
    from d obtain xs where xs: "lq_holds (hc_list h) xs" "ps = map snd xs" by (auto simp: data_at_def listed_def)
    with list_append_holds [OF xs(1), of "(server, p)"] f have "lq_holds (hc_list h') (xs @ [(server, p)])" by auto
    with xs(2) show ?thesis by (auto simp: listed_def intro!: exI [of _ "xs @ [(server, p)]"])
  qed
  have "mem_cnt (hc_reqs h') q = mem_cnt (hc_reqs h) q + (if q = p then 1 else 0)" for q using f by (simp add: mem_cnt_incref)
  moreover have "next_addr (hc_reqs h') = next_addr (hc_reqs h)"
    using f next_addr_incref by blast
  moreover have "rheap_inv (hc_reqs h')" using f rheap_inv_incref [OF i] by blast
  moreover have "p \<notin> set enq" using data_atD(6) [OF d, of p] by simp
  moreover have "p \<notin> set ps" using calculation(4) data_atD(4) [OF d] by simp
  ultimately show ?thesis using l data_atD(2,4,5) [OF d]
    by (intro data_atI) auto
qed

text \<open>The end of a round of the response coroutine takes the first request off the list.\<close>

lemma rsp_finish_effect:
  assumes q: "lq_first (hc_list h) = Some (server, p)" and c: "conn_get m server = Some c"
    and pop: "c_stat c = CONN_CLOSED \<or> ret \<noteq> 100" and r: "rsp_finish m h ret = Some (m', h')"
  obtains h1 h2 where "hc_list h1 = hc_list h" "hc_reqs h1 = hc_reqs h" "req_decref h1 p = Some h2"
    "lq_deq (hc_list h2) = Some (hc_list h')" "hc_reqs h' = hc_reqs h2"
proof (cases "c_stat c = CONN_CLOSED")
  case True
  with r q c obtain t h2 l where "req_decref (h\<lparr>hc_pool := HASH_DELETE (hc_pool h) t\<rparr>) p = Some h2"
      "lq_deq (hc_list h2) = Some l" "h' = h2\<lparr>hc_list := l\<rparr>"
    by (auto simp: rsp_finish_def Let_def bind_eq_Some_conv split: option.splits)
  then show thesis by (intro that) auto
next
  case False
  with r q c pop obtain h2 l where "req_decref h p = Some h2" "lq_deq (hc_list h2) = Some l" "h' = h2\<lparr>hc_list := l\<rparr>"
    by (auto simp: rsp_finish_def Let_def bind_eq_Some_conv)
  then show thesis by (intro that) auto
qed

lemma data_at_finish:
  assumes d: "data_at ps enq ans rq h" and q: "lq_first (hc_list h) = Some (server, p)" and c: "conn_get m server = Some c"
    and pop: "c_stat c = CONN_CLOSED \<or> ret \<noteq> 100" and r: "rsp_finish m h ret = Some (m', h')"
  shows "\<exists>ps'. ps = p # ps' \<and> data_at ps' enq (ans @ [p]) rq h'"
proof -
  obtain h1 h2 where h: "hc_list h1 = hc_list h" "hc_reqs h1 = hc_reqs h" "req_decref h1 p = Some h2"
      "lq_deq (hc_list h2) = Some (hc_list h')" "hc_reqs h' = hc_reqs h2"
    using rsp_finish_effect [OF q c pop r] by blast
  from d obtain xs where xs: "lq_holds (hc_list h) xs" "ps = map snd xs" by (auto simp: data_at_def listed_def)
  have "xs \<noteq> []" using lq.peek_empty [of "hc_list h"] xs(1) q by auto
  then obtain y ys where y: "xs = y # ys" by (cases xs) auto
  then have y': "y = (server, p)" using lq.peek_holds [of "hc_list h" y ys] xs(1) q by auto
  from req_decref_frame [OF h(3)] obtain rs k u where rs: "h2 = h1\<lparr>hc_reqs := rs\<rparr>"
    "mem_decref (hc_reqs h) p (\<lambda>_ s. s) () = Some (k, rs, u)" using h(2) by auto
  have "lq_holds (hc_list h') ys" using lq.deq_holds [of "hc_list h" y ys] xs(1) y h(1,4) rs(1) by auto
  then have l: "listed h' (map snd ys)" by (auto simp: listed_def)
  have i: "rheap_inv (hc_reqs h)" using d by (simp add: data_at_def)
  have cn: "mem_cnt (hc_reqs h') q = mem_cnt (hc_reqs h) q - (if q = p then 1 else 0)" for q
    using mem_cnt_decref [OF rs(2)] h(5) rs(1) by simp
  have nx: "next_addr (hc_reqs h') = next_addr (hc_reqs h)"
    using next_addr_decref [OF rs(2)] rs(1) h(5) by simp
  have ri: "rheap_inv (hc_reqs h')" using rheap_inv_decref [OF i rs(2)] rs(1) h(5) by simp
  define ps' where "ps' = map snd ys"
  have ps: "ps = p # ps'" using xs(2) y y' by (simp add: ps'_def)
  have "p \<notin> set ps'" using data_atD(2,4) [OF d] ps by auto
  have pe: "p \<in> set enq" using data_atD(4) [OF d] ps by simp
  have "data_at ps' enq (ans @ [p]) rq h'"
  proof (rule data_atI)
    show "enq = (ans @ [p]) @ ps'" using data_atD(4) [OF d] ps by simp
    show "q < next_addr (hc_reqs h') \<and>
        mem_cnt (hc_reqs h') q = (if q \<in> set ps' then 1 else 0) + (if holds_req rq q then 1 else 0)"
      if "q \<in> set enq \<or> holds_req rq q" for q
      using data_atD(5) [OF d that] cn nx \<open>p \<notin> set ps'\<close> ps by auto
  qed (use data_atD [OF d] ri l ps'_def in auto)
  with ps show ?thesis by blast
qed

lemma data_inv_same:
  assumes "data_inv s" "pi_enq t = pi_enq s" "pi_ans t = pi_ans s" "hc_list (pi_h t) = hc_list (pi_h s)"
    "hc_reqs (pi_h t) = hc_reqs (pi_h s)" "pi_rq s = RqDone \<Longrightarrow> pi_rq t = RqDone" "\<And>p. holds_req (pi_rq t) p = holds_req (pi_rq s) p"
    "\<And>p. (\<exists>x. pi_rq t = RqSend x p) = (\<exists>x. pi_rq s = RqSend x p)"
  shows "data_inv t"
proof (cases "pi_rq s = RqDone")
  case False
  with assms(1) obtain ps where d: "data_at ps (pi_enq s) (pi_ans s) (pi_rq s) (pi_h s)" by (auto simp: data_inv_def)
  have "data_at ps (pi_enq s) (pi_ans s) (pi_rq t) (pi_h t)"
    by (rule data_at_frame [OF d]) (use assms(4,5,7,8) data_atD(1) [OF d] in simp_all)
  with assms(2,3) show ?thesis by (auto simp: data_inv_def)
qed (use assms(6) in \<open>simp add: data_inv_def\<close>)

lemma req_exit_frame: "req_exit m h = Some (b, m', h') \<Longrightarrow> hc_list h' = hc_list h \<and> hc_reqs h' = hc_reqs h"
  by (auto simp: req_exit_def Let_def split: if_splits)

lemma rsp_exit_data: "rsp_exit m h = Some (m', h') \<Longrightarrow> hc_list h' = hc_list h \<and> hc_reqs h' = hc_reqs h"
  by (auto simp: rsp_exit_def Let_def bind_eq_Some_conv)

lemma dispatch_data:
  "hc_list (pi_h (dispatch s cx d)) = hc_list (pi_h s)" "hc_reqs (pi_h (dispatch s cx d)) = hc_reqs (pi_h s)"
  "pi_enq (dispatch s cx d) = pi_enq s" "pi_ans (dispatch s cx d) = pi_ans s"
  "holds_req (pi_rq (dispatch s cx d)) p = holds_req (pi_rq s) p" "(pi_rq (dispatch s cx d) = RqSend x p) = (pi_rq s = RqSend x p)"
  "(pi_rq (dispatch s cx d) = RqDone) = (pi_rq s = RqDone)"
  by (auto simp: dispatch_def resume_rq_def resume_rs_def split: rq_pc.splits rs_pc.splits)

lemma data_inv_step: "pstep s t \<Longrightarrow> data_inv s \<Longrightarrow> data_inv t"
proof (induction rule: pstep.induct)
  case (rq_parsed s rq p rs)
  then show ?case using data_at_parsed [OF _ rq_parsed.hyps(2)] by (auto simp: data_inv_def)
next
  case (rq_drop s p h)
  then obtain ps where "data_at ps (pi_enq s) (pi_ans s) (RqReady p) (pi_h s)" by (auto simp: data_inv_def)
  from data_at_decref [OF this rq_drop.hyps(2), of RqExit] show ?case by (auto simp: data_inv_def)
next
  case (rq_touch s p server rq rs)
  then obtain ps where d: "data_at ps (pi_enq s) (pi_ans s) (pi_rq s) (pi_h s)" by (auto simp: data_inv_def)
  have "data_at ps (pi_enq s) (pi_ans s) (pi_rq s) ((pi_h s)\<lparr>hc_reqs := rs\<rparr>)"
    by (rule data_at_frame [OF d]) (use next_addr_write [OF rq_touch.hyps(2)] mem_cnt_write [OF rq_touch.hyps(2)]
        rheap_inv_write [OF data_atD(1) [OF d] rq_touch.hyps(2)] in simp_all)
  then show ?case by (auto simp: data_inv_def)
next
  case (rq_connect s p host port gai sys srv m dns pool)
  then obtain ps where d: "data_at ps (pi_enq s) (pi_ans s) (RqReady p) (pi_h s)" by (auto simp: data_inv_def)
  have "data_at ps (pi_enq s) (pi_ans s) (case srv of None \<Rightarrow> RqReady p | Some server \<Rightarrow> RqHead server p)
      ((pi_h s)\<lparr>hc_dns := dns, hc_pool := pool\<rparr>)"
    by (rule data_at_frame [OF d]) (use data_atD(1) [OF d] in \<open>simp_all split: option.splits\<close>)
  then show ?case by (auto simp: data_inv_def)
next
  case (rq_enqueue s server p tunnel m h)
  then obtain ps where "data_at ps (pi_enq s) (pi_ans s) (RqHead server p) (pi_h s)" by (auto simp: data_inv_def)
  from data_at_enqueue [OF this rq_enqueue.hyps(2)] show ?case by (auto simp: data_inv_def)
next
  case (rq_sent s server p m h pc)
  then obtain ps where "data_at ps (pi_enq s) (pi_ans s) (RqSend server p) (pi_h s)" by (auto simp: data_inv_def)
  from data_at_decref [OF this rq_sent.hyps(3), of pc] rq_sent.hyps(4) show ?case by (auto simp: data_inv_def)
next
  case (rq_cleanup s m h)
  then show ?case by (simp add: data_inv_def)
next
  case (rs_again s server p c m h)
  then have "h = pi_h s" by (simp add: rsp_finish_def)
  with rs_again show ?case by (simp add: data_inv_def)
next
  case (rs_finish s server p c ret m h)
  show ?case
  proof (cases "pi_rq s = RqDone")
    case False
    with rs_finish obtain ps where "data_at ps (pi_enq s) (pi_ans s) (pi_rq s) (pi_h s)" by (auto simp: data_inv_def)
    from data_at_finish [OF this rs_finish.hyps(2-5)] show ?thesis by (auto simp: data_inv_def)
  qed (simp add: data_inv_def)
next
  case (rq_exit s m h)
  show ?case by (rule data_inv_same [OF rq_exit.prems]) (use rq_exit.hyps req_exit_frame [OF rq_exit.hyps(2)] in auto)
next
  case (rq_exit_now s m h)
  show ?case by (rule data_inv_same [OF rq_exit_now.prems]) (use rq_exit_now.hyps req_exit_frame [OF rq_exit_now.hyps(2)] in auto)
next
  case (rs_exit s m h)
  show ?case by (rule data_inv_same [OF rs_exit.prems]) (use rs_exit.hyps rsp_exit_data [OF rs_exit.hyps(2)] in auto)
next
  case (event s e d q cx)
  show ?case by (rule data_inv_same [OF event.prems]) (simp_all add: dispatch_data)
qed (rule data_inv_same, assumption, (auto simp: log_http_req_def) [7])+

lemma data_inv_start:
  assumes "pipe_start m client cx1 cx2 reqs dns lg = Some s" "cx1 \<noteq> cx2" "uniq_table (ev_handlers m)"
    "lq_holds (ev_queue m) evs" "\<forall>e \<in> fst ` set evs. e \<noteq> id_max m \<and> e \<noteq> id_max m + 1" "rheap_inv reqs"
  shows "data_inv s"
proof -
  have "data_at [] (pi_enq s) (pi_ans s) (pi_rq s) (pi_h s)"
    by (rule data_atI) (use ctl_inv_start [OF assms(1-5)] assms(6) in \<open>auto simp: listed_def\<close>)
  then show ?thesis by (auto simp: data_inv_def)
qed

lemma reachable_data: "reachable s \<Longrightarrow> data_inv s"
  by (induction rule: reachable.induct) (auto dest: data_inv_step data_inv_start)

text \<open>Requests are answered in the order in which they were sent on, and a request stays allocated
  exactly as long as the list or the request coroutine refers to it.\<close>

lemma answered_in_order:
  assumes "reachable s" "pi_rq s \<noteq> RqDone"
  shows "\<exists>xs. lq_holds (hc_list (pi_h s)) xs \<and> pi_enq s = pi_ans s @ map snd xs"
  using reachable_data [OF assms(1)] assms(2) by (auto simp: data_inv_def data_at_def listed_def)

lemma requests_counted:
  assumes r: "reachable s" "pi_rq s \<noteq> RqDone" and p: "p \<in> set (pi_enq s) \<or> holds_req (pi_rq s) p"
  shows "mem_cnt (hc_reqs (pi_h s)) p =
      (if p \<in> set (drop (length (pi_ans s)) (pi_enq s)) then 1 else 0) + (if holds_req (pi_rq s) p then 1 else 0)"
    "mem_read (hc_reqs (pi_h s)) p = None \<longleftrightarrow> p \<in> set (pi_ans s) \<and> \<not> holds_req (pi_rq s) p"
proof -
  from reachable_data [OF r(1)] r(2) obtain ps where d: "data_at ps (pi_enq s) (pi_ans s) (pi_rq s) (pi_h s)"
    by (auto simp: data_inv_def)
  have c: "mem_cnt (hc_reqs (pi_h s)) p = (if p \<in> set ps then 1 else 0) + (if holds_req (pi_rq s) p then 1 else 0)"
    using data_atD(5) [OF d p] by blast
  then show "mem_cnt (hc_reqs (pi_h s)) p =
      (if p \<in> set (drop (length (pi_ans s)) (pi_enq s)) then 1 else 0) + (if holds_req (pi_rq s) p then 1 else 0)"
    using data_atD(4) [OF d] by simp
  have "mem_read (hc_reqs (pi_h s)) p = None \<longleftrightarrow> mem_cnt (hc_reqs (pi_h s)) p \<le> 0"
    using mem_live_iff [OF data_atD(1) [OF d], of p] by (cases "cells (hc_reqs (pi_h s)) p") (auto simp: mem_read_def)
  moreover have "p \<in> set (pi_ans s) \<Longrightarrow> p \<notin> set ps" using data_atD(2,4) [OF d] by auto
  ultimately show "mem_read (hc_reqs (pi_h s)) p = None \<longleftrightarrow> p \<in> set (pi_ans s) \<and> \<not> holds_req (pi_rq s) p"
    using c p data_atD(4) [OF d] by (auto split: if_splits)
qed

subsection \<open>A closed server with several requests in the list\<close>

lemma req_decref_ok:
  assumes "mem_read (hc_reqs h) p = Some rq"
  shows "\<exists>rs. req_decref h p = Some (h\<lparr>hc_reqs := rs\<rparr>)"
  using assms by (auto simp: req_decref_def mem_decref_def mem_read_def)

text \<open>The first response on a connection that the server has closed deletes the pool entry of the
  address; the next request in the list that went to this server finds none and \<^verbatim>\<open>HASH_DEL\<close> is
  called with a null pointer.\<close>

lemma closed_server_twice:
  assumes pool: "uniq_table (hc_pool h)" "hash_lookup (hc_pool h) (ep_key (c_ep c)) \<noteq> None"
    and l: "lq_holds (hc_list h) ((server, p) # (server, p') # xs)"
    and c: "cells (conns m) server = Some (n, c)" "2 < n" "c_stat c = CONN_CLOSED"
    and rq: "mem_read (hc_reqs h) p = Some rq"
  shows "\<exists>m' h'. rsp_finish m h ret = Some (m', h') \<and> lq_holds (hc_list h') ((server, p') # xs) \<and> rsp_finish m' h' ret' = None"
proof -
  obtain t where t: "HASH_FIND (hc_pool h) (ep_key (c_ep c)) = Some t"
    using pool(2) by (auto simp: hash_lookup_def split: option.splits)
  obtain h1 where m1: "conn_decref m server = Some (m\<lparr>conns := h1\<rparr>)" "cells h1 server = Some (n - 1, c)"
    using c by (auto simp: conn_decref_def mem_decref_def)
  obtain h2 where m2: "conn_decref (m\<lparr>conns := h1\<rparr>) server = Some (m\<lparr>conns := h2\<rparr>)" "cells h2 server = Some (n - 2, c)"
    using m1(2) c(2) by (auto simp: conn_decref_def mem_decref_def)
  obtain rs where rs: "req_decref (h\<lparr>hc_pool := HASH_DELETE (hc_pool h) t\<rparr>) p =
      Some (h\<lparr>hc_pool := HASH_DELETE (hc_pool h) t, hc_reqs := rs\<rparr>)"
    using req_decref_ok [of "h\<lparr>hc_pool := HASH_DELETE (hc_pool h) t\<rparr>" p rq] rq by auto
  obtain q where q: "lq_deq (hc_list h) = Some q" "lq_holds q ((server, p') # xs)" using lq.deq_holds [OF l] by blast
  have f: "lq_first (hc_list h) = Some (server, p)" "lq_first q = Some (server, p')"
    using lq.peek_holds [OF l] lq.peek_holds [OF q(2)] by auto
  let ?h' = "h\<lparr>hc_pool := HASH_DELETE (hc_pool h) t, hc_reqs := rs, hc_list := q\<rparr>"
  have g: "conn_get m server = Some c" "conn_get (m\<lparr>conns := h2\<rparr>) server = Some c"
    using c(1) m2(2) by (simp_all add: conn_get_def mem_read_def)
  have "rsp_finish m h ret = Some (m\<lparr>conns := h2\<rparr>, ?h')"
    using f(1) g(1) c(3) t m1(1) m2(1) rs q(1) by (simp add: rsp_finish_def Let_def)
  moreover have "HASH_DELETE (hc_pool h) t = hash_remove (hc_pool h) (ep_key (c_ep c))"
    using t by (simp add: hash_remove_def)
  then have "HASH_FIND (hc_pool ?h') (ep_key (c_ep c)) = None"
    using ht.lookup_remove [OF pool(1), of "ep_key (c_ep c)" "ep_key (c_ep c)"]
    by (simp add: hash_lookup_def split: option.splits)
  then have "rsp_finish (m\<lparr>conns := h2\<rparr>) ?h' ret' = None"
    using f(2) g(2) c(3) by (simp add: rsp_finish_def Let_def)
  ultimately show ?thesis using q(2) by auto
qed

subsection \<open>A lost wake-up\<close>

text \<open>Both coroutines wait for an event that nobody is left to post.\<close>

definition both_wait :: "pipe \<Rightarrow> bool" where
  "both_wait s \<longleftrightarrow> regs_ok s \<and> pi_rq s = RqWaitExit \<and> pi_rs s = RsWaitReq \<and> pi_cur s = Main \<and>
     (\<exists>evs. lq_holds (ev_queue (pi_m s)) evs \<and>
       evs_of (ev_notice_req (pi_h s)) evs = [] \<and> evs_of (ev_notice_rsp (pi_h s)) evs = [])"

lemma both_wait_head:
  assumes "both_wait s" "lq_first (ev_queue (pi_m s)) = Some (e, d)" "lq_deq (ev_queue (pi_m s)) = Some q"
  shows "e \<noteq> ev_notice_req (pi_h s) \<and> e \<noteq> ev_notice_rsp (pi_h s) \<and> (\<exists>evs. lq_holds q evs \<and>
       evs_of (ev_notice_req (pi_h s)) evs = [] \<and> evs_of (ev_notice_rsp (pi_h s)) evs = [])"
proof -
  from assms(1) obtain evs where evs: "lq_holds (ev_queue (pi_m s)) evs"
    "evs_of (ev_notice_req (pi_h s)) evs = []" "evs_of (ev_notice_rsp (pi_h s)) evs = []" by (auto simp: both_wait_def)
  have "evs \<noteq> []" using lq.peek_empty [of "ev_queue (pi_m s)"] evs(1) assms(2) by auto
  then obtain x es where e: "evs = x # es" by (cases evs) auto
  with lq.peek_holds [of "ev_queue (pi_m s)" x es] lq.deq_holds [of "ev_queue (pi_m s)" x es] evs assms(2,3)
  show ?thesis by (auto split: if_splits)
qed

lemma both_wait_step: "pstep s t \<Longrightarrow> both_wait s \<Longrightarrow> both_wait t"
proof -
  assume st: "pstep s t" and w: "both_wait s"
  have d: "pi_rq s = RqWaitExit" "pi_rs s = RsWaitReq" "pi_cur s = Main" "regs_ok s" using w by (auto simp: both_wait_def)
  from st show ?thesis
  proof (cases rule: pstep.cases)
    case (io m)
    then show ?thesis using w by (auto simp: both_wait_def regs_ok_def io_effect_def)
  next
    case (foreign_post e d m)
    from w obtain evs where evs: "lq_holds (ev_queue (pi_m s)) evs"
      "evs_of (ev_notice_req (pi_h s)) evs = []" "evs_of (ev_notice_rsp (pi_h s)) evs = []" by (auto simp: both_wait_def)
    from event_post_frame [OF foreign_post(4)] lq_enq_grows [OF _ evs(1), of "(e, d)"]
    have "lq_holds (ev_queue m) (evs @ [(e, d)])" "ev_handlers m = ev_handlers (pi_m s)" by auto
    then show ?thesis using w evs foreign_post(1-3) unfolding both_wait_def
      by (auto simp: regs_ok_def ev_handler_of_def intro!: exI [of _ "evs @ [(e, d)]"])
  next
    case (event e d q cx)
    from both_wait_head [OF w event(3,4)] event(6) have "cx \<noteq> rq_cx s" "cx \<noteq> rs_cx s" by auto
    then have "t = s\<lparr>pi_m := (pi_m s)\<lparr>ev_queue := q\<rparr>\<rparr>" using event(1) by (simp add: dispatch_def)
    with both_wait_head [OF w event(3,4)] d show ?thesis
      by (simp add: both_wait_def regs_ok_def ev_handler_of_def)
  next
    case (event_unhandled e d q)
    with both_wait_head [OF w event_unhandled(3,4)] d show ?thesis
      by (simp add: both_wait_def regs_ok_def ev_handler_of_def)
  qed (use d in auto)
qed

lemma both_wait_forever: "pstep\<^sup>*\<^sup>* s t \<Longrightarrow> both_wait s \<Longrightarrow> both_wait t"
  by (induction rule: rtranclp_induct) (auto dest: both_wait_step)

text \<open>
  The request coroutine fails while the last response is being relayed. Its notice arrives while
  the response coroutine is suspended in input or output, where it is not understood; when the
  response is finished, both coroutines wait.
\<close>

lemma rsp_finish_ok:
  assumes "lq_holds (hc_list h) [(server, p)]" "cells (conns m) server = Some (n, c)" "c_stat c \<noteq> CONN_CLOSED" "ret \<noteq> 100"
    "mem_read (hc_reqs h) p = Some rq"
  shows "\<exists>m' h'. rsp_finish m h ret = Some (m', h') \<and> lq_holds (hc_list h') [] \<and>
    (\<forall>q. q \<noteq> server \<longrightarrow> conn_get m' q = conn_get m q) \<and> main_stat m' = main_stat m \<and> hc_client h' = hc_client h"
proof -
  have "\<exists>m1. conn_decref m server = Some m1 \<and> (\<forall>q. q \<noteq> server \<longrightarrow> conn_get m1 q = conn_get m q) \<and> main_stat m1 = main_stat m"
    using assms(2) by (auto simp: conn_decref_def mem_decref_def conn_done_def conn_get_def mem_read_def)
  then obtain m1 where m1: "conn_decref m server = Some m1" "\<forall>q. q \<noteq> server \<longrightarrow> conn_get m1 q = conn_get m q" "main_stat m1 = main_stat m"
    by blast
  obtain rs where rs: "req_decref h p = Some (h\<lparr>hc_reqs := rs\<rparr>)" using req_decref_ok [OF assms(5)] by blast
  obtain q where q: "lq_deq (hc_list h) = Some q" "lq_holds q []" using lq.deq_holds [OF assms(1)] by blast
  have "conn_get m server = Some c" using assms(2) by (simp add: conn_get_def mem_read_def)
  with m1 rs q assms(3,4) lq.peek_holds [OF assms(1)] show ?thesis
    by (simp add: rsp_finish_def Let_def)
qed

lemma lost_wakeup:
  assumes inv: "ctl_inv s" and at: "at_rq s RqExit" "pi_rs s = RsBusy" and ev: "lq_holds (ev_queue (pi_m s)) []"
    and l: "lq_holds (hc_list (pi_h s)) [(server, p)]" "mem_read (hc_reqs (pi_h s)) p = Some rq"
    and srv: "cells (conns (pi_m s)) server = Some (n, c)" "c_stat c \<noteq> CONN_CLOSED"
    and cl: "conn_get (pi_m s) (hc_client (pi_h s)) = Some d" "c_stat d \<noteq> CONN_CLOSED" "hc_client (pi_h s) \<noteq> server"
    and run: "main_stat (pi_m s) = RUNING"
  shows "\<exists>t. pstep\<^sup>*\<^sup>* s t \<and> both_wait t"
proof -
  let ?e1 = "ev_notice_req (pi_h s)" and ?e2 = "ev_notice_rsp (pi_h s)"
  have r: "regs_ok s" using inv by (simp add: ctl_inv_def)
  obtain q where q: "event_post (pi_m s) ?e2 0 = Some ((pi_m s)\<lparr>ev_queue := q\<rparr>)" "lq_holds q [(?e2, 0)]"
    using event_post_holds [OF ev, of ?e2 0] by auto
  let ?h1 = "(pi_h s)\<lparr>req_will_exit := True, req_blocked := True\<rparr>"
  let ?m1 = "event_set_handler ((pi_m s)\<lparr>ev_queue := q\<rparr>) ?e1 ConnEvent (rq_cx s)"
  let ?s1 = "s\<lparr>pi_rq := RqWaitExit, pi_cur := Main, pi_m := ?m1, pi_h := ?h1\<rparr>"
  have "req_exit (pi_m s) (pi_h s) = Some (True, (pi_m s)\<lparr>ev_queue := q\<rparr>, ?h1)"
    using r q(1) by (simp add: req_exit_def Let_def regs_ok_def)
  from pstep.rq_exit [OF at(1) this] have p1: "pstep s ?s1" by simp
  have i1: "ctl_inv ?s1" using ctl_inv_step [OF p1 inv] .
  obtain q2 where q2: "lq_deq q = Some q2" "lq_holds q2 []" "lq_first q = Some (?e2, 0)"
    using lq.deq_holds [OF q(2)] lq.peek_holds [OF q(2)] by blast
  have h2: "ev_handler_of (pi_m ?s1) ?e2 = Some (ConnEvent, rs_cx s)" using i1 at(2) by (simp add: ctl_inv_def regs_ok_def)
  let ?m2 = "?m1\<lparr>ev_queue := q2\<rparr>"
  let ?s2 = "s\<lparr>pi_rq := RqWaitExit, pi_cur := Rs, pi_m := ?m2, pi_h := ?h1\<rparr>"
  have "dispatch (?s1\<lparr>pi_m := (pi_m ?s1)\<lparr>ev_queue := q2\<rparr>\<rparr>) (rs_cx s) 0 = ?s2"
    using r at(2) by (simp add: dispatch_def resume_rs_def regs_ok_def)
  moreover have "pstep ?s1 (dispatch (?s1\<lparr>pi_m := (pi_m ?s1)\<lparr>ev_queue := q2\<rparr>\<rparr>) (rs_cx s) 0)"
    by (rule pstep.event [where e = ?e2]) (use q2 h2 in \<open>simp_all add: event_set_handler_def\<close>)
  ultimately have p2: "pstep ?s1 ?s2" by simp
  have c2: "conns ?m2 = conns (pi_m s)" "main_stat ?m2 = main_stat (pi_m s)" by (simp_all add: event_set_handler_def)
  obtain m3 h3 where f: "rsp_finish ?m2 ?h1 0 = Some (m3, h3)" "lq_holds (hc_list h3) []"
    "\<forall>x. x \<noteq> server \<longrightarrow> conn_get m3 x = conn_get ?m2 x" "main_stat m3 = main_stat ?m2" "hc_client h3 = hc_client ?h1"
    using rsp_finish_ok [of ?h1 server p ?m2 n c 0 rq] l srv c2 by auto
  let ?s3 = "s\<lparr>pi_rq := RqWaitExit, pi_cur := Rs, pi_rs := RsLoop, pi_m := m3, pi_h := h3, pi_ans := pi_ans s @ [p]\<rparr>"
  have "pstep ?s2 (?s2\<lparr>pi_rs := RsLoop, pi_m := m3, pi_h := h3, pi_ans := pi_ans ?s2 @ [p]\<rparr>)"
    by (rule pstep.rs_finish [where server = server and c = c and ret = 0])
      (use at(2) lq.peek_holds [OF l(1)] srv c2 f(1) in \<open>simp_all add: conn_get_def mem_read_def\<close>)
  then have p3: "pstep ?s2 ?s3" by simp
  have lv: "\<not> leave_loop m3 h3" using f(3-5) cl run c2 by (simp add: leave_loop_def conn_get_def)
  let ?s4 = "?s3\<lparr>pi_rs := RsWaitReq, pi_cur := Main, pi_h := (pi_h ?s3)\<lparr>rsp_blocked := True\<rparr>,
      pi_m := event_set_handler (pi_m ?s3) (ev_notice_rsp (pi_h ?s3)) ConnEvent (rs_cx ?s3)\<rparr>"
  have p4: "pstep ?s3 ?s4"
    by (rule pstep.rs_wait) (use lv lq_holds_Nil [OF f(2)] in simp_all)
  have i4: "ctl_inv ?s4" using ctl_inv_step p2 p3 p4 i1 by blast
  have "ev_queue m3 = q2" using rsp_finish_frame [OF f(1)] by (simp add: evc_def)
  then have "both_wait ?s4" using i4 q2(2) by (auto simp: both_wait_def ctl_inv_def event_set_handler_def intro!: exI [of _ "[]"])
  moreover have "pstep\<^sup>*\<^sup>* s ?s4" using p1 p2 p3 p4 by (meson converse_rtranclp_into_rtranclp rtranclp.rtrancl_refl)
  ultimately show ?thesis by blast
qed

text \<open>So do the requests that both coroutines of a connection share.\<close>

interpretation rc_req: ref_counted "\<lambda>h. mem_cnt (hc_reqs h)"
  "\<lambda>h p. map_option (\<lambda>rs. h\<lparr>hc_reqs := rs\<rparr>) (mem_incref (hc_reqs h) p)" req_decref
  by unfold_locales (auto simp: req_decref_def mem_cnt_incref mem_cnt_decref mem_incref_live mem_decref_live)

end
