(* ===== verification/Rounds.thy ===== *)
theory Rounds
  imports Pipeline
begin

text \<open>
  One whole round of each coroutine on a kept-alive pair of connections: the bytes of a
  request on the client's side become the bytes of the request on the server's side, and the
  same for the response on the way back. The server's address is cached and a connection to
  it is in the coroutine's pool.
\<close>

definition req_wire :: "string \<Rightarrow> string \<Rightarrow> string \<Rightarrow> string option \<Rightarrow> string \<Rightarrow> string \<Rightarrow> string \<Rightarrow> hdr list \<Rightarrow> string \<Rightarrow> string" where
  "req_wire me sch host po pa a b hs w = req_line me (uri_text sch host po pa) a b @ crlf @ wire hs @ crlf @ w"

text \<open>The pool of the coroutine knows an open connection to the first address of the host.\<close>

definition pooled :: "mach \<Rightarrow> net_handle_cxt \<Rightarrow> string \<Rightarrow> int \<Rightarrow> addr \<Rightarrow> bool" where
  "pooled m h host port server \<longleftrightarrow> main_stat m = RUNING \<and>
     (\<exists>e ai as t c. HASH_FIND (hc_dns h) host = Some e \<and> h_val e = ai # as \<and>
        (ai_family ai = AF_INET \<or> ai_family ai = AF_INET6) \<and>
        HASH_FIND (hc_pool h) (ep_key (addr_endpoint ai (htons port))) = Some t \<and> h_val t = server \<and>
        conn_get m server = Some c \<and> c_stat c \<noteq> CONN_CLOSED)"

lemma connect_pooled:
  assumes "pooled m h host port server"
  shows "\<exists>hp. net_connect_to_server m (hc_dns h) (hc_pool h) host (htons port) gai sys =
      Some (Some server, m\<lparr>conns := hp\<rparr>, hc_dns h, hc_pool h) \<and>
    (\<forall>q. conn_get (m\<lparr>conns := hp\<rparr>) q = conn_get m q) \<and>
    (\<forall>q. mem_cnt hp q = mem_cnt (conns m) q + (if q = server then 1 else 0))"
proof -
  from assms obtain e ai as t c where a: "main_stat m = RUNING" "HASH_FIND (hc_dns h) host = Some e" "h_val e = ai # as"
    "ai_family ai = AF_INET \<or> ai_family ai = AF_INET6"
    "HASH_FIND (hc_pool h) (ep_key (addr_endpoint ai (htons port))) = Some t" "h_val t = server"
    "conn_get m server = Some c" "c_stat c \<noteq> CONN_CLOSED" by (auto simp: pooled_def)
  from conn_incref_ok [OF a(7)] obtain hp where hp: "conn_incref m server = Some (m\<lparr>conns := hp\<rparr>)"
    "\<forall>q. conn_get (m\<lparr>conns := hp\<rparr>) q = conn_get m q"
    "\<forall>q. mem_cnt hp q = mem_cnt (conns m) q + (if q = server then 1 else 0)" by blast
  have z: "zip (ai # as) (map sys [0..<Suc (length as)]) = (ai, sys 0) # zip as (map sys [1..<Suc (length as)])"
    by (simp add: upt_conv_Cons del: upt_Suc)
  have "net_connect_to_server m (hc_dns h) (hc_pool h) host (htons port) gai sys =
      Some (Some server, m\<lparr>conns := hp\<rparr>, hc_dns h, hc_pool h)"
    using a hp(1) by (auto simp: net_connect_to_server_def net_dns_lookup_a_def z simp del: upt_Suc)
  with hp(2,3) show ?thesis by blast
qed

lemma first_word_req_line: "method_word me \<Longrightarrow> first_word (req_line me u a b) = me"
proof -
  assume m: "method_word me"
  have "\<forall>c \<in> set me. c \<noteq> CHR '' ''" using m by (auto simp: method_word_def ch_class_defs)
  then show ?thesis by (simp add: first_word_def takeWhile_append2)
qed

lemma with_host_length: "length (header_text (with_host kvs host)) \<le> length (header_text kvs) + length host + 8"
  by (simp add: with_host_def header_text_def)

lemma http_method_cases:
  "me \<in> {''GET'', ''POST'', ''PUT'', ''DELETE''} \<Longrightarrow> first_word s = me \<Longrightarrow>
   net_get_handler handlers s = Some \<lparr>nh_method = me, nh_req = NetHttpReq, nh_rsp = NetHttpRsp\<rparr>"
  by (auto simp: handlers_def handlers_after_init)

lemma rheap_alloc:
  assumes "rheap_inv h" "mem_alloc_auto h x = (p, h')"
  shows "mem_read h' p = Some x" "mem_cnt h' p = 1" "mem_read h p = None"
proof -
  have "cells h (next_addr h) = None"
    using assms(1) unfolding rheap_inv_def by (metis less_irrefl option.exhaust surj_pair)
  with assms(2) show "mem_read h' p = Some x" "mem_cnt h' p = 1" "mem_read h p = None"
    by (auto simp: mem_alloc_auto_def mem_read_def mem_cnt_def)
qed

lemma req_decref_keeps:
  assumes "mem_read (hc_reqs h) p = Some rq" "1 < mem_cnt (hc_reqs h) p"
  shows "\<exists>rs. req_decref h p = Some (h\<lparr>hc_reqs := rs\<rparr>) \<and> mem_read rs p = Some rq \<and> mem_cnt rs p = mem_cnt (hc_reqs h) p - 1"
proof -
  obtain k where "cells (hc_reqs h) p = Some (k, rq)" "1 < k"
    using assms by (auto simp: mem_read_def mem_cnt_def)
  then show ?thesis
    by (intro exI [of _ "(hc_reqs h)\<lparr>cells := (cells (hc_reqs h))(p \<mapsto> (k - 1, rq))\<rparr>"])
      (simp add: req_decref_def mem_decref_def mem_read_def mem_cnt_def)
qed

lemma req_line_nul:
  assumes "req_ok me sch host po pa a b hs"
  shows "NUL \<notin> set (req_line me (uri_text sch host po pa) a b)"
proof -
  have "NUL \<notin> set me" "NUL \<notin> set sch" "NUL \<notin> set a" "NUL \<notin> set b" "NUL \<notin> set pa" "NUL \<notin> set host"
    using assms by (auto simp: req_ok_def method_word_def http_version_def abs_path_def host_name_def host_char_def ch_class_defs)
  moreover have "NUL \<notin> set (port_text po)" using assms hostport_chars(3) [of host po] by (simp add: req_ok_def)
  ultimately show ?thesis by (simp add: uri_text_def)
qed

text \<open>The head of a request, fetched and parsed.\<close>

lemma fetched_req:
  assumes r: "req_ok me sch host po pa a b hs" and lv: "live m p c"
    and i: "in_bytes m c = req_line me (uri_text sch host po pa) a b @ crlf @ wire hs @ crlf @ rest"
  shows "\<exists>m' c' d rq. net_fetch_http m p net_data_init = Ret (0, d) m' \<and>
    popped m p c (req_line me (uri_text sch host po pa) a b @ crlf @ wire hs @ crlf) m' c' \<and> in_bytes m' c' = rest \<and>
    c_string (nd_buf d) = Some (req_line me (uri_text sch host po pa) a b) \<and>
    net_parse_req (junk\<lparr>rq_data := d\<rparr>) = Some (0, rq) \<and> req_is rq me host (path_or_root pa) (port_num po) \<and>
    ver_major rq = int (digits_val a) \<and> ver_minor rq = int (digits_val b) \<and> small_int (ver_major rq) \<and> small_int (ver_minor rq) \<and>
    ent_vals (rq_data rq) (map hdr_kv hs) \<and> hash_inv (nd_table (rq_data rq))"
proof -
  let ?l = "req_line me (uri_text sch host po pa) a b"
  have ne: "?l \<noteq> ''''" by simp
  have ho: "\<forall>h \<in> set hs. hdr_ok h" and lim: "length (?l @ NUL # stored hs) + 1 < HTTP_HEADER_MAXLEN"
    using r by (auto simp: req_ok_def)
  obtain m1 c1 d where f: "net_fetch_http m p net_data_init = Ret (0, d) m1" "popped m p c (?l @ crlf @ wire hs @ crlf) m1 c1"
    "sb (nd_buf d) (?l @ NUL # stored hs)" "hash_inv (nd_table d)"
    "ents_at (length ?l + 1) (stored hs) (hash_iter (nd_table d)) (map hdr_kv hs)"
    using net_fetch_http_live [OF req_line_chars [OF r] ne ho lv i lim] by blast
  have "in_bytes m1 c1 = rest" using f(2) i by (auto simp: popped_def)
  moreover have "c_string (nd_buf d) = Some ?l"
    unfolding c_string_def by (rule sb_word [where pre = "''''" and post = "stored hs"]) (use f(3) req_line_nul [OF r] in auto)
  moreover obtain rq where rq: "net_parse_req (junk\<lparr>rq_data := d\<rparr>) = Some (0, rq)" "req_is rq me host (path_or_root pa) (port_num po)"
    "ver_major rq = int (digits_val a)" "ver_minor rq = int (digits_val b)"
    "ent_vals (rq_data rq) (map hdr_kv hs)" "hash_inv (nd_table (rq_data rq))"
    using parsed_req [OF r, of "junk\<lparr>rq_data := d\<rparr>"] f(3-5) by (auto simp: rq_buf_def)
  moreover have "small_int (ver_major rq)" "small_int (ver_minor rq)"
    using rq(3,4) r by (simp_all add: small_int_def req_ok_def http_version_def)
  ultimately show ?thesis using f(1,2) by blast
qed

text \<open>The handler of a request whose server is in the client's pool: the request that has just been
  parsed is the only one at its address.\<close>

lemma pooled_request_relayed:
  assumes me: "me \<noteq> ''HEAD''" and rq: "req_is rq me host path port" "small_int (ver_major rq)" "small_int (ver_minor rq)"
      "ent_vals (rq_data rq) kvs" "hash_inv (nd_table (rq_data rq))" "distinct (map fst kvs)"
    and al: "mem_alloc_auto (hc_reqs h) rq = (p, rs)" and hp: "rheap_inv (hc_reqs h)"
    and l: "link m server (hc_client h) cd cs n" and po: "pooled m h host port server" and cnt: "0 \<le> mem_cnt (conns m) server"
    and q: "lq_holds (hc_list h) xs" "lq_holds (ev_queue m) evs"
    and w: "framed (with_host kvs host) w" and i: "in_bytes m cs = w @ rest"
    and s: "length me + length path + length (header_text (with_host kvs host)) + 80 < 2 ^ 30"
    and n: "length (req_out me path (ver_major rq) (ver_minor rq) (with_host kvs host) @ w) \<le> n"
  shows "\<exists>m' h' cd' cs' rq'. net_http_req_handler m (h\<lparr>hc_reqs := rs\<rparr>) p (t # tries) = Ret (0, h') m' \<and>
    link m' server (hc_client h) cd' cs' (n - length (req_out me path (ver_major rq) (ver_minor rq) (with_host kvs host) @ w)) \<and>
    out_bytes m' cd' = out_bytes m cd @ req_out me path (ver_major rq) (ver_minor rq) (with_host kvs host) @ w \<and>
    in_bytes m' cs' = rest \<and> lq_holds (hc_list h') (xs @ [(server, p)]) \<and>
    lq_holds (ev_queue m') (evs @ (if rsp_blocked h then [(ev_notice_rsp h, 1)] else [])) \<and>
    mem_cnt (conns m') server = mem_cnt (conns m) server + 1 \<and> mem_cnt (hc_reqs h') p = 2 \<and>
    mem_read (hc_reqs h') p = Some rq' \<and> req_is rq' me host path port"
proof -
  note ra = rheap_alloc [OF hp al]
  let ?h1 = "h\<lparr>hc_reqs := rs\<rparr>"
  obtain gai sys where t: "t = (gai, sys)" by (cases t)
  obtain cs2 where con: "net_connect_to_server m (hc_dns ?h1) (hc_pool ?h1) host (htons port) gai sys =
      Some (Some server, m\<lparr>conns := cs2\<rparr>, hc_dns h, hc_pool h)"
    "\<forall>q. conn_get (m\<lparr>conns := cs2\<rparr>) q = conn_get m q" "mem_cnt cs2 server = mem_cnt (conns m) server + 1"
    using connect_pooled [OF po] by fastforce
  let ?m2 = "m\<lparr>conns := cs2\<rparr>"
  have l2: "link ?m2 server (hc_client ?h1) cd cs n" and i2: "in_bytes ?m2 cs = w @ rest" and o2: "out_bytes ?m2 cd = out_bytes m cd"
    using link_same [OF l, of ?m2] con(2) i by auto
  have pre: "mem_read (hc_reqs ?h1) p = Some rq" "0 < mem_cnt (conns ?m2) server" "lq_holds (hc_list ?h1) xs" "lq_holds (ev_queue ?m2) evs"
    using ra(1) cnt con(3) q by simp_all
  from request_relayed [OF pre(1) rq(1) me rq(2-6) con(1) l2 pre(2-4) w i2 s n, where tries = tries] ra(2) con(3) o2 t
  show ?thesis by (fastforce cong: if_cong)
qed

text \<open>What the request coroutine is given, and what one round makes of it.\<close>

lemma request_round:
  assumes me: "me \<in> {''GET'', ''POST'', ''PUT'', ''DELETE''}" and r: "req_ok me sch host po pa a b hs"
    and l: "link m server (hc_client h) cd cs n" and hp: "rheap_inv (hc_reqs h)"
    and po: "pooled m h host (port_num po) server" and cnt: "0 \<le> mem_cnt (conns m) server"
    and q: "lq_holds (hc_list h) xs" "lq_holds (ev_queue m) evs"
    and w: "framed (with_host (map hdr_kv hs) host) w"
    and i: "in_bytes m cs = req_wire me sch host po pa a b hs w @ rest"
    and n: "length (req_out me (path_or_root pa) (int (digits_val a)) (int (digits_val b)) (with_host (map hdr_kv hs) host) @ w) \<le> n"
  shows "\<exists>m' h' cd' cs' p rq. req_round m h junk (t # tries) = Ret (None, h') m' \<and>
    link m' server (hc_client h) cd' cs'
      (n - length (req_out me (path_or_root pa) (int (digits_val a)) (int (digits_val b)) (with_host (map hdr_kv hs) host) @ w)) \<and>
    out_bytes m' cd' = out_bytes m cd @
      req_out me (path_or_root pa) (int (digits_val a)) (int (digits_val b)) (with_host (map hdr_kv hs) host) @ w \<and>
    in_bytes m' cs' = rest \<and> lq_holds (hc_list h') (xs @ [(server, p)]) \<and>
    lq_holds (ev_queue m') (evs @ (if rsp_blocked h then [(ev_notice_rsp h, 1)] else [])) \<and>
    mem_cnt (conns m') server = mem_cnt (conns m) server + 1 \<and>
    mem_read (hc_reqs h') p = Some rq \<and> mem_cnt (hc_reqs h') p = 1 \<and> req_is rq me host (path_or_root pa) (port_num po)"
proof -
  let ?line = "req_line me (uri_text sch host po pa) a b" and ?c = "hc_client h"
  have lim: "length (?line @ NUL # stored hs) + 1 < HTTP_HEADER_MAXLEN"
    and mw: "method_word me" and dk: "distinct (map fst (map hdr_kv hs))"
    using r by (auto simp: req_ok_def)
  have lv: "live m ?c cs" and g: "conn_get m ?c = Some cs" "c_stat cs \<noteq> CONN_CLOSED" "main_stat m = RUNING"
    using l by (auto simp: link_def live_def)
  have i0: "in_bytes m cs = ?line @ crlf @ wire hs @ crlf @ (w @ rest)" using i by (simp add: req_wire_def)
  obtain m1 cs1 d rq where f: "net_fetch_http m ?c net_data_init = Ret (0, d) m1"
      "popped m ?c cs (?line @ crlf @ wire hs @ crlf) m1 cs1" and i1: "in_bytes m1 cs1 = w @ rest"
    and st: "c_string (nd_buf d) = Some ?line"
    and rq: "net_parse_req (junk\<lparr>rq_data := d\<rparr>) = Some (0, rq)" "req_is rq me host (path_or_root pa) (port_num po)"
      "ver_major rq = int (digits_val a)" "ver_minor rq = int (digits_val b)"
      "ent_vals (rq_data rq) (map hdr_kv hs)" "hash_inv (nd_table (rq_data rq))"
    and sv: "small_int (ver_major rq)" "small_int (ver_minor rq)"
    using fetched_req [OF r lv i0, where junk = junk] by blast
  note p1 = popped_passes [OF l f(2)]
  have l1: "link m1 server ?c cd cs1 n" using passes_link [OF p1] by simp
  have o1: "out_bytes m1 cd = out_bytes m cd" using p1 by (simp add: passes_def)
  have c1: "mem_cnt (conns m1) x = mem_cnt (conns m) x" for x using p1 by (simp add: passes_def)
  have e1: "ev_queue m1 = ev_queue m" using p1 by (simp add: passes_def)
  have po1: "pooled m1 h host (port_num po) server"
  proof -
    have "conn_get m server = Some cd" "conn_get m1 server = Some cd" "c_stat cd \<noteq> CONN_CLOSED" "main_stat m1 = RUNING"
      using l l1 by (auto simp: link_def wlive_def)
    then show ?thesis using po by (auto simp: pooled_def)
  qed
  note nh = http_method_cases [OF me first_word_req_line [OF mw, of "uri_text sch host po pa" a b]]
  obtain p rs where al: "mem_alloc_auto (hc_reqs h) rq = (p, rs)" by fastforce
  have s: "length me + length (path_or_root pa) + length (header_text (with_host (map hdr_kv hs) host)) + 80 < 2 ^ 30"
    using lim with_host_length [of "map hdr_kv hs" host] hdr_text_length [of hs]
    by (simp add: HTTP_HEADER_MAXLEN_def uri_text_def path_or_root_def)
  have mh: "me \<noteq> ''HEAD''" using me by auto
  have pre: "0 \<le> mem_cnt (conns m1) server" "lq_holds (ev_queue m1) evs"
    "length (req_out me (path_or_root pa) (ver_major rq) (ver_minor rq) (with_host (map hdr_kv hs) host) @ w) \<le> n"
    using cnt c1 q(2) e1 n rq(3,4) by simp_all
  obtain m3 h3 cd3 cs3 rq' where h3: "net_http_req_handler m1 (h\<lparr>hc_reqs := rs\<rparr>) p (t # tries) = Ret (0, h3) m3"
      "link m3 server ?c cd3 cs3 (n - length (req_out me (path_or_root pa) (ver_major rq) (ver_minor rq) (with_host (map hdr_kv hs) host) @ w))"
      "out_bytes m3 cd3 = out_bytes m1 cd @ req_out me (path_or_root pa) (ver_major rq) (ver_minor rq) (with_host (map hdr_kv hs) host) @ w"
      "in_bytes m3 cs3 = rest" "lq_holds (hc_list h3) (xs @ [(server, p)])"
      "lq_holds (ev_queue m3) (evs @ (if rsp_blocked h then [(ev_notice_rsp h, 1)] else []))"
      "mem_cnt (conns m3) server = mem_cnt (conns m1) server + 1" "mem_cnt (hc_reqs h3) p = 2"
      "mem_read (hc_reqs h3) p = Some rq'" "req_is rq' me host (path_or_root pa) (port_num po)"
    using pooled_request_relayed [OF mh rq(2) sv rq(5,6) dk al hp l1 po1 pre(1) q(1) pre(2) w i1 s pre(3), where t = t and tries = tries] by blast
  obtain rs' where d: "req_decref h3 p = Some (h3\<lparr>hc_reqs := rs'\<rparr>)" "mem_read rs' p = Some rq'" "mem_cnt rs' p = 1"
    using req_decref_keeps [OF h3(9)] h3(8) by auto
  have "req_round m h junk (t # tries) = Ret (None, h3\<lparr>hc_reqs := rs'\<rparr>) m3"
    using g f(1) st nh rq(1) al h3(1) d(1)
    by (simp add: req_round_def io_conn_def call_req_handler_def Let_def)
  with h3(2-7,10) d rq(3,4) o1 c1 show ?thesis
    by (intro exI [of _ m3] exI [of _ "h3\<lparr>hc_reqs := rs'\<rparr>"] exI [of _ cd3] exI [of _ cs3] exI [of _ p] exI [of _ rq']) simp
qed

lemma rsp_finish_open:
  assumes l: "lq_holds (hc_list h) ((server, p) # xs)" and g: "conn_get m server = Some c" "c_stat c \<noteq> CONN_CLOSED"
    and cnt: "1 < mem_cnt (conns m) server" and ret: "ret \<noteq> 100" and rq: "mem_read (hc_reqs h) p = Some rq"
  shows "\<exists>hp rs q. rsp_finish m h ret = Some (m\<lparr>conns := hp\<rparr>, h\<lparr>hc_reqs := rs, hc_list := q\<rparr>) \<and> lq_holds q xs \<and>
    (\<forall>x. conn_get (m\<lparr>conns := hp\<rparr>) x = conn_get m x) \<and>
    (\<forall>x. mem_cnt hp x = mem_cnt (conns m) x - (if x = server then 1 else 0))"
proof -
  obtain hp where d: "conn_decref m server = Some (m\<lparr>conns := hp\<rparr>)" "\<forall>x. conn_get (m\<lparr>conns := hp\<rparr>) x = conn_get m x"
    "\<forall>x. mem_cnt hp x = mem_cnt (conns m) x - (if x = server then 1 else 0)"
    using conn_decref_more_ok [OF g(1) cnt] by blast
  obtain rs where rs: "req_decref h p = Some (h\<lparr>hc_reqs := rs\<rparr>)" using req_decref_ok [OF rq] by blast
  obtain q where q: "lq_deq (hc_list h) = Some q" "lq_holds q xs" using lq.deq_holds [OF l] by blast
  have "rsp_finish m h ret = Some (m\<lparr>conns := hp\<rparr>, h\<lparr>hc_reqs := rs, hc_list := q\<rparr>)"
    using lq.peek_holds [OF l] g ret d(1) rs q(1) by (simp add: rsp_finish_def Let_def)
  with d q(2) show ?thesis by blast
qed

lemma response_round:
  assumes l: "link m (hc_client h) server cd cs n" and r: "rsp_ok a b code msg hs"
    and v: "100 < digits_val a * 100 + digits_val b" and w: "framed (map hdr_kv hs) w" and code: "digits_val code \<noteq> 100"
    and i: "in_bytes m cs = rsp_wire a b code msg hs w @ rest" and n: "length (rsp_out a b code msg hs w) \<le> n"
    and q: "lq_holds (hc_list h) ((server, p) # xs)" "mem_read (hc_reqs h) p = Some rq" "req_is rq me host path port"
    and me: "me \<in> {''GET'', ''POST'', ''PUT'', ''DELETE'', ''HEAD''}" and cnt: "1 < mem_cnt (conns m) server"
  shows "\<exists>m' h' cd' cs'. rsp_round m h = Ret (RspAgain, h') m' \<and>
    link m' (hc_client h) server cd' cs' (n - length (rsp_out a b code msg hs w)) \<and>
    out_bytes m' cd' = out_bytes m cd @ rsp_out a b code msg hs w \<and> in_bytes m' cs' = rest \<and>
    lq_holds (hc_list h') xs \<and> mem_cnt (conns m') server = mem_cnt (conns m) server - 1 \<and>
    hc_log h' = hc_log h @ [(c_ep cd', host, path, sint (of_nat (length (rsp_out a b code msg hs w)) :: 32 word))]"
proof -
  have f: "lq_first (hc_list h) = Some (server, p)" using lq.peek_holds [OF q(1)] .
  obtain m1 cd1 cs1 where h: "net_http_rsp_handler m h server =
      Ret (int (digits_val code), log_http_req h (c_ep cd1) host path (sint (c_tx cd1))) m1"
    "out_bytes m1 cd1 = out_bytes m cd @ rsp_out a b code msg hs w" "in_bytes m1 cs1 = rest"
    "c_tx cd1 = of_nat (length (rsp_out a b code msg hs w))"
    "link m1 (hc_client h) server cd1 cs1 (n - length (rsp_out a b code msg hs w))"
    "\<forall>q. mem_cnt (conns m1) q = mem_cnt (conns m) q"
    using response_relayed [OF l r v w i n f q(2,3)] by blast
  let ?h1 = "log_http_req h (c_ep cd1) host path (sint (c_tx cd1))"
  have l1: "lq_holds (hc_list ?h1) ((server, p) # xs)" "mem_read (hc_reqs ?h1) p = Some rq"
    using q(1,2) by (simp_all add: log_http_req_def)
  have g1: "conn_get m1 server = Some cs1" "c_stat cs1 \<noteq> CONN_CLOSED" using h(5) by (auto simp: link_def live_def)
  have cnt1: "1 < mem_cnt (conns m1) server" and code': "int (digits_val code) \<noteq> 100" using cnt h(6) code by auto
  obtain hp rs q2 where d: "rsp_finish m1 ?h1 (int (digits_val code)) = Some (m1\<lparr>conns := hp\<rparr>, ?h1\<lparr>hc_reqs := rs, hc_list := q2\<rparr>)"
    "lq_holds q2 xs" "\<forall>x. conn_get (m1\<lparr>conns := hp\<rparr>) x = conn_get m1 x" "mem_cnt hp server = mem_cnt (conns m1) server - 1"
    using rsp_finish_open [OF l1(1) g1 cnt1 code' l1(2)] by fastforce
  have st: "c_string (rq_buf rq) = Some me" using q(3) by (simp add: req_is_def c_string_def)
  have nh: "\<exists>k. net_get_handler handlers me = Some k \<and> nh_rsp k = NetHttpRsp"
    using me by (auto simp: handlers_def handlers_after_init first_word_def)
  have lh: "lq_head (hc_list h) \<noteq> None" using f by (auto simp: lq_first_def split: option.splits)
  have "conn_get m (hc_client h) = Some cd" "c_stat cd \<noteq> CONN_CLOSED" "main_stat m = RUNING" using l by (auto simp: link_def wlive_def)
  then have "rsp_round m h = Ret (RspAgain, ?h1\<lparr>hc_reqs := rs, hc_list := q2\<rparr>) (m1\<lparr>conns := hp\<rparr>)"
    using lh f q(2) st nh h(1) d(1) by (auto simp: rsp_round_def io_conn_def call_rsp_handler_def)
  moreover note link_same [OF h(5), of "m1\<lparr>conns := hp\<rparr>"]
  moreover have "hc_log (?h1\<lparr>hc_reqs := rs, hc_list := q2\<rparr>) = hc_log h @ [(c_ep cd1, host, path, sint (c_tx cd1))]"
    by (simp add: log_http_req_def)
  ultimately show ?thesis using d h
    by (intro exI [of _ "m1\<lparr>conns := hp\<rparr>"] exI [of _ "?h1\<lparr>hc_reqs := rs, hc_list := q2\<rparr>"] exI [of _ cd1] exI [of _ cs1]) simp
qed

subsection \<open>Requests that are refused\<close>

lemma drop_fd_same: "k_open (drop_fd m fd) = k_open m - {fd} \<and> conns (drop_fd m fd) = conns m \<and> socks (drop_fd m fd) = socks m"
  by (simp add: drop_fd_def k_close_def net_pull_del_def epoll_ctl_del_def split: option.splits)

lemma conn_close_open:
  assumes "conn_get m p = Some c" "c_stat c \<noteq> CONN_CLOSED"
  shows "\<exists>m'. conn_close m p = Some m' \<and> conn_get m' p = Some (c\<lparr>c_stat := CONN_CLOSED\<rparr>) \<and> socks m' = socks m \<and>
    k_open m' = k_open m - {c_fd c}"
proof -
  have "conn_get (drop_fd m (c_fd c)) p = Some c" using assms(1) drop_fd_same [of m "c_fd c"] by (simp add: conn_get_def)
  from conn_upd_eq [OF this, of "\<lambda>c. c\<lparr>c_stat := CONN_CLOSED\<rparr>"] show ?thesis
    using assms drop_fd_same [of m "c_fd c"] by (auto simp: conn_close_def)
qed

lemma net_bad_request_ok:
  assumes l: "wlive m p c n" and n: "length bad_request_msg \<le> n"
  shows "\<exists>m' c'. net_bad_request m p = Ret () m' \<and> conn_get m' p = Some c' \<and> c_stat c' = CONN_CLOSED \<and>
    out_bytes m' c' = out_bytes m c @ bad_request_msg \<and> c_fd c \<notin> k_open m'"
proof -
  obtain m1 c1 where w: "conn_write m p bad_request_msg = Ret 0 m1" "pushed m p c n bad_request_msg m1 c1"
    using conn_write_live [OF l n] by blast
  then have g: "conn_get m1 p = Some c1" "c_stat c1 \<noteq> CONN_CLOSED" "c_fd c1 = c_fd c"
    "out_bytes m1 c1 = out_bytes m c @ bad_request_msg"
    by (auto simp: pushed_def wlive_def out_bytes_def)
  obtain m2 where "conn_close m1 p = Some m2" "conn_get m2 p = Some (c1\<lparr>c_stat := CONN_CLOSED\<rparr>)" "socks m2 = socks m1"
    "k_open m2 = k_open m1 - {c_fd c1}" using conn_close_open [OF g(1,2)] by blast
  with l w(1) g show ?thesis
    by (auto simp: net_bad_request_def io_conn_def io_opt_def wlive_def out_bytes_def)
qed

lemma popped_wlive:
  assumes "popped m p c d m' c'" "wlive m p c n"
  shows "wlive m' p c' n" "out_bytes m' c' = out_bytes m c"
  using assms by (auto simp: popped_def wlive_def live_def out_bytes_def)

lemma unknown_method_refused:
  assumes l: "\<forall>x \<in> set l. line_char x" "l \<noteq> ''''" "NUL \<notin> set l" and hs: "\<forall>h \<in> set hs. hdr_ok h"
    and lv: "live m (hc_client h) c" "wlive m (hc_client h) c n" "length bad_request_msg \<le> n"
    and i: "in_bytes m c = l @ crlf @ wire hs @ crlf @ rest"
    and lim: "length (l @ NUL # stored hs) + 1 < HTTP_HEADER_MAXLEN"
    and me: "first_word l \<notin> {''GET'', ''POST'', ''HEAD'', ''PUT'', ''DELETE'', ''CONNECT''}"
  shows "\<exists>m' c'. req_round m h junk tries = Ret (Some (-1), h) m' \<and> conn_get m' (hc_client h) = Some c' \<and>
    c_stat c' = CONN_CLOSED \<and> out_bytes m' c' = out_bytes m c @ bad_request_msg \<and> c_fd c \<notin> k_open m'"
proof -
  obtain m1 c1 d where f: "net_fetch_http m (hc_client h) net_data_init = Ret (0, d) m1"
      "popped m (hc_client h) c (l @ crlf @ wire hs @ crlf) m1 c1" "sb (nd_buf d) (l @ NUL # stored hs)"
    using net_fetch_http_live [OF l(1,2) hs lv(1) i lim] by blast
  note w1 = popped_wlive [OF f(2) lv(2)]
  have fd: "c_fd c1 = c_fd c" using f(2) by (simp add: popped_def)
  obtain m2 c2 where b: "net_bad_request m1 (hc_client h) = Ret () m2" "conn_get m2 (hc_client h) = Some c2"
    "c_stat c2 = CONN_CLOSED" "out_bytes m2 c2 = out_bytes m c @ bad_request_msg" "c_fd c \<notin> k_open m2"
    using net_bad_request_ok [OF w1(1) lv(3)] w1(2) fd by auto
  have st: "c_string (nd_buf d) = Some l"
    unfolding c_string_def by (rule sb_word [where pre = "''''" and post = "stored hs"]) (use f(3) l(3) in auto)
  have "net_get_handler handlers l = None" using me by (simp add: handlers_def handlers_after_init)
  with lv(1) f(1) st b show ?thesis by (simp add: req_round_def io_conn_def live_def)
qed

subsection \<open>A new connection\<close>

lemma net_pull_add_frame:
  "conns (snd (net_pull_add m fd c)) = conns m \<and> ev_queue (snd (net_pull_add m fd c)) = ev_queue m \<and>
   ev_handlers (snd (net_pull_add m fd c)) = ev_handlers m \<and> id_max (snd (net_pull_add m fd c)) = id_max m \<and>
   socks (snd (net_pull_add m fd c)) = socks m \<and> main_stat (snd (net_pull_add m fd c)) = main_stat m"
  by (simp add: net_pull_add_def epoll_ctl_add_def split: option.splits)

lemma conn_get_by_endpoint_new:
  assumes inv: "pull_inv m" "0 \<le> epollfd m" and hp: "rheap_inv (conns m)" and none: "pool_of m ep = []" and fresh: "fd \<notin> k_open m"
  defines "p \<equiv> next_addr (conns m)"
  shows "\<exists>m'. conn_get_by_endpoint (Some fd) True ConnOk m ep = Some (Some p, m') \<and>
    conn_get m' p = Some (conn_init conn_blank fd (Some ep)) \<and> mem_cnt (conns m') p = 1 \<and>
    (\<forall>q. q \<noteq> p \<longrightarrow> conn_get m' q = conn_get m q \<and> mem_cnt (conns m') q = mem_cnt (conns m) q) \<and>
    pull_inv m' \<and> epollfd m' = epollfd m \<and> k_open m' = insert fd (k_open m) \<and> main_stat m' = main_stat m \<and>
    ev_queue m' = ev_queue m \<and> ev_handlers m' = ev_handlers m \<and> id_max m' = id_max m \<and> socks m' = socks m \<and>
    np_handler_of m' = (np_handler_of m)(fd \<mapsto> \<lparr>nh_fd = fd, h_read = None, h_write = None, h_err = Some (ConnErr p)\<rparr>)"
proof -
  have none': "conn_addrpool_try_get_and_del m ep = Some (None, m)"
    using none by (auto simp: conn_addrpool_try_get_and_del_def pool_of_def hash_lookup_def split: option.splits list.splits)
  define m2 where "m2 = m\<lparr>k_open := insert fd (k_open m), conns := \<lparr>cells = (cells (conns m))(p \<mapsto> (1, conn_blank)), next_addr = Suc p\<rparr>\<rparr>"
  have al: "conn_alloc (k_socket m fd) conn_blank = (p, m2)"
    by (simp add: conn_alloc_def mem_alloc_auto_def k_socket_def m2_def p_def)
  have np: "np_handler_of m2 = np_handler_of m" by (simp add: m2_def np_handler_of_def fun_eq_iff)
  have i2: "pull_inv m2" using inv(1) by (auto simp: m2_def pull_inv_def np_handler_of_def)
  have k2: "0 \<le> epollfd m2" "fd \<in> k_open m2" "fd \<notin> k_interest m2" "epollfd m2 = epollfd m" "k_open m2 = insert fd (k_open m)"
    using inv fresh by (auto simp: m2_def pull_inv_def)
  obtain m3 where m3: "net_pull_add m2 fd (Some (ConnErr p)) = (0, m3)" "pull_inv m3" "k_open m3 = k_open m2" "epollfd m3 = epollfd m2"
    "np_handler_of m3 = (np_handler_of m2)(fd \<mapsto> \<lparr>nh_fd = fd, h_read = None, h_write = None, h_err = Some (ConnErr p)\<rparr>)"
    using net_pull_add_ok [OF i2 k2(1-3), of "Some (ConnErr p)"] by auto
  have f3: "conns m3 = conns m2" "ev_queue m3 = ev_queue m" "ev_handlers m3 = ev_handlers m" "id_max m3 = id_max m"
    "socks m3 = socks m" "main_stat m3 = main_stat m"
    using net_pull_add_frame [of m2 fd "Some (ConnErr p)"] m3(1) by (simp_all add: m2_def)
  have g3: "conn_get m3 p = Some conn_blank" using f3(1) by (simp add: conn_get_def mem_read_def m2_def)
  from conn_upd_eq [OF g3, of "\<lambda>c. conn_init c fd (Some ep)"] obtain h where
    h: "conn_upd m3 p (\<lambda>c. conn_init c fd (Some ep)) = Some (m3\<lparr>conns := h\<rparr>)"
      "conn_get (m3\<lparr>conns := h\<rparr>) p = Some (conn_init conn_blank fd (Some ep))"
      "\<forall>q. (q \<noteq> p \<longrightarrow> conn_get (m3\<lparr>conns := h\<rparr>) q = conn_get m3 q) \<and> mem_cnt h q = mem_cnt (conns m3) q" by blast
  have r: "conn_get_by_endpoint (Some fd) True ConnOk m ep = Some (Some p, m3\<lparr>conns := h\<rparr>)"
    using none' al m3(1) h(1) by (simp add: conn_get_by_endpoint_def Let_def)
  have o: "q \<noteq> p \<Longrightarrow> conn_get m3 q = conn_get m q \<and> mem_cnt (conns m3) q = mem_cnt (conns m) q" for q
    using f3(1) by (simp add: conn_get_def mem_read_def mem_cnt_def m2_def)
  have c1: "mem_cnt h p = 1" using h(3) f3(1) by (simp add: mem_cnt_def m2_def)
  have np': "np_handler_of (m3\<lparr>conns := h\<rparr>) = np_handler_of m3" by (simp add: np_handler_of_def fun_eq_iff)
  show ?thesis
    by (rule exI [of _ "m3\<lparr>conns := h\<rparr>"]) (use r h(2,3) o c1 np' np m3 f3 k2 in simp)
qed

lemma connect_fresh:
  assumes inv: "pull_inv m" "0 \<le> epollfd m" "uniq_table (ev_handlers m)" "main_stat m = RUNING" and hp: "rheap_inv (conns m)"
    and dns: "HASH_FIND dns host = None" "length host < DOMAIN_MAXLEN" "gai = GaiDone [] (Some (ai # as))"
    and fam: "ai_family ai = AF_INET \<or> ai_family ai = AF_INET6"
    and pool: "HASH_FIND pool (ep_key (addr_endpoint ai port)) = None" "pool_of m (addr_endpoint ai port) = []"
    and sys: "cs_sock (sys 0) = Some fd" "cs_nonblock (sys 0)" "cs_conn (sys 0) = ConnOk" and fresh: "fd \<notin> k_open m"
  defines "p \<equiv> next_addr (conns m)"
  shows "\<exists>m'. net_connect_to_server m dns pool host port gai sys =
      Some (Some p, m', HASH_ADD dns host (ai # as), HASH_ADD pool (ep_key (addr_endpoint ai port)) p) \<and>
    conn_get m' p = Some (conn_init conn_blank fd (Some (addr_endpoint ai port))) \<and> mem_cnt (conns m') p = 2 \<and>
    (\<forall>q. q \<noteq> p \<longrightarrow> conn_get m' q = conn_get m q \<and> mem_cnt (conns m') q = mem_cnt (conns m) q) \<and>
    pull_inv m' \<and> epollfd m' = epollfd m \<and> k_open m' = insert fd (k_open m) \<and> main_stat m' = RUNING \<and>
    ev_queue m' = ev_queue m \<and> socks m' = socks m \<and> (\<forall>e. e \<noteq> id_max m \<longrightarrow> ev_handler_of m' e = ev_handler_of m e) \<and>
    np_handler_of m' = (np_handler_of m)(fd \<mapsto> \<lparr>nh_fd = fd, h_read = None, h_write = None, h_err = Some (ConnErr p)\<rparr>)"
proof -
  let ?ep = "addr_endpoint ai port"
  define m1 where "m1 = event_free_id (snd (event_get_id m)) (id_max m)"
  have f1: "conns m1 = conns m" "pool_of m1 ep = pool_of m ep" "k_open m1 = k_open m" "epollfd m1 = epollfd m" "main_stat m1 = RUNING"
    "ev_queue m1 = ev_queue m" "socks m1 = socks m" "conn_get m1 q = conn_get m q" "np_handler_of m1 x = np_handler_of m x" for ep q x
    using inv(4) by (simp_all add: m1_def event_free_id_def event_get_id_def pool_of_def conn_get_def np_handler_of_def)
  have i1: "pull_inv m1" using inv(1) by (simp add: m1_def event_free_id_def event_get_id_def pull_inv_def np_handler_of_def)
  have u: "uniq_table (ev_handlers (snd (event_get_id m)))" using inv(3) by (simp add: event_get_id_def)
  have ev1: "ev_handler_of m1 e = ev_handler_of m e" if "e \<noteq> id_max m" for e
    using handler_after_free [OF u, of "id_max m" e] that by (simp add: m1_def event_get_id_def ev_handler_of_def)
  have lk: "net_dns_lookup_a m dns host gai = Some (0, Some (ai # as), m1, HASH_ADD dns host (ai # as))"
    using dns by (simp add: net_dns_lookup_a_def m1_def event_get_id_def env_steps_def)
  have pre: "0 \<le> epollfd m1" "rheap_inv (conns m1)" "pool_of m1 ?ep = []" "fd \<notin> k_open m1"
    using inv(2) hp pool(2) fresh f1 by auto
  from conn_get_by_endpoint_new [OF i1 pre] obtain m2 where
    m2: "conn_get_by_endpoint (Some fd) True ConnOk m1 ?ep = Some (Some p, m2)"
      "conn_get m2 p = Some (conn_init conn_blank fd (Some ?ep))" "mem_cnt (conns m2) p = 1"
      "\<forall>q. q \<noteq> p \<longrightarrow> conn_get m2 q = conn_get m1 q \<and> mem_cnt (conns m2) q = mem_cnt (conns m1) q"
      "pull_inv m2" "epollfd m2 = epollfd m1" "k_open m2 = insert fd (k_open m1)" "main_stat m2 = main_stat m1"
      "ev_queue m2 = ev_queue m1" "ev_handlers m2 = ev_handlers m1" "socks m2 = socks m1"
      "np_handler_of m2 = (np_handler_of m1)(fd \<mapsto> \<lparr>nh_fd = fd, h_read = None, h_write = None, h_err = Some (ConnErr p)\<rparr>)"
    unfolding p_def f1(1) by blast
  obtain hp' where inc: "conn_incref m2 p = Some (m2\<lparr>conns := hp'\<rparr>)" "\<forall>q. conn_get (m2\<lparr>conns := hp'\<rparr>) q = conn_get m2 q"
    "\<forall>q. mem_cnt hp' q = mem_cnt (conns m2) q + (if q = p then 1 else 0)"
    using conn_incref_ok [OF m2(2)] by blast
  have st: "c_stat (conn_init conn_blank fd (Some ?ep)) \<noteq> CONN_CLOSED" by (simp add: conn_init_def)
  have cn: "connect_new m1 pool ?ep (sys 0) = Some (Some p, m2\<lparr>conns := hp'\<rparr>, HASH_ADD pool (ep_key ?ep) p)"
    using sys m2(1,2) st inc(1) by (simp add: connect_new_def)
  have z: "zip (ai # as) (map sys [0..<length (ai # as)]) = (ai, sys 0) # zip as (map sys [1..<Suc (length as)])"
    by (simp add: upt_conv_Cons del: upt_Suc)
  have cl: "connect_loop m1 pool port (zip (ai # as) (map sys [0..<length (ai # as)])) =
      Some (Some p, m2\<lparr>conns := hp'\<rparr>, HASH_ADD pool (ep_key ?ep) p)"
    unfolding z using fam pool(1) f1(5) cn by (auto simp del: upt_Suc)
  have r: "net_connect_to_server m dns pool host port gai sys =
      Some (Some p, m2\<lparr>conns := hp'\<rparr>, HASH_ADD dns host (ai # as), HASH_ADD pool (ep_key ?ep) p)"
    unfolding net_connect_to_server_def lk using cl by (simp del: connect_loop.simps list.size)
  have np: "np_handler_of (m2\<lparr>conns := hp'\<rparr>) = (np_handler_of m)(fd \<mapsto> \<lparr>nh_fd = fd, h_read = None, h_write = None, h_err = Some (ConnErr p)\<rparr>)"
    using m2(12) f1(9) by (simp add: np_handler_of_def fun_eq_iff)
  have ev: "ev_handler_of (m2\<lparr>conns := hp'\<rparr>) e = ev_handler_of m1 e" for e using m2(10) by (simp add: ev_handler_of_def)
  show ?thesis
    by (rule exI [of _ "m2\<lparr>conns := hp'\<rparr>"]) (use r inc m2 f1 ev ev1 np in simp)
qed

end
