(* ===== verification/Log.thy ===== *)
theory Log
  imports Strbuf
begin

text \<open>
  The log, \<^verbatim>\<open>src/core/log.c\<close>. A line is built in a buffer of \<open>PROXY_LOG_LEN\<close> bytes: a header with
  the date, the level and the place, then the message, which is cut and marked with dots when
  it does not fit. The current time, the text of an address and the expansion of the caller's
  format string are parameters.
\<close>

definition PROXY_LOG_LEN :: nat where "PROXY_LOG_LEN = 4096"

definition week_str :: "string list" where
  "week_str = [''Sun.'', ''Mon.'', ''Tue.'', ''Wed.'', ''Thu.'', ''Fri.'', ''Sat.'']"

definition month_str :: "string list" where
  "month_str = [''Jan'', ''Feb'', ''Mar'', ''Apr'', ''May'', ''Jun'', ''Jul'', ''Aug'', ''Sep'', ''Oct'', ''Nov'', ''Dec'']"

record tm =
  tm_wday :: nat
  tm_mday :: nat
  tm_mon :: nat
  tm_year :: nat
  tm_hour :: nat
  tm_min :: nat
  tm_sec :: nat

text \<open>What \<^verbatim>\<open>localtime\<close> may deliver.\<close>

definition tm_ok :: "tm \<Rightarrow> bool" where
  "tm_ok t \<longleftrightarrow> tm_wday t < 7 \<and> tm_mday t \<le> 31 \<and> tm_mon t < 12 \<and> tm_year t < 8000 \<and>
     tm_hour t < 24 \<and> tm_min t < 60 \<and> tm_sec t \<le> 60"

text \<open>\<^verbatim>\<open>%2d\<close> and \<^verbatim>\<open>%02d\<close> of a number that is not negative.\<close>

definition pad_num :: "char \<Rightarrow> nat \<Rightarrow> string" where
  "pad_num p n = (let s = dec_digits n in replicate (2 - length s) p @ s)"

definition log_header :: "tm \<Rightarrow> string \<Rightarrow> string \<Rightarrow> nat \<Rightarrow> string" where
  "log_header t desc file line =
     week_str ! tm_wday t @ '' '' @ pad_num CHR '' '' (tm_mday t) @ '' '' @ month_str ! tm_mon t @ '' '' @
     dec_digits (tm_year t + 1900) @ '' '' @ pad_num CHR ''0'' (tm_hour t) @ '':'' @ pad_num CHR ''0'' (tm_min t) @ '':'' @
     pad_num CHR ''0'' (tm_sec t) @ '' '' @ desc @ '' '' @ file @ ''('' @ dec_digits line @ ''): ''"

subsection \<open>Writing into the buffer\<close>

text \<open>Put the bytes \<open>s\<close> at \<open>off\<close>; undefined outside of the buffer.\<close>

definition put_bytes :: "cmem \<Rightarrow> nat \<Rightarrow> string \<Rightarrow> cmem option" where
  "put_bytes m off s =
     (if off + length s \<le> length m then Some (take off m @ map Some s @ drop (off + length s) m) else None)"

text \<open>\<^verbatim>\<open>snprintf(m + off, n, ...)\<close> with the text \<open>s\<close>: nothing when \<open>n\<close> is 0, else at most \<open>n - 1\<close> bytes
  and a terminator. A negative \<open>n\<close> is converted to an enormous size.\<close>

definition snprintf_at :: "cmem \<Rightarrow> nat \<Rightarrow> int \<Rightarrow> string \<Rightarrow> cmem option" where
  "snprintf_at m off n s =
     (if n = 0 then Some m
      else if n < 0 then put_bytes m off (s @ [NUL])
      else put_bytes m off (take (nat n - 1) s @ [NUL]))"

definition strcat_at :: "cmem \<Rightarrow> nat \<Rightarrow> string \<Rightarrow> cmem option" where
  "strcat_at m off s = Option.bind (cstr_at m off) (\<lambda>t. put_bytes m (off + length t) (s @ [NUL]))"

definition gen_log_string :: "cmem \<Rightarrow> nat \<Rightarrow> string \<Rightarrow> string \<Rightarrow> cmem option" where
  "gen_log_string out out_len header msg =
     Option.bind (snprintf_at out 0 (int out_len) header) (\<lambda>m1.
       let len = length header; rest = int out_len - int len in
       Option.bind (snprintf_at m1 len (rest - 4) msg) (\<lambda>m2.
         if rest - 4 \<le> int (length msg)
         then (if int len + rest - 5 < 0 then None else strcat_at m2 (nat (int len + rest - 5)) '' ...'')
         else Some m2))"

text \<open>The lines that have been written to the log file; \<open>buf\<close> is the static buffer.\<close>

definition PROXY_LOG :: "int \<Rightarrow> int \<Rightarrow> cmem \<Rightarrow> string \<Rightarrow> string \<Rightarrow> string list \<Rightarrow> (cmem \<times> string list) option" where
  "PROXY_LOG verbose level buf header msg lines =
     (if level < verbose then Some (buf, lines)
      else Option.bind (gen_log_string buf PROXY_LOG_LEN header msg) (\<lambda>buf1.
             map_option (\<lambda>s. (buf1, lines @ [s @ [LF]])) (cstr_at buf1 0)))"

definition http_req_line :: "string \<Rightarrow> string \<Rightarrow> string \<Rightarrow> string \<Rightarrow> int \<Rightarrow> string" where
  "http_req_line time_str ip_str host path sz =
     time_str @ '': '' @ ip_str @ '' http://'' @ host @ path @ '' '' @ sprintf_d sz @ [LF]"

subsection \<open>The line that comes out\<close>

definition log_text :: "nat \<Rightarrow> string \<Rightarrow> string \<Rightarrow> string" where
  "log_text n header msg =
     (let room = n - length header - 4
      in if length msg < room then header @ msg else header @ take (room - 1) msg @ '' ...'')"

lemma put_bytes_at:
  "length xs = off \<Longrightarrow> length s \<le> length m \<Longrightarrow> put_bytes (xs @ m) off s = Some (xs @ map Some s @ drop (length s) m)"
  by (simp add: put_bytes_def)

text \<open>The buffer after the two prints: the header, as much of the message as there is room for, and what
  was there before.\<close>

definition log_printed :: "string \<Rightarrow> string \<Rightarrow> char option list \<Rightarrow> char option list" where
  "log_printed header m out = map Some (header @ m) @ Some NUL # drop (length m) (drop (Suc (length header)) out)"

lemma gen_log_string_printed:
  assumes len: "length header + 4 < n" "n \<le> length out" and m: "m = take (n - length header - 5) msg"
  shows "gen_log_string out n header msg =
    (if n - length header - 4 \<le> length msg then strcat_at (log_printed header m out) (n - 5) '' ...''
     else Some (log_printed header m out))"
proof -
  let ?h = "length header" and ?room = "n - length header - 4"
  have r: "0 < ?room" "int n - int ?h - 4 = int ?room" "m = take (?room - 1) msg" using len m by (simp_all add: add.commute)
  have s1: "snprintf_at out 0 (int n) header = Some (map Some header @ Some NUL # drop (Suc ?h) out)"
    using len put_bytes_at [of "[]" 0 "header @ [NUL]" out] by (simp add: snprintf_at_def)
  have lm: "length m < ?room" using r by simp
  have s2: "snprintf_at (map Some header @ Some NUL # drop (Suc ?h) out) ?h (int n - int ?h - 4) msg = Some (log_printed header m out)"
    using r(1) len lm put_bytes_at [of "map Some header" ?h "m @ [NUL]" "Some NUL # drop (Suc ?h) out"]
    unfolding r(2) snprintf_at_def nat_int r(3) [symmetric] by (simp add: log_printed_def)
  have off: "nat (int ?h + (int n - int ?h) - 5) = n - 5" "\<not> int ?h + (int n - int ?h) - 5 < 0"
    "int n - int ?h - 4 \<le> int (length msg) \<longleftrightarrow> ?room \<le> length msg"
    using len by linarith+
  show ?thesis unfolding gen_log_string_def s1 Option.bind.simps Let_def s2 off(1,3) if_not_P [OF off(2)] ..
qed

lemma strcat_cut:
  assumes "length xs = k" "4 \<le> length ts"
  shows "strcat_at (map Some xs @ Some NUL # ts) k '' ...'' = Some (map Some (xs @ '' ...'') @ Some NUL # drop 4 ts)"
proof -
  have "cstr_at (map Some xs @ Some NUL # ts) k = Some ''''" using assms by (simp add: cstr_at_def)
  moreover have "put_bytes (map Some xs @ Some NUL # ts) k ('' ...'' @ [NUL]) = Some (map Some xs @ map Some ('' ...'' @ [NUL]) @ drop 4 ts)"
    using put_bytes_at [of "map Some xs" k "'' ...'' @ [NUL]" "Some NUL # ts"] assms by (simp add: numeral_eq_Suc)
  ultimately show ?thesis by (simp add: strcat_at_def)
qed

lemma gen_log_string_ok:
  assumes n: "NUL \<notin> set header" "NUL \<notin> set msg" and len: "length header + 4 < n" "n \<le> length out"
  shows "\<exists>m. gen_log_string out n header msg = Some m \<and> length m = length out \<and> cstr_at m 0 = Some (log_text n header msg)"
proof -
  define m where "m = take (n - length header - 5) msg"
  note g = gen_log_string_printed [OF len m_def]
  show ?thesis
  proof (cases "n - length header - 4 \<le> length msg")
    case False
    then have m: "m = msg" using len by (simp add: m_def)
    have "length (log_printed header m out) = length out" using False len m by (simp add: log_printed_def)
    moreover have "cstr_at (log_printed header m out) 0 = Some (log_text n header msg)"
      using False n m by (simp add: cstr_at_def log_text_def log_printed_def Let_def cstr_from_append)
    ultimately show ?thesis using False g by simp
  next
    case True
    then have lm: "length header + length m = n - 5" "length m + 5 = n - length header" using len by (simp_all add: m_def)
    let ?tl = "drop (length m) (drop (Suc (length header)) out)"
    let ?out3 = "map Some ((header @ m) @ '' ...'') @ Some NUL # drop 4 ?tl"
    have "4 \<le> length ?tl" using lm len by simp
    from strcat_cut [OF _ this, of "header @ m" "n - 5"] lm True g
    have "gen_log_string out n header msg = Some ?out3" by (simp add: log_printed_def)
    moreover have "length ?out3 = length out" using len lm by simp
    moreover have "NUL \<notin> set (header @ m)" using n by (auto simp: m_def dest: in_set_takeD)
    then have "cstr_from ?out3 = Some ((header @ m) @ '' ...'')" by (intro cstr_from_terminated) auto
    then have "cstr_at ?out3 0 = Some (log_text n header msg)"
      using True len by (simp add: cstr_at_def log_text_def Let_def m_def add.commute)
    ultimately show ?thesis by blast
  qed
qed

lemma log_text_length: "length header + 4 < n \<Longrightarrow> length (log_text n header msg) < n"
  by (auto simp: log_text_def Let_def)

lemma PROXY_LOG_line:
  assumes "verbose \<le> level" "NUL \<notin> set header" "NUL \<notin> set msg" "length header + 4 < PROXY_LOG_LEN" "length buf = PROXY_LOG_LEN"
  shows "\<exists>buf'. PROXY_LOG verbose level buf header msg ls = Some (buf', ls @ [log_text PROXY_LOG_LEN header msg @ [LF]]) \<and>
    length buf' = PROXY_LOG_LEN"
  using gen_log_string_ok [OF assms(2-4), of buf] assms(1,5) by (auto simp: PROXY_LOG_def)

text \<open>The header of a line is far from filling the buffer.\<close>

lemma name_mem: "i < 7 \<Longrightarrow> week_str ! i \<in> set week_str" "i < 12 \<Longrightarrow> month_str ! i \<in> set month_str"
  by (rule nth_mem, simp add: week_str_def month_str_def)+

lemma week_month_length:
  "i < 7 \<Longrightarrow> length (week_str ! i) = 4" "i < 12 \<Longrightarrow> length (month_str ! i) = 3"
proof -
  have "\<forall>w \<in> set week_str. length w = 4" "\<forall>w \<in> set month_str. length w = 3" by (simp_all add: week_str_def month_str_def)
  then show "i < 7 \<Longrightarrow> length (week_str ! i) = 4" "i < 12 \<Longrightarrow> length (month_str ! i) = 3"
    using name_mem by blast+
qed

lemma pad_num_length: "n < 100 \<Longrightarrow> length (pad_num p n) = 2"
  using dec_digits_small [of n 2] by (auto simp: pad_num_def Let_def)

lemma log_header_length:
  assumes "tm_ok t" "line < 10 ^ 6"
  shows "length (log_header t desc file line) \<le> length desc + length file + 37"
proof -
  have "length (dec_digits (tm_year t + 1900)) \<le> 4" "length (dec_digits line) \<le> 6"
    using assms by (auto simp: tm_ok_def intro!: dec_digits_small)
  moreover have "length (week_str ! tm_wday t) = 4" "length (month_str ! tm_mon t) = 3"
    "length (pad_num p (tm_mday t)) = 2" "length (pad_num p (tm_hour t)) = 2" "length (pad_num p (tm_min t)) = 2"
    "length (pad_num p (tm_sec t)) = 2" for p
    using assms(1) by (auto simp: tm_ok_def week_month_length pad_num_length)
  ultimately show ?thesis by (simp add: log_header_def)
qed

lemma dec_digits_no_NUL: "NUL \<notin> set (dec_digits n)"
proof
  assume "NUL \<in> set (dec_digits n)"
  then obtain d where d: "d < 10" "NUL = char_of (48 + d :: nat)" using dec_digits_range by blast
  then have "(of_char NUL :: nat) = of_char (char_of (48 + d :: nat) :: char)" by simp
  with d(1) show False by simp
qed

lemma log_header_no_NUL:
  assumes "tm_ok t" "NUL \<notin> set desc" "NUL \<notin> set file"
  shows "NUL \<notin> set (log_header t desc file line)"
proof -
  have wm: "\<forall>w \<in> set (week_str @ month_str). NUL \<notin> set w" by (simp add: week_str_def month_str_def)
  have "week_str ! tm_wday t \<in> set week_str" "month_str ! tm_mon t \<in> set month_str"
    using assms(1) name_mem by (auto simp: tm_ok_def)
  then have "NUL \<notin> set (week_str ! tm_wday t)" "NUL \<notin> set (month_str ! tm_mon t)" using wm by auto
  with assms(2,3) dec_digits_no_NUL show ?thesis by (simp add: log_header_def pad_num_def Let_def)
qed

end
