(* ===== verification/CmdLine.thy ===== *)
theory CmdLine
  imports Libc Log
begin

text \<open>
  The command line, \<^verbatim>\<open>src/core/arg.c\<close>. The words behind the program name are a list; what follows
  the last one is a null pointer. Whether a file can be opened for writing is a parameter;
  the help text is not represented.
\<close>

record proxy_arg_t =
  arg_port :: int
  arg_addr :: string
  arg_verbose :: int
  arg_log_file :: "string option"

definition PROXY_LOG_LEVEL_DEBUG :: int where "PROXY_LOG_LEVEL_DEBUG = 2"
definition PROXY_LOG_LEVEL_INFO :: int where "PROXY_LOG_LEVEL_INFO = 3"

definition default_arg :: proxy_arg_t where
  "default_arg = \<lparr>arg_port = -1, arg_addr = ''127.0.0.1'', arg_verbose = PROXY_LOG_LEVEL_INFO, arg_log_file = None\<rparr>"

definition usage :: int where "usage = -1"

definition parse_addr :: "string option \<Rightarrow> proxy_arg_t \<Rightarrow> int \<times> proxy_arg_t" where
  "parse_addr w s = (case w of None \<Rightarrow> (-1, s) | Some addr \<Rightarrow> (0, s\<lparr>arg_addr := addr\<rparr>))"

definition parse_log_file :: "(string \<Rightarrow> bool) \<Rightarrow> string option \<Rightarrow> proxy_arg_t \<Rightarrow> int \<times> proxy_arg_t" where
  "parse_log_file fopen w s =
     (case w of
        None \<Rightarrow> (-1, s)
      | Some file \<Rightarrow> if fopen file then (0, s\<lparr>arg_log_file := Some file\<rparr>) else (-1, s\<lparr>arg_log_file := None\<rparr>))"

definition parse_port :: "string \<Rightarrow> proxy_arg_t \<Rightarrow> int \<times> proxy_arg_t" where
  "parse_port w s = (let p = atoi w in (if p < 1 \<or> 65535 < p then -1 else 0, s\<lparr>arg_port := p\<rparr>))"

definition next_word :: "string list \<Rightarrow> string option" where
  "next_word ws = (case ws of [] \<Rightarrow> None | w # _ \<Rightarrow> Some w)"

definition parse_end :: "proxy_arg_t \<Rightarrow> int \<times> proxy_arg_t" where
  "parse_end s = (if arg_port s = -1 then (usage, s) else (0, s))"

function parse_words :: "(string \<Rightarrow> bool) \<Rightarrow> string list \<Rightarrow> proxy_arg_t \<Rightarrow> int \<times> proxy_arg_t" where
  "parse_words fopen [] s = parse_end s"
| "parse_words fopen (w # ws) s =
     (if w = ''-v'' then parse_words fopen ws (s\<lparr>arg_verbose := PROXY_LOG_LEVEL_DEBUG\<rparr>)
      else if w = ''-a'' then
        (case parse_addr (next_word ws) s of (r, s1) \<Rightarrow> if r \<noteq> 0 then (usage, s1) else parse_words fopen (drop 1 ws) s1)
      else if w = ''-l'' then
        (case parse_log_file fopen (next_word ws) s of (r, s1) \<Rightarrow> if r \<noteq> 0 then (usage, s1) else parse_words fopen (drop 1 ws) s1)
      else if w = ''-h'' then (-1, s)
      else case parse_port w s of (r, s1) \<Rightarrow> if r \<noteq> 0 then (usage, s1) else parse_end s1)"
  by pat_completeness auto
termination by (relation "measure (\<lambda>(fopen, ws, s). length ws)") auto

definition proxy_parse_arg :: "(string \<Rightarrow> bool) \<Rightarrow> string list \<Rightarrow> proxy_arg_t \<Rightarrow> int \<times> proxy_arg_t" where
  "proxy_parse_arg fopen argv s = parse_words fopen (drop 1 argv) s"

text \<open>The log file is opened by default before the command line is read.\<close>

definition proxy_log_init :: "(string \<Rightarrow> bool) \<Rightarrow> proxy_arg_t \<Rightarrow> proxy_arg_t" where
  "proxy_log_init fopen s =
     (if arg_log_file s \<noteq> None then s
      else s\<lparr>arg_log_file := (if fopen ''proxy.log'' then Some ''proxy.log'' else None)\<rparr>)"

subsection \<open>Options and their text\<close>

datatype opt = Verbose | Addr string | LogFile string

fun opt_words :: "opt \<Rightarrow> string list" where
  "opt_words Verbose = [''-v'']"
| "opt_words (Addr a) = [''-a'', a]"
| "opt_words (LogFile f) = [''-l'', f]"

fun apply_opt :: "opt \<Rightarrow> proxy_arg_t \<Rightarrow> proxy_arg_t" where
  "apply_opt Verbose s = s\<lparr>arg_verbose := PROXY_LOG_LEVEL_DEBUG\<rparr>"
| "apply_opt (Addr a) s = s\<lparr>arg_addr := a\<rparr>"
| "apply_opt (LogFile f) s = s\<lparr>arg_log_file := Some f\<rparr>"

fun opt_opens :: "(string \<Rightarrow> bool) \<Rightarrow> opt \<Rightarrow> bool" where
  "opt_opens fopen (LogFile f) = fopen f"
| "opt_opens fopen _ = True"

lemma parse_options:
  "\<forall>opt \<in> set opts. opt_opens fopen opt \<Longrightarrow>
   parse_words fopen (concat (map opt_words opts) @ ws) s = parse_words fopen ws (fold apply_opt opts s)"
proof (induction opts arbitrary: s)
  case (Cons opt opts)
  then show ?case by (cases opt) (simp_all add: parse_addr_def parse_log_file_def next_word_def)
qed simp

lemma parse_port_word:
  assumes d: "\<forall>c \<in> set ds. is_digit c" "ds \<noteq> []" and v: "digits_val ds < 2 ^ 31"
  shows "parse_words fopen (ds # ws) s =
    (if 1 \<le> digits_val ds \<and> digits_val ds \<le> 65535 then 0 else -1, s\<lparr>arg_port := int (digits_val ds)\<rparr>)"
proof -
  have "\<not> is_digit CHR ''-''" by (simp add: ch_class_defs)
  then have f: "ds \<noteq> ''-v''" "ds \<noteq> ''-a''" "ds \<noteq> ''-l''" "ds \<noteq> ''-h''" using d(1) by auto
  have "atoi ds = int (digits_val ds)" using atoi_digits [OF d v, of "[]"] by simp
  with f show ?thesis by (auto simp: parse_port_def parse_end_def usage_def Let_def)
qed

lemma proxy_parse_arg_spec:
  assumes "\<forall>opt \<in> set opts. opt_opens fopen opt" "\<forall>c \<in> set ds. is_digit c" "ds \<noteq> []" "digits_val ds < 2 ^ 31"
  shows "proxy_parse_arg fopen (exe # concat (map opt_words opts) @ ds # extra) s =
    (if 1 \<le> digits_val ds \<and> digits_val ds \<le> 65535 then 0 else -1,
     (fold apply_opt opts s)\<lparr>arg_port := int (digits_val ds)\<rparr>)"
  using parse_options [OF assms(1)] parse_port_word [OF assms(2-4)] by (simp add: proxy_parse_arg_def)

lemma parse_words_port:
  "parse_words fopen ws s = (0, s') \<Longrightarrow> arg_port s = -1 \<or> 1 \<le> arg_port s \<and> arg_port s \<le> 65535 \<Longrightarrow>
   1 \<le> arg_port s' \<and> arg_port s' \<le> 65535"
proof (induction fopen ws s arbitrary: s' rule: parse_words.induct)
  case (1 fopen s)
  then show ?case by (auto simp: parse_end_def usage_def split: if_splits)
next
  case (2 fopen w ws s)
  show ?case
  proof (cases "w \<in> {''-v'', ''-a'', ''-l'', ''-h''}")
    case False
    with "2.prems" show ?thesis by (auto simp: parse_port_def parse_end_def usage_def Let_def split: if_splits)
  next
    case True
    with 2 show ?thesis
      by (auto simp: parse_addr_def parse_log_file_def usage_def split: if_splits option.splits)
  qed
qed

text \<open>A command line that is accepted yields a port; without a port it is refused.\<close>

lemma proxy_parse_arg_port:
  "proxy_parse_arg fopen argv default_arg = (0, s) \<Longrightarrow> 1 \<le> arg_port s \<and> arg_port s \<le> 65535"
  unfolding proxy_parse_arg_def by (erule parse_words_port) (simp add: default_arg_def)

end
