(* ===== verification/MainLoop.thy ===== *)
theory MainLoop
  imports Pipeline CmdLine
begin

text \<open>
  The main program, \<^verbatim>\<open>src/core/main.c\<close>, with the notification of finished address lookups from
  \<^verbatim>\<open>src/core/net_utils.c\<close>. A callback is run by its module's handler; what a coroutine does between
  two switches is the parameter \<open>swap\<close> of theory \<open>Conn\<close>. The kernel's answers for one turn of
  the loop are a \<open>turn\<close>: the ready descriptors, the clients \<^verbatim>\<open>accept\<close> delivers and the signals that
  are read.
\<close>

record turn =
  tn_ready :: "epoll_event list option"
  tn_accepts :: "accept_res list"
  tn_signals :: "event_id list"

subsection \<open>Finished lookups\<close>

text \<open>Each signal carries the address of an event identifier.\<close>

fun post_signals :: "event_id list \<Rightarrow> mach \<Rightarrow> mach option" where
  "post_signals [] m = Some m"
| "post_signals (e # es) m = Option.bind (event_post m e 0) (post_signals es)"

definition dns_notify_handler :: "fd \<Rightarrow> event_id list \<Rightarrow> mach \<Rightarrow> mach option" where
  "dns_notify_handler sig es m = post_signals es (snd (net_pull_set_handler m sig EPOLLIN (Some DnsNotify)))"

definition net_utils_init :: "fd \<Rightarrow> mach \<Rightarrow> mach" where
  "net_utils_init sig m =
     snd (net_pull_set_handler (snd (net_pull_add (k_socket m sig) sig None)) sig EPOLLIN (Some DnsNotify))"

subsection \<open>Callbacks\<close>

definition run_event :: "(addr \<Rightarrow> mach \<Rightarrow> mach option) \<Rightarrow> ev_handler \<Rightarrow> event_id \<Rightarrow> addr \<Rightarrow> addr \<Rightarrow> mach \<Rightarrow> mach option" where
  "run_event swap h eid d0 d1 m = (case h of ConnEvent \<Rightarrow> conn_event_handler swap d0 d1 m)"

definition run_cb :: "(addr \<Rightarrow> mach \<Rightarrow> mach option) \<Rightarrow> fd \<Rightarrow> turn \<Rightarrow> cb \<Rightarrow> epoll_event \<Rightarrow> mach \<Rightarrow> mach option" where
  "run_cb swap sig tn c ev m =
     (case c of
        ConnAccept i \<Rightarrow> map_option snd (conn_accept_handler swap (tn_accepts tn) i ev m)
      | ConnEpoll p \<Rightarrow> conn_epoll_handler swap p ev m
      | ConnErr p \<Rightarrow> conn_err_handler p m
      | FreeClosed p \<Rightarrow> conn_notice_free_connection_closed p ev m
      | DnsNotify \<Rightarrow> dns_notify_handler sig (tn_signals tn) m)"

subsection \<open>The loop\<close>

text \<open>\<open>Waits m\<close>: the process blocks in \<^verbatim>\<open>epoll_wait\<close>; \<open>Leaves r m\<close>: the loop is left.\<close>

datatype main_res = Waits mach | Leaves int mach

fun main_loop :: "(addr \<Rightarrow> mach \<Rightarrow> mach option) \<Rightarrow> fd \<Rightarrow> turn list \<Rightarrow> mach \<Rightarrow> main_res option" where
  "main_loop swap sig tns m =
     Option.bind (event_work (run_event swap) m) (\<lambda>m1.
       case tns of
         [] \<Rightarrow> Some (Waits m1)
       | tn # tns' \<Rightarrow>
           Option.bind (net_pull_work (run_cb swap sig tn) (tn_ready tn) m1) (\<lambda>(r, m2).
             if r \<noteq> 0 then Some (Leaves r m2) else main_loop swap sig tns' m2))"

declare main_loop.simps [simp del]

definition proxy_done :: "(addr \<Rightarrow> mach \<Rightarrow> mach option) \<Rightarrow> fd \<Rightarrow> turn \<Rightarrow> mach \<Rightarrow> mach option" where
  "proxy_done swap sig tn m =
     Option.bind (net_pull_done (run_cb swap sig tn) (m\<lparr>main_stat := EXITING\<rparr>)) (\<lambda>m1.
     Option.bind (conn_module_done m1) (event_module_done (run_event swap)))"

text \<open>What the process does on a signal: the numbers are those of Linux. A signal that is handled ends the
  process with the status \<open>-1\<close>; a write to a closed connection is an error of the call, not a signal.\<close>

datatype sig_act = SIG_IGN | Handled

definition install_signal_handlers :: "(nat \<rightharpoonup> sig_act) \<Rightarrow> (nat \<rightharpoonup> sig_act)" where
  "install_signal_handlers acts =
     acts(15 \<mapsto> Handled, 2 \<mapsto> Handled, 13 \<mapsto> SIG_IGN, 15 \<mapsto> Handled, 11 \<mapsto> Handled, 1 \<mapsto> Handled)"

definition sig_handler :: "(addr \<Rightarrow> mach \<Rightarrow> mach option) \<Rightarrow> fd \<Rightarrow> turn \<Rightarrow> mach \<Rightarrow> (int \<times> mach) option" where
  "sig_handler swap sig tn m = map_option (Pair (-1)) (proxy_done swap sig tn m)"

lemma signals_installed:
  "install_signal_handlers acts 13 = Some SIG_IGN" "n \<in> {1, 2, 11, 15} \<Longrightarrow> install_signal_handlers acts n = Some Handled"
  "n \<notin> {1, 2, 11, 13, 15} \<Longrightarrow> install_signal_handlers acts n = acts n"
  by (auto simp: install_signal_handlers_def)

text \<open>From the start to the first wait, or to the label \<^verbatim>\<open>proxy_main_exit\<close>. The arguments behind the
  command line are the results of \<^verbatim>\<open>epoll_create\<close>, \<^verbatim>\<open>signalfd\<close> and of binding the sockets.\<close>

datatype start_res = NoArgs proxy_arg_t | Exit int proxy_arg_t mach | Loop proxy_arg_t mach

definition proxy_start :: "(string \<Rightarrow> bool) \<Rightarrow> string list \<Rightarrow> int \<Rightarrow> fd \<Rightarrow> bind_res list \<Rightarrow> mach \<Rightarrow> start_res option" where
  "proxy_start fopen argv epfd sig binds m =
     (case proxy_parse_arg fopen argv (proxy_log_init fopen default_arg) of (ret, arg) \<Rightarrow>
        if ret \<noteq> 0 then Some (NoArgs arg)
        else
          let m0 = m\<lparr>main_stat := RUNING\<rparr> in
          case net_pull_init epfd m0 of (ret, m1) \<Rightarrow>
            if ret \<noteq> 0 then Some (Exit ret arg m1)
            else
              map_option (\<lambda>(ret, m2). if ret \<noteq> 0 then Exit ret arg m2 else Loop arg m2)
                (conn_module_init (net_utils_init sig m1) binds))"

definition mach_init :: mach where
  "mach_init = \<lparr>ev_handlers = hash_empty, id_max = 0, ev_queue = lq_empty, np_handlers = hash_empty, epollfd = -1, fd_cnt = 0,
     k_open = {}, k_interest = {}, main_stat = RUNING, conns = rheap_empty, cxts = rheap_empty, call_cxt = None, yield_ret = 0,
     data_p = 0, free_pool = hash_empty, pool_fresh = 1, sfds = [], sfd_cnt = 0, socks = (\<lambda>x. \<lparr>sk_in = [], sk_wr = [], sk_out = ''''\<rparr>)\<rparr>"

subsection \<open>No event is left behind\<close>

text \<open>Whatever the handlers do: when \<^verbatim>\<open>event_work\<close> returns the queue is empty.\<close>

lemma event_work_drained:
  fixes s :: "('h, 'd, 'm) event_state_scheme"
  shows "event_work call s = Some r \<Longrightarrow> lq_head (ev_queue r) = None \<and> lq_tail (ev_queue r) = None"
proof (rule event_work.raw_induct [where P = "\<lambda>c s r. lq_head (ev_queue r) = None \<and> lq_tail (ev_queue r) = None"])
  fix f :: "('h \<Rightarrow> event_id \<Rightarrow> 'd \<Rightarrow> 'd \<Rightarrow> ('h, 'd, 'm) event_state_scheme \<Rightarrow> ('h, 'd, 'm) event_state_scheme option)
    \<Rightarrow> ('h, 'd, 'm) event_state_scheme \<Rightarrow> ('h, 'd, 'm) event_state_scheme option"
    and call s r
  assume IH: "\<And>c s r. f c s = Some r \<Longrightarrow> lq_head (ev_queue r) = None \<and> lq_tail (ev_queue r) = None"
    and r: "(case lq_head (ev_queue s) of
        None \<Rightarrow> Some (s\<lparr>ev_queue := (ev_queue s)\<lparr>lq_tail := None\<rparr>\<rparr>)
      | Some a \<Rightarrow>
          (case event_dispatch call s of
             None \<Rightarrow> None
           | Some s1 \<Rightarrow>
               (case lq_unlink (ev_queue s1) of
                  None \<Rightarrow> None
                | Some q \<Rightarrow> f call (s1\<lparr>ev_queue := q\<rparr>)))) = Some r"
  show "lq_head (ev_queue r) = None \<and> lq_tail (ev_queue r) = None"
    using r by (fastforce split: option.splits dest: IH)
qed assumption

lemma main_loop_waits: "main_loop swap sig tns m = Some (Waits m') \<Longrightarrow> lq_head (ev_queue m') = None"
proof (induction swap sig tns m rule: main_loop.induct)
  case (1 swap sig tns m)
  obtain m1 where m1: "event_work (run_event swap) m = Some m1"
    using "1.prems" by (subst (asm) main_loop.simps) (auto simp: bind_eq_Some_conv)
  show ?case
  proof (cases tns)
    case Nil
    with "1.prems" m1 event_work_drained [OF m1] show ?thesis by (subst (asm) main_loop.simps) simp
  next
    case (Cons tn tns')
    with "1.prems" m1 obtain r m2 where "net_pull_work (run_cb swap sig tn) (tn_ready tn) m1 = Some (r, m2)" "r = 0"
      "main_loop swap sig tns' m2 = Some (Waits m')"
      by (subst (asm) main_loop.simps) (auto simp: bind_eq_Some_conv split: if_splits)
    with "1.IH" m1 Cons show ?thesis by blast
  qed
qed

text \<open>The identifiers carried by the signals are posted in order, each with a null argument.\<close>

lemma post_signals_holds:
  "lq_holds (ev_queue m) evs \<Longrightarrow> \<exists>q. post_signals es m = Some (m\<lparr>ev_queue := q\<rparr>) \<and> lq_holds q (evs @ map (\<lambda>e. (e, 0)) es)"
proof (induction es arbitrary: m evs)
  case Nil
  then show ?case by (intro exI [of _ "ev_queue m"]) simp
next
  case (Cons e es)
  from event_post_holds [OF Cons.prems, of e 0] obtain q where
    q: "event_post m e 0 = Some (m\<lparr>ev_queue := q\<rparr>)" "lq_holds q (evs @ [(e, 0)])" by blast
  with Cons.IH [of "m\<lparr>ev_queue := q\<rparr>" "evs @ [(e, 0)]"] show ?case by auto
qed

lemma net_pull_set_handler_evq [simp]: "ev_queue (snd (net_pull_set_handler m fd fl c)) = ev_queue m"
  by (simp add: net_pull_set_handler_def Let_def split: option.splits)

lemma dns_notify_posts:
  assumes "lq_holds (ev_queue m) evs" "pull_inv m" "np_handler_of m sig \<noteq> None"
  shows "\<exists>m'. dns_notify_handler sig es m = Some m' \<and> lq_holds (ev_queue m') (evs @ map (\<lambda>e. (e, 0)) es) \<and>
    map_option h_read (np_handler_of m' sig) = Some (Some DnsNotify)"
proof -
  obtain nh where nh: "np_handler_of m sig = Some nh" using assms(3) by auto
  let ?m1 = "snd (net_pull_set_handler m sig EPOLLIN (Some DnsNotify))"
  have "lq_holds (ev_queue ?m1) evs" using assms(1) by simp
  from post_signals_holds [OF this, of es] obtain q where
    q: "post_signals es ?m1 = Some (?m1\<lparr>ev_queue := q\<rparr>)" "lq_holds q (evs @ map (\<lambda>e. (e, 0)) es)" by blast
  have "np_handler_of ?m1 sig = Some (nh\<lparr>h_read := Some DnsNotify\<rparr>)"
    using net_pull_set_handler_ok [OF assms(2) nh, of EPOLLIN "Some DnsNotify"] by (auto simp: epoll_flags)
  then have "np_handler_of (?m1\<lparr>ev_queue := q\<rparr>) sig = Some (nh\<lparr>h_read := Some DnsNotify\<rparr>)" by (simp add: np_handler_of_def)
  with q show ?thesis by (auto simp: dns_notify_handler_def)
qed

subsection \<open>The life of a coroutine\<close>

lemma cxt_upd_read:
  "mem_read (cxts m) p = Some cx \<Longrightarrow> \<exists>h. cxt_upd m p f = Some (m\<lparr>cxts := h\<rparr>) \<and> mem_read h p = Some (f cx) \<and>
     (\<forall>q. mem_cnt h q = mem_cnt (cxts m) q)"
  by (auto simp: cxt_upd_def mem_read_def mem_write_def mem_cnt_def)

text \<open>A coroutine that is resumed while suspended runs, and then either has finished, and its context
  is released, or is suspended again and registered for what it waits for.\<close>

definition resume_state :: "mach \<Rightarrow> addr \<Rightarrow> int \<Rightarrow> mach \<Rightarrow> bool" where
  "resume_state m p r m1 \<longleftrightarrow> (\<exists>cx. mem_read (cxts m) p = Some cx \<and> cx_stat cx = ASYNC_PAUSE) \<and>
     (\<exists>h. m1 = m\<lparr>call_cxt := Some p, cxts := h, yield_ret := r\<rparr> \<and> map_option cx_stat (mem_read h p) = Some ASYNC_RUNNING)"

lemma async_resume_runs:
  assumes p: "mem_read (cxts m) p = Some cx" "cx_stat cx = ASYNC_PAUSE"
  shows "\<exists>m1. resume_state m p r m1 \<and>
    async_resume swap m p r = Option.bind (swap p m1) (\<lambda>m2.
      Option.bind (cxt_upd m2 p (\<lambda>cx. if cx_stat cx = ASYNC_RUNNING then cx\<lparr>cx_stat := ASYNC_FINISH\<rparr> else cx)) (\<lambda>m3.
      Some (m3\<lparr>call_cxt := None\<rparr>)))"
proof -
  have p': "mem_read (cxts (m\<lparr>call_cxt := Some p\<rparr>)) p = Some cx" using p by simp
  from cxt_upd_read [OF this, of "\<lambda>cx. cx\<lparr>cx_stat := ASYNC_RUNNING, yield_type := YIELD_NONE, yield_data := None\<rparr>"]
  obtain h where h: "cxt_upd (m\<lparr>call_cxt := Some p\<rparr>) p (\<lambda>cx. cx\<lparr>cx_stat := ASYNC_RUNNING, yield_type := YIELD_NONE, yield_data := None\<rparr>) =
      Some (m\<lparr>call_cxt := Some p, cxts := h\<rparr>)"
    "mem_read h p = Some (cx\<lparr>cx_stat := ASYNC_RUNNING, yield_type := YIELD_NONE, yield_data := None\<rparr>)" by auto
  show ?thesis
    by (rule exI [of _ "m\<lparr>call_cxt := Some p, cxts := h, yield_ret := r\<rparr>"])
      (use p h in \<open>auto simp: resume_state_def async_resume_def\<close>)
qed

lemma coroutine_finished:
  assumes p: "mem_read (cxts m) p = Some cx" "cx_stat cx = ASYNC_PAUSE"
    and sw: "\<And>m1. resume_state m p (if d = 0 then 1 else 0) m1 \<Longrightarrow> swap p m1 = Some m2"
    and run: "cells (cxts m2) p = Some (1, cx2)" "cx_stat cx2 = ASYNC_RUNNING"
  shows "\<exists>m'. conn_event_handler swap p d m = Some m' \<and> mem_read (cxts m') p = None \<and>
    ev_handlers m' = ev_handlers m2 \<and> np_handlers m' = np_handlers m2"
proof -
  from async_resume_runs [OF p, of "if d = 0 then 1 else 0" swap] obtain m1 where m1: "resume_state m p (if d = 0 then 1 else 0) m1"
    "async_resume swap m p (if d = 0 then 1 else 0) = Option.bind (swap p m1) (\<lambda>m2.
      Option.bind (cxt_upd m2 p (\<lambda>cx. if cx_stat cx = ASYNC_RUNNING then cx\<lparr>cx_stat := ASYNC_FINISH\<rparr> else cx)) (\<lambda>m3.
      Some (m3\<lparr>call_cxt := None\<rparr>)))" by blast
  show ?thesis unfolding conn_event_handler_def m1(2) sw [OF m1(1)]
    using run by (simp add: cxt_upd_def mem_read_def mem_write_def conn_async_final_def cxt_decref_def mem_decref_def)
qed

lemma coroutine_parked:
  assumes p: "mem_read (cxts m) p = Some cx" "cx_stat cx = ASYNC_PAUSE"
    and sw: "\<And>m1. resume_state m p (if d = 0 then 1 else 0) m1 \<Longrightarrow> swap p m1 = Some m2"
    and pause: "mem_read (cxts m2) p = Some cx2" "cx_stat cx2 = ASYNC_PAUSE"
  shows "yield_type cx2 = CONN_WAIT_FOR_EVENT \<Longrightarrow> yield_data cx2 = Some (WaitEvent e) \<Longrightarrow> uniq_table (ev_handlers m2) \<Longrightarrow>
      \<exists>m'. conn_event_handler swap p d m = Some m' \<and> ev_handler_of m' = (ev_handler_of m2)(e \<mapsto> (ConnEvent, p)) \<and>
        np_handlers m' = np_handlers m2"
    "yield_type cx2 = CONN_IO_WILL_BLOCK \<Longrightarrow> yield_data cx2 = Some (IoBlock fd EPOLLIN) \<Longrightarrow> pull_inv m2 \<Longrightarrow>
      \<exists>m'. conn_event_handler swap p d m = Some m' \<and> ev_handlers m' = ev_handlers m2 \<and>
        np_handler_of m' = (case np_handler_of m2 fd of None \<Rightarrow> np_handler_of m2
           | Some nh \<Rightarrow> (np_handler_of m2)(fd \<mapsto> nh\<lparr>h_read := Some (ConnEpoll p)\<rparr>))"
proof -
  from async_resume_runs [OF p, of "if d = 0 then 1 else 0" swap] obtain m1 where m1: "resume_state m p (if d = 0 then 1 else 0) m1"
    "async_resume swap m p (if d = 0 then 1 else 0) = Option.bind (swap p m1) (\<lambda>m2.
      Option.bind (cxt_upd m2 p (\<lambda>cx. if cx_stat cx = ASYNC_RUNNING then cx\<lparr>cx_stat := ASYNC_FINISH\<rparr> else cx)) (\<lambda>m3.
      Some (m3\<lparr>call_cxt := None\<rparr>)))" by blast
  from cxt_upd_read [OF pause(1), of "\<lambda>cx. if cx_stat cx = ASYNC_RUNNING then cx\<lparr>cx_stat := ASYNC_FINISH\<rparr> else cx"] pause(2)
  obtain h where h: "cxt_upd m2 p (\<lambda>cx. if cx_stat cx = ASYNC_RUNNING then cx\<lparr>cx_stat := ASYNC_FINISH\<rparr> else cx) = Some (m2\<lparr>cxts := h\<rparr>)"
    "mem_read h p = Some cx2" by auto
  let ?m3 = "m2\<lparr>cxts := h, call_cxt := None\<rparr>"
  have eq: "conn_event_handler swap p d m = map_option snd (conn_async_final ?m3 p)"
    unfolding conn_event_handler_def m1(2) sw [OF m1(1)] using h(1) by simp
  show "\<exists>m'. conn_event_handler swap p d m = Some m' \<and> ev_handler_of m' = (ev_handler_of m2)(e \<mapsto> (ConnEvent, p)) \<and>
        np_handlers m' = np_handlers m2"
    if "yield_type cx2 = CONN_WAIT_FOR_EVENT" "yield_data cx2 = Some (WaitEvent e)" and u: "uniq_table (ev_handlers m2)"
  proof -
    have "uniq_table (ev_handlers ?m3)" using u by simp
    from handler_after_set [OF this, of e ConnEvent p]
    have "ev_handler_of (event_set_handler ?m3 e ConnEvent p) = (ev_handler_of m2)(e \<mapsto> (ConnEvent, p))"
      by (simp add: fun_eq_iff ev_handler_of_def)
    with that pause(2) h(2) show ?thesis unfolding eq by (simp add: conn_async_final_def event_set_handler_def)
  qed
  show "\<exists>m'. conn_event_handler swap p d m = Some m' \<and> ev_handlers m' = ev_handlers m2 \<and>
        np_handler_of m' = (case np_handler_of m2 fd of None \<Rightarrow> np_handler_of m2
           | Some nh \<Rightarrow> (np_handler_of m2)(fd \<mapsto> nh\<lparr>h_read := Some (ConnEpoll p)\<rparr>))"
    if "yield_type cx2 = CONN_IO_WILL_BLOCK" "yield_data cx2 = Some (IoBlock fd EPOLLIN)" and i: "pull_inv m2"
  proof -
    let ?m4 = "snd (net_pull_set_handler ?m3 fd EPOLLIN (Some (ConnEpoll p)))"
    have i3: "pull_inv ?m3" using i by (simp add: pull_inv_def np_handler_of_def)
    have hs: "np_handler_of ?m3 = np_handler_of m2" by (simp add: np_handler_of_def fun_eq_iff)
    have r: "conn_event_handler swap p d m = Some ?m4" using that pause(2) h(2) unfolding eq by (simp add: conn_async_final_def)
    have e4: "ev_handlers ?m4 = ev_handlers m2" by (simp add: net_pull_set_handler_def Let_def split: option.splits)
    have "np_handler_of ?m4 = (case np_handler_of m2 fd of None \<Rightarrow> np_handler_of m2
           | Some nh \<Rightarrow> (np_handler_of m2)(fd \<mapsto> nh\<lparr>h_read := Some (ConnEpoll p)\<rparr>))"
    proof (cases "np_handler_of m2 fd")
      case None
      then have "?m4 = ?m3" using net_pull_set_handler_fail [of ?m3 fd] hs by simp
      then show ?thesis using None hs by simp
    next
      case (Some nh)
      then have "np_handler_of ?m3 fd = Some nh" using hs by simp
      from net_pull_set_handler_ok [OF i3 this, of EPOLLIN "Some (ConnEpoll p)"] hs show ?thesis using Some by (auto simp: epoll_flags)
    qed
    with r e4 show ?thesis by blast
  qed
qed

text \<open>Closing a connection removes the registration of its descriptor, that of a coroutine which is
  suspended on it included: nothing resumes that coroutine any more.\<close>

definition registered :: "mach \<Rightarrow> addr \<Rightarrow> bool" where
  "registered m q \<longleftrightarrow> (\<exists>fd nh. np_handler_of m fd = Some nh \<and> (h_read nh = Some (ConnEpoll q) \<or> h_write nh = Some (ConnEpoll q))) \<or>
     (\<exists>e. ev_handler_of m e = Some (ConnEvent, q))"

lemma conn_close_handlers:
  assumes c: "conn_get m p = Some c" "c_stat c \<noteq> CONN_CLOSED" and inv: "pull_inv m" "0 \<le> epollfd m"
  shows "\<exists>m'. conn_close m p = Some m' \<and> np_handler_of m' = (np_handler_of m)(c_fd c := None) \<and> ev_handlers m' = ev_handlers m"
proof -
  have d: "np_handler_of (drop_fd m (c_fd c)) = (np_handler_of m)(c_fd c := None) \<and> ev_handlers (drop_fd m (c_fd c)) = ev_handlers m"
  proof (cases "c_fd c \<in> k_interest m")
    case True
    from net_pull_del_ok [OF inv True] show ?thesis
      by (auto simp: drop_fd_def k_close_def np_handler_of_def net_pull_del_def epoll_ctl_del_def fun_eq_iff split: option.splits)
  next
    case False
    then have "np_handler_of m (c_fd c) = None" using inv(1) by (auto simp: pull_inv_def)
    moreover have "drop_fd m (c_fd c) = k_close m (c_fd c)" using net_pull_del_fail [OF inv(1) False] by (simp add: drop_fd_def)
    ultimately show ?thesis by (auto simp: k_close_def np_handler_of_def fun_eq_iff)
  qed
  have "conn_get (drop_fd m (c_fd c)) p = Some c" using c(1) by (simp add: conn_get_def)
  from conn_upd_eq [OF this, of "\<lambda>c. c\<lparr>c_stat := CONN_CLOSED\<rparr>"] obtain h where
    "conn_upd (drop_fd m (c_fd c)) p (\<lambda>c. c\<lparr>c_stat := CONN_CLOSED\<rparr>) = Some ((drop_fd m (c_fd c))\<lparr>conns := h\<rparr>)" by blast
  with c d show ?thesis by (auto simp: conn_close_def np_handler_of_def fun_eq_iff)
qed

lemma close_forgets_reader:
  assumes c: "conn_get m p = Some c" "c_stat c \<noteq> CONN_CLOSED" and inv: "pull_inv m" "0 \<le> epollfd m"
    and only: "\<forall>fd nh. np_handler_of m fd = Some nh \<and> (h_read nh = Some (ConnEpoll q) \<or> h_write nh = Some (ConnEpoll q)) \<longrightarrow> fd = c_fd c"
      "\<forall>e. ev_handler_of m e \<noteq> Some (ConnEvent, q)"
  shows "\<exists>m'. conn_close m p = Some m' \<and> \<not> registered m' q"
  using conn_close_handlers [OF c inv] only by (fastforce simp: registered_def ev_handler_of_def split: if_splits)

subsection \<open>The start\<close>

text \<open>The first \<open>sfd_cnt\<close> entries of \<open>sfds\<close> are listening sockets, and each has the accept handler with
  its own index.\<close>

definition listening :: "mach \<Rightarrow> bool" where
  "listening m \<longleftrightarrow> sfd_cnt m \<le> length (sfds m) \<and> (\<forall>i < sfd_cnt m. 0 \<le> sfds m ! i \<and>
     map_option h_read (np_handler_of m (word_of_int (sfds m ! i))) = Some (Some (ConnAccept i)))"

lemma k_socket_frame [simp]:
  "np_handler_of (k_socket m fd) = np_handler_of m" "epollfd (k_socket m fd) = epollfd m" "sfds (k_socket m fd) = sfds m"
  "sfd_cnt (k_socket m fd) = sfd_cnt m" "k_interest (k_socket m fd) = k_interest m" "k_open (k_socket m fd) = insert fd (k_open m)"
  by (simp_all add: k_socket_def np_handler_of_def fun_eq_iff)

lemma pull_inv_socket [simp]: "pull_inv m \<Longrightarrow> pull_inv (k_socket m fd)"
  by (auto simp: k_socket_def pull_inv_def np_handler_of_def)

lemma add_set_handler:
  assumes "pull_inv m" "0 \<le> epollfd m" "fd \<notin> k_open m"
  shows "\<exists>m'. snd (net_pull_set_handler (snd (net_pull_add (k_socket m fd) fd None)) fd EPOLLIN (Some c)) = m' \<and>
    pull_inv m' \<and> epollfd m' = epollfd m \<and> k_open m' = insert fd (k_open m) \<and> sfds m' = sfds m \<and> sfd_cnt m' = sfd_cnt m \<and>
    np_handler_of m' = (np_handler_of m)(fd \<mapsto> \<lparr>nh_fd = fd, h_read = Some c, h_write = None, h_err = None\<rparr>)"
proof -
  have f: "fd \<notin> k_interest m" using assms by (auto simp: pull_inv_def)
  from net_pull_add_ok [of "k_socket m fd" fd None] assms f obtain m1 where
    m1: "net_pull_add (k_socket m fd) fd None = (0, m1)" "pull_inv m1" "k_open m1 = insert fd (k_open m)" "epollfd m1 = epollfd m"
      "np_handler_of m1 = (np_handler_of m)(fd \<mapsto> \<lparr>nh_fd = fd, h_read = None, h_write = None, h_err = None\<rparr>)" by auto
  have s1: "sfds m1 = sfds m \<and> sfd_cnt m1 = sfd_cnt m"
    using m1(1) by (auto simp: net_pull_add_def epoll_ctl_add_def k_socket_def Let_def split: option.splits if_splits)
  have "np_handler_of m1 fd = Some \<lparr>nh_fd = fd, h_read = None, h_write = None, h_err = None\<rparr>" using m1(5) by simp
  from net_pull_set_handler_ok [OF m1(2) this, of EPOLLIN "Some c"] obtain m2 where
    m2: "net_pull_set_handler m1 fd EPOLLIN (Some c) = (0, m2)" "pull_inv m2" "k_open m2 = k_open m1"
      "np_handler_of m2 = (np_handler_of m1)(fd \<mapsto> \<lparr>nh_fd = fd, h_read = Some c, h_write = None, h_err = None\<rparr>)"
    by (auto simp: epoll_flags)
  have "sfds m2 = sfds m1 \<and> sfd_cnt m2 = sfd_cnt m1 \<and> epollfd m2 = epollfd m1"
    using m2(1) by (auto simp: net_pull_set_handler_def Let_def split: option.splits)
  with m1 m2 s1 show ?thesis by auto
qed

definition bound_socks :: "bind_res list \<Rightarrow> fd list" where
  "bound_socks bs = map of_nat (List.map_filter br_sock bs)"

lemma listening_step:
  assumes l: "listening m" and inv: "pull_inv m" and fd: "of_nat n \<notin> k_open m" and cnt: "sfd_cnt m < length (sfds m)"
    and m': "sfds m' = (sfds m)[sfd_cnt m := int n]" "sfd_cnt m' = sfd_cnt m + 1"
      "np_handler_of m' = (np_handler_of m)(of_nat n \<mapsto> \<lparr>nh_fd = of_nat n, h_read = Some (ConnAccept (sfd_cnt m)), h_write = None, h_err = None\<rparr>)"
  shows "listening m'"
proof -
  have "word_of_int (sfds m ! i) \<noteq> (of_nat n :: fd)" if "i < sfd_cnt m" for i
  proof
    assume e: "word_of_int (sfds m ! i) = (of_nat n :: fd)"
    have "np_handler_of m (word_of_int (sfds m ! i)) \<noteq> None" using l that by (auto simp: listening_def)
    then have "of_nat n \<in> k_open m" using inv e by (auto simp: pull_inv_def)
    with fd show False by simp
  qed
  then show ?thesis using l cnt m' by (auto simp: listening_def nth_list_update less_Suc_eq)
qed

lemma bind_all_listening:
  "listening m \<Longrightarrow> pull_inv m \<Longrightarrow> 0 \<le> epollfd m \<Longrightarrow> distinct (bound_socks bs) \<Longrightarrow> set (bound_socks bs) \<inter> k_open m = {} \<Longrightarrow>
   bind_all m bs = Some m' \<Longrightarrow> listening m' \<and> pull_inv m' \<and> 0 \<le> epollfd m' \<and> sfd_cnt m \<le> sfd_cnt m' \<and>
     (\<forall>fd \<in> k_open m. np_handler_of m' fd = np_handler_of m fd)"
proof (induction bs arbitrary: m)
  case Nil
  then show ?case by simp
next
  case 2: (Cons b bs)
  show ?case
  proof (cases "br_sock b")
    case None
    with 2 show ?thesis by (simp add: bound_socks_def List.map_filter_simps)
  next
    case (Some n)
    let ?fd = "of_nat n :: fd" and ?m1 = "k_socket m (of_nat n)"
    have fresh: "?fd \<notin> k_open m" "?fd \<notin> set (bound_socks bs)" "distinct (bound_socks bs)" "set (bound_socks bs) \<inter> k_open m = {}"
      using "2.prems"(4,5) Some by (auto simp: bound_socks_def List.map_filter_simps)
    show ?thesis
    proof (cases "br_ok b")
      case False
      let ?m2 = "k_close ?m1 ?fd"
      have "?fd \<notin> k_interest m" using fresh(1) "2.prems"(2) by (auto simp: pull_inv_def)
      then have i2: "pull_inv ?m2" using pull_inv_k_close [of ?m1 ?fd] "2.prems"(2) by simp
      have h2: "np_handler_of ?m2 = np_handler_of m" "sfds ?m2 = sfds m" "sfd_cnt ?m2 = sfd_cnt m"
        by (simp_all add: k_close_def k_socket_def np_handler_of_def fun_eq_iff)
      have l2: "listening ?m2" using "2.prems"(1) by (simp add: listening_def h2)
      have o2: "k_open ?m2 = k_open m" using fresh(1) by simp
      have "bind_all ?m2 bs = Some m'" using "2.prems"(6) Some False by (simp add: Let_def)
      from "2.IH" [OF l2 i2 _ fresh(3) _ this] show ?thesis
        using "2.prems"(3) fresh(4) h2 o2 by simp
    next
      case True
      from add_set_handler [OF "2.prems"(2,3) fresh(1), of "ConnAccept (sfd_cnt m)"] obtain m3 where
        m3: "snd (net_pull_set_handler (snd (net_pull_add ?m1 ?fd None)) ?fd EPOLLIN (Some (ConnAccept (sfd_cnt m)))) = m3"
          "pull_inv m3" "epollfd m3 = epollfd m" "k_open m3 = insert ?fd (k_open m)" "sfds m3 = sfds m" "sfd_cnt m3 = sfd_cnt m"
          "np_handler_of m3 = (np_handler_of m)(?fd \<mapsto> \<lparr>nh_fd = ?fd, h_read = Some (ConnAccept (sfd_cnt m)), h_write = None, h_err = None\<rparr>)"
        by blast
      have s2: "sfd_cnt (snd (net_pull_add ?m1 ?fd None)) = sfd_cnt m"
        by (auto simp: net_pull_add_def epoll_ctl_add_def k_socket_def Let_def split: option.splits)
      let ?m4 = "m3\<lparr>sfds := (sfds m3)[sfd_cnt m3 := int n], sfd_cnt := sfd_cnt m3 + 1\<rparr>"
      have b: "sfd_cnt m < length (sfds m)" "bind_all ?m4 bs = Some m'"
        using "2.prems"(6) Some True m3 s2 by (auto simp: Let_def split: if_splits)
      have f4: "np_handler_of ?m4 = np_handler_of m3" "k_open ?m4 = k_open m3" "epollfd ?m4 = epollfd m3" "k_interest ?m4 = k_interest m3"
        by (simp_all add: np_handler_of_def fun_eq_iff)
      have i4: "pull_inv ?m4" using m3(2) by (simp add: pull_inv_def np_handler_of_def)
      have l4: "listening ?m4" by (rule listening_step [OF "2.prems"(1,2) fresh(1) b(1)]) (use m3 f4 in auto)
      have d4: "set (bound_socks bs) \<inter> k_open ?m4 = {}" and e4: "0 \<le> epollfd ?m4" using fresh m3(3,4) "2.prems"(3) by auto
      from "2.IH" [OF l4 i4 e4 fresh(3) d4 b(2)] show ?thesis
        using m3(4,6,7) fresh(1) f4 by auto
    qed
  qed
qed

lemma pull_inv_mach_init: "pull_inv (mach_init\<lparr>main_stat := r, epollfd := e\<rparr>)"
  by (simp add: pull_inv_def mach_init_def np_handler_of_def hash_lookup_def HASH_FIND_def hash_empty_def)
     (simp add: hash_empty_def [symmetric])

lemma proxy_start_listens:
  assumes s: "proxy_start fopen argv epfd sig binds mach_init = Some (Loop arg m)" and d: "distinct (sig # bound_socks binds)"
  shows "listening m \<and> 0 < sfd_cnt m \<and> pull_inv m \<and> 0 \<le> epollfd m \<and> 1 \<le> arg_port arg \<and> arg_port arg \<le> 65535 \<and>
    map_option h_read (np_handler_of m sig) = Some (Some DnsNotify)"
proof -
  let ?a0 = "proxy_log_init fopen default_arg" and ?m1 = "mach_init\<lparr>main_stat := RUNING, epollfd := epfd\<rparr>"
  obtain m' where p: "proxy_parse_arg fopen argv ?a0 = (0, arg)" and e: "0 \<le> epfd"
    and i: "conn_module_init (net_utils_init sig ?m1) binds = Some (0, m)"
    using s by (auto simp: proxy_start_def net_pull_init_def Let_def split: prod.splits if_splits)
  have "arg_port ?a0 = -1" by (simp add: proxy_log_init_def default_arg_def)
  with p have port: "1 \<le> arg_port arg \<and> arg_port arg \<le> 65535"
    unfolding proxy_parse_arg_def using parse_words_port by blast
  have "0 \<le> epollfd ?m1" "sig \<notin> k_open ?m1" using e by (simp_all add: mach_init_def)
  from add_set_handler [OF pull_inv_mach_init this, of DnsNotify] obtain m2 where
    m2: "net_utils_init sig ?m1 = m2" "pull_inv m2" "epollfd m2 = epfd" "k_open m2 = {sig}"
      "np_handler_of m2 sig = Some \<lparr>nh_fd = sig, h_read = Some DnsNotify, h_write = None, h_err = None\<rparr>"
    by (auto simp: net_utils_init_def mach_init_def)
  let ?m3 = "m2\<lparr>sfds := replicate SERVER_MAX_FD (-1), sfd_cnt := 0\<rparr>"
  have f: "np_handler_of ?m3 = np_handler_of m2" by (simp add: np_handler_of_def fun_eq_iff)
  have i3: "pull_inv ?m3" "listening ?m3" "0 \<le> epollfd ?m3" using m2 e by (simp_all add: pull_inv_def np_handler_of_def listening_def)
  have b: "bind_all ?m3 binds = Some m" "sfd_cnt m \<noteq> 0"
    using i m2(1) by (auto simp: conn_module_init_def split: if_splits)
  have "set (bound_socks binds) \<inter> k_open ?m3 = {}" "distinct (bound_socks binds)" using d m2(4) by auto
  from bind_all_listening [OF i3(2,1,3) this(2,1) b(1)] show ?thesis using b(2) port m2(4,5) f by simp
qed

end
