(* ===== verification/Samples.thy ===== *)
theory Samples
  imports Rounds MainLoop
begin

text \<open>
  Concrete machines on which the properties of the root theory are instantiated: a client on
  descriptor 5 and a server on descriptor 6, each with one reference beside the coroutine's, the
  bytes they have sent waiting, and room for what is sent to them.
\<close>

definition sample_ep :: conn_endpoint where
  "sample_ep = \<lparr>ep_family = AF_INET, ep_port = htons 80, ep_addr = take 4 ''host'' @ replicate 12 NUL\<rparr>"

definition sample_conn :: "fd \<Rightarrow> conn" where
  "sample_conn fd = \<lparr>c_fd = fd, c_buf = '''', buf_cap = CONN_IOBUF_SIZE, buf_s = 0, buf_e = 0, c_rx = 0, c_tx = 0,
     c_stat = CONN_USED, c_ep = sample_ep, c_apool = None\<rparr>"

definition sample_sock :: "string \<Rightarrow> nat \<Rightarrow> sock" where
  "sample_sock i n = \<lparr>sk_in = [RData i], sk_wr = replicate n (SAccept 99), sk_out = ''''\<rparr>"

definition sample_mach :: "string \<Rightarrow> string \<Rightarrow> nat \<Rightarrow> mach" where
  "sample_mach i1 i2 n = mach_init\<lparr>id_max := 2, epollfd := 3, k_open := {5, 6},
     conns := \<lparr>cells = [1 \<mapsto> (2, sample_conn 5), 2 \<mapsto> (2, sample_conn 6)], next_addr = 3\<rparr>,
     socks := (\<lambda>fd. if fd = 5 then sample_sock i1 n else sample_sock i2 n)\<rparr>"

lemma sample_conn_simps [simp]:
  "c_fd (sample_conn fd) = fd" "c_stat (sample_conn fd) = CONN_USED" "buf_s (sample_conn fd) = 0" "buf_e (sample_conn fd) = 0"
  "inbuf (sample_conn fd) = ''''" "buf_ok (sample_conn fd)" "0 < buf_cap (sample_conn fd)" "c_tx (sample_conn fd) = 0"
  "c_rx (sample_conn fd) = 0" "c_ep (sample_conn fd) = sample_ep" "c_apool (sample_conn fd) = None" "c_buf (sample_conn fd) = ''''"
  by (simp_all add: sample_conn_def inbuf_def buf_ok_def CONN_IOBUF_SIZE_def)

lemma sample_mach_simps [simp]:
  "conn_get (sample_mach i1 i2 n) 1 = Some (sample_conn 5)" "conn_get (sample_mach i1 i2 n) 2 = Some (sample_conn 6)"
  "conn_get (sample_mach i1 i2 n) (Suc 0) = Some (sample_conn 5)"
  "main_stat (sample_mach i1 i2 n) = RUNING" "k_open (sample_mach i1 i2 n) = {5, 6}" "epollfd (sample_mach i1 i2 n) = 3"
  "socks (sample_mach i1 i2 n) 5 = sample_sock i1 n" "socks (sample_mach i1 i2 n) 6 = sample_sock i2 n"
  "mem_cnt (conns (sample_mach i1 i2 n)) 2 = 2" "mem_cnt (conns (sample_mach i1 i2 n)) 1 = 2"
  "mem_cnt (conns (sample_mach i1 i2 n)) (Suc 0) = 2"
  "cells (conns (sample_mach i1 i2 n)) 2 = Some (2, sample_conn 6)" "cells (conns (sample_mach i1 i2 n)) (Suc 0) = Some (2, sample_conn 5)"
  "ev_queue (sample_mach i1 i2 n) = lq_empty" "k_interest (sample_mach i1 i2 n) = {}" "id_max (sample_mach i1 i2 n) = 2"
  "ev_handlers (sample_mach i1 i2 n) = hash_empty" "np_handlers (sample_mach i1 i2 n) = hash_empty"
  "free_pool (sample_mach i1 i2 n) = hash_empty" "fd_cnt (sample_mach i1 i2 n) = 0"
  by (simp_all add: sample_mach_def mach_init_def conn_get_def mem_read_def mem_cnt_def)

lemma sample_quiet: "quiet_w (replicate n (SAccept k))" "room (replicate n (SAccept k)) = n"
  by (induction n) (simp_all add: quiet_w_def)

lemma sample_live:
  "i1 \<noteq> '''' \<Longrightarrow> live (sample_mach i1 i2 n) 1 (sample_conn 5)" "i2 \<noteq> '''' \<Longrightarrow> live (sample_mach i1 i2 n) 2 (sample_conn 6)"
  "wlive (sample_mach i1 i2 n) 1 (sample_conn 5) n" "wlive (sample_mach i1 i2 n) 2 (sample_conn 6) n"
  by (simp_all add: live_def wlive_def sample_sock_def quiet_def sample_quiet)

lemma sample_link:
  "i1 \<noteq> '''' \<Longrightarrow> link (sample_mach i1 i2 n) 2 1 (sample_conn 6) (sample_conn 5) n"
  "i2 \<noteq> '''' \<Longrightarrow> link (sample_mach i1 i2 n) 1 2 (sample_conn 5) (sample_conn 6) n"
  using sample_live by (simp_all add: link_def)

lemma sample_bytes [simp]:
  "in_bytes (sample_mach i1 i2 n) (sample_conn 5) = i1" "in_bytes (sample_mach i1 i2 n) (sample_conn 6) = i2"
  "out_bytes (sample_mach i1 i2 n) (sample_conn fd) = ''''"
  by (simp_all add: in_bytes_def out_bytes_def sample_sock_def) (simp add: sample_mach_def sample_sock_def)

lemma hash_lookup_empty [simp]: "hash_lookup hash_empty k = None"
  by (simp add: hash_lookup_def HASH_FIND_def hash_empty_def)

lemma sample_pull_inv [simp]: "pull_inv (sample_mach i1 i2 n)"
  by (simp add: pull_inv_def np_handler_of_def)

text \<open>The context of the client's coroutines: the request \<open>rq\<close> is in memory at address 1, the server of
  \<^verbatim>\<open>h\<close> is known and connected.\<close>

definition sample_addr :: addrinfo where
  "sample_addr = \<lparr>ai_family = AF_INET, ai_addr = ''host''\<rparr>"

definition sample_cxt :: "(addr \<times> addr) lqueue \<Rightarrow> net_req rheap \<Rightarrow> net_handle_cxt" where
  "sample_cxt l reqs = \<lparr>hc_client = 1, hc_pool = hash_put hash_empty (ep_key (addr_endpoint sample_addr (htons 80))) 2, hc_list = l,
     ev_notice_req = 0, ev_notice_rsp = 1, req_blocked = False, rsp_blocked = True, req_will_exit = False,
     rsp_will_exited = False, hc_reqs = reqs, hc_dns = hash_put hash_empty ''h'' [sample_addr], hc_log = []\<rparr>"

lemma find_put: "uniq_table t \<Longrightarrow> \<exists>e. HASH_FIND (hash_put t k v) k = Some e \<and> h_val e = v"
proof -
  assume "uniq_table t"
  then have "hash_lookup (hash_put t k v) k = Some v" by (simp add: hash_simps)
  then show ?thesis by (auto simp: hash_lookup_def)
qed

lemma sample_pooled: "pooled (sample_mach i1 i2 n) (sample_cxt l reqs) ''h'' 80 2"
proof -
  let ?h = "sample_cxt l reqs" and ?k = "ep_key (addr_endpoint sample_addr (htons 80))"
  have "hc_dns ?h = hash_put hash_empty ''h'' [sample_addr]" "hc_pool ?h = hash_put hash_empty ?k 2"
    by (simp_all only: sample_cxt_def net_handle_cxt.simps)
  then obtain e t where e: "HASH_FIND (hc_dns ?h) ''h'' = Some e" "h_val e = sample_addr # []"
    and t: "HASH_FIND (hc_pool ?h) ?k = Some t" "h_val t = 2"
    using find_put [OF uniq_table_empty(1), of "''h''" "[sample_addr]"] find_put [OF uniq_table_empty(1), of ?k "2::addr"] by metis
  have f: "ai_family sample_addr = AF_INET" by (simp add: sample_addr_def)
  show ?thesis unfolding pooled_def
    by (intro conjI exI, simp, rule e(1), rule e(2), simp add: f, rule t(1), rule t(2), simp, simp)
qed

text \<open>An indeterminate request, and a lookup that would fail.\<close>

definition sample_junk :: net_req where
  "sample_junk = \<lparr>rq_data = net_data_init, rq_port = 7, ver_major = 7, ver_minor = 7, rq_host = 7, rq_protocol = 7, rq_path = 7\<rparr>"

definition sample_try :: attempt where
  "sample_try = (GaiFail 0, \<lambda>_. \<lparr>cs_sock = None, cs_nonblock = False, cs_conn = ConnFail\<rparr>)"

text \<open>Buffers, lists and requests with a given content.\<close>

lemma sb_exists: "length s < 2 ^ 30 \<Longrightarrow> \<exists>b. sb b s"
proof (induction s rule: rev_induct)
  case Nil
  then show ?case using sb_init by blast
next
  case (snoc c s)
  then obtain b where b: "sb b s" by auto
  have "length s + 1 < 2 ^ 30" using snoc.prems by simp
  from sb_append [OF b this, of c] show ?case by blast
qed

lemma lq_exists: "\<exists>q. lq_holds q xs"
proof (induction xs rule: rev_induct)
  case Nil
  show ?case by (intro exI [of _ lq_empty]) simp
next
  case (snoc x xs)
  then obtain q where "lq_holds q xs" by blast
  from lq.enq_holds [OF this, of x] show ?case by blast
qed

definition sample_line :: string where
  "sample_line = req_line ''GET'' ''http://h:81/x'' ''1'' ''1''"

lemma sample_words:
  "method_word ''GET''" "http_version ''1'' ''1''" "host_name ''h''" "port_ok (Some ''81'')" "abs_path ''/x''"
  by (simp_all add: method_word_def http_version_def host_name_def host_char_def port_ok_def abs_path_def ch_class_defs
      digits_val_def digit_val_def)

lemma sample_rq: "\<exists>rq. req_is rq ''GET'' ''h'' ''/x'' 81"
proof -
  obtain b where b: "sb b (sample_line @ NUL # '''')" using sb_exists [of "sample_line @ NUL # ''''"] by (auto simp: sample_line_def)
  let ?rq = "sample_junk\<lparr>rq_data := \<lparr>nd_buf = b, nd_table = hash_empty\<rparr>\<rparr>"
  have "sb (rq_buf ?rq) (req_line ''GET'' (''http'' @ ''://'' @ ''h'' @ port_text (Some ''81'') @ ''/x'') ''1'' ''1'' @ NUL # '''')"
    using b by (simp add: sample_line_def rq_buf_def)
  from net_parse_req_abs [OF this sample_words(1) _ sample_words(2) _ _ sample_words(3-5)] show ?thesis
    by (fastforce simp: ch_class_defs digits_val_def digit_val_def)
qed

end
