(* ===== verification/Trips.thy ===== *)
theory Trips
  imports Samples
begin

text \<open>
  From the wire to the structures and back: what a peer sends is fetched, parsed and printed again
  as the text that is forwarded.
\<close>

lemma response_head_trip:
  assumes "rsp_ok a b code msg hs" "live m p c" "in_bytes m c = rsp_line a b code msg @ crlf @ wire hs @ crlf @ rest"
  shows "\<exists>m' c' d rs buf. net_fetch_http m p net_data_init = Ret (0, d) m' \<and> in_bytes m' c' = rest \<and>
    net_parse_rsp \<lparr>rs_data = d, rs_code = 0, rs_major = 0, rs_minor = 0, http_msg = 0\<rparr> = Some (0, rs) \<and>
    rs_code rs = int (digits_val code) \<and> rsp_header_buf rs = Some buf \<and>
    sb buf (rsp_line (norm a) (norm b) (norm code) msg @ crlf @ header_text (map hdr_kv hs) @ crlf)"
  using fetched_rsp [OF assms] by blast

lemma request_head_trip:
  assumes r: "req_ok me sch host po pa a b hs" and lv: "live m p c"
    and i: "in_bytes m c = req_line me (uri_text sch host po pa) a b @ crlf @ wire hs @ crlf @ rest"
  shows "\<exists>m' c' d rq buf. net_fetch_http m p net_data_init = Ret (0, d) m' \<and> in_bytes m' c' = rest \<and>
    net_parse_req (junk\<lparr>rq_data := d\<rparr>) = Some (0, rq) \<and> req_is rq me host (path_or_root pa) (port_num po) \<and>
    req_header_buf rq = Some buf \<and>
    sb buf (req_line me (path_or_root pa) (norm a) (norm b) @ crlf @ header_text (map hdr_kv hs) @ crlf)"
proof -
  obtain m' c' d rq where f: "net_fetch_http m p net_data_init = Ret (0, d) m'" "in_bytes m' c' = rest"
    "net_parse_req (junk\<lparr>rq_data := d\<rparr>) = Some (0, rq)"
    and q: "req_is rq me host (path_or_root pa) (port_num po)" "small_int (ver_major rq)" "small_int (ver_minor rq)"
    "ent_vals (rq_data rq) (map hdr_kv hs)" "ver_major rq = int (digits_val a)" "ver_minor rq = int (digits_val b)"
    using fetched_req [OF r lv i, where junk = junk] by blast
  have "length me + length (path_or_root pa) + length (header_text (map hdr_kv hs)) + 80 < 2 ^ 30"
    using r hdr_text_length [of hs] by (auto simp: req_ok_def uri_text_def path_or_root_def HTTP_HEADER_MAXLEN_def)
  from f q req_header_buf_text [OF q(1-4) this] show ?thesis by (auto simp: crlf_def)
qed

subsection \<open>A message with one header field\<close>

lemma sample_message:
  assumes "NUL \<notin> set start" "NUL \<notin> set k" "NUL \<notin> set v" "length start + length k + length v < 1000"
  shows "\<exists>d. c_string (nd_buf d) = Some start \<and> ent_string d k = Some (Some v) \<and>
    (\<forall>k'. k' \<noteq> k \<longrightarrow> ent_string d k' = Some None)"
proof -
  obtain b where b: "sb b (start @ NUL # k @ NUL # v @ NUL # '''')"
    using sb_exists [of "start @ NUL # k @ NUL # v @ NUL # ''''"] assms(4) by auto
  let ?off = "int (length start + 1 + length k + 1)" let ?d = "\<lparr>nd_buf = b, nd_table = hash_put hash_empty k ?off\<rparr>"
  have g: "net_data_get_ent ?d k' = (if k' = k then Some ?off else None)" for k'
    using ht.lookup_put [OF uniq_table_empty(1), of k "?off" k'] by (simp add: net_data_get_ent_def hash_lookup_def [symmetric])
  have "cstr_ofs b 0 = Some start" by (rule sb_word [where pre = "''''"]) (use b assms(1) in auto)
  moreover have "cstr_ofs b ?off = Some v"
    by (rule sb_word [where pre = "start @ NUL # k @ [NUL]"]) (use b assms(3) in auto)
  ultimately show ?thesis using g by (intro exI [of _ ?d]) (simp add: c_string_def ent_string_def)
qed

lemmas sample_data = sample_message [of "''GET''", simplified]

lemma pull_sfds [simp]:
  fixes m :: mach
  shows "sfds (snd (net_pull_add m fd err)) = sfds m" "sfd_cnt (snd (net_pull_add m fd err)) = sfd_cnt m"
    "sfds (snd (net_pull_set_handler m fd fl c)) = sfds m" "sfd_cnt (snd (net_pull_set_handler m fd fl c)) = sfd_cnt m"
  by (simp_all add: net_pull_add_def epoll_ctl_add_def net_pull_set_handler_def Let_def split: option.splits)

definition sample_bind :: bind_res where
  "sample_bind = \<lparr>br_family = AF_INET, br_sock = Some 5, br_sockopt = True, br_bind = True, br_nonblock = True, br_listen = True\<rparr>"

lemma sample_args: "\<exists>arg. proxy_parse_arg (\<lambda>_. True) [''proxy'', ''8080''] (proxy_log_init (\<lambda>_. True) default_arg) = (0, arg)"
  using proxy_parse_arg_spec [of "[]" "\<lambda>_. True" "''8080''" "''proxy''" "[]" "proxy_log_init (\<lambda>_. True) default_arg"]
  by (simp add: digits_val_def digit_val_def ch_class_defs)

lemma sample_start: "\<exists>arg m. proxy_start (\<lambda>_. True) [''proxy'', ''8080''] 3 4 [sample_bind] mach_init = Some (Loop arg m)"
proof -
  obtain arg where a: "proxy_parse_arg (\<lambda>_. True) [''proxy'', ''8080''] (proxy_log_init (\<lambda>_. True) default_arg) = (0, arg)"
    using sample_args by blast
  show ?thesis
    by (simp add: proxy_start_def a net_pull_init_def conn_module_init_def sample_bind_def Let_def br_ok_def k_socket_def SERVER_MAX_FD_def)
qed

end
