(* ===== verification/Runs.thy ===== *)
theory Runs
  imports Trips
begin

text \<open>
  Concrete runs of the two coroutines of a client: the request coroutine accepts a request, connects
  to its server and appends the request to the list, and then fails while the response coroutine
  relays the response; and a run in which the response coroutine ends first.
\<close>

lemma ex_conjI: "P x \<Longrightarrow> Q x \<Longrightarrow> \<exists>x. P x \<and> Q x"
  by blast

lemma conn_incref_next: "conn_incref m p = Some m' \<Longrightarrow> next_addr (conns m') = next_addr (conns m)"
  by (auto simp: conn_incref_def mem_incref_def split: option.splits)

lemma rheap_inv_counts:
  "rheap_inv h \<Longrightarrow> next_addr h' = next_addr h \<Longrightarrow> \<forall>q. mem_read h' q = mem_read h q \<Longrightarrow> \<forall>q. mem_cnt h q \<le> mem_cnt h' q \<Longrightarrow> rheap_inv h'"
  unfolding rheap_inv_def
proof (intro allI impI)
  fix p n x
  assume h: "\<forall>p n x. cells h p = Some (n, x) \<longrightarrow> 0 < n \<and> p < next_addr h" "next_addr h' = next_addr h"
    "\<forall>q. mem_read h' q = mem_read h q" "\<forall>q. mem_cnt h q \<le> mem_cnt h' q" and c: "cells h' p = Some (n, x)"
  have "mem_read h p = Some x" using h(3) c by (metis mem_read_def option.map(2) snd_conv)
  then obtain k where k: "cells h p = Some (k, x)" by (auto simp: mem_read_def)
  then have "k \<le> n" using h(4) c by (auto simp: mem_cnt_def dest: spec [of _ p])
  with h(1,2) k show "0 < n \<and> p < next_addr h'" by fastforce
qed

lemma pipe_start_ok:
  assumes c: "conn_get m client = Some c" and q: "lq_holds (ev_queue m) evs"
  shows "\<exists>s hp. pipe_start m client cx1 cx2 reqs dns lg = Some s \<and>
    lq_holds (ev_queue (pi_m s)) (evs @ [(id_max m, 1), (id_max m + 1, 1)]) \<and>
    pi_h s = \<lparr>hc_client = client, hc_pool = hash_empty, hc_list = lq_empty, ev_notice_req = id_max m, ev_notice_rsp = id_max m + 1,
      req_blocked = True, rsp_blocked = True, req_will_exit = False, rsp_will_exited = False, hc_reqs = reqs, hc_dns = dns, hc_log = lg\<rparr> \<and>
    pi_rq s = RqWaitStart \<and> pi_rs s = RsWaitStart \<and> pi_cur s = Main \<and> rq_cx s = cx1 \<and> rs_cx s = cx2 \<and> pi_enq s = [] \<and> pi_ans s = [] \<and>
    (\<exists>eh eq. pi_m s = m\<lparr>id_max := id_max m + 2, conns := hp, ev_queue := eq, ev_handlers := eh\<rparr>) \<and>
    next_addr hp = next_addr (conns m) \<and> (\<forall>q. mem_read hp q = mem_read (conns m) q) \<and> (\<forall>q. mem_cnt hp q = mem_cnt (conns m) q + (if q = client then 2 else 0))"
proof -
  let ?e1 = "id_max m" and ?e2 = "id_max m + 1"
  obtain h1 where h1: "conn_incref m client = Some (m\<lparr>conns := h1\<rparr>)" "\<forall>q. conn_get (m\<lparr>conns := h1\<rparr>) q = conn_get m q"
    "\<forall>q. mem_cnt h1 q = mem_cnt (conns m) q + (if q = client then 1 else 0)" using conn_incref_ok [OF c] by blast
  let ?m1 = "m\<lparr>conns := h1, id_max := id_max m + 2\<rparr>"
  have "lq_holds (ev_queue ?m1) evs" using q by simp
  from event_post_holds [OF this, of ?e1 1] obtain q1 where
    q1: "event_post ?m1 ?e1 1 = Some (?m1\<lparr>ev_queue := q1\<rparr>)" "lq_holds q1 (evs @ [(?e1, 1)])" by blast
  let ?h = "\<lparr>hc_client = client, hc_pool = hash_empty, hc_list = lq_empty, ev_notice_req = ?e1, ev_notice_rsp = ?e2,
      req_blocked = False, rsp_blocked = False, req_will_exit = False, rsp_will_exited = False, hc_reqs = reqs, hc_dns = dns, hc_log = lg\<rparr>"
  have two: "id_max m + 1 + 1 = id_max m + 2" by simp
  have r1: "req_start m client reqs dns lg = Some (?m1\<lparr>ev_queue := q1\<rparr>, ?h\<lparr>req_blocked := True\<rparr>)"
    using h1(1) q1(1) unfolding req_start_def event_get_id_def by (simp add: Let_def add.commute)
  let ?m2 = "event_set_handler (?m1\<lparr>ev_queue := q1\<rparr>) ?e1 ConnEvent cx1"
  have "conn_get ?m2 client = Some c" using c h1(2) by (simp add: event_set_handler_def conn_get_def)
  from conn_incref_ok [OF this] obtain h2 where h2: "conn_incref ?m2 client = Some (?m2\<lparr>conns := h2\<rparr>)"
    "\<forall>q. conn_get (?m2\<lparr>conns := h2\<rparr>) q = conn_get ?m2 q"
    "\<forall>q. mem_cnt h2 q = mem_cnt (conns ?m2) q + (if q = client then 1 else 0)" by blast
  have "lq_holds (ev_queue (?m2\<lparr>conns := h2\<rparr>)) (evs @ [(?e1, 1)])" using q1(2) by (simp add: event_set_handler_def)
  from event_post_holds [OF this, of ?e2 1] obtain q2 where
    q2: "event_post (?m2\<lparr>conns := h2\<rparr>) ?e2 1 = Some (?m2\<lparr>conns := h2, ev_queue := q2\<rparr>)" "lq_holds q2 ((evs @ [(?e1, 1)]) @ [(?e2, 1)])"
    by auto
  have r2: "rsp_start ?m2 (?h\<lparr>req_blocked := True\<rparr>) = Some (?m2\<lparr>conns := h2, ev_queue := q2\<rparr>, ?h\<lparr>req_blocked := True, rsp_blocked := True\<rparr>)"
    using h2(1) q2(1) by (simp add: rsp_start_def)
  let ?s = "\<lparr>pi_m = event_set_handler (?m2\<lparr>conns := h2, ev_queue := q2\<rparr>) ?e2 ConnEvent cx2, pi_h = ?h\<lparr>req_blocked := True, rsp_blocked := True\<rparr>,
     pi_rq = RqWaitStart, pi_rs = RsWaitStart, pi_cur = Main, rq_cx = cx1, rs_cx = cx2, pi_enq = [], pi_ans = []\<rparr>"
  have "pipe_start m client cx1 cx2 reqs dns lg = Some ?s"
    using r1 r2 by (simp add: pipe_start_def)
  moreover have "next_addr h2 = next_addr (conns m)" using conn_incref_next [OF h1(1)] conn_incref_next [OF h2(1)] by (simp add: event_set_handler_def)
  moreover have "\<forall>q. mem_read h2 q = mem_read (conns m) q" using h1(2) h2(2) by (simp add: conn_get_def event_set_handler_def)
  moreover have "\<forall>q. mem_cnt h2 q = mem_cnt (conns m) q + (if q = client then 2 else 0)" using h1(3) h2(3) by (simp add: event_set_handler_def)
  moreover have "\<exists>eh eq. pi_m ?s = m\<lparr>id_max := id_max m + 2, conns := h2, ev_queue := eq, ev_handlers := eh\<rparr>"
    by (simp add: event_set_handler_def, intro exI, rule refl)
  moreover have "lq_holds (ev_queue (pi_m ?s)) (evs @ [(?e1, 1), (?e2, 1)])" using q2(2) by (simp add: event_set_handler_def)
  ultimately show ?thesis by (intro exI [of _ ?s] exI [of _ h2]) simp
qed

subsection \<open>Up to the first request\<close>

text \<open>What a run keeps of the machine it started on: two open connections, nothing registered with the
  kernel.\<close>

definition fresh_mach :: "mach \<Rightarrow> bool" where
  "fresh_mach m \<longleftrightarrow> conn_get m 1 = Some (sample_conn 5) \<and> main_stat m = RUNING \<and> pull_inv m \<and> epollfd m = 3 \<and> k_open m = {5, 6} \<and>
     free_pool m = hash_empty \<and> id_max m = 4 \<and> mem_cnt (conns m) 1 = 4 \<and> rheap_inv (conns m) \<and> next_addr (conns m) = 3"

definition run_cxt :: "bool \<Rightarrow> bool \<Rightarrow> net_handle_cxt" where
  "run_cxt rb pb = \<lparr>hc_client = 1, hc_pool = hash_empty, hc_list = lq_empty, ev_notice_req = 2, ev_notice_rsp = 3, req_blocked = rb,
     rsp_blocked = pb, req_will_exit = False, rsp_will_exited = False, hc_reqs = rheap_empty, hc_dns = hash_empty, hc_log = []\<rparr>"

lemma fresh_mach_queue [simp]: "fresh_mach (m\<lparr>ev_queue := q\<rparr>) = fresh_mach m"
  by (simp add: fresh_mach_def pull_inv_def np_handler_of_def conn_get_def cong: conj_cong)

lemma run_start:
  "\<exists>s. reachable s \<and> pi_rq s = RqWaitStart \<and> pi_rs s = RsWaitStart \<and> pi_cur s = Main \<and> rq_cx s = 10 \<and> rs_cx s = 11 \<and>
     pi_enq s = [] \<and> pi_ans s = [] \<and> pi_h s = run_cxt True True \<and> fresh_mach (pi_m s) \<and> lq_holds (ev_queue (pi_m s)) [(2, 1), (3, 1)]"
proof -
  let ?m = "sample_mach '''' '''' 0"
  have g: "conn_get ?m 1 = Some (sample_conn 5)" and q: "lq_holds (ev_queue ?m) []" by simp_all
  obtain s hp eh eq where s: "pipe_start ?m 1 10 11 rheap_empty hash_empty [] = Some s"
    "lq_holds (ev_queue (pi_m s)) [(2, 1), (3, 1)]" "pi_h s = run_cxt True True" "pi_rq s = RqWaitStart" "pi_rs s = RsWaitStart"
    "pi_cur s = Main" "rq_cx s = 10" "rs_cx s = 11" "pi_enq s = []" "pi_ans s = []"
    "pi_m s = ?m\<lparr>id_max := 4, conns := hp, ev_queue := eq, ev_handlers := eh\<rparr>" "next_addr hp = next_addr (conns ?m)"
    "\<forall>q. mem_read hp q = mem_read (conns ?m) q" "\<forall>q. mem_cnt hp q = mem_cnt (conns ?m) q + (if q = 1 then 2 else 0)"
    using pipe_start_ok [OF g q, of 10 11 rheap_empty hash_empty "[]"] by (auto simp: run_cxt_def)
  have "reachable s"
    by (rule reachable.start [OF s(1), where evs = "[]"]) (simp_all add: ev_handler_of_def)
  moreover have "rheap_inv (conns ?m)" by (simp add: rheap_inv_def sample_mach_def)
  then have "rheap_inv hp" using rheap_inv_counts s(12-14) by fastforce
  then have "fresh_mach (pi_m s)"
    using s(11-14) g by (simp add: fresh_mach_def conn_get_def pull_inv_def np_handler_of_def) (simp add: sample_mach_def)
  ultimately show ?thesis using s by blast
qed

text \<open>The notice the coroutine posted to itself arrives.\<close>

lemma event_pstep:
  assumes k: "regs_ok s" "pi_cur s = Main" and q: "lq_holds (ev_queue (pi_m s)) ((e, d) # evs)"
    and e: "e = ev_notice_req (pi_h s) \<and> pi_rq s \<noteq> RqDone \<and> cx = rq_cx s \<or> e = ev_notice_rsp (pi_h s) \<and> pi_rs s \<noteq> RsDone \<and> cx = rs_cx s"
  shows "\<exists>q. lq_holds q evs \<and> pstep s (dispatch (s\<lparr>pi_m := (pi_m s)\<lparr>ev_queue := q\<rparr>\<rparr>) cx d)"
proof -
  obtain q' where q': "lq_deq (ev_queue (pi_m s)) = Some q'" "lq_holds q' evs" using lq.deq_holds [OF q] by blast
  have "ev_handler_of (pi_m s) e = Some (ConnEvent, cx)" using k(1) e by (auto simp: regs_ok_def)
  then have "pstep s (dispatch (s\<lparr>pi_m := (pi_m s)\<lparr>ev_queue := q'\<rparr>\<rparr>) cx d)"
    by (rule pstep.event [OF k(2) lq.peek_holds [OF q] q'(1)]) (use e in auto)
  with q' show ?thesis by blast
qed

lemma event_step:
  assumes r: "reachable s" "pi_cur s = Main" and q: "lq_holds (ev_queue (pi_m s)) ((e, d) # evs)"
    and e: "e = ev_notice_req (pi_h s) \<and> pi_rq s \<noteq> RqDone \<and> cx = rq_cx s \<or> e = ev_notice_rsp (pi_h s) \<and> pi_rs s \<noteq> RsDone \<and> cx = rs_cx s"
  shows "\<exists>q. lq_holds q evs \<and> reachable (dispatch (s\<lparr>pi_m := (pi_m s)\<lparr>ev_queue := q\<rparr>\<rparr>) cx d) \<and> rq_cx s \<noteq> rs_cx s"
proof -
  have k: "regs_ok s" using reachable_ctl [OF r(1)] by (simp add: ctl_inv_def)
  from event_pstep [OF this r(2) q e] k r(1) show ?thesis using reachable.step by (auto simp: regs_ok_def)
qed

lemma run_fetch:
  "\<exists>s. reachable s \<and> at_rq s RqFetch \<and> pi_rs s = RsWaitStart \<and> rq_cx s = 10 \<and> rs_cx s = 11 \<and>
     pi_enq s = [] \<and> pi_ans s = [] \<and> pi_h s = run_cxt False True \<and> fresh_mach (pi_m s) \<and> lq_holds (ev_queue (pi_m s)) [(3, 1)]"
proof -
  from run_start obtain s where s: "reachable s" "pi_rq s = RqWaitStart" "pi_rs s = RsWaitStart" "pi_cur s = Main" "rq_cx s = 10" "rs_cx s = 11"
     "pi_enq s = []" "pi_ans s = []" "pi_h s = run_cxt True True" "fresh_mach (pi_m s)" "lq_holds (ev_queue (pi_m s)) [(2, 1), (3, 1)]" by blast
  obtain q where q: "lq_holds q [(3, 1)]" "reachable (dispatch (s\<lparr>pi_m := (pi_m s)\<lparr>ev_queue := q\<rparr>\<rparr>) 10 1)"
    using event_step [OF s(1,4,11), of 10] s by (auto simp: run_cxt_def)
  let ?s1 = "s\<lparr>pi_rq := RqLoop, pi_cur := Rq, pi_m := (pi_m s)\<lparr>ev_queue := q\<rparr>, pi_h := run_cxt False True\<rparr>"
  have "dispatch (s\<lparr>pi_m := (pi_m s)\<lparr>ev_queue := q\<rparr>\<rparr>) 10 1 = ?s1"
    using s by (simp add: dispatch_def resume_rq_def run_cxt_def)
  with q(2) have r1: "reachable ?s1" by simp
  have f: "fresh_mach (pi_m ?s1)" using s(10) by simp
  have "\<not> leave_loop (pi_m ?s1) (pi_h ?s1)" using f by (simp add: leave_loop_def fresh_mach_def run_cxt_def)
  from pstep.rq_fetch [OF _ this] have "pstep ?s1 (?s1\<lparr>pi_rq := RqFetch\<rparr>)" by simp
  with r1 have "reachable (?s1\<lparr>pi_rq := RqFetch\<rparr>)" by (rule reachable.step)
  with f q(1) s show ?thesis by (intro exI [of _ "?s1\<lparr>pi_rq := RqFetch\<rparr>"]) simp
qed

definition server_conn :: conn where
  "server_conn = conn_init conn_blank 7 (Some (addr_endpoint sample_addr (htons 80)))"

definition sample_sys :: "nat \<Rightarrow> conn_sys" where
  "sample_sys i = \<lparr>cs_sock = Some 7, cs_nonblock = True, cs_conn = ConnOk\<rparr>"

text \<open>The request at address 1 has been appended for the server connection at address 3.\<close>

definition one_request :: "pipe \<Rightarrow> bool" where
  "one_request s \<longleftrightarrow> rq_cx s = 10 \<and> rs_cx s = 11 \<and> pi_enq s = [1] \<and> pi_ans s = [] \<and>
     hc_client (pi_h s) = 1 \<and> ev_notice_req (pi_h s) = 2 \<and> ev_notice_rsp (pi_h s) = 3 \<and>
     lq_holds (hc_list (pi_h s)) [(3, 1)] \<and> mem_read (hc_reqs (pi_h s)) 1 = Some sample_junk \<and>
     conn_get (pi_m s) 3 = Some server_conn \<and> conn_get (pi_m s) 1 = Some (sample_conn 5) \<and> main_stat (pi_m s) = RUNING"

lemma run_sent:
  "\<exists>s. reachable s \<and> at_rq s (RqSend 3 1) \<and> pi_rs s = RsWaitStart \<and> one_request s \<and> mem_cnt (hc_reqs (pi_h s)) 1 = 2 \<and>
     mem_cnt (conns (pi_m s)) 3 = 3 \<and> lq_holds (ev_queue (pi_m s)) [(3, 1), (3, 1)]"
proof -
  from run_fetch obtain s where s: "reachable s" "at_rq s RqFetch" "pi_rs s = RsWaitStart" "rq_cx s = 10" "rs_cx s = 11"
     "pi_enq s = []" "pi_ans s = []" "pi_h s = run_cxt False True" "fresh_mach (pi_m s)" "lq_holds (ev_queue (pi_m s)) [(3, 1)]" by blast
  let ?rs = "\<lparr>cells = [1 \<mapsto> (1, sample_junk)], next_addr = 2\<rparr>"
  have al: "mem_alloc_auto (hc_reqs (pi_h s)) sample_junk = (1, ?rs)" using s(8) by (simp add: run_cxt_def mem_alloc_auto_def rheap_empty_def)
  let ?h1 = "(pi_h s)\<lparr>hc_reqs := ?rs\<rparr>" let ?s1 = "s\<lparr>pi_rq := RqReady 1, pi_h := ?h1\<rparr>"
  have r1: "reachable ?s1" by (rule reachable.step [OF s(1) pstep.rq_parsed [OF s(2) al]])
  have u: "uniq_table (ev_handlers (pi_m s))" using reachable_ctl [OF s(1)] by (simp add: ctl_inv_def regs_ok_def)
  have f: "pull_inv (pi_m s)" "0 \<le> epollfd (pi_m s)" "main_stat (pi_m s) = RUNING" "rheap_inv (conns (pi_m s))"
    "pool_of (pi_m s) ep = []" "7 \<notin> k_open (pi_m s)" "next_addr (conns (pi_m s)) = 3" "id_max (pi_m s) = 4"
    "conn_get (pi_m s) 1 = Some (sample_conn 5)" for ep
    using s(9) by (simp_all add: fresh_mach_def pool_of_def)
  have e1: "HASH_FIND (hash_empty :: dns_cache_table) ''h'' = None" and e2: "HASH_FIND (hash_empty :: server_pool) k = None" for k
    by (simp_all add: HASH_FIND_def hash_empty_def)
  have len: "length ''h'' < DOMAIN_MAXLEN" by (simp add: DOMAIN_MAXLEN_def)
  have sy: "cs_sock (sample_sys 0) = Some 7" "cs_nonblock (sample_sys 0)" "cs_conn (sample_sys 0) = ConnOk" by (simp_all add: sample_sys_def)
  have fam: "ai_family sample_addr = AF_INET \<or> ai_family sample_addr = AF_INET6" by (simp add: sample_addr_def)
  obtain m2 where m2: "net_connect_to_server (pi_m s) hash_empty hash_empty ''h'' (htons 80) (GaiDone [] (Some [sample_addr])) sample_sys =
      Some (Some 3, m2, HASH_ADD hash_empty ''h'' [sample_addr], HASH_ADD hash_empty (ep_key (addr_endpoint sample_addr (htons 80))) 3)"
    "conn_get m2 3 = Some server_conn" "mem_cnt (conns m2) 3 = 2" "conn_get m2 1 = Some (sample_conn 5)" "main_stat m2 = RUNING"
    "ev_queue m2 = ev_queue (pi_m s)"
    using connect_fresh [where m = "pi_m s" and dns = hash_empty and host = "''h''" and gai = "GaiDone [] (Some [sample_addr])" and
        ai = sample_addr and as = "[]" and pool = hash_empty and port = "htons 80" and sys = sample_sys and fd = 7,
        OF f(1,2) u f(3,4) e1 len _ fam e2 f(5) sy f(6)] f(7-9)
    by (auto simp: server_conn_def)
  let ?h2 = "?h1\<lparr>hc_dns := HASH_ADD hash_empty ''h'' [sample_addr], hc_pool := HASH_ADD hash_empty (ep_key (addr_endpoint sample_addr (htons 80))) 3\<rparr>"
  let ?s2 = "?s1\<lparr>pi_rq := RqHead 3 1, pi_m := m2, pi_h := ?h2\<rparr>"
  have n: "id_max (pi_m ?s1) \<noteq> ev_notice_req (pi_h ?s1)" "id_max (pi_m ?s1) \<noteq> ev_notice_rsp (pi_h ?s1)"
    using f(8) s(8) by (simp_all add: run_cxt_def)
  have "net_connect_to_server (pi_m ?s1) (hc_dns (pi_h ?s1)) (hc_pool (pi_h ?s1)) ''h'' (htons 80) (GaiDone [] (Some [sample_addr])) sample_sys =
      Some (Some 3, m2, HASH_ADD hash_empty ''h'' [sample_addr], HASH_ADD hash_empty (ep_key (addr_endpoint sample_addr (htons 80))) 3)"
    using m2(1) s(8) by (simp add: run_cxt_def)
  from pstep.rq_connect [OF _ n this, of 1] have "pstep ?s1 ?s2" using s(2) by simp
  with r1 have r2: "reachable ?s2" by (rule reachable.step)
  have q2: "lq_holds (hc_list ?h2) []" "mem_read (hc_reqs ?h2) 1 = Some sample_junk" using s(8) by (simp_all add: run_cxt_def mem_read_def)
  obtain hp rs q where en: "enqueue_req m2 ?h2 3 1 = Some (m2\<lparr>conns := hp\<rparr>, ?h2\<lparr>hc_reqs := rs, hc_list := q\<rparr>)"
    "\<forall>x. conn_get (m2\<lparr>conns := hp\<rparr>) x = conn_get m2 x" "\<forall>x. mem_cnt hp x = mem_cnt (conns m2) x + (if x = 3 then 1 else 0)"
    "mem_read rs 1 = Some sample_junk" "mem_cnt rs 1 = 2" "lq_holds q [(3, 1)]"
    using enqueue_req_ok [OF m2(2) q2(2,1)] by (auto simp: mem_cnt_def)
  let ?h3 = "?h2\<lparr>hc_reqs := rs, hc_list := q\<rparr>"
  have "lq_holds (ev_queue (m2\<lparr>conns := hp\<rparr>)) [(3, 1)]" using m2(6) s(10) by simp
  from notify_rsp_ok [OF this, of ?h3] obtain eq where eq: "notify_rsp (m2\<lparr>conns := hp\<rparr>) ?h3 = Some (m2\<lparr>conns := hp, ev_queue := eq\<rparr>)"
    "lq_holds eq [(3, 1), (3, 1)]" using s(8) by (auto simp: run_cxt_def)
  have "enqueue_notify False (pi_m ?s2) (pi_h ?s2) 3 1 = Some (m2\<lparr>conns := hp, ev_queue := eq\<rparr>, ?h3)"
    using en(1) eq(1) by (simp add: enqueue_notify_def)
  from pstep.rq_enqueue [OF _ this] have "pstep ?s2 (?s2\<lparr>pi_rq := RqSend 3 1, pi_m := m2\<lparr>conns := hp, ev_queue := eq\<rparr>, pi_h := ?h3, pi_enq := pi_enq ?s2 @ [1]\<rparr>)"
    using s(2) by simp
  with r2 have r3: "reachable (?s2\<lparr>pi_rq := RqSend 3 1, pi_m := m2\<lparr>conns := hp, ev_queue := eq\<rparr>, pi_h := ?h3, pi_enq := pi_enq ?s2 @ [1]\<rparr>)"
    by (rule reachable.step)
  show ?thesis
    by (rule exI, rule conjI, rule r3) (use s en(2-6) eq(2) m2 in \<open>simp add: one_request_def run_cxt_def conn_get_def\<close>)
qed

text \<open>The response coroutine starts to relay the response and is suspended in input or output; then the
  request coroutine fails.\<close>

lemma one_request_simps [simp]:
  "one_request (s\<lparr>pi_cur := w\<rparr>) = one_request s" "one_request (s\<lparr>pi_rs := rs\<rparr>) = one_request s"
  "one_request (s\<lparr>pi_rq := rq\<rparr>) = one_request s" "one_request (s\<lparr>pi_h := (pi_h s)\<lparr>rsp_blocked := b\<rparr>\<rparr>) = one_request s"
  "one_request (s\<lparr>pi_m := (pi_m s)\<lparr>ev_queue := q\<rparr>\<rparr>) = one_request s"
  by (simp_all add: one_request_def conn_get_def)

lemma run_busy:
  "\<exists>s. reachable s \<and> at_rq s (RqSend 3 1) \<and> pi_rs s = RsBusy \<and> one_request s \<and> mem_cnt (hc_reqs (pi_h s)) 1 = 2 \<and>
     mem_cnt (conns (pi_m s)) 3 = 3 \<and> lq_holds (ev_queue (pi_m s)) []"
proof -
  from run_sent obtain s where s: "reachable s" "at_rq s (RqSend 3 1)" "pi_rs s = RsWaitStart" "one_request s"
    "mem_cnt (hc_reqs (pi_h s)) 1 = 2" "mem_cnt (conns (pi_m s)) 3 = 3" "lq_holds (ev_queue (pi_m s)) [(3, 1), (3, 1)]" by blast
  have o: "ev_notice_rsp (pi_h s) = 3" "rs_cx s = 11" "rq_cx s = 10" "lq_holds (hc_list (pi_h s)) [(3, 1)]"
    "hc_client (pi_h s) = 1" "conn_get (pi_m s) 1 = Some (sample_conn 5)" "main_stat (pi_m s) = RUNING"
    using s(4) by (simp_all add: one_request_def)
  have io: "rq_io (RqSend 3 1)" by (simp add: rq_io_def)
  let ?s1 = "s\<lparr>pi_cur := Main\<rparr>"
  have r1: "reachable ?s1" by (rule reachable.step [OF s(1) pstep.yield_rq]) (use s(2) io in auto)
  obtain q where q: "lq_holds q [(3, 1)]" "reachable (dispatch (?s1\<lparr>pi_m := (pi_m ?s1)\<lparr>ev_queue := q\<rparr>\<rparr>) 11 1)"
    using event_step [OF r1, of 3 1 "[(3, 1)]" 11] s(3,7) o by auto
  let ?h = "(pi_h s)\<lparr>rsp_blocked := False\<rparr>"
  let ?s2 = "s\<lparr>pi_cur := Rs, pi_rs := RsLoop, pi_h := ?h, pi_m := (pi_m s)\<lparr>ev_queue := q\<rparr>\<rparr>"
  have "dispatch (?s1\<lparr>pi_m := (pi_m ?s1)\<lparr>ev_queue := q\<rparr>\<rparr>) 11 1 = ?s2"
    using s(3) o by (simp add: dispatch_def resume_rs_def)
  with q(2) have r2: "reachable ?s2" by simp
  have "\<not> leave_loop (pi_m ?s2) (pi_h ?s2)" using o by (simp add: leave_loop_def conn_get_def)
  moreover have "lq_head (hc_list (pi_h ?s2)) \<noteq> None" using lq.peek_holds [OF o(4)] by (auto simp: lq_first_def split: option.splits)
  ultimately have "pstep ?s2 (?s2\<lparr>pi_rs := RsBusy\<rparr>)" by (intro pstep.rs_take) simp_all
  with r2 have r3: "reachable (?s2\<lparr>pi_rs := RsBusy\<rparr>)" by (rule reachable.step)
  let ?s4 = "?s2\<lparr>pi_rs := RsBusy, pi_cur := Main\<rparr>"
  have "pstep (?s2\<lparr>pi_rs := RsBusy\<rparr>) (?s2\<lparr>pi_rs := RsBusy, pi_cur := Main\<rparr>)" by (rule pstep.yield_rs) simp
  from reachable.step [OF r3 this] have r4: "reachable ?s4" by simp
  obtain q' where q': "lq_holds q' []" "reachable (dispatch (?s4\<lparr>pi_m := (pi_m ?s4)\<lparr>ev_queue := q'\<rparr>\<rparr>) 11 1)"
    using event_step [OF r4, of 3 1 "[]" 11] q(1) o by auto
  let ?s5 = "s\<lparr>pi_cur := Rs, pi_rs := RsBusy, pi_h := ?h, pi_m := (pi_m s)\<lparr>ev_queue := q'\<rparr>\<rparr>"
  have "dispatch (?s4\<lparr>pi_m := (pi_m ?s4)\<lparr>ev_queue := q'\<rparr>\<rparr>) 11 1 = ?s5"
    using s(3) o by (simp add: dispatch_def resume_rs_def)
  with q'(2) have r5: "reachable ?s5" by simp
  have "pstep ?s5 (?s5\<lparr>pi_cur := Main\<rparr>)" by (rule pstep.yield_rs) simp
  with r5 have r6: "reachable (?s5\<lparr>pi_cur := Main\<rparr>)" by (rule reachable.step)
  have "pstep (?s5\<lparr>pi_cur := Main\<rparr>) (?s5\<lparr>pi_cur := Main, pi_cur := Rq\<rparr>)"
    by (rule pstep.ready_rq) (use s(2) io in simp_all)
  from reachable.step [OF r6 this] have "reachable (?s5\<lparr>pi_cur := Rq\<rparr>)" by simp
  moreover have "one_request (?s5\<lparr>pi_cur := Rq\<rparr>)" using s(4) by (simp add: one_request_def conn_get_def)
  ultimately show ?thesis using s q'(1) by (intro exI [of _ "?s5\<lparr>pi_cur := Rq\<rparr>"]) simp
qed

lemma run_lost:
  "\<exists>s. reachable s \<and> at_rq s RqExit \<and> pi_rs s = RsBusy \<and> one_request s \<and> lq_holds (ev_queue (pi_m s)) [] \<and>
     cells (conns (pi_m s)) 3 = Some (2, server_conn)"
proof -
  from run_busy obtain s where s: "reachable s" "at_rq s (RqSend 3 1)" "pi_rs s = RsBusy" "one_request s"
    "mem_cnt (hc_reqs (pi_h s)) 1 = 2" "mem_cnt (conns (pi_m s)) 3 = 3" "lq_holds (ev_queue (pi_m s)) []" by blast
  have o: "lq_holds (hc_list (pi_h s)) [(3, 1)]" "mem_read (hc_reqs (pi_h s)) 1 = Some sample_junk" "hc_client (pi_h s) = 1"
    "conn_get (pi_m s) 3 = Some server_conn" "conn_get (pi_m s) 1 = Some (sample_conn 5)" "main_stat (pi_m s) = RUNING"
    using s(4) by (simp_all add: one_request_def)
  have c: "cells (conns (pi_m s)) 3 = Some (3, server_conn)" "cells (hc_reqs (pi_h s)) 1 = Some (2, sample_junk)"
    using o(2,4) s(5,6) by (auto simp: conn_get_def mem_read_def mem_cnt_def)
  let ?m = "(pi_m s)\<lparr>conns := (conns (pi_m s))\<lparr>cells := (cells (conns (pi_m s)))(3 \<mapsto> (2, server_conn))\<rparr>\<rparr>"
  let ?h = "(pi_h s)\<lparr>hc_reqs := (hc_reqs (pi_h s))\<lparr>cells := (cells (hc_reqs (pi_h s)))(1 \<mapsto> (1, sample_junk))\<rparr>\<rparr>"
  have d: "conn_decref (pi_m s) 3 = Some ?m" "req_decref (pi_h s) 1 = Some ?h"
    using c by (simp_all add: conn_decref_def req_decref_def mem_decref_def)
  let ?s = "s\<lparr>pi_rq := RqExit, pi_m := ?m, pi_h := ?h\<rparr>"
  have "pstep s ?s" by (rule pstep.rq_sent [OF s(2) d]) simp
  with s(1) have r: "reachable ?s" by (rule reachable.step)
  have "one_request ?s" using s(4) o by (simp add: one_request_def conn_get_def mem_read_def)
  with r s(2,3,7) show ?thesis by (intro exI [of _ ?s]) simp
qed

subsection \<open>The response coroutine ends first\<close>

lemma run_rs_exit: "\<exists>s. reachable s \<and> pi_rs s = RsDone \<and> pi_rq s = RqFetch"
proof -
  from run_fetch obtain s where s: "reachable s" "at_rq s RqFetch" "pi_rs s = RsWaitStart" "rq_cx s = 10" "rs_cx s = 11"
     "pi_enq s = []" "pi_ans s = []" "pi_h s = run_cxt False True" "fresh_mach (pi_m s)" "lq_holds (ev_queue (pi_m s)) [(3, 1)]" by blast
  have io: "rq_io RqFetch" by (simp add: rq_io_def)
  let ?s1 = "s\<lparr>pi_cur := Main\<rparr>"
  have r1: "reachable ?s1" by (rule reachable.step [OF s(1) pstep.yield_rq]) (use s(2) io in auto)
  obtain q where q: "lq_holds q []" "reachable (dispatch (?s1\<lparr>pi_m := (pi_m ?s1)\<lparr>ev_queue := q\<rparr>\<rparr>) 11 1)"
    using event_step [OF r1, of 3 1 "[]" 11] s by (auto simp: run_cxt_def)
  let ?m = "(pi_m s)\<lparr>ev_queue := q\<rparr>"
  let ?s2 = "s\<lparr>pi_cur := Rs, pi_rs := RsLoop, pi_h := run_cxt False False, pi_m := ?m\<rparr>"
  have "dispatch (?s1\<lparr>pi_m := (pi_m ?s1)\<lparr>ev_queue := q\<rparr>\<rparr>) 11 1 = ?s2"
    using s by (simp add: dispatch_def resume_rs_def run_cxt_def)
  with q(2) have r2: "reachable ?s2" by simp
  obtain k where "cells (conns (pi_m s)) 1 = Some (k, sample_conn 5)" "k = 4"
    using s(9) by (auto simp: fresh_mach_def conn_get_def mem_read_def mem_cnt_def)
  then have c: "cells (conns ?m) 1 = Some (4, sample_conn 5)" by simp
  let ?c = "(sample_conn 5)\<lparr>c_stat := CONN_CLOSED\<rparr>"
  let ?m3 = "?m\<lparr>conns := (conns ?m)\<lparr>cells := (cells (conns ?m))(1 \<mapsto> (4, ?c))\<rparr>\<rparr>"
  have u: "uniq_table (ev_handlers (pi_m s))" using reachable_ctl [OF s(1)] by (simp add: ctl_inv_def regs_ok_def)
  have "pstep ?s2 (?s2\<lparr>pi_m := ?m3\<rparr>)"
    by (rule pstep.io) (use u c in \<open>auto simp: io_effect_def ev_handler_of_def conn_get_def mem_read_def mem_cnt_def\<close>)
  with r2 have r3: "reachable (?s2\<lparr>pi_m := ?m3\<rparr>)" by (rule reachable.step)
  let ?s4 = "?s2\<lparr>pi_m := ?m3, pi_rs := RsExit\<rparr>"
  have "pstep (?s2\<lparr>pi_m := ?m3\<rparr>) (?s2\<lparr>pi_m := ?m3, pi_rs := RsExit\<rparr>)"
    by (rule pstep.rs_break) (simp_all add: leave_loop_def conn_get_def mem_read_def run_cxt_def)
  from reachable.step [OF r3 this] have r4: "reachable ?s4" by simp
  obtain m5 where "rsp_exit ?m3 (run_cxt False False) = Some (m5, (run_cxt False False)\<lparr>req_will_exit := True\<rparr>)"
    by (auto simp: rsp_exit_def run_cxt_def conn_decref_def mem_decref_def Let_def event_free_id_def)
  then have "pstep ?s4 (?s4\<lparr>pi_rs := RsDone, pi_cur := Main, pi_m := m5, pi_h := (run_cxt False False)\<lparr>req_will_exit := True\<rparr>\<rparr>)"
    by (intro pstep.rs_exit) simp_all
  with r4 have r5: "reachable (?s4\<lparr>pi_rs := RsDone, pi_cur := Main, pi_m := m5, pi_h := (run_cxt False False)\<lparr>req_will_exit := True\<rparr>\<rparr>)"
    by (rule reachable.step)
  then show ?thesis by (rule ex_conjI [where P = reachable]) (use s(2) in simp)
qed

subsection \<open>The orderly end\<close>

text \<open>The request coroutine fails while the response coroutine waits for a request: the notices reach the
  waiting coroutines and both end, the request coroutine last.\<close>

lemma orderly_exit:
  assumes inv: "ctl_inv s" and at: "at_rq s RqExit" "pi_rs s = RsWaitReq" and ev: "lq_holds (ev_queue (pi_m s)) []"
    and l: "lq_holds (hc_list (pi_h s)) []" "hash_iter (hc_pool (pi_h s)) = []"
    and cl: "cells (conns (pi_m s)) (hc_client (pi_h s)) = Some (n, c)" "2 \<le> n"
  shows "\<exists>t. pstep\<^sup>*\<^sup>* s t \<and> pi_rq t = RqDone \<and> pi_rs t = RsDone"
proof -
  let ?e1 = "ev_notice_req (pi_h s)" and ?e2 = "ev_notice_rsp (pi_h s)" and ?cl = "hc_client (pi_h s)"
  have k: "regs_ok s" using inv by (simp add: ctl_inv_def)
  then have ne: "?e1 \<noteq> ?e2" "rq_cx s \<noteq> rs_cx s" "\<not> rsp_will_exited (pi_h s)" by (auto simp: regs_ok_def)
  obtain q where q: "event_post (pi_m s) ?e2 0 = Some ((pi_m s)\<lparr>ev_queue := q\<rparr>)" "lq_holds q [(?e2, 0)]"
    using event_post_holds [OF ev, of ?e2 0] by auto
  let ?h1 = "(pi_h s)\<lparr>req_will_exit := True, req_blocked := True\<rparr>"
  let ?m1 = "event_set_handler ((pi_m s)\<lparr>ev_queue := q\<rparr>) ?e1 ConnEvent (rq_cx s)"
  let ?s1 = "s\<lparr>pi_rq := RqWaitExit, pi_cur := Main, pi_m := ?m1, pi_h := ?h1\<rparr>"
  have "req_exit (pi_m s) (pi_h s) = Some (True, (pi_m s)\<lparr>ev_queue := q\<rparr>, ?h1)" using ne q(1) by (simp add: req_exit_def Let_def)
  from pstep.rq_exit [OF at(1) this] have p1: "pstep s ?s1" by simp
  have i1: "ctl_inv ?s1" by (rule ctl_inv_step [OF p1 inv])
  obtain q2 where q2: "lq_holds q2 []" "pstep ?s1 (dispatch (?s1\<lparr>pi_m := (pi_m ?s1)\<lparr>ev_queue := q2\<rparr>\<rparr>) (rs_cx s) 0)"
    using event_pstep [of ?s1 ?e2 0 "[]" "rs_cx s"] i1 q(2) at(2) by (auto simp: ctl_inv_def event_set_handler_def)
  let ?h2 = "?h1\<lparr>rsp_blocked := False\<rparr>"
  let ?s2 = "s\<lparr>pi_rq := RqWaitExit, pi_rs := RsExit, pi_cur := Rs, pi_m := ?m1\<lparr>ev_queue := q2\<rparr>, pi_h := ?h2\<rparr>"
  have "dispatch (?s1\<lparr>pi_m := (pi_m ?s1)\<lparr>ev_queue := q2\<rparr>\<rparr>) (rs_cx s) 0 = ?s2"
    using ne at(2) by (simp add: dispatch_def resume_rs_def)
  with q2(2) have p2: "pstep ?s1 ?s2" by simp
  let ?m2 = "?m1\<lparr>ev_queue := q2\<rparr>"
  have "lq_holds (ev_queue ?m2) []" using q2(1) by simp
  from event_post_holds [OF this, of ?e1 0] obtain q3 where q3: "event_post ?m2 ?e1 0 = Some (?m2\<lparr>ev_queue := q3\<rparr>)" "lq_holds q3 [(?e1, 0)]"
    by auto
  let ?m2' = "event_free_id (?m2\<lparr>ev_queue := q3\<rparr>) ?e2"
  have "conn_get ?m2' ?cl = Some c" "1 < mem_cnt (conns ?m2') ?cl"
    using cl by (simp_all add: event_free_id_def event_set_handler_def conn_get_def mem_read_def mem_cnt_def)
  from conn_decref_more_ok [OF this] obtain hp where
    hp: "conn_decref ?m2' ?cl = Some (?m2'\<lparr>conns := hp\<rparr>)" "conn_get (?m2'\<lparr>conns := hp\<rparr>) ?cl = Some c"
    by (elim exE conjE) (use \<open>conn_get ?m2' ?cl = Some c\<close> in \<open>metis\<close>)
  let ?m3 = "?m2'\<lparr>conns := hp\<rparr>" let ?s3 = "?s2\<lparr>pi_rs := RsDone, pi_cur := Main, pi_m := ?m3, pi_h := ?h2\<rparr>"
  have "rsp_exit ?m2 ?h2 = Some (?m3, ?h2)" using q3(1) hp(1) by (simp add: rsp_exit_def Let_def)
  then have p3: "pstep ?s2 ?s3" by (intro pstep.rs_exit) simp_all
  have i3: "ctl_inv ?s3" using ctl_inv_step p2 p3 i1 by blast
  obtain q4 where q4: "lq_holds q4 []" "pstep ?s3 (dispatch (?s3\<lparr>pi_m := (pi_m ?s3)\<lparr>ev_queue := q4\<rparr>\<rparr>) (rq_cx s) 0)"
    using event_pstep [of ?s3 ?e1 0 "[]" "rq_cx s"] i3 q3(2) by (auto simp: ctl_inv_def event_free_id_def)
  let ?m4 = "?m3\<lparr>ev_queue := q4\<rparr>" and ?h4 = "?h2\<lparr>req_blocked := False\<rparr>"
  let ?s4 = "?s3\<lparr>pi_rq := RqCleanup, pi_cur := Rq, pi_m := ?m4, pi_h := ?h4\<rparr>"
  have "dispatch (?s3\<lparr>pi_m := (pi_m ?s3)\<lparr>ev_queue := q4\<rparr>\<rparr>) (rq_cx s) 0 = ?s4"
    by (simp add: dispatch_def resume_rq_def)
  with q4(2) have p4: "pstep ?s3 ?s4" by simp
  have "\<exists>m5. conn_decref (event_free_id ?m4 ?e1) ?cl = Some m5"
    using hp(2) by (auto simp: conn_decref_def mem_decref_def conn_get_def mem_read_def event_free_id_def)
  then obtain m5 where m5: "conn_decref (event_free_id ?m4 ?e1) ?cl = Some m5" by blast
  have "lq_head (hc_list (pi_h s)) = None" using lq_holds_Nil [OF l(1)] by blast
  then have "req_cleanup ?m4 ?h4 = Some (m5, ?h4\<lparr>hc_pool := HASH_CLEAR (hc_pool (pi_h s))\<rparr>)"
    using l(2) m5 by (simp add: req_cleanup_def drop_list.simps)
  then have p5: "pstep ?s4 (?s4\<lparr>pi_rq := RqDone, pi_cur := Main, pi_m := m5, pi_h := ?h4\<lparr>hc_pool := HASH_CLEAR (hc_pool (pi_h s))\<rparr>\<rparr>)"
    by (intro pstep.rq_cleanup) simp_all
  have "pstep\<^sup>*\<^sup>* s (?s4\<lparr>pi_rq := RqDone, pi_cur := Main, pi_m := m5, pi_h := ?h4\<lparr>hc_pool := HASH_CLEAR (hc_pool (pi_h s))\<rparr>\<rparr>)"
    using p1 p2 p3 p4 p5 by (meson converse_rtranclp_into_rtranclp rtranclp.rtrancl_refl)
  then show ?thesis by (rule ex_conjI [where P = "pstep\<^sup>*\<^sup>* s"]) simp
qed

text \<open>A run to the state where this starts.\<close>

lemma run_fail:
  "\<exists>s. reachable s \<and> at_rq s RqExit \<and> pi_rs s = RsWaitReq \<and> lq_holds (ev_queue (pi_m s)) [] \<and>
     lq_holds (hc_list (pi_h s)) [] \<and> hash_iter (hc_pool (pi_h s)) = [] \<and> hc_client (pi_h s) = 1 \<and>
     cells (conns (pi_m s)) 1 = Some (4, sample_conn 5)"
proof -
  from run_fetch obtain s where s: "reachable s" "at_rq s RqFetch" "pi_rs s = RsWaitStart" "rq_cx s = 10" "rs_cx s = 11"
     "pi_enq s = []" "pi_ans s = []" "pi_h s = run_cxt False True" "fresh_mach (pi_m s)" "lq_holds (ev_queue (pi_m s)) [(3, 1)]" by blast
  have io: "rq_io RqFetch" by (simp add: rq_io_def)
  let ?s1 = "s\<lparr>pi_cur := Main\<rparr>"
  have r1: "reachable ?s1" by (rule reachable.step [OF s(1) pstep.yield_rq]) (use s(2) io in auto)
  obtain q where q: "lq_holds q []" "reachable (dispatch (?s1\<lparr>pi_m := (pi_m ?s1)\<lparr>ev_queue := q\<rparr>\<rparr>) 11 1)"
    using event_step [OF r1, of 3 1 "[]" 11] s by (auto simp: run_cxt_def)
  let ?m = "(pi_m s)\<lparr>ev_queue := q\<rparr>"
  let ?s2 = "s\<lparr>pi_cur := Rs, pi_rs := RsLoop, pi_h := run_cxt False False, pi_m := ?m\<rparr>"
  have "dispatch (?s1\<lparr>pi_m := (pi_m ?s1)\<lparr>ev_queue := q\<rparr>\<rparr>) 11 1 = ?s2"
    using s by (simp add: dispatch_def resume_rs_def run_cxt_def)
  with q(2) have r2: "reachable ?s2" by simp
  have f: "conn_get (pi_m s) 1 = Some (sample_conn 5)" "main_stat (pi_m s) = RUNING" "mem_cnt (conns (pi_m s)) 1 = 4"
    using s(9) by (simp_all add: fresh_mach_def)
  let ?s3 = "?s2\<lparr>pi_rs := RsWaitReq, pi_cur := Main, pi_h := (pi_h ?s2)\<lparr>rsp_blocked := True\<rparr>,
      pi_m := event_set_handler (pi_m ?s2) (ev_notice_rsp (pi_h ?s2)) ConnEvent (rs_cx ?s2)\<rparr>"
  have "pstep ?s2 ?s3"
    by (rule pstep.rs_wait) (use f in \<open>simp_all add: leave_loop_def conn_get_def run_cxt_def lq_empty_def\<close>)
  with r2 have r3: "reachable ?s3" by (rule reachable.step)
  have "pstep ?s3 (?s3\<lparr>pi_cur := Rq\<rparr>)" by (rule pstep.ready_rq) (use s(2) io in simp_all)
  with r3 have r4: "reachable (?s3\<lparr>pi_cur := Rq\<rparr>)" by (rule reachable.step)
  have "pstep (?s3\<lparr>pi_cur := Rq\<rparr>) (?s3\<lparr>pi_cur := Rq, pi_rq := RqExit\<rparr>)" by (rule pstep.rq_fail) (use s(2) in simp_all)
  with r4 have "reachable (?s3\<lparr>pi_cur := Rq, pi_rq := RqExit\<rparr>)" by (rule reachable.step)
  then show ?thesis
    by (rule ex_conjI [where P = reachable])
      (use q(1) f in \<open>simp add: event_set_handler_def run_cxt_def hash_iter_def hash_empty_def conn_get_def mem_read_def mem_cnt_def split: option.splits\<close>,
       auto)
qed

end
