(* ===== verification/ProxyUri.thy ===== *)
theory ProxyUri
  imports NetParse
begin

text \<open>
  The two helper functions of \<^verbatim>\<open>src/proxy.c\<close>: \<^verbatim>\<open>parse_uri\<close>, which splits the URI of a request, and
  \<^verbatim>\<open>format_log_entry\<close>. The buffers of the caller are taken to be large enough, as the
  comment in the source asks for.
\<close>

definition to_lower :: "char \<Rightarrow> char" where
  "to_lower c = (if is_upper c then char_of ((of_char c :: nat) + 32) else c)"

text \<open>\<^verbatim>\<open>strncasecmp(s, t, n) == 0\<close> for a \<open>t\<close> of at least \<open>n\<close> characters.\<close>

definition strncaseeq :: "nat \<Rightarrow> string \<Rightarrow> string \<Rightarrow> bool" where
  "strncaseeq n s t \<longleftrightarrow> n \<le> length s \<and> map to_lower (take n s) = map to_lower (take n t)"

definition uri_delims :: "char set" where
  "uri_delims = set '' :/'' \<union> {CR, LF}"

text \<open>The result is the return value, the host, the port and the path; the last two are only
  written when the value is 0. \<^verbatim>\<open>strpbrk\<close> yields a null pointer when there is no delimiter behind
  the host; the function goes on to read through it.\<close>

definition parse_uri :: "string \<Rightarrow> (int \<times> string \<times> (int \<times> string) option) option" where
  "parse_uri uri =
     (if \<not> strncaseeq 7 uri ''http://'' then Some (-1, '''', None)
      else
        let hostbegin = drop 7 uri; hostend = dropWhile (\<lambda>c. c \<notin> uri_delims) hostbegin in
        case hostend of
          [] \<Rightarrow> None
        | c # r \<Rightarrow>
            let hostname = take (length hostbegin - length hostend) hostbegin;
                port = (if c = CHR '':'' then atoi r else 80);
                pathbegin = dropWhile (\<lambda>c. c \<noteq> CHR ''/'') hostbegin
            in Some (0, hostname, Some (port, if pathbegin = [] then '''' else tl pathbegin)))"

text \<open>\<^verbatim>\<open>ntohl\<close> on a little-endian machine, and the entry; the size is not used.\<close>

definition ntohl :: "32 word \<Rightarrow> 32 word" where
  "ntohl w = (let n = unat w in
     word_of_nat (n mod 256 * 2 ^ 24 + n div 2 ^ 8 mod 256 * 2 ^ 16 + n div 2 ^ 16 mod 256 * 2 ^ 8 + n div 2 ^ 24))"

definition format_log_entry :: "string \<Rightarrow> 32 word \<Rightarrow> string \<Rightarrow> int \<Rightarrow> string" where
  "format_log_entry time_str s_addr uri sz =
     (let host = unat (ntohl s_addr);
          a = host div 2 ^ 24 mod 256; b = host div 2 ^ 16 mod 256; c = host div 2 ^ 8 mod 256; d = host mod 256
      in time_str @ '': '' @ sprintf_d (int a) @ ''.'' @ sprintf_d (int b) @ ''.'' @ sprintf_d (int c) @ ''.'' @
         sprintf_d (int d) @ '' '' @ uri)"

text \<open>The address whose bytes in memory are \<open>b0\<close>, \<open>b1\<close>, \<open>b2\<close>, \<open>b3\<close>.\<close>

definition in_addr :: "8 word \<Rightarrow> 8 word \<Rightarrow> 8 word \<Rightarrow> 8 word \<Rightarrow> 32 word" where
  "in_addr b0 b1 b2 b3 = word_of_nat (unat b0 + unat b1 * 2 ^ 8 + unat b2 * 2 ^ 16 + unat b3 * 2 ^ 24)"

lemma byte_bound: "unat (b :: 8 word) < 256"
  using unsigned_less [of b] by simp

lemma unat_word32: "n < 2 ^ 32 \<Longrightarrow> unat (word_of_nat n :: 32 word) = n"
  by (simp add: unat_of_nat take_bit_eq_mod)

lemma quad_bytes:
  fixes a b c d :: nat
  assumes "a < 256" "b < 256" "c < 256" "d < 256"
  defines "n \<equiv> a + b * 2 ^ 8 + c * 2 ^ 16 + d * 2 ^ 24"
  shows "n mod 256 = a" "n div 2 ^ 8 mod 256 = b" "n div 2 ^ 16 mod 256 = c" "n div 2 ^ 24 = d" "n < 2 ^ 32"
proof -
  have n: "n = a + 256 * (b + 256 * (c + 256 * d))" by (simp add: n_def)
  have 1: "n div 256 = b + 256 * (c + 256 * d)" using assms(1) by (simp add: n)
  have 2: "n div 65536 = c + 256 * d"
  proof -
    have "n div 65536 = n div 256 div 256" by (simp add: div_mult2_eq [symmetric])
    then show ?thesis using assms(2) by (simp add: 1)
  qed
  have 3: "n div 16777216 = d"
  proof -
    have "n div 16777216 = n div 65536 div 256" by (simp add: div_mult2_eq [symmetric])
    then show ?thesis using assms(3) by (simp add: 2)
  qed
  have 4: "n mod 256 = a" unfolding n using assms(1) by (simp only: mod_mult_self2 mod_less)
  have 5: "(b + 256 * (c + 256 * d)) mod 256 = b" "(c + 256 * d) mod 256 = c"
    using assms(2,3) by (simp_all only: mod_mult_self2 mod_less)
  show "n mod 256 = a" "n div 2 ^ 8 mod 256 = b" "n div 2 ^ 16 mod 256 = c" "n div 2 ^ 24 = d" "n < 2 ^ 32"
    using 1 2 3 4 5 by simp_all (use assms(1-4) in \<open>simp add: n\<close>)
qed

lemma ntohl_in_addr: "unat (ntohl (in_addr b0 b1 b2 b3)) = unat b3 + unat b2 * 2 ^ 8 + unat b1 * 2 ^ 16 + unat b0 * 2 ^ 24"
proof -
  note q = quad_bytes [OF byte_bound byte_bound byte_bound byte_bound, of b0 b1 b2 b3]
  note q' = quad_bytes(5) [OF byte_bound byte_bound byte_bound byte_bound, of b3 b2 b1 b0]
  have "unat (in_addr b0 b1 b2 b3) = unat b0 + unat b1 * 2 ^ 8 + unat b2 * 2 ^ 16 + unat b3 * 2 ^ 24"
    unfolding in_addr_def by (rule unat_word32 [OF q(5)])
  then have "ntohl (in_addr b0 b1 b2 b3) =
      word_of_nat (unat b0 * 2 ^ 24 + unat b1 * 2 ^ 16 + unat b2 * 2 ^ 8 + unat b3)"
    unfolding ntohl_def Let_def using q by simp
  also have "unat b0 * 2 ^ 24 + unat b1 * 2 ^ 16 + unat b2 * 2 ^ 8 + unat b3 =
      unat b3 + unat b2 * 2 ^ 8 + unat b1 * 2 ^ 16 + unat b0 * 2 ^ 24" by simp
  finally show ?thesis using unat_word32 [OF q'] by metis
qed

lemma format_log_entry_quads:
  "format_log_entry t (in_addr b0 b1 b2 b3) uri sz =
     t @ '': '' @ dec_digits (unat b0) @ ''.'' @ dec_digits (unat b1) @ ''.'' @ dec_digits (unat b2) @ ''.'' @
     dec_digits (unat b3) @ '' '' @ uri"
proof -
  note q = quad_bytes [OF byte_bound byte_bound byte_bound byte_bound, of b3 b2 b1 b0]
  have "unat b0 mod 256 = unat b0" using byte_bound [of b0] by simp
  then show ?thesis unfolding format_log_entry_def Let_def ntohl_in_addr
    using q by (simp add: sprintf_d_def)
qed

subsection \<open>Splitting a URI\<close>

lemma span_here:
  "\<forall>c \<in> set xs. P c \<Longrightarrow> ys = [] \<or> \<not> P (hd ys) \<Longrightarrow> takeWhile P (xs @ ys) = xs \<and> dropWhile P (xs @ ys) = ys"
  by (cases ys) (auto simp: takeWhile_append2 dropWhile_append2)

lemma parse_uri_split:
  assumes h: "\<forall>c \<in> set host. c \<notin> uri_delims" and c: "c \<in> uri_delims"
  shows "parse_uri (''http://'' @ host @ c # r) =
    Some (0, host, Some (if c = CHR '':'' then atoi r else 80,
      let p = dropWhile (\<lambda>c. c \<noteq> CHR ''/'') (c # r) in if p = [] then '''' else tl p))"
proof -
  have d: "dropWhile (\<lambda>c. c \<notin> uri_delims) (host @ c # r) = c # r" using h c by (simp add: dropWhile_append2)
  have "\<forall>x \<in> set host. x \<noteq> CHR ''/''" using h by (auto simp: uri_delims_def)
  then have p: "dropWhile (\<lambda>c. c \<noteq> CHR ''/'') (host @ c # r) = dropWhile (\<lambda>c. c \<noteq> CHR ''/'') (c # r)"
    by (simp add: dropWhile_append2)
  show ?thesis unfolding parse_uri_def using d p by (simp add: strncaseeq_def Let_def)
qed

lemma parse_uri_no_delim:
  assumes "\<forall>c \<in> set host. c \<notin> uri_delims"
  shows "parse_uri (''http://'' @ host) = None"
proof -
  have "dropWhile (\<lambda>c. c \<notin> uri_delims) host = []" using assms by (simp add: dropWhile_eq_Nil_conv)
  then show ?thesis unfolding parse_uri_def by (simp add: strncaseeq_def Let_def del: dropWhile_eq_Nil_conv)
qed

text \<open>On the URIs of the proxy's own parser the two agree, up to the slash in front of the path.\<close>

lemma host_no_delim: "host_char c \<Longrightarrow> c \<notin> uri_delims"
  by (auto simp: host_char_def uri_delims_def ch_class_defs)

lemma parse_uri_agrees:
  assumes h: "host_name h" and po: "port_ok po" and pa: "abs_path (CHR ''/'' # pa)"
  shows "parse_uri (''http://'' @ h @ port_text po @ CHR ''/'' # pa) = Some (0, h, Some (port_num po, pa))"
proof (cases po)
  case None
  have "\<forall>c \<in> set h. c \<notin> uri_delims" using h host_no_delim by (auto simp: host_name_def)
  from parse_uri_split [OF this, of "CHR ''/''" pa] None show ?thesis by (simp add: uri_delims_def HTTP_DEFAULT_PORT_def)
next
  case (Some d)
  have hd: "\<forall>c \<in> set h. c \<notin> uri_delims" using h host_no_delim by (auto simp: host_name_def)
  have dg: "digs d" "digits_val d < 2 ^ 31" using po Some by (auto simp: port_ok_def)
  have "\<not> is_digit CHR ''/''" by (simp add: ch_class_defs)
  then have a: "atoi (d @ CHR ''/'' # pa) = int (digits_val d)" using atoi_digits [of d "CHR ''/'' # pa"] dg by simp
  have "\<forall>c \<in> set (CHR '':'' # d). c \<noteq> CHR ''/''" using dg(1) by (auto simp: ch_class_defs)
  then have p: "dropWhile (\<lambda>c. c \<noteq> CHR ''/'') (CHR '':'' # d @ CHR ''/'' # pa) = CHR ''/'' # pa"
    using dropWhile_append2 [of "CHR '':'' # d" "\<lambda>c. c \<noteq> CHR ''/''" "CHR ''/'' # pa"] by simp
  from parse_uri_split [OF hd, of "CHR '':''" "d @ CHR ''/'' # pa"] a p Some show ?thesis
    by (simp add: uri_delims_def Let_def)
qed

end
