(* ===== verification/Rio.thy ===== *)
theory Rio
  imports Prelude
begin

text \<open>
  The robust I/O functions of \<^verbatim>\<open>src/csapp.c\<close>: unbuffered \<^verbatim>\<open>rio_readn\<close> and \<^verbatim>\<open>rio_writen\<close>, and the
  buffered \<^verbatim>\<open>rio_readnb\<close> and \<^verbatim>\<open>rio_readlineb\<close> with their refill function \<^verbatim>\<open>rio_read\<close>.

  A descriptor that is read is a script of what successive reads meet: bytes (a read takes what it
  asks for, the rest stays), an interruption by a signal, another error; the end of the script is
  the end of the file. A descriptor that is written is a script of what writes do; after its
  end every write is taken whole.
\<close>

subsection \<open>The system calls\<close>

definition EINTR :: int where "EINTR = 4"
definition EPIPE :: int where "EPIPE = 32"

datatype rd_ev = Got string | RIntr | RFail int
datatype rd_res = RdBytes string | RdErr int      \<comment> \<open>no bytes: end of file\<close>

fun sys_read :: "nat \<Rightarrow> rd_ev list \<Rightarrow> rd_res \<times> rd_ev list" where
  "sys_read n [] = (RdBytes '''', [])"
| "sys_read n (Got d # r) =
     (if d = '''' then sys_read n r
      else (RdBytes (take n d), if length d \<le> n then r else Got (drop n d) # r))"
| "sys_read n (RIntr # r) = (RdErr EINTR, r)"
| "sys_read n (RFail e # r) = (RdErr e, r)"

text \<open>\<open>WZero\<close>: the call returns 0 and leaves \<^verbatim>\<open>errno\<close> alone.\<close>

datatype wr_ev = Took nat | WIntr | WFail int | WZero
datatype wr_res = Wrote nat | WrErr int

fun sys_write :: "nat \<Rightarrow> wr_ev list \<Rightarrow> wr_res \<times> wr_ev list" where
  "sys_write n [] = (Wrote n, [])"
| "sys_write n (Took k # r) = (Wrote (min n (max 1 k)), r)"
| "sys_write n (WIntr # r) = (WrErr EINTR, r)"
| "sys_write n (WFail e # r) = (WrErr e, r)"
| "sys_write n (WZero # r) = (Wrote 0, r)"

text \<open>The number of things a script still holds; every call makes progress in it.\<close>

fun weight :: "rd_ev list \<Rightarrow> nat" where
  "weight [] = 0"
| "weight (Got d # r) = Suc (length d) + weight r"
| "weight (_ # r) = Suc (weight r)"

lemma sys_read_weight:
  "sys_read n evs = (RdErr e, r) \<Longrightarrow> weight r < weight evs"
  "0 < n \<Longrightarrow> sys_read n evs = (RdBytes d, r) \<Longrightarrow> d \<noteq> '''' \<Longrightarrow> weight r < weight evs"
  by (induction n evs rule: sys_read.induct) (auto split: if_splits)

lemma sys_read_weight': "(RdBytes d, r) = sys_read n evs \<Longrightarrow> 0 < n \<Longrightarrow> d \<noteq> '''' \<Longrightarrow> weight r < weight evs"
  by (metis sys_read_weight(2))

lemma sys_write_progress:
  "sys_write n ws = (WrErr e, r) \<Longrightarrow> length r < length ws"
  "sys_write n ws = (Wrote k, r) \<Longrightarrow> k = 0 \<Longrightarrow> 0 < n \<Longrightarrow> length r < length ws"
  "sys_write n ws = (Wrote k, r) \<Longrightarrow> length r \<le> length ws \<and> k \<le> n"
  by (induction n ws rule: sys_write.induct) auto

subsection \<open>Unbuffered\<close>

text \<open>The result, the bytes put into the user's buffer, and the rest of the script. \<open>Inl e\<close> is the return
  value -1 with \<^verbatim>\<open>errno\<close> set to \<open>e\<close>.\<close>

function rio_readp :: "nat \<Rightarrow> rd_ev list \<Rightarrow> (int + nat) \<times> string \<times> rd_ev list" where
  "rio_readp n evs =
     (case sys_read n evs of
        (RdErr e, r) \<Rightarrow> if e = EINTR then rio_readp n r else (Inl e, '''', r)
      | (RdBytes d, r) \<Rightarrow> (Inr (length d), d, r))"
  by pat_completeness auto
termination
  by (relation "measure (\<lambda>(n, evs). weight evs)") (auto dest: sys_read_weight(1) [OF sym])

text \<open>\<open>acc\<close>: what is in the user's buffer already.\<close>

function rio_readn_loop :: "nat \<Rightarrow> string \<Rightarrow> rd_ev list \<Rightarrow> (int + nat) \<times> string \<times> rd_ev list" where
  "rio_readn_loop nleft acc evs =
     (if nleft = 0 then (Inr (length acc), acc, evs)
      else
        case sys_read nleft evs of
          (RdErr e, r) \<Rightarrow> if e = EINTR then rio_readn_loop nleft acc r else (Inl e, acc, r)
        | (RdBytes d, r) \<Rightarrow>
            if d = '''' then (Inr (length acc), acc, r)
            else rio_readn_loop (nleft - length d) (acc @ d) r)"
  by pat_completeness auto
termination
  by (relation "measure (\<lambda>(n, acc, evs). weight evs)") (auto dest: sys_read_weight(1) [OF sym] sys_read_weight(2) [OF _ sym])

definition rio_readn :: "nat \<Rightarrow> rd_ev list \<Rightarrow> (int + nat) \<times> string \<times> rd_ev list" where
  "rio_readn n evs = rio_readn_loop n '''' evs"

text \<open>Writing; a result of 0 is an error unless \<^verbatim>\<open>errno\<close> happens to hold \<open>EINTR\<close>. \<open>out\<close>: what the
  descriptor has taken.\<close>

function rio_writep :: "int \<Rightarrow> string \<Rightarrow> wr_ev list \<Rightarrow> (int + nat) \<times> string \<times> int \<times> wr_ev list" where
  "rio_writep en buf ws =
     (case sys_write (length buf) ws of
        (WrErr e, r) \<Rightarrow> if e = EINTR then rio_writep e buf r else (Inl e, '''', e, r)
      | (Wrote k, r) \<Rightarrow> (Inr k, take k buf, en, r))"
  by pat_completeness auto
termination
  by (relation "measure (\<lambda>(en, buf, ws). length ws)") (auto dest: sys_write_progress(1) [OF sym])

function rio_writen_loop :: "int \<Rightarrow> nat \<Rightarrow> string \<Rightarrow> string \<Rightarrow> wr_ev list \<Rightarrow> (int + nat) \<times> string \<times> int \<times> wr_ev list" where
  "rio_writen_loop en n out buf ws =
     (if buf = '''' then (Inr n, out, en, ws)
      else
        case sys_write (length buf) ws of
          (WrErr e, r) \<Rightarrow> if e = EINTR then rio_writen_loop e n out buf r else (Inl e, out, e, r)
        | (Wrote k, r) \<Rightarrow>
            if k = 0 then (if en = EINTR then rio_writen_loop en n out buf r else (Inl en, out, en, r))
            else rio_writen_loop en n (out @ take k buf) (drop k buf) r)"
  by pat_completeness auto
termination
  by (relation "measure (\<lambda>(en, n, out, buf, ws). length buf + length ws)")
    (auto dest: sys_write_progress(1) [OF sym] sys_write_progress(2) [OF sym] sys_write_progress(3) [OF sym])

definition rio_writen :: "int \<Rightarrow> string \<Rightarrow> string \<Rightarrow> wr_ev list \<Rightarrow> (int + nat) \<times> string \<times> int \<times> wr_ev list" where
  "rio_writen en out buf ws = rio_writen_loop en (length buf) out buf ws"

declare rio_readp.simps [simp del] rio_readn_loop.simps [simp del] rio_writep.simps [simp del] rio_writen_loop.simps [simp del]

subsection \<open>Buffered\<close>

definition RIO_BUFSIZE :: nat where "RIO_BUFSIZE = 8192"

record rio_t =
  rio_cnt :: int
  rio_bufptr :: nat
  rio_buf :: string

definition rio_readinitb :: "rio_t \<Rightarrow> rio_t" where
  "rio_readinitb rp = rp\<lparr>rio_cnt := 0, rio_bufptr := 0\<rparr>"

text \<open>The loop that fills an empty buffer: \<^term>\<open>Inl 0\<close> at the end of the file, \<^term>\<open>Inl e\<close> after
  an error other than \<open>EINTR\<close>.\<close>

function rio_fill :: "rio_t \<Rightarrow> rd_ev list \<Rightarrow> (int + unit) \<times> rio_t \<times> rd_ev list" where
  "rio_fill rp evs =
     (if 0 < rio_cnt rp then (Inr (), rp, evs)
      else
        case sys_read RIO_BUFSIZE evs of
          (RdErr e, r) \<Rightarrow>
            if e \<noteq> EINTR then (Inl e, rp\<lparr>rio_cnt := -1\<rparr>, r) else rio_fill (rp\<lparr>rio_cnt := -1\<rparr>) r
        | (RdBytes d, r) \<Rightarrow>
            if d = '''' then (Inl 0, rp\<lparr>rio_cnt := 0\<rparr>, r)
            else rio_fill (rp\<lparr>rio_cnt := int (length d), rio_buf := d @ drop (length d) (rio_buf rp), rio_bufptr := 0\<rparr>) r)"
  by pat_completeness auto
termination
  by (relation "measure (\<lambda>(rp, evs). weight evs)")
    (auto simp: RIO_BUFSIZE_def dest: sys_read_weight(1) [OF sym] sys_read_weight')

declare rio_fill.simps [simp del]

definition rio_read :: "rio_t \<Rightarrow> nat \<Rightarrow> rd_ev list \<Rightarrow> rd_res \<times> rio_t \<times> rd_ev list" where
  "rio_read rp n evs =
     (case rio_fill rp evs of
        (Inl e, rp1, r) \<Rightarrow> (if e = 0 then RdBytes '''' else RdErr e, rp1, r)
      | (Inr _, rp1, r) \<Rightarrow>
          let cnt = (if rio_cnt rp1 < int n then nat (rio_cnt rp1) else n)
          in (RdBytes (take cnt (drop (rio_bufptr rp1) (rio_buf rp1))),
              rp1\<lparr>rio_bufptr := rio_bufptr rp1 + cnt, rio_cnt := rio_cnt rp1 - int cnt\<rparr>, r))"

lemma rio_fill_err: "rio_fill rp evs = (Inl e, rp', r) \<Longrightarrow> e \<noteq> 0 \<Longrightarrow> weight r < weight evs"
proof (induction rp evs rule: rio_fill.induct)
  case (1 rp evs)
  obtain res s where s: "sys_read RIO_BUFSIZE evs = (res, s)" by fastforce
  show ?case
  proof (cases "0 < rio_cnt rp")
    case True
    with "1.prems" show ?thesis by (subst (asm) rio_fill.simps) simp
  next
    case f: False
    show ?thesis
    proof (cases res)
      case (RdBytes d)
      show ?thesis
      proof (cases "d = ''''")
        case True
        with "1.prems" f s RdBytes show ?thesis by (subst (asm) rio_fill.simps) simp
      next
        case False
        then have "weight s < weight evs" using sys_read_weight(2) [of RIO_BUFSIZE evs d s] s RdBytes by (simp add: RIO_BUFSIZE_def)
        moreover have "weight r < weight s"
          using "1.IH"(1) [OF f s [symmetric] RdBytes False] "1.prems" f s RdBytes False
          by (subst (asm) (2) rio_fill.simps) simp
        ultimately show ?thesis by simp
      qed
    next
      case (RdErr x)
      then have w: "weight s < weight evs" using sys_read_weight(1) s by simp
      show ?thesis
      proof (cases "x = EINTR")
        case True
        with "1.IH"(2) [OF f s [symmetric] RdErr] "1.prems" f s RdErr w show ?thesis
          by (subst (asm) (2) rio_fill.simps) simp
      next
        case False
        with "1.prems" f s RdErr w show ?thesis by (subst (asm) rio_fill.simps) simp
      qed
    qed
  qed
qed

lemma rio_read_err: "rio_read rp n evs = (RdErr e, rp', r) \<Longrightarrow> weight r < weight evs"
  by (auto simp: rio_read_def Let_def split: prod.splits sum.splits if_splits dest: rio_fill_err)

function rio_readnb_loop :: "rio_t \<Rightarrow> nat \<Rightarrow> string \<Rightarrow> rd_ev list \<Rightarrow> (int + nat) \<times> string \<times> rio_t \<times> rd_ev list" where
  "rio_readnb_loop rp nleft acc evs =
     (if nleft = 0 then (Inr (length acc), acc, rp, evs)
      else
        case rio_read rp nleft evs of
          (RdErr e, rp1, r) \<Rightarrow> if e = EINTR then rio_readnb_loop rp1 nleft acc r else (Inl e, acc, rp1, r)
        | (RdBytes d, rp1, r) \<Rightarrow>
            if d = '''' then (Inr (length acc), acc, rp1, r)
            else rio_readnb_loop rp1 (nleft - length d) (acc @ d) r)"
  by pat_completeness auto
termination
  by (relation "measures [\<lambda>(rp, nleft, acc, evs). nleft, \<lambda>(rp, nleft, acc, evs). weight evs]")
    (auto dest: rio_read_err [OF sym])

declare rio_readnb_loop.simps [simp del]

definition rio_readnb :: "rio_t \<Rightarrow> nat \<Rightarrow> rd_ev list \<Rightarrow> (int + nat) \<times> string \<times> rio_t \<times> rd_ev list" where
  "rio_readnb rp n evs = rio_readnb_loop rp n '''' evs"

text \<open>The first argument is \<^verbatim>\<open>maxlen - n\<close>, the rounds the loop has left. The string is what is put
  into the user's buffer, the terminator included.\<close>

fun rio_line_loop :: "nat \<Rightarrow> nat \<Rightarrow> string \<Rightarrow> rio_t \<Rightarrow> rd_ev list \<Rightarrow> (int + nat) \<times> string \<times> rio_t \<times> rd_ev list" where
  "rio_line_loop 0 n acc rp evs = (Inr n, acc @ [NUL], rp, evs)"
| "rio_line_loop (Suc k) n acc rp evs =
     (case rio_read rp 1 evs of
        (RdErr e, rp1, r) \<Rightarrow> (Inl e, acc, rp1, r)
      | (RdBytes d, rp1, r) \<Rightarrow>
          if d = '''' then (if n = 1 then (Inr 0, acc, rp1, r) else (Inr n, acc @ [NUL], rp1, r))
          else if d = [LF] then (Inr n, acc @ d @ [NUL], rp1, r)
          else rio_line_loop k (Suc n) (acc @ d) rp1 r)"

definition rio_readlineb :: "rio_t \<Rightarrow> nat \<Rightarrow> rd_ev list \<Rightarrow> (int + nat) \<times> string \<times> rio_t \<times> rd_ev list" where
  "rio_readlineb rp maxlen evs = rio_line_loop (maxlen - 1) 1 '''' rp evs"

subsection \<open>The wrappers\<close>

text \<open>\<^verbatim>\<open>unix_error\<close> prints a message and ends the process.\<close>

datatype 'a exits = Returns 'a | Exits

definition check_epipe :: "(int + nat) \<times> 'a \<Rightarrow> ((int + nat) \<times> 'a) exits" where
  "check_epipe r = (case fst r of Inl e \<Rightarrow> if e \<noteq> EPIPE then Exits else Returns r | Inr n \<Rightarrow> Returns r)"

definition check_any :: "(int + nat) \<times> 'a \<Rightarrow> ((int + nat) \<times> 'a) exits" where
  "check_any r = (case fst r of Inl e \<Rightarrow> Exits | Inr n \<Rightarrow> Returns r)"

definition Rio_readp :: "nat \<Rightarrow> rd_ev list \<Rightarrow> ((int + nat) \<times> string \<times> rd_ev list) exits" where
  "Rio_readp n evs = check_epipe (rio_readp n evs)"

definition Rio_readn :: "nat \<Rightarrow> rd_ev list \<Rightarrow> ((int + nat) \<times> string \<times> rd_ev list) exits" where
  "Rio_readn n evs = check_epipe (rio_readn n evs)"

definition Rio_readnb :: "rio_t \<Rightarrow> nat \<Rightarrow> rd_ev list \<Rightarrow> ((int + nat) \<times> string \<times> rio_t \<times> rd_ev list) exits" where
  "Rio_readnb rp n evs = check_any (rio_readnb rp n evs)"

definition Rio_readlineb :: "rio_t \<Rightarrow> nat \<Rightarrow> rd_ev list \<Rightarrow> ((int + nat) \<times> string \<times> rio_t \<times> rd_ev list) exits" where
  "Rio_readlineb rp maxlen evs = check_any (rio_readlineb rp maxlen evs)"

text \<open>A write that is not complete is an error; the errno that is looked at may be an old one.\<close>

definition Rio_writep :: "int \<Rightarrow> string \<Rightarrow> wr_ev list \<Rightarrow> (string \<times> int \<times> wr_ev list) exits" where
  "Rio_writep en buf ws =
     (case rio_writep en buf ws of
        (n, out, en1, r) \<Rightarrow> if n \<noteq> Inr (length buf) \<and> en1 \<noteq> EPIPE then Exits else Returns (out, en1, r))"

text \<open>Up to \<open>tries\<close> times, each time from the start of the buffer.\<close>

fun writen_tries :: "nat \<Rightarrow> int \<Rightarrow> string \<Rightarrow> string \<Rightarrow> wr_ev list \<Rightarrow> string \<times> int \<times> wr_ev list" where
  "writen_tries tries en out buf ws =
     (case rio_writen en out buf ws of
        (res, out1, en1, r) \<Rightarrow>
          case (tries - 1, res) of
            (Suc k, Inl _) \<Rightarrow> writen_tries (Suc k) en1 out1 buf r
          | _ \<Rightarrow> (out1, en1, r))"

definition Rio_writen :: "int \<Rightarrow> string \<Rightarrow> wr_ev list \<Rightarrow> string \<times> int \<times> wr_ev list" where
  "Rio_writen en buf ws = writen_tries 5 en '''' buf ws"

subsection \<open>Reading delivers the bytes in order\<close>

text \<open>What a descriptor delivers up to the end of the file or an error, and a descriptor without
  errors.\<close>

fun input :: "rd_ev list \<Rightarrow> string" where
  "input [] = ''''"
| "input (Got d # r) = d @ input r"
| "input (RIntr # r) = input r"
| "input (RFail e # r) = ''''"

definition healthy :: "rd_ev list \<Rightarrow> bool" where
  "healthy evs \<longleftrightarrow> list_all (\<lambda>e. case e of RFail _ \<Rightarrow> False | _ \<Rightarrow> True) evs"

lemma sys_read_healthy:
  "healthy evs \<Longrightarrow> 0 < n \<Longrightarrow>
   (\<exists>r. sys_read n evs = (RdErr EINTR, r) \<and> healthy r \<and> input r = input evs) \<or>
   (\<exists>d r. sys_read n evs = (RdBytes d, r) \<and> healthy r \<and> input evs = d @ input r \<and> length d \<le> n \<and> (d = '''' \<longleftrightarrow> input evs = ''''))"
  by (induction n evs rule: sys_read.induct) (auto simp: healthy_def)

lemma rio_readn_loop_healthy:
  "healthy evs \<Longrightarrow> \<exists>r. rio_readn_loop n acc evs = (Inr (length acc + min n (length (input evs))), acc @ take n (input evs), r) \<and>
     healthy r \<and> input r = drop n (input evs)"
proof (induction n acc evs rule: rio_readn_loop.induct)
  case (1 n acc evs)
  show ?case
  proof (cases "n = 0")
    case True
    with "1.prems" show ?thesis by (subst rio_readn_loop.simps) simp
  next
    case n: False
    then have "0 < n" by simp
    from sys_read_healthy [OF "1.prems" this] show ?thesis
    proof (elim disjE exE conjE)
      fix r
      assume s: "sys_read n evs = (RdErr EINTR, r)" "healthy r" "input r = input evs"
      with "1.IH"(2) [OF n s(1) [symmetric] refl refl s(2)] n show ?thesis
        by (subst rio_readn_loop.simps) simp
    next
      fix d r
      assume s: "sys_read n evs = (RdBytes d, r)" "healthy r" "input evs = d @ input r" "length d \<le> n" "d = '''' \<longleftrightarrow> input evs = ''''"
      show ?thesis
      proof (cases "d = ''''")
        case True
        with s n show ?thesis by (subst rio_readn_loop.simps) auto
      next
        case False
        with "1.IH"(1) [OF n s(1) [symmetric] refl False s(2)] n s show ?thesis
          by (subst rio_readn_loop.simps) (auto simp: min_def)
      qed
    qed
  qed
qed

lemma rio_readn_healthy:
  "healthy evs \<Longrightarrow> \<exists>r. rio_readn n evs = (Inr (min n (length (input evs))), take n (input evs), r) \<and>
     healthy r \<and> input r = drop n (input evs)"
  using rio_readn_loop_healthy [of evs n "''''"] by (simp add: rio_readn_def)

text \<open>The buffered functions: what is still to come is what the buffer holds and the input.\<close>

definition rio_wf :: "rio_t \<Rightarrow> bool" where
  "rio_wf rp \<longleftrightarrow> rio_bufptr rp + nat (rio_cnt rp) \<le> length (rio_buf rp)"

definition pending :: "rio_t \<Rightarrow> rd_ev list \<Rightarrow> string" where
  "pending rp evs = take (nat (rio_cnt rp)) (drop (rio_bufptr rp) (rio_buf rp)) @ input evs"

lemma rio_fill_healthy:
  "healthy evs \<Longrightarrow> rio_wf rp \<Longrightarrow>
   (\<exists>rp' r. rio_fill rp evs = (Inl 0, rp', r) \<and> healthy r \<and> rio_wf rp' \<and> pending rp evs = '''' \<and> pending rp' r = '''') \<or>
   (\<exists>rp' r. rio_fill rp evs = (Inr (), rp', r) \<and> healthy r \<and> rio_wf rp' \<and> pending rp' r = pending rp evs \<and> 0 < rio_cnt rp')"
proof (induction rp evs rule: rio_fill.induct)
  case (1 rp evs)
  show ?case
  proof (cases "0 < rio_cnt rp")
    case True
    with "1.prems" show ?thesis by (subst (1 2) rio_fill.simps) simp
  next
    case f: False
    have "0 < RIO_BUFSIZE" by (simp add: RIO_BUFSIZE_def)
    from sys_read_healthy [OF "1.prems"(1) this] show ?thesis
    proof (elim disjE exE conjE)
      fix r
      assume s: "sys_read RIO_BUFSIZE evs = (RdErr EINTR, r)" "healthy r" "input r = input evs"
      have eq: "rio_fill rp evs = rio_fill (rp\<lparr>rio_cnt := -1\<rparr>) r" using f s(1) by (subst rio_fill.simps) simp
      have "rio_wf (rp\<lparr>rio_cnt := -1\<rparr>)" "pending (rp\<lparr>rio_cnt := -1\<rparr>) r = pending rp evs"
        using "1.prems"(2) f s(3) by (simp_all add: rio_wf_def pending_def)
      with "1.IH"(2) [OF f s(1) [symmetric] refl _ s(2)] show ?thesis unfolding eq by simp
    next
      fix d r
      assume s: "sys_read RIO_BUFSIZE evs = (RdBytes d, r)" "healthy r" "input evs = d @ input r" "d = '''' \<longleftrightarrow> input evs = ''''"
      show ?thesis
      proof (cases "d = ''''")
        case True
        with "1.prems" s f show ?thesis by (subst (1 2) rio_fill.simps) (auto simp: rio_wf_def pending_def)
      next
        case False
        let ?rp = "rp\<lparr>rio_cnt := int (length d), rio_buf := d @ drop (length d) (rio_buf rp), rio_bufptr := 0\<rparr>"
        have eq: "rio_fill rp evs = rio_fill ?rp r" using f s(1) False by (subst rio_fill.simps) simp
        have "rio_wf ?rp" "pending ?rp r = pending rp evs" using s(3) f by (simp_all add: rio_wf_def pending_def)
        with "1.IH"(1) [OF f s(1) [symmetric] refl False s(2)] False show ?thesis unfolding eq by simp
      qed
    qed
  qed
qed

lemma rio_read_healthy:
  assumes "healthy evs" "rio_wf rp" "0 < n"
  shows "\<exists>d rp' r. rio_read rp n evs = (RdBytes d, rp', r) \<and> healthy r \<and> rio_wf rp' \<and>
    pending rp evs = d @ pending rp' r \<and> length d \<le> n \<and> (d = '''' \<longleftrightarrow> pending rp evs = '''')"
  using rio_fill_healthy [OF assms(1,2)]
proof (elim disjE exE conjE)
  fix rp' r
  assume "rio_fill rp evs = (Inl 0, rp', r)" "healthy r" "rio_wf rp'" "pending rp evs = ''''" "pending rp' r = ''''"
  then show ?thesis by (simp add: rio_read_def)
next
  fix rp1 r
  assume f: "rio_fill rp evs = (Inr (), rp1, r)" "healthy r" "rio_wf rp1" "pending rp1 r = pending rp evs" "0 < rio_cnt rp1"
  define k where "k = (if rio_cnt rp1 < int n then nat (rio_cnt rp1) else n)"
  define d where "d = take k (drop (rio_bufptr rp1) (rio_buf rp1))"
  let ?rp = "rp1\<lparr>rio_bufptr := rio_bufptr rp1 + k, rio_cnt := rio_cnt rp1 - int k\<rparr>"
  have k: "0 < k" "k \<le> n" "k \<le> nat (rio_cnt rp1)" using f(5) assms(3) by (auto simp: k_def)
  have r: "rio_read rp n evs = (RdBytes d, ?rp, r)" using f(1) by (simp add: rio_read_def Let_def k_def d_def)
  have ld: "length d = k" using k f(3) by (simp add: d_def rio_wf_def)
  have "nat (rio_cnt rp1) = k + nat (rio_cnt rp1 - int k)" using k f(5) by linarith
  then have "take (nat (rio_cnt rp1)) (drop (rio_bufptr rp1) (rio_buf rp1)) =
      d @ take (nat (rio_cnt rp1 - int k)) (drop (rio_bufptr rp1 + k) (rio_buf rp1))"
    by (simp add: d_def take_add drop_drop add.commute)
  then have p: "pending rp evs = d @ pending ?rp r" using f(4) by (simp add: pending_def)
  have "rio_wf ?rp" using f(3) k by (simp add: rio_wf_def)
  moreover have "d \<noteq> ''''" using ld k by auto
  ultimately show ?thesis using r f(2) p ld k by auto
qed

lemma rio_readnb_loop_healthy:
  "healthy evs \<Longrightarrow> rio_wf rp \<Longrightarrow>
   \<exists>rp' r. rio_readnb_loop rp n acc evs =
       (Inr (length acc + min n (length (pending rp evs))), acc @ take n (pending rp evs), rp', r) \<and>
     healthy r \<and> rio_wf rp' \<and> pending rp' r = drop n (pending rp evs)"
proof (induction rp n acc evs rule: rio_readnb_loop.induct)
  case (1 rp n acc evs)
  show ?case
  proof (cases "n = 0")
    case True
    with "1.prems" show ?thesis by (subst rio_readnb_loop.simps) simp
  next
    case n: False
    then have "0 < n" by simp
    from rio_read_healthy [OF "1.prems" this] obtain d rp1 r where s: "rio_read rp n evs = (RdBytes d, rp1, r)" "healthy r" "rio_wf rp1"
      "pending rp evs = d @ pending rp1 r" "length d \<le> n" "d = '''' \<longleftrightarrow> pending rp evs = ''''" by blast
    show ?thesis
    proof (cases "d = ''''")
      case True
      with s n show ?thesis by (subst rio_readnb_loop.simps) auto
    next
      case False
      with "1.IH"(1) [OF n s(1) [symmetric] refl refl False s(2,3)] n s show ?thesis
        by (subst rio_readnb_loop.simps) (auto simp: min_def)
    qed
  qed
qed

lemma rio_readnb_healthy:
  "healthy evs \<Longrightarrow> rio_wf rp \<Longrightarrow>
   \<exists>rp' r. rio_readnb rp n evs = (Inr (min n (length (pending rp evs))), take n (pending rp evs), rp', r) \<and>
     healthy r \<and> rio_wf rp' \<and> pending rp' r = drop n (pending rp evs)"
  using rio_readnb_loop_healthy [of evs rp n "''''"] by (simp add: rio_readnb_def)

text \<open>A line: up to and including the first newline, at most \<open>k\<close> characters.\<close>

fun first_line :: "nat \<Rightarrow> string \<Rightarrow> string" where
  "first_line 0 p = ''''"
| "first_line (Suc k) [] = ''''"
| "first_line (Suc k) (c # p) = (if c = LF then [c] else c # first_line k p)"

definition ends_lf :: "string \<Rightarrow> bool" where
  "ends_lf l \<longleftrightarrow> l \<noteq> '''' \<and> last l = LF"

lemma ends_lf_Cons: "l \<noteq> '''' \<Longrightarrow> ends_lf (c # l) = ends_lf l"
  by (simp add: ends_lf_def)

lemma rio_line_loop_healthy:
  "healthy evs \<Longrightarrow> rio_wf rp \<Longrightarrow> 0 < n \<Longrightarrow> 1 < n \<or> pending rp evs \<noteq> '''' \<or> k = 0 \<Longrightarrow>
   \<exists>rp' r. rio_line_loop k n acc rp evs =
       (Inr (n + length (first_line k (pending rp evs)) - (if ends_lf (first_line k (pending rp evs)) then 1 else 0)),
        acc @ first_line k (pending rp evs) @ [NUL], rp', r) \<and>
     healthy r \<and> rio_wf rp' \<and> pending rp' r = drop (length (first_line k (pending rp evs))) (pending rp evs)"
proof (induction k n acc rp evs rule: rio_line_loop.induct)
  case (1 n acc rp evs)
  then show ?case by (simp add: ends_lf_def)
next
  case (2 k n acc rp evs)
  from rio_read_healthy [OF "2.prems"(1,2), of 1] obtain d rp1 r where s: "rio_read rp 1 evs = (RdBytes d, rp1, r)" "healthy r" "rio_wf rp1"
    "pending rp evs = d @ pending rp1 r" "length d \<le> 1" "d = '''' \<longleftrightarrow> pending rp evs = ''''" by auto
  consider "d = ''''" | c where "d = [c]" using s(5) by (cases d) auto
  then show ?case
  proof cases
    case 1
    with s "2.prems" show ?thesis by (auto simp: ends_lf_def)
  next
    case (2 c)
    show ?thesis
    proof (cases "c = LF")
      case True
      with 2 s show ?thesis by (simp add: ends_lf_def)
    next
      case False
      have eq: "rio_line_loop (Suc k) n acc rp evs = rio_line_loop k (Suc n) (acc @ d) rp1 r" using s(1) 2 False by simp
      have fl: "first_line (Suc k) (pending rp evs) = c # first_line k (pending rp1 r)" using s(4) 2 False by simp
      have el: "ends_lf (c # first_line k (pending rp1 r)) = ends_lf (first_line k (pending rp1 r))"
        using False by (simp add: ends_lf_def)
      from "2.IH" [OF s(1) [symmetric] refl refl _ _ s(2,3)] "2.prems"(3) 2 False
      show ?thesis unfolding eq fl el using s(4) 2 by simp
    qed
  qed
qed

text \<open>The return value counts the newline, but one more than the bytes when there is none.\<close>

lemma rio_readlineb_healthy:
  fixes maxlen :: nat
  assumes "healthy evs" "rio_wf rp"
  defines "l \<equiv> first_line (maxlen - 1) (pending rp evs)"
  shows "\<exists>rp' r. rio_readlineb rp maxlen evs =
      (if 1 < maxlen \<and> pending rp evs = '''' then (Inr 0, '''', rp', r)
       else (Inr (if ends_lf l then length l else length l + 1), l @ [NUL], rp', r)) \<and>
    healthy r \<and> rio_wf rp' \<and> pending rp' r = drop (length l) (pending rp evs)"
proof (cases "1 < maxlen \<and> pending rp evs = ''''")
  case True
  then obtain k where k: "maxlen - 1 = Suc k" by (cases "maxlen - 1") auto
  obtain rp' r where "rio_read rp 1 evs = (RdBytes '''', rp', r)" "healthy r" "rio_wf rp'" "pending rp' r = ''''"
    using rio_read_healthy [OF assms(1,2), of 1] True by auto
  with True k show ?thesis by (simp add: rio_readlineb_def l_def)
next
  case False
  then have "1 < (1::nat) \<or> pending rp evs \<noteq> '''' \<or> maxlen - 1 = 0" by auto
  from rio_line_loop_healthy [OF assms(1,2) _ this, of "''''"] False show ?thesis
    by (auto simp: rio_readlineb_def l_def)
qed

text \<open>Writes that are only interrupted or short.\<close>

definition accepting :: "wr_ev list \<Rightarrow> bool" where
  "accepting ws \<longleftrightarrow> list_all (\<lambda>e. case e of Took _ \<Rightarrow> True | WIntr \<Rightarrow> True | _ \<Rightarrow> False) ws"

lemma sys_write_accepting:
  "accepting ws \<Longrightarrow> 0 < n \<Longrightarrow> (\<exists>r. sys_write n ws = (WrErr EINTR, r) \<and> accepting r) \<or>
   (\<exists>k r. sys_write n ws = (Wrote k, r) \<and> accepting r \<and> 0 < k \<and> k \<le> n)"
  by (induction n ws rule: sys_write.induct) (auto simp: accepting_def)

lemma rio_writen_loop_accepting:
  "accepting ws \<Longrightarrow> \<exists>en' r. rio_writen_loop en n out buf ws = (Inr n, out @ buf, en', r)"
proof (induction en n out buf ws rule: rio_writen_loop.induct)
  case (1 en n out buf ws)
  show ?case
  proof (cases "buf = ''''")
    case True
    then show ?thesis by (subst rio_writen_loop.simps) simp
  next
    case b: False
    then have "0 < length buf" by simp
    from sys_write_accepting [OF "1.prems" this] show ?thesis
    proof (elim disjE exE conjE)
      fix r
      assume s: "sys_write (length buf) ws = (WrErr EINTR, r)" "accepting r"
      with "1.IH"(3) [OF b s(1) [symmetric] refl refl s(2)] b show ?thesis by (subst rio_writen_loop.simps) simp
    next
      fix k r
      assume s: "sys_write (length buf) ws = (Wrote k, r)" "accepting r" "0 < k"
      have k: "k \<noteq> 0" using s(3) by simp
      with "1.IH"(2) [OF b s(1) [symmetric] refl k s(2)] b s(1) show ?thesis by (subst rio_writen_loop.simps) simp
    qed
  qed
qed

lemma rio_writen_accepting: "accepting ws \<Longrightarrow> \<exists>en' r. rio_writen en out buf ws = (Inr (length buf), out @ buf, en', r)"
  using rio_writen_loop_accepting by (simp add: rio_writen_def)

text \<open>A write that fails half-way is begun again: its first bytes arrive twice.\<close>

lemma rio_writen_fails:
  assumes "0 < k" "k < length buf" "e \<noteq> EINTR"
  shows "rio_writen en out buf (Took k # WFail e # ws) = (Inl e, out @ take k buf, e, ws)"
proof -
  have b: "buf \<noteq> ''''" "min (length buf) (max 1 k) = k" "drop k buf \<noteq> ''''" using assms by auto
  have "rio_writen_loop en (length buf) (out @ take k buf) (drop k buf) (WFail e # ws) = (Inl e, out @ take k buf, e, ws)"
    using b assms(3) by (subst rio_writen_loop.simps) simp
  with b assms(1) show ?thesis unfolding rio_writen_def by (subst rio_writen_loop.simps) simp
qed

lemma Rio_writen_repeats:
  assumes "0 < k" "k < length buf" "e \<noteq> EINTR" "accepting ws"
  shows "\<exists>en' r. Rio_writen en buf (Took k # WFail e # ws) = (take k buf @ buf, en', r)"
proof -
  obtain en' r where "rio_writen e (take k buf) buf ws = (Inr (length buf), take k buf @ buf, en', r)"
    using rio_writen_accepting [OF assms(4)] by blast
  then have "writen_tries (Suc (Suc (Suc (Suc 0)))) e (take k buf) buf ws = (take k buf @ buf, en', r)" by simp
  with rio_writen_fails [OF assms(1-3), of en "''''" ws] show ?thesis
    by (simp add: Rio_writen_def numeral_eq_Suc)
qed

end
