(* ===== verification/Sockets.thy ===== *)
theory Sockets
  imports HttpHandlers Rio
begin

unbundle bit_operations_syntax

text \<open>
  Small helpers around sockets: \<^verbatim>\<open>net_setnonblocking\<close> of \<^verbatim>\<open>src/core/net_utils.c\<close>, \<^verbatim>\<open>ep_tostring\<close> of
  \<^verbatim>\<open>src/core/conn.c\<close>, and the client and server helpers at the end of \<^verbatim>\<open>src/csapp.c\<close>. The results of
  the system calls are arguments; the open descriptors are a set of numbers.
\<close>

subsection \<open>Flags and text\<close>

definition O_NONBLOCK :: "32 word" where "O_NONBLOCK = 0x800"

text \<open>\<open>getfl\<close> is the result of \<^verbatim>\<open>F_GETFL\<close>, \<open>setfl\<close> tells whether \<^verbatim>\<open>F_SETFL\<close> succeeds; the flags that are
  set are returned beside the value.\<close>

definition net_setnonblocking :: "32 word \<Rightarrow> (32 word \<Rightarrow> bool) \<Rightarrow> int \<times> 32 word option" where
  "net_setnonblocking getfl setfl =
     (if sint getfl < 0 then (-1, None)
      else let opts = getfl OR O_NONBLOCK in if setfl opts then (0, Some opts) else (-1, None))"

lemma net_setnonblocking_ok:
  assumes "net_setnonblocking getfl setfl = (0, Some fl)"
  shows "fl AND O_NONBLOCK = O_NONBLOCK \<and> fl AND NOT O_NONBLOCK = getfl AND NOT O_NONBLOCK \<and> 0 \<le> sint getfl"
proof -
  have "fl = getfl OR O_NONBLOCK" "0 \<le> sint getfl"
    using assms by (auto simp: net_setnonblocking_def Let_def split: if_splits)
  moreover have "(x OR f) AND f = f \<and> (x OR f) AND NOT f = x AND NOT f" for x f :: "32 word"
    by (auto intro!: bit_word_eqI simp: bit_simps)
  ultimately show ?thesis by simp
qed

definition ntohs :: "16 word \<Rightarrow> nat" where
  "ntohs w = unat (push_bit 8 w OR drop_bit 8 w)"

text \<open>\<open>ntop\<close> is \<^verbatim>\<open>inet_ntop\<close>, \<open>err\<close> the text of the error.\<close>

definition ep_tostring :: "(32 word \<Rightarrow> string \<Rightarrow> string option) \<Rightarrow> string \<Rightarrow> conn_endpoint \<Rightarrow> string" where
  "ep_tostring ntop err ep =
     (case ntop (ep_family ep) (ep_addr ep) of
        None \<Rightarrow> err
      | Some s \<Rightarrow>
          if ep_family ep = AF_INET6 then ''['' @ s @ '']:'' @ sprintf_d (int (ntohs (ep_port ep)))
          else s @ '':'' @ sprintf_d (int (ntohs (ep_port ep))))"

lemma ntohs_htons: "0 \<le> x \<Longrightarrow> x < 65536 \<Longrightarrow> ntohs (htons x) = nat x"
proof -
  assume x: "0 \<le> x" "x < 65536"
  have "push_bit 8 (push_bit 8 w OR drop_bit 8 w) OR drop_bit 8 (push_bit 8 w OR drop_bit 8 w) = w" for w :: "16 word"
    by (rule bit_word_eqI) (auto simp: bit_simps)
  then have "ntohs (htons x) = unat (word_of_int x :: 16 word)" by (simp add: ntohs_def htons_def Let_def)
  also have "\<dots> = nat x" using x by (simp add: unat_eq_nat_uint uint_word_of_int)
  finally show ?thesis .
qed

text \<open>With an address text of at most 45 characters the result fits in the static buffer of 256 bytes; the
  port can be read back from it.\<close>

lemma ntohs_bound: "ntohs p < 65536"
  using unsigned_less [of "push_bit 8 p OR drop_bit 8 p"] by (simp add: ntohs_def)

lemma ep_tostring_text:
  assumes "ntop (ep_family ep) (ep_addr ep) = Some s" "length s \<le> 45"
  shows "length (ep_tostring ntop err ep) + 1 \<le> 256"
    "\<exists>pre. ep_tostring ntop err ep = pre @ '':'' @ dec_digits (ntohs (ep_port ep))"
proof -
  have "length (sprintf_d (int (ntohs (ep_port ep)))) + 1 \<le> 16" using ntohs_bound [of "ep_port ep"] by (intro sprintf_d_fits) auto
  then show "length (ep_tostring ntop err ep) + 1 \<le> 256" using assms by (simp add: ep_tostring_def)
  show "\<exists>pre. ep_tostring ntop err ep = pre @ '':'' @ dec_digits (ntohs (ep_port ep))"
    using assms(1) by (auto simp: ep_tostring_def sprintf_d_def intro: exI [of _ "''['' @ s @ '']''"])
qed

lemma ep_tostring_port:
  assumes "ntop (ep_family ep) (ep_addr ep) = Some s" "length s \<le> 45"
  shows "digits_val (rev (takeWhile (\<lambda>c. c \<noteq> CHR '':'') (rev (ep_tostring ntop err ep)))) = ntohs (ep_port ep)"
proof -
  obtain pre where p: "ep_tostring ntop err ep = pre @ '':'' @ dec_digits (ntohs (ep_port ep))" using ep_tostring_text(2) [where ntop = ntop and ep = ep, OF assms] by blast
  have "\<forall>c \<in> set (rev (dec_digits (ntohs (ep_port ep)))). c \<noteq> CHR '':''"
    using dec_digits_digs [of "ntohs (ep_port ep)"] by (auto simp: ch_class_defs)
  then have "takeWhile (\<lambda>c. c \<noteq> CHR '':'') (rev (pre @ '':'' @ dec_digits (ntohs (ep_port ep)))) = rev (dec_digits (ntohs (ep_port ep)))"
    by (simp add: takeWhile_tail [where P = "\<lambda>c. c \<noteq> CHR '':''"])
  then show ?thesis unfolding p by simp
qed

subsection \<open>Clients and servers of the handout\<close>

record sockaddr_in =
  sin_port :: "16 word"
  sin_addr :: string

text \<open>\<open>sock\<close> is the result of \<^verbatim>\<open>socket\<close>, \<open>hp\<close> the address \<^verbatim>\<open>gethostbyname\<close> finds, \<open>con\<close> tells whether
  \<^verbatim>\<open>connect\<close> succeeds. Beside the value the functions return the open descriptors.\<close>

definition open_clientfd :: "nat option \<Rightarrow> string option \<Rightarrow> (sockaddr_in \<Rightarrow> bool) \<Rightarrow> int \<Rightarrow> nat set \<Rightarrow> int \<times> nat set" where
  "open_clientfd sock hp con port ks =
     (case sock of
        None \<Rightarrow> (-1, ks)
      | Some fd \<Rightarrow>
          let ks1 = insert fd ks in
          case hp of
            None \<Rightarrow> (-2, ks1)
          | Some a \<Rightarrow> if con \<lparr>sin_port = htons port, sin_addr = a\<rparr> then (int fd, ks1) else (-1, ks1))"

definition open_listenfd ::
  "nat option \<Rightarrow> bool \<Rightarrow> (sockaddr_in \<Rightarrow> bool) \<Rightarrow> bool \<Rightarrow> int \<Rightarrow> nat set \<Rightarrow> int \<times> nat set" where
  "open_listenfd sock opt bind lis port ks =
     (case sock of
        None \<Rightarrow> (-1, ks)
      | Some fd \<Rightarrow>
          let ks1 = insert fd ks in
          if \<not> opt then (-1, ks1)
          else if \<not> bind \<lparr>sin_port = htons port, sin_addr = replicate 4 NUL\<rparr> then (-1, ks1)
          else if \<not> lis then (-1, ks1)
          else (int fd, ks1))"

definition Open_clientfd where
  "Open_clientfd sock hp con port ks =
     (case open_clientfd sock hp con port ks of (rc, ks1) \<Rightarrow> if rc < 0 then Exits else Returns (rc, ks1))"

definition Open_listenfd where
  "Open_listenfd sock opt bind lis port ks =
     (case open_listenfd sock opt bind lis port ks of (rc, ks1) \<Rightarrow> if rc < 0 then Exits else Returns (rc, ks1))"

text \<open>The result is the new descriptor exactly if every step succeeds; when a later step fails it stays open.\<close>

lemma open_clientfd_ok:
  "open_clientfd sock hp con port ks = (int fd, ks1) \<longleftrightarrow>
     sock = Some fd \<and> ks1 = insert fd ks \<and> (\<exists>a. hp = Some a \<and> con \<lparr>sin_port = htons port, sin_addr = a\<rparr>)"
  by (auto simp: open_clientfd_def Let_def split: option.splits)

lemma open_clientfd_leaks: "open_clientfd (Some fd) hp con port ks = (r, ks1) \<Longrightarrow> r < 0 \<Longrightarrow> fd \<in> ks1"
  by (auto simp: open_clientfd_def Let_def split: option.splits if_splits)

lemma open_listenfd_ok:
  "open_listenfd sock opt bind lis port ks = (int fd, ks1) \<longleftrightarrow>
     sock = Some fd \<and> ks1 = insert fd ks \<and> opt \<and> bind \<lparr>sin_port = htons port, sin_addr = replicate 4 NUL\<rparr> \<and> lis"
  by (auto simp: open_listenfd_def Let_def split: option.splits)

end
