(* ===== verification/Kmp.thy ===== *)
theory Kmp
  imports Libc
begin

text \<open>
  The substring search of \<^verbatim>\<open>src/uthash/utstring.h\<close>: Knuth, Morris and Pratt's tables and searches,
  from left to right and from right to left.

  Indices are the \<^verbatim>\<open>long\<close>s of the code; an access outside of the needle or of the table, and the read
  of a byte of the haystack that was never written, are \<^term>\<open>None\<close>. The loops are partial functions;
  that they end is part of what is shown. The haystack is the memory from its first byte on.
\<close>

subsection \<open>The table and the search from left to right\<close>

text \<open>The inner loop of both functions: fall back in the table until the character fits.\<close>

definition at_int :: "'a list \<Rightarrow> int \<Rightarrow> 'a option" where
  "at_int xs i = (if 0 \<le> i \<and> i < int (length xs) then Some (xs ! nat i) else None)"

partial_function (option) kmp_fall :: "string \<Rightarrow> int list \<Rightarrow> char \<Rightarrow> int \<Rightarrow> int option" where
  "kmp_fall pat T c j =
     (if j > -1
      then Option.bind (at_int pat j) (\<lambda>x. if c \<noteq> x then Option.bind (at_int T j) (kmp_fall pat T c) else Some j)
      else Some j)"

text \<open>\<open>build_store P T i j\<close>: what is stored at \<open>i\<close> behind the increments.\<close>

definition build_store :: "string \<Rightarrow> int list \<Rightarrow> int \<Rightarrow> int \<Rightarrow> int list option" where
  "build_store P T i j =
     (if i < int (length P)
      then Option.bind (at_int P i) (\<lambda>x. Option.bind (at_int P j) (\<lambda>y.
             if x = y then map_option (\<lambda>t. T[nat i := t]) (at_int T j) else Some (T[nat i := j])))
      else Some (T[nat i := j]))"

partial_function (option) build_loop :: "string \<Rightarrow> int list \<Rightarrow> int \<Rightarrow> int \<Rightarrow> int list option" where
  "build_loop pat T i j =
     (if i < int (length pat)
      then Option.bind (at_int pat i) (\<lambda>c.
           Option.bind (kmp_fall pat T c j) (\<lambda>r.
           Option.bind (build_store pat T (i + 1) (r + 1)) (\<lambda>T1. build_loop pat T1 (i + 1) (r + 1))))
      else Some T)"

text \<open>\<open>T\<close> is the block of \<^verbatim>\<open>P_NeedleLen + 1\<close> numbers, as it was allocated.\<close>

definition utstring_BuildTable :: "string \<Rightarrow> int list \<Rightarrow> int list option" where
  "utstring_BuildTable P T = build_loop P (T[0 := -1]) 0 (-1)"

partial_function (option) find_loop :: "cmem \<Rightarrow> nat \<Rightarrow> string \<Rightarrow> int list \<Rightarrow> int \<Rightarrow> int \<Rightarrow> int option" where
  "find_loop H n pat T i j =
     (if j < to_int32 (int n) \<and> (int n - j + i) mod 2 ^ 64 \<ge> int (length pat)
      then Option.bind (mem_get H (nat j)) (\<lambda>c.
           Option.bind (kmp_fall pat T c i) (\<lambda>r.
             if r + 1 \<ge> to_int32 (int (length pat)) then Some (j - r)
             else find_loop H n pat T (r + 1) (j + 1)))
      else Some (-1))"

definition utstring_find_in :: "cmem \<Rightarrow> nat \<Rightarrow> string \<Rightarrow> int list \<Rightarrow> int option" where
  "utstring_find_in H n P T = find_loop H n P T 0 0"

subsection \<open>Borders and occurrences\<close>

text \<open>\<open>occ P H q k\<close>: the first \<open>k\<close> characters of \<open>P\<close> are the last \<open>k\<close> of the first \<open>q\<close> of \<open>H\<close>.\<close>

definition occ :: "string \<Rightarrow> string \<Rightarrow> nat \<Rightarrow> nat \<Rightarrow> bool" where
  "occ P H q k \<longleftrightarrow> k \<le> q \<and> (\<forall>x < k. P ! x = H ! (q - k + x))"

definition border :: "string \<Rightarrow> nat \<Rightarrow> nat \<Rightarrow> bool" where
  "border P i k \<longleftrightarrow> k < i \<and> occ P P i k"

lemma occ_0 [simp]: "occ P H q 0"
  by (simp add: occ_def)

lemma border_0 [simp]: "border P i 0 \<longleftrightarrow> 0 < i"
  by (simp add: border_def)

lemma occ_Suc: "occ P H (Suc q) (Suc k) \<longleftrightarrow> occ P H q k \<and> P ! k = H ! q"
  by (auto simp: occ_def less_Suc_eq)

lemma occ_border:
  assumes "occ P H q j" "border P j k"
  shows "occ P H q k"
proof -
  have "P ! x = H ! (q - k + x)" if x: "x < k" for x
  proof -
    have "P ! x = P ! (j - k + x)" using assms(2) x by (auto simp: border_def occ_def)
    also have "\<dots> = H ! (q - j + (j - k + x))" using assms x by (auto simp: border_def occ_def)
    also have "q - j + (j - k + x) = q - k + x" using assms x by (auto simp: border_def occ_def)
    finally show ?thesis .
  qed
  with assms show ?thesis by (auto simp: border_def occ_def)
qed

lemma occ_diff:
  assumes "occ P H q j" "occ P H q k" "k < j"
  shows "border P j k"
proof -
  have "P ! x = P ! (j - k + x)" if x: "x < k" for x
  proof -
    have "P ! x = H ! (q - k + x)" using assms x by (auto simp: occ_def)
    also have "q - k + x = q - j + (j - k + x)" using assms x by (auto simp: occ_def)
    also have "H ! (q - j + (j - k + x)) = P ! (j - k + x)" using assms x by (auto simp: occ_def)
    finally show ?thesis .
  qed
  with assms(3) show ?thesis by (simp add: border_def occ_def)
qed

lemma border_trans: "border P i j \<Longrightarrow> border P j k \<Longrightarrow> border P i k"
  using occ_border by (fastforce simp: border_def)

lemma border_below: "border P i j \<Longrightarrow> border P i k \<Longrightarrow> k < j \<Longrightarrow> border P j k"
  using occ_diff by (auto simp: border_def)

text \<open>The entry \<open>t\<close> at \<open>i\<close>: the longest border whose next character differs, or \<open>-1\<close>.\<close>

definition entry_ok :: "string \<Rightarrow> nat \<Rightarrow> int \<Rightarrow> bool" where
  "entry_ok P i t \<longleftrightarrow> -1 \<le> t \<and> (0 \<le> t \<longrightarrow> border P i (nat t) \<and> P ! nat t \<noteq> P ! i) \<and>
     (\<forall>k. border P i k \<and> t < int k \<longrightarrow> P ! k = P ! i)"

definition table_ok :: "string \<Rightarrow> int list \<Rightarrow> nat \<Rightarrow> bool" where
  "table_ok P T n \<longleftrightarrow> length T = length P + 1 \<and> (\<forall>i < n. i < length P \<longrightarrow> entry_ok P i (T ! i))"

definition cand :: "string \<Rightarrow> nat \<Rightarrow> nat \<Rightarrow> bool" where
  "cand P j k \<longleftrightarrow> k = j \<or> border P j k"

text \<open>Falling back finds the longest candidate that the character extends.\<close>

lemma kmp_fall_ok:
  assumes t: "table_ok P T n" and j: "j < int (length P)" "j < int n" "-1 \<le> j"
  shows "\<exists>r. kmp_fall P T c j = Some r \<and> -1 \<le> r \<and> r \<le> j \<and>
     (0 \<le> r \<longrightarrow> cand P (nat j) (nat r) \<and> P ! nat r = c) \<and>
     (\<forall>k. r < int k \<and> int k \<le> j \<and> cand P (nat j) k \<longrightarrow> P ! k \<noteq> c)"
  using j
proof (induction "nat (j + 1)" arbitrary: j rule: less_induct)
  case less
  show ?case
  proof (cases "j = -1")
    case True
    then show ?thesis by (subst kmp_fall.simps) auto
  next
    case False
    then have j0: "0 \<le> j" using less.prems by simp
    then have pj: "at_int P j = Some (P ! nat j)" "at_int T j = Some (T ! nat j)" and e: "entry_ok P (nat j) (T ! nat j)"
      using less.prems t by (auto simp: at_int_def table_ok_def)
    show ?thesis
    proof (cases "P ! nat j = c")
      case True
      then have "kmp_fall P T c j = Some j" using j0 pj by (subst kmp_fall.simps) simp
      with True j0 show ?thesis by (auto simp: cand_def)
    next
      case ne: False
      let ?t = "T ! nat j"
      have tj: "?t < j" "-1 \<le> ?t" using e j0 by (auto simp: entry_ok_def border_def zless_nat_conj nat_less_iff)
      obtain r where r: "kmp_fall P T c ?t = Some r" "-1 \<le> r" "r \<le> ?t"
        "0 \<le> r \<longrightarrow> cand P (nat ?t) (nat r) \<and> P ! nat r = c"
        "\<forall>k. r < int k \<and> int k \<le> ?t \<and> cand P (nat ?t) k \<longrightarrow> P ! k \<noteq> c"
        using less.hyps [of ?t] less.prems tj j0 by fastforce
      have "kmp_fall P T c j = Some r" using j0 pj ne r(1) by (subst kmp_fall.simps) auto
      moreover have "cand P (nat j) (nat r)" if r0: "0 \<le> r"
      proof -
        have "border P (nat j) (nat ?t)" "cand P (nat ?t) (nat r)" using r(3,4) r0 e by (auto simp: entry_ok_def)
        then show ?thesis unfolding cand_def by (metis border_trans)
      qed
      moreover have "P ! k \<noteq> c" if k: "r < int k" "int k \<le> j" "cand P (nat j) k" for k
      proof (cases "int k \<le> ?t")
        case True
        then have "k \<noteq> nat j" using tj j0 by auto
        then have "border P (nat j) k" "border P (nat j) (nat ?t)" using k(3) e True by (auto simp: cand_def entry_ok_def)
        then have "cand P (nat ?t) k" using border_below [of P "nat j" "nat ?t" k] True by (cases "k = nat ?t") (auto simp: cand_def)
        with r(5) k(1) True show ?thesis by blast
      next
        case False
        with k(3) e ne show ?thesis by (auto simp: cand_def entry_ok_def)
      qed
      ultimately show ?thesis using r(2,3,4) tj by auto
    qed
  qed
qed


subsection \<open>Building the table\<close>

text \<open>\<open>longest P i j\<close>: \<open>j\<close> is the longest border of the first \<open>i\<close> characters.\<close>

definition longest :: "string \<Rightarrow> nat \<Rightarrow> int \<Rightarrow> bool" where
  "longest P i j \<longleftrightarrow> (if i = 0 then j = -1 else 0 \<le> j \<and> border P i (nat j) \<and> (\<forall>k. border P i k \<longrightarrow> int k \<le> j))"

lemma border_Suc: "border P (Suc i) (Suc k) \<longleftrightarrow> border P i k \<and> P ! k = P ! i"
  by (auto simp: border_def occ_Suc)

lemma longest_step:
  assumes l: "longest P i j"
    and r: "-1 \<le> r" "r \<le> j" "0 \<le> r \<longrightarrow> cand P (nat j) (nat r) \<and> P ! nat r = P ! i"
      "\<forall>k. r < int k \<and> int k \<le> j \<and> cand P (nat j) k \<longrightarrow> P ! k \<noteq> P ! i"
  shows "longest P (Suc i) (r + 1)"
proof -
  have "border P (Suc i) (nat (r + 1))"
  proof (cases "r = -1")
    case False
    then have r0: "0 \<le> r" using r(1) by simp
    then have "border P i (nat j)" using l r(2) by (auto simp: longest_def split: if_splits)
    then have "border P i (nat r)" using r(3) r0 border_trans by (auto simp: cand_def)
    then show ?thesis using r(3) r0 by (simp add: border_Suc nat_add_distrib)
  qed simp
  moreover have "int k \<le> r + 1" if k: "border P (Suc i) k" for k
  proof (cases k)
    case (Suc k')
    then have b: "border P i k'" "P ! k' = P ! i" using k by (auto simp: border_Suc)
    then have "0 < i" by (auto simp: border_def)
    then have "int k' \<le> j" "border P i (nat j)" using l b(1) by (auto simp: longest_def)
    then have "cand P (nat j) k'" using b(1) border_below [of P i "nat j" k'] by (cases "k' = nat j") (auto simp: cand_def)
    with r(4) b(2) \<open>int k' \<le> j\<close> have "\<not> r < int k'" by blast
    with Suc show ?thesis by simp
  qed (use r(1) in simp)
  ultimately show ?thesis using r(1) by (simp add: longest_def)
qed

lemma entry_longest:
  assumes l: "longest P i j" and i: "0 < i" and e: "entry_ok P (nat j) t"
  shows "entry_ok P i (if P ! i = P ! nat j then t else j)"
proof -
  have j: "0 \<le> j" "border P i (nat j)" "\<forall>k. border P i k \<longrightarrow> int k \<le> j" using l i by (auto simp: longest_def)
  have "P ! k = P ! i" if eq: "P ! i = P ! nat j" and k: "border P i k" "t < int k" for k
  proof (cases "k = nat j")
    case False
    then have "k < nat j" using j(1,3) k(1) by (metis le_nat_iff nat_int order_le_less zle_int)
    with border_below [OF j(2) k(1)] e k(2) eq show ?thesis by (auto simp: entry_ok_def)
  qed (use eq in simp)
  moreover have "border P i (nat t)" if "0 \<le> t"
  proof -
    have "border P (nat j) (nat t)" using e that by (simp add: entry_ok_def)
    with j(2) show ?thesis by (rule border_trans)
  qed
  moreover have "entry_ok P i j" if "P ! i \<noteq> P ! nat j"
  proof -
    have "P ! nat j \<noteq> P ! i" "-1 \<le> j" using that j(1) by simp_all
    moreover have "\<not> j < int k" if "border P i k" for k using j(3) that by fastforce
    ultimately show ?thesis using j(2) unfolding entry_ok_def by blast
  qed
  moreover have "-1 \<le> t" "0 \<le> t \<longrightarrow> P ! nat t \<noteq> P ! nat j" using e by (simp_all add: entry_ok_def)
  ultimately show ?thesis by (cases "P ! i = P ! nat j") (simp_all add: entry_ok_def)
qed

lemma build_store_ok:
  assumes t: "table_ok P T (Suc i)" and l: "longest P (Suc i) j" and i: "i < length P"
  shows "\<exists>T'. build_store P T (int i + 1) j = Some T' \<and> table_ok P T' (Suc (Suc i))"
proof -
  have j: "0 \<le> j" "nat j < Suc i" using l by (auto simp: longest_def border_def)
  have len: "length T = length P + 1" and e: "entry_ok P (nat j) (T ! nat j)" using t i j by (auto simp: table_ok_def)
  show ?thesis
  proof (cases "Suc i < length P")
    case True
    let ?v = "if P ! Suc i = P ! nat j then T ! nat j else j"
    have "build_store P T (int i + 1) j = Some (T[Suc i := ?v])"
      using True j len by (simp add: build_store_def at_int_def nat_add_distrib)
    moreover have "table_ok P (T[Suc i := ?v]) (Suc (Suc i))"
    proof -
      have "entry_ok P (Suc i) ?v" by (rule entry_longest [OF l _ e]) simp
      then show ?thesis using t len by (auto simp: table_ok_def nth_list_update less_Suc_eq simp del: if_split)
    qed
    ultimately show ?thesis by blast
  next
    case False
    then have "build_store P T (int i + 1) j = Some (T[Suc i := j])" by (simp add: build_store_def nat_add_distrib)
    moreover have "table_ok P (T[Suc i := j]) (Suc (Suc i))" using t False len by (auto simp: table_ok_def nth_list_update)
    ultimately show ?thesis by blast
  qed
qed

lemma build_loop_ok:
  "table_ok P T (Suc i) \<Longrightarrow> longest P i j \<Longrightarrow> i \<le> length P \<Longrightarrow>
   \<exists>T'. build_loop P T (int i) j = Some T' \<and> table_ok P T' (length P)"
proof (induction "length P - i" arbitrary: T i j)
  case 0
  then show ?case by (subst build_loop.simps) (auto simp: table_ok_def)
next
  case (Suc n)
  then have i: "i < length P" by simp
  have j: "j < int (length P)" "j < int (Suc i)" "-1 \<le> j"
    using Suc.prems(2) i by (auto simp: longest_def border_def split: if_splits)
  obtain r where r: "kmp_fall P T (P ! i) j = Some r" "-1 \<le> r" "r \<le> j"
    "0 \<le> r \<longrightarrow> cand P (nat j) (nat r) \<and> P ! nat r = P ! i"
    "\<forall>k. r < int k \<and> int k \<le> j \<and> cand P (nat j) k \<longrightarrow> P ! k \<noteq> P ! i"
    using kmp_fall_ok [OF Suc.prems(1) j] by blast
  note l = longest_step [OF Suc.prems(2) r(2-5)]
  obtain T1 where T1: "build_store P T (int i + 1) (r + 1) = Some T1" "table_ok P T1 (Suc (Suc i))"
    using build_store_ok [OF Suc.prems(1) l i] by blast
  obtain T' where T': "build_loop P T1 (int (Suc i)) (r + 1) = Some T'" "table_ok P T' (length P)"
    using Suc.hyps(1) [of "Suc i" T1 "r + 1"] Suc.hyps(2) T1(2) l i by fastforce
  have "build_loop P T (int i) j = Some T'"
    using i r(1) T1(1) T'(1) by (subst build_loop.simps) (simp add: at_int_def add.commute)
  with T'(2) show ?case by blast
qed

lemma BuildTable_ok:
  assumes "length T = length P + 1"
  shows "\<exists>T'. utstring_BuildTable P T = Some T' \<and> table_ok P T' (length P)"
proof -
  have "table_ok P (T[0 := -1]) (Suc 0)" using assms by (auto simp: table_ok_def entry_ok_def border_def)
  from build_loop_ok [OF this, of "-1"] show ?thesis by (simp add: utstring_BuildTable_def longest_def)
qed


subsection \<open>The search\<close>

definition found_at :: "string \<Rightarrow> string \<Rightarrow> nat \<Rightarrow> bool" where
  "found_at t P q \<longleftrightarrow> q + length P \<le> length t \<and> take (length P) (drop q t) = P"

lemma found_at_occ: "found_at t P q \<longleftrightarrow> q + length P \<le> length t \<and> occ P t (q + length P) (length P)"
  by (auto simp: found_at_def occ_def list_eq_iff_nth_eq)

text \<open>What the loop has established when it looks at position \<open>j\<close> with \<open>i\<close> characters matched.\<close>

definition search_inv :: "string \<Rightarrow> string \<Rightarrow> nat \<Rightarrow> nat \<Rightarrow> bool" where
  "search_inv P t i j \<longleftrightarrow> i < length P \<and> j \<le> length t \<and> occ P t j i \<and>
     (\<forall>k < length P. occ P t j k \<longrightarrow> k \<le> i) \<and> (\<forall>e \<le> j. \<not> occ P t e (length P))"

lemma search_inv_stop:
  assumes s: "search_inv P t i j" and c: "\<not> (j < length t \<and> length P \<le> length t - j + i)" and e: "e \<le> length t"
  shows "\<not> occ P t e (length P)"
proof
  assume o: "occ P t e (length P)"
  with s e have e': "j < e" "j < length t" by (auto simp: search_inv_def not_le [symmetric])
  then have c': "length t - j + i < length P" using c by simp
  let ?k = "length P - (e - j)"
  have k: "?k < length P" "i < ?k" using c' e' e s by (auto simp: search_inv_def)
  have "occ P t j ?k"
  proof -
    have "P ! x = t ! (j - ?k + x)" if "x < ?k" for x
    proof -
      have "P ! x = t ! (e - length P + x)" using o that by (auto simp: occ_def)
      moreover have "e - length P + x = j - ?k + x" using k o e' by (auto simp: occ_def)
      ultimately show ?thesis by simp
    qed
    moreover have "?k \<le> j" using o k e' by (auto simp: occ_def)
    ultimately show ?thesis by (simp add: occ_def)
  qed
  with s k show False by (auto simp: search_inv_def)
qed

lemma search_inv_step:
  assumes s: "search_inv P t i j" and j: "j < length t"
    and r: "-1 \<le> r" "r \<le> int i" "0 \<le> r \<longrightarrow> cand P i (nat r) \<and> P ! nat r = t ! j"
      "\<forall>k. r < int k \<and> int k \<le> int i \<and> cand P i k \<longrightarrow> P ! k \<noteq> t ! j"
  shows "occ P t (Suc j) (nat (r + 1))" "k \<le> length P \<Longrightarrow> occ P t (Suc j) k \<Longrightarrow> int k \<le> r + 1"
proof -
  have o: "occ P t j i" "\<forall>k < length P. occ P t j k \<longrightarrow> k \<le> i" using s by (auto simp: search_inv_def)
  show "occ P t (Suc j) (nat (r + 1))"
  proof (cases "r = -1")
    case False
    then have r0: "0 \<le> r" using r(1) by simp
    then have "occ P t j (nat r)" using r(3) o(1) occ_border by (auto simp: cand_def)
    then show ?thesis using r(3) r0 by (simp add: occ_Suc nat_add_distrib)
  qed simp
  assume k: "k \<le> length P" "occ P t (Suc j) k"
  show "int k \<le> r + 1"
  proof (cases k)
    case (Suc k')
    then have b: "occ P t j k'" "P ! k' = t ! j" "k' < length P" using k by (auto simp: occ_Suc)
    then have "k' \<le> i" using o(2) by blast
    then have "cand P i k'" using occ_diff [OF o(1) b(1)] by (cases "k' = i") (auto simp: cand_def)
    with r(4) b(2) \<open>k' \<le> i\<close> have "\<not> r < int k'" by auto
    with Suc show ?thesis by simp
  qed (use r(1) in simp)
qed

lemma find_loop_ok:
  assumes t: "table_ok P T (length P)" and small: "length t < 2 ^ 31" "length P < 2 ^ 31"
  shows "search_inv P t i j \<Longrightarrow>
    \<exists>r. find_loop (map Some t @ rest) (length t) P T (int i) (int j) = Some r \<and>
      (r = -1 \<and> (\<forall>e \<le> length t. \<not> occ P t e (length P)) \<or>
       (\<exists>e \<le> length t. r = int e - int (length P) \<and> occ P t e (length P) \<and> (\<forall>e' < e. \<not> occ P t e' (length P))))"
proof (induction "length t - j" arbitrary: i j rule: less_induct)
  case less
  have ij: "i < length P" "j \<le> length t" "\<forall>e \<le> j. \<not> occ P t e (length P)" using less.prems by (auto simp: search_inv_def)
  have "(int (length t) - int j + int i) mod 2 ^ 64 = int (length t) - int j + int i"
    using ij small by (intro mod_pos_pos_trivial) auto
  then have c: "int j < to_int32 (int (length t)) \<and> (int (length t) - int j + int i) mod 2 ^ 64 \<ge> int (length P) \<longleftrightarrow>
      j < length t \<and> length P \<le> length t - j + i"
    using ij(2) small by auto
  show ?case
  proof (cases "j < length t \<and> length P \<le> length t - j + i")
    case False
    with c have "find_loop (map Some t @ rest) (length t) P T (int i) (int j) = Some (-1)"
      by (subst find_loop.simps) (simp only: if_False)
    with search_inv_stop [OF less.prems False] show ?thesis by blast
  next
    case True
    have i: "int i < int (length P)" "-1 \<le> int i" using ij(1) by simp_all
    obtain r where r: "kmp_fall P T (t ! j) (int i) = Some r" "-1 \<le> r" "r \<le> int i"
      "0 \<le> r \<longrightarrow> cand P i (nat r) \<and> P ! nat r = t ! j" "\<forall>k. r < int k \<and> int k \<le> int i \<and> cand P i k \<longrightarrow> P ! k \<noteq> t ! j"
      using kmp_fall_ok [OF t i(1,1,2)] by auto
    note st = search_inv_step [OF less.prems _ r(2-5)]
    have g: "mem_get (map Some t @ rest) (nat (int j)) = Some (t ! j)" using True by (simp add: mem_get_def nth_append)
    have step: "find_loop (map Some t @ rest) (length t) P T (int i) (int j) =
        (if r + 1 \<ge> to_int32 (int (length P)) then Some (int j - r)
         else find_loop (map Some t @ rest) (length t) P T (r + 1) (int j + 1))"
      unfolding find_loop.simps [of "map Some t @ rest" "length t" P T "int i" "int j"] if_P [OF c [THEN iffD2, OF True]] g r(1) Option.bind.simps ..
    have m: "to_int32 (int (length P)) = int (length P)" using small by simp
    show ?thesis
    proof (cases "r + 1 = int (length P)")
      case True': True
      then have "find_loop (map Some t @ rest) (length t) P T (int i) (int j) = Some (int j - r)"
        using step m by simp
      moreover have "int j - r = int (Suc j) - int (length P)" using True' by simp
      moreover have "occ P t (Suc j) (length P)" using st(1) True True' by (metis nat_int)
      ultimately show ?thesis using True ij(3) by (intro exI [of _ "int j - r"]) (auto simp: less_Suc_eq_le intro!: exI [of _ "Suc j"])
    next
      case False
      then have lt: "r + 1 < int (length P)" using r(3) i by simp
      have "search_inv P t (nat (r + 1)) (Suc j)"
        unfolding search_inv_def using True st lt r(2) ij(3) by (force simp: le_Suc_eq nat_less_iff le_nat_iff)
      from less.hyps [OF diff_less_mono2 [OF lessI conjunct1 [OF True]] this] obtain r' where
        r': "find_loop (map Some t @ rest) (length t) P T (int (nat (r + 1))) (int (Suc j)) = Some r'"
          "r' = -1 \<and> (\<forall>e \<le> length t. \<not> occ P t e (length P)) \<or>
           (\<exists>e \<le> length t. r' = int e - int (length P) \<and> occ P t e (length P) \<and> (\<forall>e' < e. \<not> occ P t e' (length P)))" by blast
      have "find_loop (map Some t @ rest) (length t) P T (int i) (int j) = Some r'"
        using step m lt r(2) r'(1) by (simp add: add.commute)
      with r'(2) show ?thesis by blast
    qed
  qed
qed

text \<open>The position is the first one, or there is none.\<close>

definition first_at :: "string \<Rightarrow> string \<Rightarrow> int \<Rightarrow> bool" where
  "first_at t P r \<longleftrightarrow> (if r = -1 then \<forall>q. \<not> found_at t P q else 0 \<le> r \<and> found_at t P (nat r) \<and> (\<forall>q < nat r. \<not> found_at t P q))"

lemma find_in_first:
  assumes "table_ok P T (length P)" "length t < 2 ^ 31" "length P < 2 ^ 31" "P \<noteq> []"
  shows "\<exists>r. utstring_find_in (map Some t @ rest) (length t) P T = Some r \<and> first_at t P r"
proof -
  have "search_inv P t 0 0" using assms(4) by (auto simp: search_inv_def occ_def)
  from find_loop_ok [OF assms(1-3) this, of rest] obtain r where
    r: "utstring_find_in (map Some t @ rest) (length t) P T = Some r" and
    c: "r = -1 \<and> (\<forall>e \<le> length t. \<not> occ P t e (length P)) \<or>
       (\<exists>e \<le> length t. r = int e - int (length P) \<and> occ P t e (length P) \<and> (\<forall>e' < e. \<not> occ P t e' (length P)))"
    by (auto simp: utstring_find_in_def)
  from c have "first_at t P r"
  proof
    assume "\<exists>e \<le> length t. r = int e - int (length P) \<and> occ P t e (length P) \<and> (\<forall>e' < e. \<not> occ P t e' (length P))"
    then obtain e where e: "e \<le> length t" "r = int e - int (length P)" "occ P t e (length P)" "\<forall>e' < e. \<not> occ P t e' (length P)" by blast
    then have "length P \<le> e" by (simp add: occ_def)
    moreover from this have "nat (int e - int (length P)) = e - length P" by simp
    ultimately show ?thesis using e by (auto simp: first_at_def found_at_occ)
  qed (auto simp: first_at_def found_at_occ)
  with r show ?thesis by blast
qed

subsection \<open>From right to left\<close>

text \<open>\<open>L\<close> is the length of the needle as the function at hand converts it.\<close>

partial_function (option) kmp_fallR :: "int \<Rightarrow> string \<Rightarrow> int list \<Rightarrow> char \<Rightarrow> int \<Rightarrow> int option" where
  "kmp_fallR L pat T c j =
     (if j < L
      then Option.bind (at_int pat j) (\<lambda>x. if c \<noteq> x then Option.bind (at_int T (j + 1)) (kmp_fallR L pat T c) else Some j)
      else Some j)"

definition build_storeR :: "string \<Rightarrow> int list \<Rightarrow> int \<Rightarrow> int \<Rightarrow> int list option" where
  "build_storeR P T i j =
     (if i \<ge> 0
      then Option.bind (at_int P i) (\<lambda>x. Option.bind (at_int P j) (\<lambda>y.
             if x = y then map_option (\<lambda>t. T[nat (i + 1) := t]) (at_int T (j + 1)) else Some (T[nat (i + 1) := j])))
      else Some (T[nat (i + 1) := j]))"

partial_function (option) build_loopR :: "string \<Rightarrow> int list \<Rightarrow> int \<Rightarrow> int \<Rightarrow> int list option" where
  "build_loopR pat T i j =
     (if i \<ge> 0
      then Option.bind (at_int pat i) (\<lambda>c.
           Option.bind (kmp_fallR (int (length pat)) pat T c j) (\<lambda>r.
           Option.bind (build_storeR pat T (i - 1) (r - 1)) (\<lambda>T1. build_loopR pat T1 (i - 1) (r - 1))))
      else Some T)"

definition utstring_BuildTableR :: "string \<Rightarrow> int list \<Rightarrow> int list option" where
  "utstring_BuildTableR P T =
     (let i = int (length P) - 1; j = i + 1 in build_loopR P (T[nat (i + 1) := j]) i j)"

partial_function (option) findR_loop :: "cmem \<Rightarrow> string \<Rightarrow> int list \<Rightarrow> int \<Rightarrow> int \<Rightarrow> int option" where
  "findR_loop H pat T i j =
     (if j \<ge> 0 \<and> j \<ge> i
      then Option.bind (mem_get H (nat j)) (\<lambda>c.
           Option.bind (kmp_fallR (to_int32 (int (length pat))) pat T c i) (\<lambda>r.
             if r - 1 < 0 then Some j else findR_loop H pat T (r - 1) (j - 1)))
      else Some (-1))"

definition utstring_findR_in :: "cmem \<Rightarrow> nat \<Rightarrow> string \<Rightarrow> int list \<Rightarrow> int option" where
  "utstring_findR_in H n P T = findR_loop H P T (int (length P) - 1) (int n - 1)"

text \<open>Read backwards these functions are the ones from left to right: an index \<open>k\<close> of the needle becomes
  \<open>length P - 1 - k\<close>, and the table is turned round with its entries.\<close>

definition mirror :: "int list \<Rightarrow> int list" where
  "mirror T = map (\<lambda>t. int (length T) - 2 - t) (rev T)"

lemma length_mirror [simp]: "length (mirror T) = length T"
  by (simp add: mirror_def)

lemma mirror_mirror [simp]: "mirror (mirror T) = T"
  by (simp add: mirror_def rev_map o_def)

lemma at_int_rev: "at_int (rev xs) j = at_int xs (int (length xs) - 1 - j)"
proof (cases "0 \<le> j \<and> j < int (length xs)")
  case True
  then have "nat (int (length xs) - 1 - j) = length xs - Suc (nat j)" by linarith
  with True show ?thesis by (auto simp: at_int_def rev_nth)
qed (auto simp: at_int_def)

lemma at_int_mirror: "at_int (mirror T) j = map_option (\<lambda>t. int (length T) - 2 - t) (at_int T (int (length T) - 1 - j))"
  using at_int_rev [of T j] by (auto simp: mirror_def at_int_def rev_nth split: if_splits)

lemma mirror_update:
  assumes "k < length T"
  shows "mirror (T[k := t]) = (mirror T)[length T - 1 - k := int (length T) - 2 - t]"
  using assms by (simp add: mirror_def rev_update map_update)

lemma kmp_fall_mirror:
  assumes "kmp_fall P T c j = Some r"
  shows "length T = length P + 1 \<longrightarrow>
    kmp_fallR (int (length P)) (rev P) (mirror T) c (int (length P) - 1 - j) = Some (int (length P) - 1 - r)"
proof (rule kmp_fall.raw_induct [where P = "\<lambda>P T c j r. length T = length P + 1 \<longrightarrow>
    kmp_fallR (int (length P)) (rev P) (mirror T) c (int (length P) - 1 - j) = Some (int (length P) - 1 - r)", OF _ assms], intro impI)
  fix f :: "string \<Rightarrow> int list \<Rightarrow> char \<Rightarrow> int \<Rightarrow> int option" and P c j r and T :: "int list"
  assume IH: "\<And>P T c j r. f P T c j = Some r \<Longrightarrow> length T = length P + 1 \<longrightarrow>
      kmp_fallR (int (length P)) (rev P) (mirror T) c (int (length P) - 1 - j) = Some (int (length P) - 1 - r)"
    and r: "(if j > -1 then Option.bind (at_int P j) (\<lambda>x. if c \<noteq> x then Option.bind (at_int T j) (f P T c) else Some j)
      else Some j) = Some r"
    and l: "length T = length P + 1"
  let ?j = "int (length P) - 1 - j"
  show "kmp_fallR (int (length P)) (rev P) (mirror T) c ?j = Some (int (length P) - 1 - r)"
  proof (cases "j > -1")
    case False
    then have "\<not> ?j < int (length P)" "r = j" using r by simp_all
    then show ?thesis by (subst kmp_fallR.simps) simp
  next
    case True
    then obtain x where x: "at_int P j = Some x" using r by (auto simp: bind_eq_Some_conv)
    then have x': "at_int (rev P) ?j = Some x" by (simp add: at_int_rev)
    have lt: "?j < int (length P)" using True by simp
    show ?thesis
    proof (cases "c = x")
      case eq: True
      then have "r = j" using r x True by simp
      then show ?thesis unfolding kmp_fallR.simps [of _ _ _ _ ?j] if_P [OF lt] x' using eq by simp
    next
      case False
      then obtain t where t: "at_int T j = Some t" "f P T c t = Some r" using r x True by (auto simp: bind_eq_Some_conv)
      then have "at_int (mirror T) (?j + 1) = Some (int (length P) - 1 - t)" using l by (simp add: at_int_mirror)
      then show ?thesis unfolding kmp_fallR.simps [of _ _ _ _ ?j] if_P [OF lt] x' using IH [OF t(2)] l False by simp
    qed
  qed
qed

lemma build_store_mirror:
  assumes "build_store P T i j = Some T1" "length T = length P + 1" "0 \<le> i" "i \<le> int (length P)"
  shows "build_storeR (rev P) (mirror T) (int (length P) - 1 - i) (int (length P) - 1 - j) = Some (mirror T1)"
proof -
  have k: "nat i < length T" "length T - 1 - nat i = nat (int (length P) - 1 - i + 1)" using assms(2-4) by linarith+
  have up: "mirror (T[nat i := t]) = (mirror T)[nat (int (length P) - 1 - i + 1) := int (length P) - 1 - t]" for t
    using mirror_update [OF k(1), of t] k(2) assms(2) by simp
  have at: "at_int (rev P) (int (length P) - 1 - l) = at_int P l" for l by (simp add: at_int_rev)
  have tt: "at_int (mirror T) (int (length P) - 1 - j + 1) = map_option (\<lambda>t. int (length P) - 1 - t) (at_int T j)"
    using assms(2) by (simp add: at_int_mirror)
  show ?thesis
  proof (cases "i < int (length P)")
    case True
    then obtain x y where "at_int P i = Some x" "at_int P j = Some y" using assms(1) by (auto simp: build_store_def bind_eq_Some_conv)
    with assms(1) True at [of i] at [of j] tt up show ?thesis
      by (cases "x = y") (auto simp: build_store_def build_storeR_def simp del: at_int_rev)
  next
    case False
    with assms(1) up [of j] show ?thesis by (simp add: build_store_def build_storeR_def)
  qed
qed

lemma build_store_length: "build_store P T i j = Some T1 \<Longrightarrow> length T1 = length T"
  by (auto simp: build_store_def bind_eq_Some_conv split: if_splits)

lemma build_loop_mirror:
  assumes "build_loop P T i j = Some T1"
  shows "length T = length P + 1 \<and> 0 \<le> i \<longrightarrow>
    build_loopR (rev P) (mirror T) (int (length P) - 1 - i) (int (length P) - 1 - j) = Some (mirror T1)"
proof (rule build_loop.raw_induct [where P = "\<lambda>P T i j T1. length T = length P + 1 \<and> 0 \<le> i \<longrightarrow>
    build_loopR (rev P) (mirror T) (int (length P) - 1 - i) (int (length P) - 1 - j) = Some (mirror T1)", OF _ assms], intro impI)
  fix f :: "string \<Rightarrow> int list \<Rightarrow> int \<Rightarrow> int \<Rightarrow> int list option" and P i j and T T1 :: "int list"
  assume IH: "\<And>P T i j T1. f P T i j = Some T1 \<Longrightarrow> length T = length P + 1 \<and> 0 \<le> i \<longrightarrow>
      build_loopR (rev P) (mirror T) (int (length P) - 1 - i) (int (length P) - 1 - j) = Some (mirror T1)"
    and r: "(if i < int (length P) then Option.bind (at_int P i) (\<lambda>c. Option.bind (kmp_fall P T c j) (\<lambda>r.
        Option.bind (build_store P T (i + 1) (r + 1)) (\<lambda>T1. f P T1 (i + 1) (r + 1)))) else Some T) = Some T1"
    and l: "length T = length P + 1 \<and> 0 \<le> i"
  let ?i = "int (length P) - 1 - i" and ?j = "int (length P) - 1 - j"
  show "build_loopR (rev P) (mirror T) ?i ?j = Some (mirror T1)"
  proof (cases "i < int (length P)")
    case False
    then have "\<not> ?i \<ge> 0" "T1 = T" using r by simp_all
    then show ?thesis by (subst build_loopR.simps) simp
  next
    case True
    then obtain c k T2 where c: "at_int P i = Some c" "kmp_fall P T c j = Some k" "build_store P T (i + 1) (k + 1) = Some T2"
      "f P T2 (i + 1) (k + 1) = Some T1" using r by (auto simp: bind_eq_Some_conv)
    have p: "?i \<ge> 0" using True by simp
    have e: "int (length P) - 1 - (i + 1) = ?i - 1" "int (length P) - 1 - (k + 1) = int (length P) - 1 - k - 1" by simp_all
    have "at_int (rev P) ?i = Some c" using c(1) by (simp add: at_int_rev)
    moreover have "kmp_fallR (int (length (rev P))) (rev P) (mirror T) c ?j = Some (int (length P) - 1 - k)"
      using kmp_fall_mirror [OF c(2)] l by simp
    moreover have "build_storeR (rev P) (mirror T) (?i - 1) (int (length P) - 1 - k - 1) = Some (mirror T2)"
      using build_store_mirror [OF c(3)] l True unfolding e by simp
    moreover have "build_loopR (rev P) (mirror T2) (?i - 1) (int (length P) - 1 - k - 1) = Some (mirror T1)"
      using IH [OF c(4)] build_store_length [OF c(3)] l unfolding e by simp
    ultimately show ?thesis unfolding build_loopR.simps [of _ _ ?i] if_P [OF p] Option.bind.simps by simp
  qed
qed

lemma BuildTableR_ok:
  assumes "length T = length P + 1"
  shows "\<exists>T'. utstring_BuildTableR P T = Some (mirror T') \<and> table_ok (rev P) T' (length P)"
proof -
  obtain T' where T': "utstring_BuildTable (rev P) (mirror T) = Some T'" "table_ok (rev P) T' (length P)"
    using BuildTable_ok [of "mirror T" "rev P"] assms by auto
  have "mirror ((mirror T)[0 := -1]) = T[length P := int (length P)]"
    using assms by (simp add: mirror_update)
  moreover have "length ((mirror T)[0 := -1]) = length (rev P) + 1" using assms by simp
  ultimately have "build_loopR P (T[length P := int (length P)]) (int (length P) - 1) (int (length P)) = Some (mirror T')"
    using build_loop_mirror [of "rev P" "(mirror T)[0 := -1]" 0 "-1" T'] T'(1) by (simp add: utstring_BuildTable_def)
  with T'(2) show ?thesis by (auto simp: utstring_BuildTableR_def Let_def)
qed

lemma mem_get_map: "k < length t \<Longrightarrow> mem_get (map Some t @ rest) k = Some (t ! k)"
  by (simp add: mem_get_def nth_append)

lemma mem_get_rev: "k < length t \<Longrightarrow> mem_get (map Some t @ rest) (length t - Suc k) = Some (rev t ! k)"
  using mem_get_map [of "length t - Suc k" t rest] rev_nth [of k t] by simp

lemma findR_mirror:
  assumes "find_loop H n P T i j = Some q"
  shows "H = map Some (rev t) \<and> n = length t \<and> length t < 2 ^ 31 \<and> length P < 2 ^ 31 \<and> table_ok P T (length P) \<and>
      0 \<le> i \<and> i < int (length P) \<and> i \<le> j \<longrightarrow>
    findR_loop (map Some t @ rest) (rev P) (mirror T) (int (length P) - 1 - i) (int n - 1 - j) =
      Some (if q = -1 then -1 else int n - int (length P) - q)"
proof (rule find_loop.raw_induct [where P = "\<lambda>H n P T i j q. H = map Some (rev t) \<and> n = length t \<and>
      length t < 2 ^ 31 \<and> length P < 2 ^ 31 \<and> table_ok P T (length P) \<and> 0 \<le> i \<and> i < int (length P) \<and> i \<le> j \<longrightarrow>
    findR_loop (map Some t @ rest) (rev P) (mirror T) (int (length P) - 1 - i) (int n - 1 - j) =
      Some (if q = -1 then -1 else int n - int (length P) - q)", OF _ assms], intro impI)
  fix f :: "cmem \<Rightarrow> nat \<Rightarrow> string \<Rightarrow> int list \<Rightarrow> int \<Rightarrow> int \<Rightarrow> int option" and H n P T i j q
  assume IH: "\<And>H n P T i j q. f H n P T i j = Some q \<Longrightarrow> H = map Some (rev t) \<and> n = length t \<and>
      length t < 2 ^ 31 \<and> length P < 2 ^ 31 \<and> table_ok P T (length P) \<and> 0 \<le> i \<and> i < int (length P) \<and> i \<le> j \<longrightarrow>
      findR_loop (map Some t @ rest) (rev P) (mirror T) (int (length P) - 1 - i) (int n - 1 - j) =
      Some (if q = -1 then -1 else int n - int (length P) - q)"
    and r: "(if j < to_int32 (int n) \<and> (int n - j + i) mod 2 ^ 64 \<ge> int (length P)
      then Option.bind (mem_get H (nat j)) (\<lambda>c. Option.bind (kmp_fall P T c i) (\<lambda>r.
             if r + 1 \<ge> to_int32 (int (length P)) then Some (j - r) else f H n P T (r + 1) (j + 1)))
      else Some (-1)) = Some q"
    and a: "H = map Some (rev t) \<and> n = length t \<and> length t < 2 ^ 31 \<and> length P < 2 ^ 31 \<and> table_ok P T (length P) \<and>
      0 \<le> i \<and> i < int (length P) \<and> i \<le> j"
  let ?i = "int (length P) - 1 - i" and ?j = "int n - 1 - j"
  have tn: "to_int32 (int n) = int n" "to_int32 (int (length P)) = int (length P)" using a by simp_all
  show "findR_loop (map Some t @ rest) (rev P) (mirror T) ?i ?j = Some (if q = -1 then -1 else int n - int (length P) - q)"
  proof (cases "j < int n \<and> int (length P) \<le> int n - j + i")
    case False
    then have "\<not> (j < int n \<and> (int n - j + i) mod 2 ^ 64 \<ge> int (length P))"
    proof (cases "j < int n")
      case True
      then have "(int n - j + i) mod 2 ^ 64 = int n - j + i" using a by (intro mod_pos_pos_trivial) auto
      with False True show ?thesis by simp
    qed simp
    then have "q = -1" using r tn by auto
    moreover have n: "\<not> (?j \<ge> 0 \<and> ?j \<ge> ?i)" using False by linarith
    ultimately show ?thesis unfolding findR_loop.simps [of _ _ _ ?i ?j] if_not_P [OF n] by simp
  next
    case True
    then have g: "?j \<ge> 0 \<and> ?j \<ge> ?i" by simp
    have b: "int n - j + i < 2 ^ 64" "0 \<le> j" "nat j < length t" using a True by auto
    have "mem_get (map Some (rev t)) (nat j) = Some (rev t ! nat j)" using b by (simp add: mem_get_def)
    have "mem_get (map Some t @ rest) (nat ?j) = Some (rev t ! nat j)"
    proof -
      have "n = length t" using a by blast
      then have "nat ?j = length t - Suc (nat j)" using b(2,3) by simp
      then show ?thesis using mem_get_rev [OF b(3), of rest] by argo
    qed
    obtain k where k: "kmp_fall P T (rev t ! nat j) i = Some k" "-1 \<le> k" "k \<le> i"
      using kmp_fall_ok [of P T "length P" i "rev t ! nat j"] a by auto
    have st: "(if k + 1 \<ge> int (length P) then Some (j - k) else f H n P T (k + 1) (j + 1)) = Some q"
      and R: "findR_loop (map Some t @ rest) (rev P) (mirror T) ?i ?j =
        (if int (length P) - 1 - k - 1 < 0 then Some ?j
         else findR_loop (map Some t @ rest) (rev P) (mirror T) (int (length P) - 1 - k - 1) (?j - 1))"
    proof -
      have md: "(int n - j + i) mod 2 ^ 64 = int n - j + i" using a True b by (intro mod_pos_pos_trivial) auto
      show "(if k + 1 \<ge> int (length P) then Some (j - k) else f H n P T (k + 1) (j + 1)) = Some q"
        using r True k(1) a \<open>mem_get (map Some (rev t)) (nat j) = Some (rev t ! nat j)\<close> unfolding tn md by simp
      have "kmp_fallR (to_int32 (int (length (rev P)))) (rev P) (mirror T) (rev t ! nat j) ?i = Some (int (length P) - 1 - k)"
        using kmp_fall_mirror [OF k(1)] a tn(2) by (simp add: table_ok_def)
      then show "findR_loop (map Some t @ rest) (rev P) (mirror T) ?i ?j =
        (if int (length P) - 1 - k - 1 < 0 then Some ?j
         else findR_loop (map Some t @ rest) (rev P) (mirror T) (int (length P) - 1 - k - 1) (?j - 1))"
        unfolding findR_loop.simps [of _ _ _ ?i ?j] if_P [OF g] \<open>mem_get (map Some t @ rest) (nat ?j) = _\<close> Option.bind.simps
        by (simp only: Option.bind.simps)
    qed
    show ?thesis
    proof (cases "k + 1 \<ge> int (length P)")
      case True
      with st R a k show ?thesis by auto
    next
      case False
      with st have s: "f H n P T (k + 1) (j + 1) = Some q" by simp
      have e: "int (length P) - 1 - k - 1 = int (length P) - 1 - (k + 1)" "?j - 1 = int n - 1 - (j + 1)" by simp_all
      have "\<not> int (length P) - 1 - k - 1 < 0" using False by simp
      then show ?thesis using R [unfolded e] IH [OF s] a k False unfolding e by simp
    qed
  qed
qed

lemma found_at_rev:
  assumes "q + length P \<le> length t"
  shows "found_at (rev t) (rev P) q \<longleftrightarrow> found_at t P (length t - length P - q)"
proof -
  have "take (length P) (drop q (rev t)) = rev (take (length P) (drop (length t - length P - q) t))"
  proof -
    have "length t - q - length P = length t - length P - q" by simp
    with assms show ?thesis by (simp add: drop_rev take_rev drop_take)
  qed
  with assms show ?thesis by (auto simp: found_at_def)
qed

text \<open>The position is the last one, or there is none.\<close>

definition last_at :: "string \<Rightarrow> string \<Rightarrow> int \<Rightarrow> bool" where
  "last_at t P r \<longleftrightarrow> (if r = -1 then \<forall>q. \<not> found_at t P q else 0 \<le> r \<and> found_at t P (nat r) \<and> (\<forall>q > nat r. \<not> found_at t P q))"

lemma last_at_rev:
  assumes "first_at (rev t) (rev P) q"
  shows "last_at t P (if q = -1 then -1 else int (length t) - int (length P) - q)"
proof (cases "q = -1")
  case True
  have "\<not> found_at t P k" for k
  proof
    assume k: "found_at t P k"
    then have "k + length P \<le> length t" by (simp add: found_at_def)
    then show False using k assms True found_at_rev [of "length t - length P - k" P t] by (simp add: first_at_def)
  qed
  with True show ?thesis by (simp add: last_at_def)
next
  case False
  then have q: "0 \<le> q" "found_at (rev t) (rev P) (nat q)" "\<And>k. k < nat q \<Longrightarrow> \<not> found_at (rev t) (rev P) k"
    using assms by (simp_all add: first_at_def)
  then have b: "nat q + length P \<le> length t" by (simp add: found_at_def)
  then have e: "nat (int (length t) - int (length P) - q) = length t - length P - nat q" using q(1) by linarith
  have "\<not> found_at t P k" if k: "length t - length P - nat q < k" for k
  proof
    assume f: "found_at t P k"
    then have "k + length P \<le> length t" by (simp add: found_at_def)
    then show False using f k b q(3) [of "length t - length P - k"] found_at_rev [of "length t - length P - k" P t] by simp
  qed
  then show ?thesis using False b q found_at_rev [OF b] by (auto simp: last_at_def e)
qed

lemma findR_in_last:
  assumes "table_ok (rev P) T (length P)" "length t < 2 ^ 31" "length P < 2 ^ 31" "P \<noteq> []"
  shows "\<exists>r. utstring_findR_in (map Some t @ rest) (length t) P (mirror T) = Some r \<and> last_at t P r"
proof -
  obtain q where q: "find_loop (map Some (rev t)) (length t) (rev P) T 0 0 = Some q" "first_at (rev t) (rev P) q"
    using find_in_first [of "rev P" T "rev t" "[]"] assms by (auto simp: utstring_find_in_def)
  have "utstring_findR_in (map Some t @ rest) (length t) P (mirror T) =
      Some (if q = -1 then -1 else int (length t) - int (length P) - q)"
    using findR_mirror [OF q(1), of t rest] assms by (simp add: utstring_findR_in_def)
  with last_at_rev [OF q(2)] show ?thesis by blast
qed

end
