(* ===== verification/Utstring.thy ===== *)
theory Utstring
  imports Kmp Log
begin

text \<open>
  The growing string of \<^verbatim>\<open>src/uthash/utstring.h\<close>: reserving, appending bytes, other strings and formatted
  text, and the searches, which call the table and search functions of \<^verbatim>\<open>Kmp\<close>.

  \<^verbatim>\<open>alloc n\<close> tells whether the allocator has a block of \<open>n\<close> bytes; when it has not the macros
  leave the process with \<^verbatim>\<open>exit(-1)\<close>, which is \<^term>\<open>Inl (-1)\<close>. A read or write outside of the block, or
  through a pointer that was given back, is \<^term>\<open>None\<close>.
\<close>

subsection \<open>The string\<close>

datatype us_ptr = NullPtr | FreedPtr | Block cmem

record UT_string =
  us_d :: us_ptr
  us_n :: nat
  us_i :: nat

type_synonym us_res = "(int + UT_string) option"

definition realloc_block :: "cmem \<Rightarrow> nat \<Rightarrow> cmem" where
  "realloc_block d n = take n d @ replicate (n - length d) None"

definition utstring_reserve :: "(nat \<Rightarrow> bool) \<Rightarrow> UT_string \<Rightarrow> int \<Rightarrow> us_res" where
  "utstring_reserve alloc s amt =
     (if (int (us_n s) - int (us_i s)) mod 2 ^ 64 < amt mod 2 ^ 64
      then let n = nat ((int (us_n s) + amt) mod 2 ^ 64)
           in case us_d s of
                FreedPtr \<Rightarrow> None
              | NullPtr \<Rightarrow> Some (if alloc n then Inr (s\<lparr>us_d := Block (realloc_block [] n), us_n := n\<rparr>) else Inl (-1))
              | Block d \<Rightarrow> Some (if alloc n then Inr (s\<lparr>us_d := Block (realloc_block d n), us_n := n\<rparr>) else Inl (-1))
      else Some (Inr s))"

text \<open>Store the bytes \<open>b\<close> at \<open>off\<close>.\<close>

definition us_put :: "UT_string \<Rightarrow> nat \<Rightarrow> string \<Rightarrow> UT_string option" where
  "us_put s off b =
     (case us_d s of Block d \<Rightarrow> map_option (\<lambda>d'. s\<lparr>us_d := Block d'\<rparr>) (put_bytes d off b) | _ \<Rightarrow> None)"

definition us_bind :: "us_res \<Rightarrow> (UT_string \<Rightarrow> us_res) \<Rightarrow> us_res" where
  "us_bind r f = Option.bind r (\<lambda>x. case x of Inl c \<Rightarrow> Some (Inl c) | Inr s \<Rightarrow> f s)"

definition utstring_init :: "(nat \<Rightarrow> bool) \<Rightarrow> UT_string \<Rightarrow> us_res" where
  "utstring_init alloc s =
     us_bind (utstring_reserve alloc (s\<lparr>us_n := 0, us_i := 0, us_d := NullPtr\<rparr>) 100)
       (\<lambda>s. map_option Inr (us_put s 0 [NUL]))"

definition utstring_done :: "UT_string \<Rightarrow> UT_string option" where
  "utstring_done s =
     (case us_d s of FreedPtr \<Rightarrow> None | NullPtr \<Rightarrow> Some (s\<lparr>us_n := 0\<rparr>) | Block d \<Rightarrow> Some (s\<lparr>us_d := FreedPtr, us_n := 0\<rparr>))"

text \<open>\<open>cell\<close>: whether \<^verbatim>\<open>calloc\<close> has room for the record.\<close>

definition utstring_new :: "(nat \<Rightarrow> bool) \<Rightarrow> bool \<Rightarrow> us_res" where
  "utstring_new alloc cell =
     (if cell then utstring_init alloc \<lparr>us_d = NullPtr, us_n = 0, us_i = 0\<rparr> else Some (Inl (-1)))"

definition utstring_clear :: "UT_string \<Rightarrow> UT_string option" where
  "utstring_clear s = us_put (s\<lparr>us_i := 0\<rparr>) 0 [NUL]"

definition utstring_renew :: "(nat \<Rightarrow> bool) \<Rightarrow> bool \<Rightarrow> UT_string option \<Rightarrow> us_res" where
  "utstring_renew alloc cell s =
     (case s of Some s \<Rightarrow> map_option Inr (utstring_clear s) | None \<Rightarrow> utstring_new alloc cell)"

definition utstring_bincpy :: "(nat \<Rightarrow> bool) \<Rightarrow> UT_string \<Rightarrow> string \<Rightarrow> us_res" where
  "utstring_bincpy alloc s b =
     us_bind (utstring_reserve alloc s (int (length b) + 1)) (\<lambda>s1.
     Option.bind (if b = [] then Some s1 else us_put s1 (us_i s1) b) (\<lambda>s2.
     let s3 = s2\<lparr>us_i := us_i s2 + length b\<rparr> in map_option Inr (us_put s3 (us_i s3) [NUL])))"

text \<open>The bytes \<open>0 .. n - 1\<close> of a block; all of them have to have been written.\<close>

definition us_bytes :: "UT_string \<Rightarrow> nat \<Rightarrow> string option" where
  "us_bytes s n = (case us_d s of Block d \<Rightarrow> if n \<le> length d then those (take n d) else None | _ \<Rightarrow> if n = 0 then Some [] else None)"

text \<open>Two different strings.\<close>

definition utstring_concat :: "(nat \<Rightarrow> bool) \<Rightarrow> UT_string \<Rightarrow> UT_string \<Rightarrow> us_res" where
  "utstring_concat alloc dst src =
     us_bind (utstring_reserve alloc dst (int (us_i src) + 1)) (\<lambda>d1.
     Option.bind (if us_i src = 0 then Some d1 else Option.bind (us_bytes src (us_i src)) (us_put d1 (us_i d1))) (\<lambda>d2.
     let d3 = d2\<lparr>us_i := us_i d2 + us_i src\<rparr> in map_option Inr (us_put d3 (us_i d3) [NUL])))"

definition utstring_len :: "UT_string \<Rightarrow> nat" where
  "utstring_len s = us_i s mod 2 ^ 32"

definition utstring_body :: "UT_string \<Rightarrow> us_ptr" where
  "utstring_body s = us_d s"

subsection \<open>Formatted text\<close>

text \<open>\<^verbatim>\<open>vsnprintf(d + off, room, ...)\<close> where the text is \<open>txt\<close>: the return value and the block. A text that is too
  long for an \<^verbatim>\<open>int\<close> is an error.\<close>

definition vsnprintf_at :: "cmem \<Rightarrow> nat \<Rightarrow> nat \<Rightarrow> string \<Rightarrow> (int \<times> cmem) option" where
  "vsnprintf_at d off room txt =
     (if length txt > INT_MAX then Some (-1, d)
      else map_option (\<lambda>d'. (int (length txt), d')) (snprintf_at d off (int room) txt))"

partial_function (option) utstring_printf_va :: "(nat \<Rightarrow> bool) \<Rightarrow> UT_string \<Rightarrow> string \<Rightarrow> us_res" where
  "utstring_printf_va alloc s txt =
     (case us_d s of
        Block d \<Rightarrow> Option.bind (vsnprintf_at d (us_i s) (nat ((int (us_n s) - int (us_i s)) mod 2 ^ 64)) txt) (\<lambda>r.
          let n = fst r; s1 = s\<lparr>us_d := Block (snd r)\<rparr>
          in if n > -1 \<and> n < (int (us_n s) - int (us_i s)) mod 2 ^ 64 then Some (Inr (s1\<lparr>us_i := us_i s1 + nat n\<rparr>))
             else if n = int INT_MAX then None
             else Option.bind (utstring_reserve alloc s1 (if n > -1 then n + 1 else int (us_n s1) * 2 mod 2 ^ 64)) (\<lambda>x.
                    case x of Inl c \<Rightarrow> Some (Inl c) | Inr s2 \<Rightarrow> utstring_printf_va alloc s2 txt))
      | _ \<Rightarrow> None)"

subsection \<open>Searching\<close>

definition to_int64 :: "int \<Rightarrow> int" where
  "to_int64 x = (x + 2 ^ 63) mod 2 ^ 64 - 2 ^ 63"

text \<open>The memory from \<open>v\<close> on; in front of the block there is none.\<close>

definition us_from :: "UT_string \<Rightarrow> int \<Rightarrow> cmem" where
  "us_from s v = (case us_d s of Block d \<Rightarrow> if v < 0 then [] else drop (nat v) d | _ \<Rightarrow> [])"

definition us_start :: "UT_string \<Rightarrow> int \<Rightarrow> int" where
  "us_start s start = (if start < 0 then to_int64 (int (us_i s) + start) else start)"

text \<open>\<open>malloc k\<close>: a block of \<open>k\<close> numbers, whatever they are.\<close>

definition utstring_find :: "(nat \<Rightarrow> int list option) \<Rightarrow> UT_string \<Rightarrow> int \<Rightarrow> string \<Rightarrow> int option" where
  "utstring_find malloc s start P =
     (let v = us_start s start; h = nat (to_int64 (int (us_i s) - v) mod 2 ^ 64)
      in if h \<ge> length P \<and> length P > 0
         then (case malloc (length P + 1) of None \<Rightarrow> Some (-1)
           | Some T \<Rightarrow> Option.bind (utstring_BuildTable P T) (\<lambda>T1.
               map_option (\<lambda>r. if r \<ge> 0 then r + v else r) (utstring_find_in (us_from s v) h P T1)))
         else Some (-1))"

definition utstring_findR :: "(nat \<Rightarrow> int list option) \<Rightarrow> UT_string \<Rightarrow> int \<Rightarrow> string \<Rightarrow> int option" where
  "utstring_findR malloc s start P =
     (let v = us_start s start; h = nat (to_int64 (v + 1) mod 2 ^ 64)
      in if h \<ge> length P \<and> length P > 0
         then (case malloc (length P + 1) of None \<Rightarrow> Some (-1)
           | Some T \<Rightarrow> Option.bind (utstring_BuildTableR P T) (\<lambda>T1. utstring_findR_in (us_from s 0) h P T1))
         else Some (-1))"

subsection \<open>The string that the buffer holds\<close>

definition us_holds :: "UT_string \<Rightarrow> string \<Rightarrow> bool" where
  "us_holds s t \<longleftrightarrow> (\<exists>rest. us_d s = Block (map Some t @ Some NUL # rest) \<and> us_n s = length t + 1 + length rest) \<and>
     us_i s = length t \<and> us_n s < 2 ^ 64"

lemma us_holdsI:
  assumes "us_d s = Block (map Some t @ Some NUL # rest)" "us_n s = length t + 1 + length rest" "us_i s = length t" "us_n s < 2 ^ 64"
  shows "us_holds s t"
  using assms by (auto simp: us_holds_def)

lemma us_holds_len: "us_holds s t \<Longrightarrow> utstring_len s = length t mod 2 ^ 32"
  by (simp add: us_holds_def utstring_len_def)

lemma those_map_Some: "those (map Some t) = Some t"
  by (induction t) simp_all

lemma us_holds_bytes: "us_holds s t \<Longrightarrow> us_bytes s (us_i s) = Some t"
  by (auto simp: us_holds_def us_bytes_def those_map_Some)

lemma put_bytes_end: "length b \<le> length r \<Longrightarrow> put_bytes (map Some t @ r) (length t) b = Some (map Some (t @ b) @ drop (length b) r)"
  using put_bytes_at [of "map Some t" "length t" b r] by simp

text \<open>Room for \<open>k\<close> more bytes behind the text.\<close>

definition us_room :: "UT_string \<Rightarrow> string \<Rightarrow> nat \<Rightarrow> bool" where
  "us_room s t k \<longleftrightarrow> (\<exists>r. us_d s = Block (map Some t @ r) \<and> us_n s = length t + length r \<and> k \<le> length r) \<and>
     us_i s = length t \<and> us_n s < 2 ^ 64"

lemma reserve_room:
  assumes h: "us_room s t 0" and k: "us_n s + k < 2 ^ 64" and a: "alloc (us_n s + k)"
  shows "\<exists>s1. utstring_reserve alloc s (int k) = Some (Inr s1) \<and> us_room s1 t k"
proof -
  obtain r where s: "us_d s = Block (map Some t @ r)" "us_n s = length t + length r" "us_i s = length t"
    using h by (auto simp: us_room_def)
  have m: "(int (us_n s) - int (us_i s)) mod 2 ^ 64 = int (length r)" "int k mod 2 ^ 64 = int k"
    "nat ((int (us_n s) + int k) mod 2 ^ 64) = us_n s + k"
    using s(2,3) k by (simp_all add: nat_add_distrib)
  show ?thesis
  proof (cases "int (length r) < int k")
    case True
    let ?s = "s\<lparr>us_d := Block (map Some t @ r @ replicate k None), us_n := us_n s + k\<rparr>"
    have "realloc_block (map Some t @ r) (us_n s + k) = map Some t @ r @ replicate k None"
      using s(2) by (simp add: realloc_block_def)
    then have "utstring_reserve alloc s (int k) = Some (Inr ?s)"
      using True s(1) a by (simp only: utstring_reserve_def m) simp
    moreover have "us_room ?s t k" using s(2,3) k by (auto simp: us_room_def)
    ultimately show ?thesis by blast
  next
    case False
    then have "utstring_reserve alloc s (int k) = Some (Inr s)" by (simp only: utstring_reserve_def m) simp
    moreover have "us_room s t k" using False s h by (auto simp: us_room_def)
    ultimately show ?thesis by blast
  qed
qed

lemma us_holds_room: "us_holds s t \<Longrightarrow> us_room s t 0"
  by (auto simp: us_holds_def us_room_def)

lemma reserve_fails:
  assumes h: "us_holds s t" and k: "us_n s - us_i s < k" "us_n s + k < 2 ^ 64" and a: "\<not> alloc (us_n s + k)"
  shows "utstring_reserve alloc s (int k) = Some (Inl (-1))"
proof -
  have "us_i s \<le> us_n s" "us_n s < 2 ^ 64" using h by (auto simp: us_holds_def)
  then have m: "(int (us_n s) - int (us_i s)) mod 2 ^ 64 < int k mod 2 ^ 64" "nat ((int (us_n s) + int k) mod 2 ^ 64) = us_n s + k"
    using k by (simp_all add: nat_add_distrib)
  from h obtain d where "us_d s = Block d" by (auto simp: us_holds_def)
  with a show ?thesis unfolding utstring_reserve_def if_P [OF m(1)] m(2) Let_def by simp
qed

text \<open>What every append does in its room: the bytes, the new length, the terminator.\<close>

lemma room_append:
  assumes "us_room s t (length b + 1)"
  shows "\<exists>s1 s2. (if b = [] then Some s else us_put s (us_i s) b) = Some s1 \<and>
    us_put (s1\<lparr>us_i := us_i s1 + length b\<rparr>) (us_i s1 + length b) [NUL] = Some s2 \<and> us_holds s2 (t @ b)"
proof -
  obtain r where r: "us_d s = Block (map Some t @ r)" "us_n s = length t + length r" "length b + 1 \<le> length r"
      "us_i s = length t" "us_n s < 2 ^ 64"
    using assms by (auto simp: us_room_def)
  let ?s1 = "s\<lparr>us_d := Block (map Some (t @ b) @ drop (length b) r)\<rparr>"
  have 1: "(if b = [] then Some s else us_put s (us_i s) b) = Some ?s1"
    using r put_bytes_end [of b r t] by (auto simp: us_put_def)
  have "put_bytes (map Some (t @ b) @ drop (length b) r) (length (t @ b)) [NUL] =
      Some (map Some ((t @ b) @ [NUL]) @ drop (length [NUL]) (drop (length b) r))"
    using r(3) by (intro put_bytes_end) simp
  then have 2: "us_put (?s1\<lparr>us_i := us_i ?s1 + length b\<rparr>) (us_i ?s1 + length b) [NUL] =
      Some (?s1\<lparr>us_i := us_i s + length b, us_d := Block (map Some (t @ b) @ Some NUL # drop (Suc (length b)) r)\<rparr>)"
    using r(4) by (simp add: us_put_def add.commute)
  have "us_holds (?s1\<lparr>us_i := us_i s + length b, us_d := Block (map Some (t @ b) @ Some NUL # drop (Suc (length b)) r)\<rparr>) (t @ b)"
    by (rule us_holdsI [where rest = "drop (Suc (length b)) r"]) (use r in auto)
  with 1 2 show ?thesis by blast
qed

lemma bincpy_holds:
  assumes "us_holds s t" "us_n s + length b + 1 < 2 ^ 64" "alloc (us_n s + length b + 1)"
  shows "\<exists>s'. utstring_bincpy alloc s b = Some (Inr s') \<and> us_holds s' (t @ b)"
proof -
  obtain s1 where s1: "utstring_reserve alloc s (int (length b + 1)) = Some (Inr s1)" "us_room s1 t (length b + 1)"
    using reserve_room [OF us_holds_room [OF assms(1)], of "length b + 1" alloc] assms by auto
  from room_append [OF s1(2)] obtain s2 s3 where
    "(if b = [] then Some s1 else us_put s1 (us_i s1) b) = Some s2"
    "us_put (s2\<lparr>us_i := us_i s2 + length b\<rparr>) (us_i s2 + length b) [NUL] = Some s3" "us_holds s3 (t @ b)" by blast
  with s1(1) show ?thesis by (simp add: utstring_bincpy_def us_bind_def Let_def add.commute)
qed

lemma concat_holds:
  assumes "us_holds s t" "us_holds src b" "us_n s + length b + 1 < 2 ^ 64" "alloc (us_n s + length b + 1)"
  shows "\<exists>s'. utstring_concat alloc s src = Some (Inr s') \<and> us_holds s' (t @ b)"
proof -
  have b: "us_i src = length b" using assms(2) by (auto simp: us_holds_def)
  obtain s1 where s1: "utstring_reserve alloc s (int (length b + 1)) = Some (Inr s1)" "us_room s1 t (length b + 1)"
    using reserve_room [OF us_holds_room [OF assms(1)], of "length b + 1" alloc] assms by auto
  from room_append [OF s1(2)] obtain s2 s3 where
    "(if b = [] then Some s1 else us_put s1 (us_i s1) b) = Some s2"
    "us_put (s2\<lparr>us_i := us_i s2 + length b\<rparr>) (us_i s2 + length b) [NUL] = Some s3" "us_holds s3 (t @ b)" by blast
  with s1(1) us_holds_bytes [OF assms(2)] show ?thesis
    by (cases "b = []") (simp_all add: utstring_concat_def us_bind_def Let_def b add.commute)
qed

lemma printf_fits:
  assumes r: "us_room s t (length txt + 1)" and l: "length txt < INT_MAX"
  shows "\<exists>s'. utstring_printf_va alloc s txt = Some (Inr s') \<and> us_holds s' (t @ txt)"
proof -
  obtain r where s: "us_d s = Block (map Some t @ r)" "us_n s = length t + length r" "length txt + 1 \<le> length r"
      "us_i s = length t" "us_n s < 2 ^ 64"
    using r by (auto simp: us_room_def)
  have m: "(int (us_n s) - int (us_i s)) mod 2 ^ 64 = int (length r)" using s(2,4,5) by simp
  have "take (nat (int (length r)) - 1) txt @ [NUL] = txt @ [NUL]" using s(3) by simp
  then have p: "vsnprintf_at (map Some t @ r) (length t) (length r) txt =
      Some (int (length txt), map Some t @ map Some txt @ Some NUL # drop (Suc (length txt)) r)"
    using l s(3) put_bytes_end [of "txt @ [NUL]" r t] by (auto simp: vsnprintf_at_def snprintf_at_def)
  have "utstring_printf_va alloc s txt =
      Some (Inr (s\<lparr>us_d := Block (map Some t @ map Some txt @ Some NUL # drop (Suc (length txt)) r), us_i := length t + length txt\<rparr>))"
    unfolding utstring_printf_va.simps [of alloc s] m using s p by simp
  moreover have "us_holds (s\<lparr>us_d := Block (map Some t @ map Some txt @ Some NUL # drop (Suc (length txt)) r), us_i := length t + length txt\<rparr>) (t @ txt)"
    by (rule us_holdsI [where rest = "drop (Suc (length txt)) r"]) (use s in auto)
  ultimately show ?thesis by blast
qed

text \<open>The first attempt may only fit in part; the second one has the room.\<close>

lemma printf_holds:
  assumes h: "us_holds s t" and l: "length txt < INT_MAX" "us_n s + length txt + 1 < 2 ^ 64" and a: "alloc (us_n s + length txt + 1)"
  shows "\<exists>s'. utstring_printf_va alloc s txt = Some (Inr s') \<and> us_holds s' (t @ txt)"
proof -
  obtain rest where s: "us_d s = Block (map Some t @ Some NUL # rest)" "us_n s = length t + 1 + length rest" "us_i s = length t"
    using h by (auto simp: us_holds_def)
  show ?thesis
  proof (cases "length txt \<le> length rest")
    case True
    then have "us_room s t (length txt + 1)" using s l(2) by (auto simp: us_room_def)
    then show ?thesis using l(1) by (rule printf_fits)
  next
    case False
    let ?w = "take (length rest) txt"
    have m: "(int (us_n s) - int (us_i s)) mod 2 ^ 64 = int (Suc (length rest))" using s(2,3) l(2) by simp
    have w: "length ?w = length rest" "nat (1 + int (length rest)) = Suc (length rest)" using False by simp_all
    then have p: "vsnprintf_at (map Some t @ Some NUL # rest) (length t) (Suc (length rest)) txt =
        Some (int (length txt), map Some t @ map Some (?w @ [NUL]))"
      using l(1) put_bytes_end [of "?w @ [NUL]" "Some NUL # rest" t] by (simp add: vsnprintf_at_def snprintf_at_def w(2))
    let ?s = "s\<lparr>us_d := Block (map Some t @ map Some (?w @ [NUL]))\<rparr>"
    have "us_room ?s t 0" using s l(2) w by (auto simp: us_room_def)
    then obtain s1 where s1: "utstring_reserve alloc ?s (int (length txt + 1)) = Some (Inr s1)" "us_room s1 t (length txt + 1)"
      using reserve_room [of ?s t "length txt + 1" alloc] l(2) a by auto
    obtain s' where s': "utstring_printf_va alloc s1 txt = Some (Inr s')" "us_holds s' (t @ txt)"
      using printf_fits [OF s1(2) l(1)] by blast
    have "utstring_printf_va alloc s txt = utstring_printf_va alloc s1 txt"
      unfolding utstring_printf_va.simps [of alloc s] m using s p s1(1) l(1) False by (simp add: add.commute w(2))
    with s' show ?thesis by simp
  qed
qed

lemma clear_holds: "us_holds s t \<Longrightarrow> \<exists>s'. utstring_clear s = Some s' \<and> us_holds s' [] \<and> us_n s' = us_n s"
proof -
  assume h: "us_holds s t"
  then obtain rest where s: "us_d s = Block (map Some t @ Some NUL # rest)" "us_n s = length t + 1 + length rest"
    by (auto simp: us_holds_def)
  let ?d = "map Some t @ Some NUL # rest"
  have "utstring_clear s = Some (s\<lparr>us_i := 0, us_d := Block (Some NUL # drop 1 ?d)\<rparr>)"
    using s by (simp add: utstring_clear_def us_put_def put_bytes_def)
  moreover have "us_holds (s\<lparr>us_i := 0, us_d := Block (Some NUL # drop 1 ?d)\<rparr>) []"
    by (rule us_holdsI [where rest = "drop 1 ?d"]) (use s h in \<open>auto simp: us_holds_def\<close>)
  ultimately show ?thesis by auto
qed

lemma init_holds: "alloc 100 \<Longrightarrow> \<exists>s'. utstring_init alloc s = Some (Inr s') \<and> us_holds s' [] \<and> us_n s' = 100"
proof -
  assume a: "alloc 100"
  let ?s = "s\<lparr>us_n := 100, us_i := 0, us_d := Block (Some NUL # replicate 99 None)\<rparr>"
  have "realloc_block [] 100 = replicate 100 None" by (simp add: realloc_block_def)
  moreover have "put_bytes (replicate 100 None) 0 [NUL] = Some (Some NUL # replicate 99 None)" by (simp add: put_bytes_def)
  ultimately have "utstring_init alloc s = Some (Inr ?s)"
    using a by (simp add: utstring_init_def utstring_reserve_def us_bind_def us_put_def)
  moreover have "us_holds ?s []" by (rule us_holdsI [where rest = "replicate 99 None"]) simp_all
  ultimately show ?thesis by auto
qed

subsection \<open>The searches find what they are asked for\<close>

lemma to_int64_id: "- (2 ^ 63) \<le> x \<Longrightarrow> x < 2 ^ 63 \<Longrightarrow> to_int64 x = x"
  by (simp add: to_int64_def)

lemma found_at_drop: "v \<le> length t \<Longrightarrow> found_at (drop v t) P q \<longleftrightarrow> found_at t P (v + q)"
  by (auto simp: found_at_def add.commute)

text \<open>The first occurrence from \<open>v\<close> on, and the last one that ends at or in front of \<open>v\<close>.\<close>

definition first_from :: "string \<Rightarrow> string \<Rightarrow> nat \<Rightarrow> int \<Rightarrow> bool" where
  "first_from t P v r \<longleftrightarrow> (if r = -1 then \<forall>q \<ge> v. \<not> found_at t P q
     else int v \<le> r \<and> found_at t P (nat r) \<and> (\<forall>q. v \<le> q \<and> q < nat r \<longrightarrow> \<not> found_at t P q))"

lemma first_from_drop:
  assumes "v \<le> length t" "first_at (drop v t) P r"
  shows "first_from t P v (if r \<ge> 0 then r + int v else r)"
proof (cases "r = -1")
  case True
  have "\<not> found_at t P q" if "v \<le> q" for q
    using assms True found_at_drop [OF assms(1), of P "q - v"] that by (simp add: first_at_def)
  with True show ?thesis by (simp add: first_from_def)
next
  case False
  then have r: "0 \<le> r" "found_at t P (v + nat r)" "\<And>q. q < nat r \<Longrightarrow> \<not> found_at t P (v + q)"
    using assms found_at_drop [OF assms(1)] by (simp_all add: first_at_def)
  have "\<not> found_at t P q" if "v \<le> q" "q < v + nat r" for q
    using r(3) [of "q - v"] that by simp
  moreover have "nat (r + int v) = v + nat r" using r(1) by (simp add: nat_add_distrib)
  ultimately show ?thesis using r by (simp add: first_from_def)
qed

lemma find_first_from:
  assumes h: "us_holds s t" and v: "v = us_start s start" "0 \<le> v" "v \<le> int (length t)"
    and l: "length t < 2 ^ 31" "length P < 2 ^ 31" "P \<noteq> []" and m: "malloc (length P + 1) = Some T" "length T = length P + 1"
  shows "\<exists>r. utstring_find malloc s start P = Some r \<and> first_from t P (nat v) r"
proof -
  obtain rest where s: "us_d s = Block (map Some t @ Some NUL # rest)" "us_i s = length t" using h by (auto simp: us_holds_def)
  let ?u = "drop (nat v) t"
  have f: "us_from s v = map Some ?u @ Some NUL # rest" using s v by (simp add: us_from_def drop_map)
  have k: "nat (to_int64 (int (us_i s) - v) mod 2 ^ 64) = length ?u"
  proof -
    have "to_int64 (int (length t) - v) = int (length t) - v" using v l(1) by (intro to_int64_id) auto
    moreover have "(int (length t) - v) mod 2 ^ 64 = int (length t) - v" using v l(1) by (intro mod_pos_pos_trivial) auto
    ultimately show ?thesis using v s(2) by (simp add: nat_diff_distrib)
  qed
  obtain T1 where T1: "utstring_BuildTable P T = Some T1" "table_ok P T1 (length P)" using BuildTable_ok [OF m(2)] by blast
  have ul: "length ?u < 2 ^ 31" using l(1) by simp
  show ?thesis
  proof (cases "length P \<le> length ?u")
    case True
    obtain r where r: "utstring_find_in (map Some ?u @ Some NUL # rest) (length ?u) P T1 = Some r" "first_at ?u P r"
      using find_in_first [OF T1(2) ul l(2,3)] by blast
    then have "utstring_find malloc s start P = Some (if r \<ge> 0 then r + v else r)"
      using True l(3) m(1) T1(1) unfolding utstring_find_def v(1) [symmetric] Let_def k f by simp
    moreover have "first_from t P (nat v) (if r \<ge> 0 then r + v else r)"
    proof -
      have "nat v \<le> length t" "int (nat v) = v" using v(2,3) by linarith+
      with first_from_drop [OF _ r(2)] show ?thesis by metis
    qed
    ultimately show ?thesis by blast
  next
    case False
    then have "utstring_find malloc s start P = Some (-1)" unfolding utstring_find_def v(1) [symmetric] Let_def k by simp
    moreover have "first_from t P (nat v) (-1)" using False v(2,3) by (auto simp: first_from_def found_at_def)
    ultimately show ?thesis by blast
  qed
qed

lemma find_without_memory: "malloc (length P + 1) = None \<Longrightarrow> utstring_find malloc s start P = Some (-1)"
  by (simp add: utstring_find_def Let_def)

definition last_to :: "string \<Rightarrow> string \<Rightarrow> nat \<Rightarrow> int \<Rightarrow> bool" where
  "last_to t P n r \<longleftrightarrow> last_at (take n t) P r"

lemma findR_last_to:
  assumes h: "us_holds s t" and v: "v = us_start s start" "0 \<le> v" "v < int (length t)"
    and l: "length t < 2 ^ 31" "length P < 2 ^ 31" "P \<noteq> []" and m: "malloc (length P + 1) = Some T" "length T = length P + 1"
  shows "\<exists>r. utstring_findR malloc s start P = Some r \<and> last_to t P (nat (v + 1)) r"
proof -
  obtain rest where s: "us_d s = Block (map Some t @ Some NUL # rest)" "us_i s = length t" using h by (auto simp: us_holds_def)
  let ?u = "take (nat (v + 1)) t"
  have f: "us_from s 0 = map Some ?u @ map Some (drop (nat (v + 1)) t) @ Some NUL # rest"
    using s by (simp add: us_from_def flip: map_append append_assoc)
  have k: "nat (to_int64 (v + 1) mod 2 ^ 64) = length ?u"
  proof -
    have "to_int64 (v + 1) = v + 1" using v l(1) by (intro to_int64_id) auto
    moreover have "(v + 1) mod 2 ^ 64 = v + 1" using v l(1) by (intro mod_pos_pos_trivial) auto
    moreover have "nat (v + 1) \<le> length t" using v(3) by linarith
    ultimately show ?thesis by (simp only: length_take min_def if_False) simp
  qed
  obtain T1 where T1: "utstring_BuildTableR P T = Some (mirror T1)" "table_ok (rev P) T1 (length P)" using BuildTableR_ok [OF m(2)] by blast
  have ul: "length ?u < 2 ^ 31" using l(1) by simp
  show ?thesis
  proof (cases "length P \<le> length ?u")
    case True
    obtain r where r: "utstring_findR_in (map Some ?u @ map Some (drop (nat (v + 1)) t) @ Some NUL # rest) (length ?u) P (mirror T1) = Some r"
        "last_at ?u P r"
      using findR_in_last [OF T1(2) ul l(2,3)] by blast
    then have "utstring_findR malloc s start P = Some r"
      using True l(3) m(1) T1(1) unfolding utstring_findR_def v(1) [symmetric] Let_def k f by simp
    with r(2) show ?thesis by (auto simp: last_to_def)
  next
    case False
    then have n: "\<not> (length ?u \<ge> length P \<and> length P > 0)" by blast
    then have "utstring_findR malloc s start P = Some (-1)"
      unfolding utstring_findR_def v(1) [symmetric] Let_def k if_not_P [OF n] by simp
    moreover have "last_to t P (nat (v + 1)) (-1)" using False by (auto simp: last_to_def last_at_def found_at_def)
    ultimately show ?thesis by blast
  qed
qed

text \<open>A start further back than the beginning: the search reads in front of the block.\<close>

lemma find_before_start:
  assumes h: "us_holds s t" and st: "start < - int (length t)" "- (2 ^ 31) < start" and l: "length t < 2 ^ 31" "length P \<le> length t" "P \<noteq> []"
    and m: "malloc (length P + 1) = Some T" "length T = length P + 1"
  shows "utstring_find malloc s start P = None"
proof -
  obtain rest where s: "us_d s = Block (map Some t @ Some NUL # rest)" "us_i s = length t" using h by (auto simp: us_holds_def)
  have v: "us_start s start = int (length t) + start"
    using st l(1) s(2) unfolding us_start_def by (subst to_int64_id) auto
  have k: "nat (to_int64 (int (us_i s) - (int (length t) + start)) mod 2 ^ 64) = nat (- start)"
  proof -
    have "to_int64 (- start) = - start" using st l(1) by (intro to_int64_id) auto
    moreover have "(- start) mod 2 ^ 64 = - start" using st l(1) by (intro mod_pos_pos_trivial) auto
    ultimately show ?thesis using s(2) by simp
  qed
  obtain T1 where T1: "utstring_BuildTable P T = Some T1" using BuildTable_ok [OF m(2)] by blast
  have "us_from s (int (length t) + start) = []" using s(1) st(1) by (simp add: us_from_def)
  moreover have "utstring_find_in [] (nat (- start)) P T1 = None"
  proof -
    have "(0::int) < to_int32 (int (nat (- start))) \<and> (int (nat (- start)) - 0 + 0) mod 2 ^ 64 \<ge> int (length P)"
      using st l(2) by simp
    then show ?thesis unfolding utstring_find_in_def find_loop.simps [of "[]" _ _ _ 0 0] by (simp add: mem_get_def)
  qed
  moreover have "length P \<le> nat (- start)" using l(2) st(1) by linarith
  ultimately show ?thesis
    using l(3) m(1) T1 unfolding utstring_find_def v Let_def k by simp
qed

end
