(* ===== verification/Utlist.thy ===== *)
theory Utlist
  imports Prelude
begin

text \<open>
  The linked-list macros of \<^verbatim>\<open>src/uthash/utlist.h\<close>: singly linked, doubly linked and circular lists.

  A node is a number, a pointer a number or \<^verbatim>\<open>NULL\<close> (\<^term>\<open>None\<close>); the two links of every node are the
  state. Following \<^verbatim>\<open>NULL\<close> is \<^term>\<open>None\<close>; so is a loop that does not end, and so is a failing \<^verbatim>\<open>assert\<close>.
  The macros take the names of the link fields; here they are \<^verbatim>\<open>next\<close> and \<^verbatim>\<open>prev\<close>.
\<close>

subsection \<open>Links\<close>

type_synonym uptr = "nat option"

record ul_heap =
  ul_next :: "nat \<Rightarrow> uptr"
  ul_prev :: "nat \<Rightarrow> uptr"

definition set_next :: "nat \<Rightarrow> uptr \<Rightarrow> ul_heap \<Rightarrow> ul_heap" where
  "set_next x v h = h\<lparr>ul_next := (ul_next h)(x := v)\<rparr>"

definition set_prev :: "nat \<Rightarrow> uptr \<Rightarrow> ul_heap \<Rightarrow> ul_heap" where
  "set_prev x v h = h\<lparr>ul_prev := (ul_prev h)(x := v)\<rparr>"

text \<open>Through a pointer.\<close>

definition get_next :: "ul_heap \<Rightarrow> uptr \<Rightarrow> uptr option" where
  "get_next h p = map_option (ul_next h) p"

definition get_prev :: "ul_heap \<Rightarrow> uptr \<Rightarrow> uptr option" where
  "get_prev h p = map_option (ul_prev h) p"

definition put_next :: "uptr \<Rightarrow> uptr \<Rightarrow> ul_heap \<Rightarrow> ul_heap option" where
  "put_next p v h = map_option (\<lambda>x. set_next x v h) p"

definition put_prev :: "uptr \<Rightarrow> uptr \<Rightarrow> ul_heap \<Rightarrow> ul_heap option" where
  "put_prev p v h = map_option (\<lambda>x. set_prev x v h) p"

text \<open>The heap and the head that the macro was given.\<close>

type_synonym ul_list = "ul_heap \<times> uptr"

subsection \<open>Singly linked lists\<close>

definition LL_PREPEND :: "ul_list \<Rightarrow> nat \<Rightarrow> ul_list" where
  "LL_PREPEND l add = (set_next add (snd l) (fst l), Some add)"

text \<open>\<^verbatim>\<open>while (_tmp->next) _tmp = _tmp->next\<close>, and the same up to the node in front of \<open>del\<close>.\<close>

partial_function (option) ll_last :: "ul_heap \<Rightarrow> nat \<Rightarrow> nat option" where
  "ll_last h tmp = (case ul_next h tmp of None \<Rightarrow> Some tmp | Some x \<Rightarrow> ll_last h x)"

partial_function (option) ll_before :: "ul_heap \<Rightarrow> nat \<Rightarrow> nat \<Rightarrow> nat option" where
  "ll_before h del tmp =
     (case ul_next h tmp of None \<Rightarrow> Some tmp | Some x \<Rightarrow> if x \<noteq> del then ll_before h del x else Some tmp)"

definition LL_CONCAT :: "ul_list \<Rightarrow> uptr \<Rightarrow> ul_list option" where
  "LL_CONCAT l head2 =
     (case snd l of
        Some x \<Rightarrow> map_option (\<lambda>t. (set_next t head2 (fst l), snd l)) (ll_last (fst l) x)
      | None \<Rightarrow> Some (fst l, head2))"

definition LL_APPEND :: "ul_list \<Rightarrow> nat \<Rightarrow> ul_list option" where
  "LL_APPEND l add =
     (let h = set_next add None (fst l)
      in case snd l of
           Some x \<Rightarrow> map_option (\<lambda>t. (set_next t (Some add) h, snd l)) (ll_last h x)
         | None \<Rightarrow> Some (h, Some add))"

definition LL_DELETE :: "ul_list \<Rightarrow> nat \<Rightarrow> ul_list option" where
  "LL_DELETE l del =
     (if snd l = Some del then Some (fst l, ul_next (fst l) del)
      else Option.bind (snd l) (\<lambda>x. Option.bind (ll_before (fst l) del x) (\<lambda>t.
             Some (if ul_next (fst l) t \<noteq> None then (set_next t (ul_next (fst l) del) (fst l), snd l) else l))))"

text \<open>The variants for compilers without \<^verbatim>\<open>typeof\<close>: the link of the new node, or the head itself, is the
  loop variable.\<close>

partial_function (option) append_walk :: "nat \<Rightarrow> ul_heap \<Rightarrow> ul_heap option" where
  "append_walk add h =
     Option.bind (get_next h (ul_next h add)) (\<lambda>nn. if nn \<noteq> None then append_walk add (set_next add nn h) else Some h)"

definition LL_APPEND_VS2008 :: "ul_list \<Rightarrow> nat \<Rightarrow> ul_list option" where
  "LL_APPEND_VS2008 l add =
     (case snd l of
        Some x \<Rightarrow> Option.bind (append_walk add (set_next add (Some x) (fst l))) (\<lambda>h.
                  Option.bind (put_next (ul_next h add) (Some add) h) (\<lambda>h1. Some (set_next add None h1, snd l)))
      | None \<Rightarrow> Some (set_next add None (fst l), Some add))"

definition LL_DELETE_VS2008 :: "ul_list \<Rightarrow> nat \<Rightarrow> ul_list option" where
  "LL_DELETE_VS2008 l del =
     (if snd l = Some del then Some (fst l, ul_next (fst l) del)
      else let tmp = snd l in Option.bind (snd l) (\<lambda>x. Option.bind (ll_before (fst l) del x) (\<lambda>head.
             Some (if ul_next (fst l) head \<noteq> None then (set_next head (ul_next (fst l) del) (fst l), tmp) else (fst l, tmp)))))"

partial_function (option) ll_count :: "ul_heap \<Rightarrow> uptr \<Rightarrow> nat \<Rightarrow> nat option" where
  "ll_count h el counter = (case el of None \<Rightarrow> Some counter | Some x \<Rightarrow> ll_count h (ul_next h x) (Suc counter))"

definition LL_COUNT :: "ul_list \<Rightarrow> nat option" where
  "LL_COUNT l = ll_count (fst l) (snd l) 0"

definition DL_COUNT :: "ul_list \<Rightarrow> nat option" where
  "DL_COUNT l = ll_count (fst l) (snd l) 0"

text \<open>The first node that fits, or \<^verbatim>\<open>NULL\<close>: \<^verbatim>\<open>LL_SEARCH_SCALAR\<close> with a field, \<^verbatim>\<open>LL_SEARCH\<close> with a comparison.\<close>

partial_function (option) ll_find :: "ul_heap \<Rightarrow> (nat \<Rightarrow> bool) \<Rightarrow> uptr \<Rightarrow> uptr option" where
  "ll_find h ok el = (case el of None \<Rightarrow> Some None | Some x \<Rightarrow> if ok x then Some el else ll_find h ok (ul_next h x))"

definition LL_SEARCH_SCALAR :: "ul_list \<Rightarrow> (nat \<Rightarrow> 'v) \<Rightarrow> 'v \<Rightarrow> uptr option" where
  "LL_SEARCH_SCALAR l field v = ll_find (fst l) (\<lambda>x. field x = v) (snd l)"

definition LL_SEARCH :: "ul_list \<Rightarrow> 'e \<Rightarrow> (nat \<Rightarrow> 'e \<Rightarrow> int) \<Rightarrow> uptr option" where
  "LL_SEARCH l elt cmp = ll_find (fst l) (\<lambda>x. cmp x elt = 0) (snd l)"

definition LL_REPLACE_ELEM :: "ul_list \<Rightarrow> nat \<Rightarrow> nat \<Rightarrow> ul_list option" where
  "LL_REPLACE_ELEM l el add =
     Option.bind (snd l) (\<lambda>x. let h = set_next add (ul_next (fst l) el) (fst l)
       in if snd l = Some el then Some (h, Some add)
          else Option.bind (ll_before h el x) (\<lambda>t.
                 Some (if ul_next h t \<noteq> None then set_next t (Some add) h else h, snd l)))"

definition LL_PREPEND_ELEM :: "ul_list \<Rightarrow> nat \<Rightarrow> nat \<Rightarrow> ul_list option" where
  "LL_PREPEND_ELEM l el add =
     Option.bind (snd l) (\<lambda>x. let h = set_next add (Some el) (fst l)
       in if snd l = Some el then Some (h, Some add)
          else Option.bind (ll_before h el x) (\<lambda>t.
                 Some (if ul_next h t \<noteq> None then set_next t (Some add) h else h, snd l)))"

subsection \<open>Doubly linked lists: the head's \<^verbatim>\<open>prev\<close> is the last node\<close>

definition DL_PREPEND :: "ul_list \<Rightarrow> nat \<Rightarrow> ul_list" where
  "DL_PREPEND l add =
     (let h = set_next add (snd l) (fst l)
      in case snd l of
           Some x \<Rightarrow> (set_prev x (Some add) (set_prev add (ul_prev h x) h), Some add)
         | None \<Rightarrow> (set_prev add (Some add) h, Some add))"

definition DL_APPEND :: "ul_list \<Rightarrow> nat \<Rightarrow> ul_list option" where
  "DL_APPEND l add =
     (case snd l of
        Some x \<Rightarrow> (let h1 = set_prev add (ul_prev (fst l) x) (fst l)
                   in Option.bind (put_next (ul_prev h1 x) (Some add) h1) (\<lambda>h2.
                        Some (set_next add None (set_prev x (Some add) h2), snd l)))
      | None \<Rightarrow> Some (set_next add None (set_prev add (Some add) (fst l)), Some add))"

definition DL_CONCAT :: "ul_list \<Rightarrow> uptr \<Rightarrow> ul_list option" where
  "DL_CONCAT l head2 =
     (case head2 of
        Some y \<Rightarrow>
          (case snd l of
             Some x \<Rightarrow> (let tmp = ul_prev (fst l) y; h1 = set_prev y (ul_prev (fst l) x) (fst l)
                        in map_option (\<lambda>h2. (set_prev x tmp h2, snd l)) (put_next (ul_prev h1 x) head2 h1))
           | None \<Rightarrow> Some (fst l, head2))
      | None \<Rightarrow> Some l)"

definition DL_DELETE :: "ul_list \<Rightarrow> nat \<Rightarrow> ul_list option" where
  "DL_DELETE l del =
     (let h = fst l
      in if ul_prev h del = None then None
         else if ul_prev h del = Some del then Some (h, None)
         else if snd l = Some del
           then map_option (\<lambda>h1. (h1, ul_next h1 del)) (put_prev (ul_next h del) (ul_prev h del) h)
         else Option.bind (put_next (ul_prev h del) (ul_next h del) h) (\<lambda>h1.
              map_option (\<lambda>h2. (h2, snd l))
                (if ul_next h1 del \<noteq> None then put_prev (ul_next h1 del) (ul_prev h1 del) h1
                 else put_prev (snd l) (ul_prev h1 del) h1)))"

definition DL_REPLACE_ELEM :: "ul_list \<Rightarrow> nat \<Rightarrow> nat \<Rightarrow> ul_list option" where
  "DL_REPLACE_ELEM l el add =
     Option.bind (snd l) (\<lambda>x. let h = set_next add (ul_next (fst l) el) (fst l)
       in if snd l = Some el
          then (if ul_next h el = None then Some (set_prev add (Some add) h, Some add)
                else let h1 = set_prev add (ul_prev h el) h
                     in map_option (\<lambda>h2. (h2, Some add)) (put_prev (ul_next h1 add) (Some add) h1))
          else let h1 = set_prev add (ul_prev h el) h
               in Option.bind (put_next (ul_prev h1 add) (Some add) h1) (\<lambda>h2.
                    map_option (\<lambda>h3. (h3, snd l))
                      (if ul_next h2 el = None then Some (set_prev x (Some add) h2)
                       else put_prev (ul_next h2 add) (Some add) h2)))"

definition DL_PREPEND_ELEM :: "ul_list \<Rightarrow> nat \<Rightarrow> nat \<Rightarrow> ul_list option" where
  "DL_PREPEND_ELEM l el add =
     Option.bind (snd l) (\<lambda>x.
       let h1 = set_next add (Some el) (fst l); h2 = set_prev add (ul_prev h1 el) h1; h3 = set_prev el (Some add) h2
       in if snd l = Some el then Some (h3, Some add)
          else map_option (\<lambda>h4. (h4, snd l)) (put_next (ul_prev h3 add) (Some add) h3))"

subsection \<open>Circular lists\<close>

definition CDL_PREPEND :: "ul_list \<Rightarrow> nat \<Rightarrow> ul_list option" where
  "CDL_PREPEND l add =
     (case snd l of
        Some x \<Rightarrow> (let h1 = set_prev add (ul_prev (fst l) x) (fst l); h2 = set_next add (Some x) h1; h3 = set_prev x (Some add) h2
                   in map_option (\<lambda>h4. (h4, Some add)) (put_next (ul_prev h3 add) (Some add) h3))
      | None \<Rightarrow> Some (set_next add (Some add) (set_prev add (Some add) (fst l)), Some add))"

definition CDL_DELETE :: "ul_list \<Rightarrow> nat \<Rightarrow> ul_list option" where
  "CDL_DELETE l del =
     (let h = fst l
      in if snd l = Some del \<and> ul_next h del = Some del then Some (h, None)
         else Option.bind (put_prev (ul_next h del) (ul_prev h del) h) (\<lambda>h1.
              map_option (\<lambda>h2. (h2, if snd l = Some del then ul_next h2 del else snd l))
                (put_next (ul_prev h1 del) (ul_next h1 del) h1)))"

text \<open>\<^verbatim>\<open>CDL_FOREACH\<close> ends when the next node is the head.\<close>

definition cdl_next :: "ul_list \<Rightarrow> nat \<Rightarrow> uptr" where
  "cdl_next l x = (if ul_next (fst l) x = snd l then None else ul_next (fst l) x)"

partial_function (option) cdl_count :: "ul_list \<Rightarrow> uptr \<Rightarrow> nat \<Rightarrow> nat option" where
  "cdl_count l el counter = (case el of None \<Rightarrow> Some counter | Some x \<Rightarrow> cdl_count l (cdl_next l x) (Suc counter))"

definition CDL_COUNT :: "ul_list \<Rightarrow> nat option" where
  "CDL_COUNT l = cdl_count l (snd l) 0"

partial_function (option) cdl_find :: "ul_list \<Rightarrow> (nat \<Rightarrow> bool) \<Rightarrow> uptr \<Rightarrow> uptr option" where
  "cdl_find l ok el = (case el of None \<Rightarrow> Some None | Some x \<Rightarrow> if ok x then Some el else cdl_find l ok (cdl_next l x))"

definition CDL_SEARCH_SCALAR :: "ul_list \<Rightarrow> (nat \<Rightarrow> 'v) \<Rightarrow> 'v \<Rightarrow> uptr option" where
  "CDL_SEARCH_SCALAR l field v = cdl_find l (\<lambda>x. field x = v) (snd l)"

definition CDL_SEARCH :: "ul_list \<Rightarrow> 'e \<Rightarrow> (nat \<Rightarrow> 'e \<Rightarrow> int) \<Rightarrow> uptr option" where
  "CDL_SEARCH l elt cmp = cdl_find l (\<lambda>x. cmp x elt = 0) (snd l)"

definition CDL_REPLACE_ELEM :: "ul_list \<Rightarrow> nat \<Rightarrow> nat \<Rightarrow> ul_list option" where
  "CDL_REPLACE_ELEM l el add =
     Option.bind (snd l) (\<lambda>x.
       if ul_next (fst l) el = Some el then Some (set_prev add (Some add) (set_next add (Some add) (fst l)), Some add)
       else let h1 = set_next add (ul_next (fst l) el) (fst l); h2 = set_prev add (ul_prev h1 el) h1
            in Option.bind (put_prev (ul_next h2 add) (Some add) h2) (\<lambda>h3.
                 map_option (\<lambda>h4. (h4, if snd l = Some el then Some add else snd l)) (put_next (ul_prev h3 add) (Some add) h3)))"

definition CDL_PREPEND_ELEM :: "ul_list \<Rightarrow> nat \<Rightarrow> nat \<Rightarrow> ul_list option" where
  "CDL_PREPEND_ELEM l el add =
     Option.bind (snd l) (\<lambda>x.
       let h1 = set_next add (Some el) (fst l); h2 = set_prev add (ul_prev h1 el) h1; h3 = set_prev el (Some add) h2
       in map_option (\<lambda>h4. (h4, if snd l = Some el then Some add else snd l)) (put_next (ul_prev h3 add) (Some add) h3))"

subsection \<open>The list that the links hold\<close>

text \<open>\<open>chain f p xs r\<close>: from \<open>p\<close> along \<open>f\<close> the nodes \<open>xs\<close>, then the pointer \<open>r\<close>. \<open>prevs f t xs\<close>: the backward links of \<open>xs\<close>,
  that of the first node being \<open>t\<close>.\<close>

primrec chain :: "(nat \<Rightarrow> uptr) \<Rightarrow> uptr \<Rightarrow> nat list \<Rightarrow> uptr \<Rightarrow> bool" where
  "chain f p [] r \<longleftrightarrow> p = r"
| "chain f p (x # xs) r \<longleftrightarrow> p = Some x \<and> chain f (f x) xs r"

primrec prevs :: "(nat \<Rightarrow> uptr) \<Rightarrow> uptr \<Rightarrow> nat list \<Rightarrow> bool" where
  "prevs f t [] \<longleftrightarrow> True"
| "prevs f t (x # xs) \<longleftrightarrow> f x = t \<and> prevs f (Some x) xs"

definition ll_rep :: "ul_list \<Rightarrow> nat list \<Rightarrow> bool" where
  "ll_rep l xs \<longleftrightarrow> distinct xs \<and> chain (ul_next (fst l)) (snd l) xs None"

definition dl_rep :: "ul_list \<Rightarrow> nat list \<Rightarrow> bool" where
  "dl_rep l xs \<longleftrightarrow> ll_rep l xs \<and> prevs (ul_prev (fst l)) (Some (last xs)) xs"

text \<open>A ring has no first node; the head of a circular list is one of its nodes.\<close>

definition ring :: "ul_heap \<Rightarrow> nat list \<Rightarrow> bool" where
  "ring h xs \<longleftrightarrow> xs \<noteq> [] \<and> distinct xs \<and> chain (ul_next h) (Some (hd xs)) xs (Some (hd xs)) \<and> prevs (ul_prev h) (Some (last xs)) xs"

definition cdl_rep :: "ul_list \<Rightarrow> nat list \<Rightarrow> bool" where
  "cdl_rep l xs \<longleftrightarrow> (if xs = [] then snd l = None else snd l = Some (hd xs) \<and> ring (fst l) xs)"

lemma chain_append: "chain f p (xs @ ys) r \<longleftrightarrow> (\<exists>m. chain f p xs m \<and> chain f m ys r)"
  by (induction xs arbitrary: p) auto

lemma chain_snoc: "chain f p (xs @ [x]) r \<longleftrightarrow> chain f p xs (Some x) \<and> f x = r"
  by (induction xs arbitrary: p) auto

lemma chain_upd [simp]: "a \<notin> set xs \<Longrightarrow> chain (f(a := v)) p xs r = chain f p xs r"
  by (induction xs arbitrary: p) auto

lemma chain_head: "chain f p xs r \<Longrightarrow> p = (case xs of [] \<Rightarrow> r | x # _ \<Rightarrow> Some x)"
  by (cases xs) auto

lemma chain_det: "chain f p xs None \<Longrightarrow> chain f p ys None \<Longrightarrow> xs = ys"
proof (induction xs arbitrary: p ys)
  case Nil
  then show ?case by (cases ys) auto
next
  case (Cons x xs)
  then show ?case by (cases ys) auto
qed

lemma prevs_append: "prevs f t (xs @ ys) \<longleftrightarrow> prevs f t xs \<and> prevs f (if xs = [] then t else Some (last xs)) ys"
  by (induction xs arbitrary: t) auto

lemma prevs_upd [simp]: "a \<notin> set xs \<Longrightarrow> prevs (f(a := v)) t xs = prevs f t xs"
  by (induction xs arbitrary: t) auto

lemma links_simps [simp]:
  "ul_next (set_next x v h) = (ul_next h)(x := v)" "ul_prev (set_next x v h) = ul_prev h"
  "ul_prev (set_prev x v h) = (ul_prev h)(x := v)" "ul_next (set_prev x v h) = ul_next h"
  by (simp_all add: set_next_def set_prev_def)

text \<open>A path that ends is a path without repetition.\<close>

lemma chain_distinct: "chain f p xs None \<Longrightarrow> distinct xs"
proof (induction xs arbitrary: p)
  case (Cons x xs)
  have "x \<notin> set xs"
  proof
    assume "x \<in> set xs"
    then obtain us vs where xs: "xs = us @ x # vs" by (auto dest: split_list)
    then have "chain f (f x) (us @ x # vs) None" "chain f (f x) vs None" using Cons.prems by (auto simp: chain_append)
    then have "us @ x # vs = vs" by (rule chain_det)
    then have "length (us @ x # vs) = length vs" by (rule arg_cong)
    then show False by simp
  qed
  with Cons show ?case by auto
qed simp

subsection \<open>Singly linked lists\<close>

lemma ll_prepend: "ll_rep l xs \<Longrightarrow> add \<notin> set xs \<Longrightarrow> ll_rep (LL_PREPEND l add) (add # xs)"
  by (simp add: ll_rep_def LL_PREPEND_def)

lemma ll_last_ok: "chain (ul_next h) (Some x) (us @ [t]) None \<Longrightarrow> ll_last h x = Some t"
proof (induction us arbitrary: x)
  case Nil
  then show ?case by (subst ll_last.simps) simp
next
  case (Cons u us)
  then obtain y where y: "ul_next h x = Some y" "chain (ul_next h) (Some y) (us @ [t]) None"
    by (cases us) auto
  with Cons.IH [OF y(2)] show ?case by (subst ll_last.simps) simp
qed

lemma ll_concat:
  assumes "ll_rep l xs" "ll_rep (fst l, head2) ys" "set xs \<inter> set ys = {}"
  shows "\<exists>l'. LL_CONCAT l head2 = Some l' \<and> ll_rep l' (xs @ ys)"
proof (cases xs rule: rev_cases)
  case Nil
  with assms show ?thesis by (auto simp: ll_rep_def LL_CONCAT_def)
next
  case (snoc us t)
  with assms(1) obtain x where x: "snd l = Some x" by (cases us) (auto simp: ll_rep_def)
  have "ll_last (fst l) x = Some t" using assms(1) snoc x ll_last_ok [of "fst l" x us t] by (simp add: ll_rep_def)
  moreover have "t \<notin> set us" "t \<notin> set ys" using assms snoc by (auto simp: ll_rep_def)
  ultimately show ?thesis
    using assms snoc x by (auto simp: LL_CONCAT_def ll_rep_def chain_append)
qed

lemma ll_append:
  assumes "ll_rep l xs" "add \<notin> set xs"
  shows "\<exists>l'. LL_APPEND l add = Some l' \<and> ll_rep l' (xs @ [add])"
proof -
  let ?l = "(set_next add None (fst l), snd l)"
  have "LL_APPEND l add = LL_CONCAT ?l (Some add)" by (auto simp: LL_APPEND_def LL_CONCAT_def Let_def split: option.split)
  moreover have "ll_rep ?l xs" "ll_rep (fst ?l, Some add) [add]" using assms by (simp_all add: ll_rep_def)
  ultimately show ?thesis using ll_concat [of ?l xs "Some add" "[add]"] assms(2) by auto
qed

lemma ll_before_end:
  "chain (ul_next h) (Some x) xs None \<Longrightarrow> del \<notin> set (tl xs) \<Longrightarrow> ll_before h del x = Some (last xs)"
proof (induction xs arbitrary: x)
  case (Cons y xs)
  show ?case
  proof (cases xs)
    case Nil
    with Cons.prems show ?thesis by (subst ll_before.simps) simp
  next
    case (Cons z zs)
    with Cons.prems have "chain (ul_next h) (Some z) xs None" "del \<notin> set (tl xs)" by auto
    note Cons.IH [OF this]
    with Cons Cons.prems show ?thesis by (subst ll_before.simps) simp
  qed
qed simp

lemma ll_before_found:
  "chain (ul_next h) (Some x) (us @ t # del # vs) None \<Longrightarrow> del \<notin> set (tl (us @ [t])) \<Longrightarrow> ll_before h del x = Some t"
proof (induction us arbitrary: x)
  case Nil
  then show ?case by (subst ll_before.simps) simp
next
  case (Cons u us)
  then obtain y where y: "ul_next h x = Some y" "chain (ul_next h) (Some y) (us @ t # del # vs) None" "y \<noteq> del"
    by (cases us) auto
  have "del \<notin> set (tl (us @ [t]))" using Cons.prems(2) by (cases us) auto
  from Cons.IH [OF y(2) this] y show ?case by (subst ll_before.simps) simp
qed

lemma ll_delete:
  assumes r: "ll_rep l xs" and ne: "xs \<noteq> []"
  shows "\<exists>l'. LL_DELETE l del = Some l' \<and> ll_rep l' (remove1 del xs)"
proof -
  obtain x zs where x: "xs = x # zs" "snd l = Some x" using r ne by (cases xs) (auto simp: ll_rep_def)
  have d: "distinct xs" and c: "chain (ul_next (fst l)) (Some x) xs None" using r x by (auto simp: ll_rep_def)
  consider "del = x" | "del \<noteq> x" "del \<in> set zs" | "del \<notin> set xs" using x by auto
  then show ?thesis
  proof cases
    case 1
    with x r show ?thesis by (auto simp: LL_DELETE_def ll_rep_def)
  next
    case 2
    then obtain us vs where zs: "zs = us @ del # vs" "del \<notin> set us" by (auto dest: split_list_first)
    obtain ws t where w: "x # us = ws @ [t]" by (cases "x # us" rule: rev_cases) auto
    have xs: "xs = ws @ t # del # vs" using x zs w by (metis append.assoc append_Cons append_Nil)
    have nd: "del \<notin> set (tl (ws @ [t]))" using w zs(2) by (metis list.sel(3))
    have "ll_before (fst l) del x = Some t" by (rule ll_before_found [OF c [unfolded xs] nd])
    moreover have "ul_next (fst l) t = Some del" using c xs by (auto simp: chain_append)
    moreover have "chain ((ul_next (fst l))(t := ul_next (fst l) del)) (Some x) (ws @ t # vs) None"
      using c d unfolding xs by (auto simp: chain_append)
    moreover have "remove1 del xs = ws @ t # vs" using d unfolding xs by (auto simp: remove1_append)
    ultimately show ?thesis using 2 x(2) d xs by (auto simp: LL_DELETE_def ll_rep_def)
  next
    case 3
    then have "ll_before (fst l) del x = Some (last xs)" using c x by (intro ll_before_end) auto
    moreover have "ul_next (fst l) (last xs) = None" using c ne by (cases xs rule: rev_cases) (auto simp: chain_snoc)
    ultimately show ?thesis using 3 x r by (auto simp: LL_DELETE_def remove1_idem)
  qed
qed

text \<open>The node in front of a node of the list that is not its head.\<close>

lemma before_split:
  assumes c: "chain (ul_next h) (Some x) xs None" and d: "distinct xs" and xs: "xs = us @ el # vs" and n: "x \<noteq> el"
  shows "\<exists>ws t. us = ws @ [t] \<and> ll_before h el x = Some t \<and> ul_next h t = Some el"
proof -
  obtain ws t where us: "us = ws @ [t]" using c xs n by (cases us rule: rev_cases) auto
  have "el \<notin> set (tl (ws @ [t]))" using d xs us by (cases ws) auto
  then have "ll_before h el x = Some t" using c xs us ll_before_found [of h x ws t el vs] by simp
  moreover have "ul_next h t = Some el" using c xs us by (auto simp: chain_append)
  ultimately show ?thesis using us by blast
qed

lemma ll_replace:
  assumes r: "ll_rep l (us @ el # vs)" and a: "add \<notin> set (us @ el # vs)"
  shows "\<exists>l'. LL_REPLACE_ELEM l el add = Some l' \<and> ll_rep l' (us @ add # vs)"
proof -
  let ?h = "set_next add (ul_next (fst l) el) (fst l)"
  obtain x where x: "snd l = Some x" using r by (cases us) (auto simp: ll_rep_def)
  have c: "chain (ul_next ?h) (Some x) (us @ el # vs) None" and d: "distinct (us @ el # vs)" using r a x by (auto simp: ll_rep_def)
  show ?thesis
  proof (cases "x = el")
    case True
    with c d have "us = []" by (cases us) auto
    with True r a x show ?thesis by (auto simp: LL_REPLACE_ELEM_def ll_rep_def Let_def)
  next
    case False
    from before_split [OF c d refl False] obtain ws t where t: "us = ws @ [t]" "ll_before ?h el x = Some t" "ul_next ?h t = Some el" by blast
    have "LL_REPLACE_ELEM l el add = Some (set_next t (Some add) ?h, snd l)"
      using x False t(2,3) by (simp add: LL_REPLACE_ELEM_def Let_def del: links_simps)
    moreover have "ll_rep (set_next t (Some add) ?h, snd l) (us @ add # vs)"
      using r a x t(1) by (auto simp: ll_rep_def chain_append)
    ultimately show ?thesis by blast
  qed
qed

lemma ll_prepend_elem:
  assumes r: "ll_rep l (us @ el # vs)" and a: "add \<notin> set (us @ el # vs)"
  shows "\<exists>l'. LL_PREPEND_ELEM l el add = Some l' \<and> ll_rep l' (us @ add # el # vs)"
proof -
  let ?h = "set_next add (Some el) (fst l)"
  obtain x where x: "snd l = Some x" using r by (cases us) (auto simp: ll_rep_def)
  have c: "chain (ul_next ?h) (Some x) (us @ el # vs) None" and d: "distinct (us @ el # vs)" using r a x by (auto simp: ll_rep_def)
  show ?thesis
  proof (cases "x = el")
    case True
    with c d have "us = []" by (cases us) auto
    with True r a x show ?thesis by (auto simp: LL_PREPEND_ELEM_def ll_rep_def Let_def)
  next
    case False
    from before_split [OF c d refl False] obtain ws t where t: "us = ws @ [t]" "ll_before ?h el x = Some t" "ul_next ?h t = Some el" by blast
    have "LL_PREPEND_ELEM l el add = Some (set_next t (Some add) ?h, snd l)"
      using x False t(2,3) by (simp add: LL_PREPEND_ELEM_def Let_def del: links_simps)
    moreover have "ll_rep (set_next t (Some add) ?h, snd l) (us @ add # el # vs)"
      using r a x t(1) by (auto simp: ll_rep_def chain_append)
    ultimately show ?thesis by blast
  qed
qed

lemma ll_count_chain: "chain (ul_next h) p xs None \<Longrightarrow> ll_count h p n = Some (n + length xs)"
proof (induction xs arbitrary: p n)
  case Nil
  then show ?case by (subst ll_count.simps) simp
next
  case (Cons x xs)
  then show ?case using Cons.IH [of "ul_next h x" "Suc n"] by (subst ll_count.simps) simp
qed

lemma ll_count_length: "ll_rep l xs \<Longrightarrow> LL_COUNT l = Some (length xs)"
  using ll_count_chain [of "fst l" "snd l" xs 0] by (simp add: LL_COUNT_def ll_rep_def)

lemma ll_find_chain: "chain (ul_next h) p xs None \<Longrightarrow> ll_find h ok p = Some (find ok xs)"
proof (induction xs arbitrary: p)
  case Nil
  then show ?case by (subst ll_find.simps) simp
next
  case (Cons x xs)
  then show ?case using Cons.IH [of "ul_next h x"] by (subst ll_find.simps) simp
qed

lemma ll_search:
  assumes "ll_rep l xs"
  shows "LL_SEARCH_SCALAR l field v = Some (find (\<lambda>x. field x = v) xs)" "LL_SEARCH l elt cmp = Some (find (\<lambda>x. cmp x elt = 0) xs)"
  using assms by (simp_all add: LL_SEARCH_SCALAR_def LL_SEARCH_def ll_rep_def ll_find_chain)

text \<open>The two variants do what the macros do.\<close>

lemma append_walk_last:
  "chain (ul_next h) (Some x) (us @ [t]) None \<Longrightarrow> add \<notin> set (us @ [t]) \<Longrightarrow>
   append_walk add (set_next add (Some x) h) = Some (set_next add (Some t) h)"
proof (induction us arbitrary: x)
  case Nil
  then show ?case by (subst append_walk.simps) (simp add: get_next_def)
next
  case (Cons u us)
  then obtain y where y: "ul_next h x = Some y" "x \<noteq> add" "chain (ul_next h) (Some y) (us @ [t]) None"
    by (cases us) auto
  have "append_walk add (set_next add (Some x) h) = append_walk add (set_next add (Some y) (set_next add (Some x) h))"
    using y by (subst append_walk.simps) (simp add: get_next_def)
  also have "set_next add (Some y) (set_next add (Some x) h) = set_next add (Some y) h" by (simp add: set_next_def)
  finally show ?case using Cons.IH [OF y(3)] Cons.prems(2) by simp
qed

lemma append_vs2008:
  assumes "ll_rep l xs" "add \<notin> set xs"
  shows "LL_APPEND_VS2008 l add = LL_APPEND l add"
proof (cases xs rule: rev_cases)
  case Nil
  with assms show ?thesis by (simp add: LL_APPEND_VS2008_def LL_APPEND_def ll_rep_def)
next
  case (snoc us t)
  with assms obtain x where x: "snd l = Some x" by (cases us) (auto simp: ll_rep_def)
  have c: "chain (ul_next (set_next add None (fst l))) (Some x) (us @ [t]) None" using assms snoc x by (simp add: ll_rep_def)
  then have "chain (ul_next (fst l)) (Some x) (us @ [t]) None" using assms snoc x by (simp add: ll_rep_def)
  then have w: "append_walk add (set_next add (Some x) (fst l)) = Some (set_next add (Some t) (fst l))"
    by (rule append_walk_last) (use assms snoc in simp)
  have "t \<noteq> add" using assms snoc by auto
  then have "set_next add None (set_next t (Some add) (set_next add (Some t) (fst l))) = set_next t (Some add) (set_next add None (fst l))"
    by (simp add: set_next_def fun_upd_twist)
  then show ?thesis
    using x w ll_last_ok [OF c] by (simp add: LL_APPEND_VS2008_def LL_APPEND_def put_next_def Let_def)
qed

lemma delete_vs2008: "LL_DELETE_VS2008 l del = LL_DELETE l del"
  unfolding LL_DELETE_VS2008_def LL_DELETE_def Let_def prod.collapse ..

subsection \<open>Doubly linked lists\<close>

lemma dl_head: "dl_rep l (x # xs) \<Longrightarrow> snd l = Some x \<and> ul_prev (fst l) x = Some (last (x # xs))"
  by (simp add: dl_rep_def ll_rep_def)

lemma dl_prepend:
  assumes "dl_rep l xs" "add \<notin> set xs"
  shows "dl_rep (DL_PREPEND l add) (add # xs)"
  using assms by (cases xs) (auto simp: dl_rep_def ll_rep_def DL_PREPEND_def Let_def)

lemma dl_concat:
  assumes l: "dl_rep l xs" and m: "dl_rep (fst l, head2) ys" and d: "set xs \<inter> set ys = {}"
  shows "\<exists>l'. DL_CONCAT l head2 = Some l' \<and> dl_rep l' (xs @ ys)"
proof (cases "xs = [] \<or> ys = []")
  case True
  with l m show ?thesis by (cases l; cases ys) (auto simp: dl_rep_def ll_rep_def DL_CONCAT_def)
next
  case False
  then obtain us t where us: "xs = us @ [t]" by (cases xs rule: rev_cases) auto
  from False obtain y vs where ys: "ys = y # vs" by (cases ys) auto
  from False obtain x zs where x: "xs = x # zs" by (metis list.exhaust)
  have "last (x # zs) = t" using x us by (metis last_snoc)
  then have hx: "snd l = Some x" "ul_prev (fst l) x = Some t" using dl_head [of l x zs] l x by simp_all
  have hy: "head2 = Some y" "ul_prev (fst l) y = Some (last ys)" using dl_head [of "(fst l, head2)" y vs] m ys by auto
  have n: "x \<noteq> y" "y \<notin> set xs" "y \<notin> set vs" "x \<notin> set ys" "t \<notin> set us" "t \<notin> set ys" "x \<notin> set zs"
  proof -
    have dd: "distinct xs" "distinct ys" using l m by (simp_all add: dl_rep_def ll_rep_def)
    have "x \<in> set xs" using x by simp
    moreover have "t \<in> set xs" using us by simp
    moreover have "y \<in> set ys" using ys by simp
    ultimately show "x \<noteq> y" "y \<notin> set xs" "x \<notin> set ys" "t \<notin> set ys" using d by blast+
    show "y \<notin> set vs" "t \<notin> set us" using dd us ys by simp_all
    show "x \<notin> set zs" using dd(1) x by (metis distinct.simps(2))
  qed
  let ?h = "set_prev x (Some (last ys)) (set_next t head2 (set_prev y (Some t) (fst l)))"
  have "DL_CONCAT l head2 = Some (?h, snd l)" using hx hy n by (simp add: DL_CONCAT_def put_next_def Let_def)
  moreover have "ll_rep (?h, snd l) (xs @ ys)"
    using l m d n us hy(1) by (auto simp: dl_rep_def ll_rep_def chain_append)
  moreover have "prevs (ul_prev ?h) (Some (last (xs @ ys))) (xs @ ys)"
  proof -
    have "prevs (ul_prev ?h) (Some (last ys)) xs" using l n x by (auto simp: dl_rep_def)
    moreover have "prevs (ul_prev ?h) (Some t) ys" using m n ys by (auto simp: dl_rep_def)
    ultimately show ?thesis using False us by (simp add: prevs_append)
  qed
  ultimately show ?thesis by (auto simp: dl_rep_def)
qed

lemma dl_append:
  assumes "dl_rep l xs" "add \<notin> set xs"
  shows "\<exists>l'. DL_APPEND l add = Some l' \<and> dl_rep l' (xs @ [add])"
proof (cases xs)
  case Nil
  with assms show ?thesis by (auto simp: dl_rep_def ll_rep_def DL_APPEND_def)
next
  case (Cons x zs)
  let ?l = "(set_next add None (set_prev add (Some add) (fst l)), snd l)"
  have m: "dl_rep ?l xs" "dl_rep (fst ?l, Some add) [add]" using assms by (simp_all add: dl_rep_def ll_rep_def)
  have h: "snd l = Some x" "ul_prev (fst l) x = Some (last xs)" using dl_head [of l x zs] assms(1) Cons by auto
  have n: "x \<noteq> add" "last xs \<noteq> add" using assms(2) Cons by (auto split: if_splits)
  have "DL_APPEND l add = DL_CONCAT ?l (Some add)"
    using h n by (simp add: DL_APPEND_def DL_CONCAT_def put_next_def Let_def set_next_def set_prev_def fun_upd_twist)
  with dl_concat [OF m(1) m(2)] assms(2) show ?thesis by simp
qed

lemma dl_delete:
  assumes r: "dl_rep l (us @ del # vs)"
  shows "\<exists>l'. DL_DELETE l del = Some l' \<and> dl_rep l' (us @ vs)"
proof (cases us rule: rev_cases)
  case Nil
  show ?thesis
  proof (cases vs)
    case Nil': Nil
    with Nil r show ?thesis by (auto simp: dl_rep_def ll_rep_def DL_DELETE_def Let_def)
  next
    case (Cons v ws)
    with Nil r show ?thesis by (auto simp: dl_rep_def ll_rep_def DL_DELETE_def put_prev_def Let_def)
  qed
next
  case (snoc ws t)
  have "us \<noteq> []" using snoc by simp
  then obtain x zs where x: "us = x # zs" unfolding neq_Nil_conv by blast
  have d: "distinct (us @ del # vs)" and c: "chain (ul_next (fst l)) (snd l) (us @ del # vs) None"
    and p: "prevs (ul_prev (fst l)) (Some (last (us @ del # vs))) (us @ del # vs)"
    using r by (auto simp: dl_rep_def ll_rep_def)
  have hd: "snd l = Some x" "x \<noteq> del" "x \<notin> set zs" "x \<notin> set vs" using c d x by auto
  have pd: "ul_prev (fst l) del = Some t" using p snoc by (simp add: prevs_append)
  have td: "t \<noteq> del" "t \<notin> set ws" "t \<notin> set vs" using d snoc by auto
  have pu: "prevs (ul_prev (fst l)) (Some (last (us @ del # vs))) us" "prevs (ul_prev (fst l)) (Some del) vs"
    using p by (auto simp: prevs_append)
  have cu: "chain (ul_next (fst l)) (Some x) ws (Some t)" "chain (ul_next (fst l)) (ul_next (fst l) del) vs None"
    using c snoc hd(1) by (auto simp: chain_append)
  show ?thesis
  proof (cases vs)
    case Nil
    then have nd: "ul_next (fst l) del = None" using cu(2) by simp
    let ?h = "set_prev x (Some t) (set_next t None (fst l))"
    have "DL_DELETE l del = Some (?h, snd l)"
      using hd pd td nd by (simp add: DL_DELETE_def put_next_def put_prev_def Let_def)
    moreover have "ll_rep (?h, snd l) (us @ vs)"
      using Nil snoc d cu(1) td hd by (auto simp: ll_rep_def chain_append)
    moreover have "prevs (ul_prev ?h) (Some (last (us @ vs))) (us @ vs)"
    proof -
      have "prevs ((ul_prev (fst l))(x := Some t)) (Some t) us" using pu(1) x hd(3) by simp
      then show ?thesis using Nil snoc by simp
    qed
    ultimately show ?thesis by (auto simp: dl_rep_def)
  next
    case (Cons v vs')
    then have nd: "ul_next (fst l) del = Some v" using cu(2) by simp
    let ?h = "set_prev v (Some t) (set_next t (Some v) (fst l))"
    have "DL_DELETE l del = Some (?h, snd l)"
      using hd pd td nd by (simp add: DL_DELETE_def put_next_def put_prev_def Let_def)
    moreover have "ll_rep (?h, snd l) (us @ vs)"
      using Cons snoc d cu td hd by (auto simp: ll_rep_def chain_append)
    moreover have "prevs (ul_prev ?h) (Some (last (us @ vs))) (us @ vs)"
      using Cons snoc d pu x by (auto simp: prevs_append)
    ultimately show ?thesis by (auto simp: dl_rep_def)
  qed
qed

lemma dl_replace:
  assumes r: "dl_rep l (us @ el # vs)" and a: "add \<notin> set (us @ el # vs)"
  shows "\<exists>l'. DL_REPLACE_ELEM l el add = Some l' \<and> dl_rep l' (us @ add # vs)"
proof (cases us rule: rev_cases)
  case Nil
  show ?thesis
  proof (cases vs)
    case Nil': Nil
    with Nil r a show ?thesis by (auto simp: dl_rep_def ll_rep_def DL_REPLACE_ELEM_def Let_def)
  next
    case (Cons v ws)
    with Nil r a show ?thesis by (auto simp: dl_rep_def ll_rep_def DL_REPLACE_ELEM_def put_prev_def Let_def)
  qed
next
  case (snoc ws t)
  have "us \<noteq> []" using snoc by simp
  then obtain x zs where x: "us = x # zs" unfolding neq_Nil_conv by blast
  have d: "distinct (us @ el # vs)" and c: "chain (ul_next (fst l)) (snd l) (us @ el # vs) None"
    and p: "prevs (ul_prev (fst l)) (Some (last (us @ el # vs))) (us @ el # vs)"
    using r by (auto simp: dl_rep_def ll_rep_def)
  have hd: "snd l = Some x" "x \<noteq> el" "x \<notin> set zs" "x \<notin> set vs" "x \<noteq> add" using c d x a by auto
  have pd: "ul_prev (fst l) el = Some t" using p snoc by (simp add: prevs_append)
  have td: "t \<noteq> el" "t \<notin> set ws" "t \<notin> set vs" "t \<noteq> add" "add \<noteq> el" "add \<notin> set ws" "add \<notin> set vs" using d snoc a by auto
  have pu: "prevs (ul_prev (fst l)) (Some (last (us @ el # vs))) us" "prevs (ul_prev (fst l)) (Some el) vs"
    using p by (auto simp: prevs_append)
  have cu: "chain (ul_next (fst l)) (Some x) ws (Some t)" "chain (ul_next (fst l)) (ul_next (fst l) el) vs None"
    using c snoc hd(1) by (auto simp: chain_append)
  show ?thesis
  proof (cases vs)
    case Nil
    then have nd: "ul_next (fst l) el = None" using cu(2) by simp
    let ?h = "set_prev x (Some add) (set_next t (Some add) (set_prev add (Some t) (set_next add None (fst l))))"
    have "DL_REPLACE_ELEM l el add = Some (?h, snd l)"
      using hd pd td nd by (simp add: DL_REPLACE_ELEM_def put_next_def put_prev_def Let_def)
    moreover have "ll_rep (?h, snd l) (us @ add # vs)"
      using Nil snoc d cu(1) td hd a by (auto simp: ll_rep_def chain_append)
    moreover have "prevs (ul_prev ?h) (Some (last (us @ add # vs))) (us @ add # vs)"
    proof -
      have "prevs ((ul_prev (fst l))(add := Some t, x := Some add)) (Some add) us" using pu(1) x hd a by simp
      then show ?thesis using Nil snoc hd(5) by (simp add: prevs_append)
    qed
    ultimately show ?thesis by (auto simp: dl_rep_def)
  next
    case (Cons v vs')
    then have nd: "ul_next (fst l) el = Some v" using cu(2) by simp
    let ?h = "set_prev v (Some add) (set_next t (Some add) (set_prev add (Some t) (set_next add (Some v) (fst l))))"
    have "DL_REPLACE_ELEM l el add = Some (?h, snd l)"
      using hd pd td nd by (simp add: DL_REPLACE_ELEM_def put_next_def put_prev_def Let_def)
    moreover have "ll_rep (?h, snd l) (us @ add # vs)"
      using Cons snoc d cu td hd a by (auto simp: ll_rep_def chain_append)
    moreover have "prevs (ul_prev ?h) (Some (last (us @ add # vs))) (us @ add # vs)"
      using Cons snoc d pu x a by (auto simp: prevs_append)
    ultimately show ?thesis by (auto simp: dl_rep_def)
  qed
qed

lemma dl_prepend_elem:
  assumes r: "dl_rep l (us @ el # vs)" and a: "add \<notin> set (us @ el # vs)"
  shows "\<exists>l'. DL_PREPEND_ELEM l el add = Some l' \<and> dl_rep l' (us @ add # el # vs)"
proof (cases us rule: rev_cases)
  case Nil
  with r a show ?thesis by (auto simp: dl_rep_def ll_rep_def DL_PREPEND_ELEM_def Let_def)
next
  case (snoc ws t)
  have "us \<noteq> []" using snoc by simp
  then obtain x zs where x: "us = x # zs" unfolding neq_Nil_conv by blast
  have d: "distinct (us @ el # vs)" and c: "chain (ul_next (fst l)) (snd l) (us @ el # vs) None"
    and p: "prevs (ul_prev (fst l)) (Some (last (us @ el # vs))) (us @ el # vs)"
    using r by (auto simp: dl_rep_def ll_rep_def)
  have hd: "snd l = Some x" "x \<noteq> el" using c d x by auto
  have pd: "ul_prev (fst l) el = Some t" using p snoc by (simp add: prevs_append)
  have td: "t \<noteq> el" "t \<noteq> add" "add \<noteq> el" using d snoc a by auto
  let ?h = "set_next t (Some add) (set_prev el (Some add) (set_prev add (Some t) (set_next add (Some el) (fst l))))"
  have "DL_PREPEND_ELEM l el add = Some (?h, snd l)" using hd pd td by (simp add: DL_PREPEND_ELEM_def put_next_def Let_def)
  moreover have "ll_rep (?h, snd l) (us @ add # el # vs)"
    using snoc d c td a by (auto simp: ll_rep_def chain_append)
  moreover have "prevs (ul_prev ?h) (Some (last (us @ add # el # vs))) (us @ add # el # vs)"
    using snoc d p a by (auto simp: prevs_append)
  ultimately show ?thesis by (auto simp: dl_rep_def)
qed

subsection \<open>Circular lists\<close>

lemma ring_rotate: "ring h (xs @ ys) \<Longrightarrow> ring h (ys @ xs)"
proof (cases "xs = [] \<or> ys = []")
  case False
  assume r: "ring h (xs @ ys)"
  from False obtain x us y vs where "xs = x # us" "ys = y # vs" by (metis list.exhaust)
  with r show ?thesis by (auto simp: ring_def chain_append prevs_append)
qed auto

lemma ring_insert:
  assumes r: "ring h (x # zs)" and a: "add \<notin> set (x # zs)" and t: "t = last (x # zs)"
  shows "ring (set_next t (Some add) (set_prev x (Some add) (set_prev add (Some t) (set_next add (Some x) h)))) (add # x # zs)"
proof (cases zs rule: rev_cases)
  case Nil
  with r a t show ?thesis by (simp add: ring_def)
next
  case (snoc us u)
  with r a t show ?thesis by (auto simp: ring_def chain_snoc prevs_append simp flip: append_Cons)
qed

lemma ring_delete:
  assumes r: "ring h (d # v # ws)" and t: "t = last (v # ws)"
  shows "ring (set_next t (Some v) (set_prev v (Some t) h)) (v # ws)"
proof (cases ws rule: rev_cases)
  case Nil
  with r t show ?thesis by (simp add: ring_def)
next
  case (snoc us u)
  with r t show ?thesis by (auto simp: ring_def chain_snoc prevs_append simp flip: append_Cons)
qed

lemma ring_replace:
  assumes r: "ring h (el # v # ws)" and t: "t = last (v # ws)" and a: "add \<notin> set (el # v # ws)"
  shows "ring (set_next t (Some add) (set_prev v (Some add) (set_prev add (Some t) (set_next add (Some v) h)))) (add # v # ws)"
proof (cases ws rule: rev_cases)
  case Nil
  with r t a show ?thesis by (simp add: ring_def)
next
  case (snoc us u)
  with r t a show ?thesis by (auto simp: ring_def chain_snoc prevs_append simp flip: append_Cons)
qed

lemma ring_links: "ring h (x # zs) \<Longrightarrow> ul_prev h x = Some (last (x # zs)) \<and> ul_next h x = Some (hd (zs @ [x]))"
  by (cases zs) (auto simp: ring_def)

lemma cdl_prepend:
  assumes r: "cdl_rep l xs" and a: "add \<notin> set xs"
  shows "\<exists>l'. CDL_PREPEND l add = Some l' \<and> cdl_rep l' (add # xs)"
proof (cases xs)
  case Nil
  with r show ?thesis by (auto simp: cdl_rep_def CDL_PREPEND_def ring_def)
next
  case (Cons x zs)
  then have h: "snd l = Some x" "ring (fst l) (x # zs)" using r by (auto simp: cdl_rep_def)
  let ?h = "set_next (last (x # zs)) (Some add) (set_prev x (Some add) (set_prev add (Some (last (x # zs))) (set_next add (Some x) (fst l))))"
  have "x \<noteq> add" using a Cons by auto
  then have "CDL_PREPEND l add = Some (?h, Some add)"
    using h(1) ring_links [OF h(2)] by (simp add: CDL_PREPEND_def put_next_def Let_def set_next_def set_prev_def)
  moreover have "cdl_rep (?h, Some add) (add # xs)"
    using ring_insert [OF h(2) a [unfolded Cons] refl] Cons by (simp add: cdl_rep_def)
  ultimately show ?thesis by blast
qed

text \<open>Where a node of the ring is not the head, the ring is turned until it is.\<close>

lemma cdl_at:
  assumes r: "cdl_rep l (us @ el # vs)"
  shows "ring (fst l) (el # vs @ us)" "snd l = Some el \<longleftrightarrow> us = []" "snd l = Some (hd (us @ [el]))"
proof -
  have g: "ring (fst l) (us @ el # vs)" "snd l = Some (hd (us @ el # vs))" using r by (simp_all add: cdl_rep_def)
  then show "ring (fst l) (el # vs @ us)" using ring_rotate [of "fst l" us "el # vs"] by simp
  show "snd l = Some el \<longleftrightarrow> us = []" using g by (cases us) (auto simp: ring_def)
  show "snd l = Some (hd (us @ [el]))" using g by (cases us) auto
qed

lemma cdl_delete:
  assumes r: "cdl_rep l (us @ del # vs)"
  shows "\<exists>l'. CDL_DELETE l del = Some l' \<and> cdl_rep l' (us @ vs)"
proof -
  note at = cdl_at [OF r]
  show ?thesis
  proof (cases "vs @ us")
    case Nil
    with at ring_links [OF at(1)] show ?thesis by (auto simp: CDL_DELETE_def cdl_rep_def)
  next
    case (Cons v ws)
    let ?t = "last (v # ws)" and ?h = "set_next (last (v # ws)) (Some v) (set_prev v (Some (last (v # ws))) (fst l))"
    have g: "ring (fst l) (del # v # ws)" using at(1) Cons by simp
    then have k: "ul_prev (fst l) del = Some ?t" "ul_next (fst l) del = Some v" "del \<noteq> v" "?t \<noteq> del"
      using ring_links [OF g] by (auto simp: ring_def)
    have "CDL_DELETE l del = Some (?h, if us = [] then Some v else snd l)"
      using at(2) k by (simp add: CDL_DELETE_def put_next_def put_prev_def Let_def)
    moreover have "ring ?h (us @ vs)" using ring_rotate [of ?h vs us] ring_delete [OF g refl] Cons by simp
    then have "cdl_rep (?h, if us = [] then Some v else snd l) (us @ vs)"
      using at(3) Cons by (cases us) (auto simp: cdl_rep_def)
    ultimately show ?thesis by blast
  qed
qed

lemma cdl_replace:
  assumes r: "cdl_rep l (us @ el # vs)" and a: "add \<notin> set (us @ el # vs)"
  shows "\<exists>l'. CDL_REPLACE_ELEM l el add = Some l' \<and> cdl_rep l' (us @ add # vs)"
proof -
  note at = cdl_at [OF r]
  show ?thesis
  proof (cases "vs @ us")
    case Nil
    with at ring_links [OF at(1)] show ?thesis by (auto simp: CDL_REPLACE_ELEM_def cdl_rep_def ring_def)
  next
    case (Cons v ws)
    let ?t = "last (v # ws)"
    let ?h = "set_next ?t (Some add) (set_prev v (Some add) (set_prev add (Some ?t) (set_next add (Some v) (fst l))))"
    have g: "ring (fst l) (el # v # ws)" using at(1) Cons by simp
    have a': "add \<notin> set (el # v # ws)" using a Cons by (metis Un_iff set_append set_ConsD list.set_intros)
    have k: "ul_prev (fst l) el = Some ?t" "ul_next (fst l) el = Some v" "el \<noteq> v" "add \<noteq> el" "v \<noteq> add"
      using ring_links [OF g] g a' by (auto simp: ring_def)
    have "CDL_REPLACE_ELEM l el add = Some (?h, if us = [] then Some add else snd l)"
      using at(2,3) k by (simp add: CDL_REPLACE_ELEM_def put_next_def put_prev_def Let_def)
    moreover have "ring ?h (us @ add # vs)"
      using ring_rotate [of ?h "add # vs" us] ring_replace [OF g refl a'] Cons by simp
    then have "cdl_rep (?h, if us = [] then Some add else snd l) (us @ add # vs)"
      using at(3) by (cases us) (auto simp: cdl_rep_def)
    ultimately show ?thesis by blast
  qed
qed

lemma cdl_prepend_elem:
  assumes r: "cdl_rep l (us @ el # vs)" and a: "add \<notin> set (us @ el # vs)"
  shows "\<exists>l'. CDL_PREPEND_ELEM l el add = Some l' \<and> cdl_rep l' (us @ add # el # vs)"
proof -
  note at = cdl_at [OF r]
  let ?t = "last (el # vs @ us)"
  let ?h = "set_next ?t (Some add) (set_prev el (Some add) (set_prev add (Some ?t) (set_next add (Some el) (fst l))))"
  have a': "add \<notin> set (el # vs @ us)" using a by auto
  have "CDL_PREPEND_ELEM l el add = Some (?h, if us = [] then Some add else snd l)"
    using at(2,3) ring_links [OF at(1)] a' by (simp add: CDL_PREPEND_ELEM_def put_next_def Let_def)
  moreover have "ring ?h (us @ add # el # vs)"
    using ring_rotate [of ?h "add # el # vs" us] ring_insert [OF at(1) a' refl] by simp
  then have "cdl_rep (?h, if us = [] then Some add else snd l) (us @ add # el # vs)"
    using at(3) by (cases us) (auto simp: cdl_rep_def)
  ultimately show ?thesis by blast
qed

lemma cdl_next_chain:
  "chain (ul_next h) p zs (Some x) \<Longrightarrow> x \<notin> set zs \<Longrightarrow> chain (cdl_next (h, Some x)) (if p = Some x then None else p) zs None"
proof (induction zs arbitrary: p)
  case (Cons z zs)
  from Cons.IH [of "ul_next h z"] Cons.prems show ?case by (auto simp: cdl_next_def)
qed simp

lemma ring_chain: "ring h (x # zs) \<Longrightarrow> chain (cdl_next (h, Some x)) (Some x) (x # zs) None"
  using cdl_next_chain [of h "ul_next h x" zs x] by (auto simp: ring_def cdl_next_def)

lemma cdl_count_chain: "chain (cdl_next l) p xs None \<Longrightarrow> cdl_count l p n = Some (n + length xs)"
proof (induction xs arbitrary: p n)
  case Nil
  then show ?case by (subst cdl_count.simps) simp
next
  case (Cons x xs)
  then show ?case using Cons.IH [of "cdl_next l x" "Suc n"] by (subst cdl_count.simps) simp
qed

lemma cdl_find_chain: "chain (cdl_next l) p xs None \<Longrightarrow> cdl_find l ok p = Some (find ok xs)"
proof (induction xs arbitrary: p)
  case Nil
  then show ?case by (subst cdl_find.simps) simp
next
  case (Cons x xs)
  then show ?case using Cons.IH [of "cdl_next l x"] by (subst cdl_find.simps) simp
qed

lemma cdl_rep_chain: "cdl_rep l xs \<Longrightarrow> chain (cdl_next l) (snd l) xs None"
  using ring_chain [of "fst l"] by (cases l; cases xs) (auto simp: cdl_rep_def)

lemma cdl_count_search:
  assumes "cdl_rep l xs"
  shows "CDL_COUNT l = Some (length xs)" "CDL_SEARCH_SCALAR l field v = Some (find (\<lambda>x. field x = v) xs)"
    "CDL_SEARCH l elt cmp = Some (find (\<lambda>x. cmp x elt = 0) xs)"
  using cdl_rep_chain [OF assms] cdl_count_chain [of l "snd l" xs 0]
  by (simp_all add: CDL_COUNT_def CDL_SEARCH_SCALAR_def CDL_SEARCH_def cdl_find_chain)

subsection \<open>Sequences of edits\<close>

text \<open>What the three kinds of list have in common, and what follows for any sequence of edits.\<close>

datatype ul_edit = Before nat nat | Instead nat nat | Remove nat

text \<open>On lists of nodes: the node has to be there, and a new one must not be.\<close>

definition spec_edit :: "ul_edit \<Rightarrow> nat list \<Rightarrow> nat list option" where
  "spec_edit e xs =
     (case e of
        Before el add \<Rightarrow> if el \<in> set xs \<and> add \<notin> set xs then Some (takeWhile (\<lambda>x. x \<noteq> el) xs @ add # dropWhile (\<lambda>x. x \<noteq> el) xs) else None
      | Instead el add \<Rightarrow> if el \<in> set xs \<and> add \<notin> set xs then Some (map (\<lambda>x. if x = el then add else x) xs) else None
      | Remove el \<Rightarrow> if el \<in> set xs then Some (remove1 el xs) else None)"

primrec spec_edits :: "ul_edit list \<Rightarrow> nat list \<Rightarrow> nat list option" where
  "spec_edits [] xs = Some xs"
| "spec_edits (e # es) xs = Option.bind (spec_edit e xs) (spec_edits es)"

text \<open>On links, with the macros of one kind of list.\<close>

definition do_edit :: "('l \<Rightarrow> nat \<Rightarrow> nat \<Rightarrow> 'l option) \<Rightarrow> ('l \<Rightarrow> nat \<Rightarrow> nat \<Rightarrow> 'l option) \<Rightarrow> ('l \<Rightarrow> nat \<Rightarrow> 'l option) \<Rightarrow> ul_edit \<Rightarrow> 'l \<Rightarrow> 'l option" where
  "do_edit prepend replace delete e l =
     (case e of Before el add \<Rightarrow> prepend l el add | Instead el add \<Rightarrow> replace l el add | Remove el \<Rightarrow> delete l el)"

primrec do_edits :: "('l \<Rightarrow> nat \<Rightarrow> nat \<Rightarrow> 'l option) \<Rightarrow> ('l \<Rightarrow> nat \<Rightarrow> nat \<Rightarrow> 'l option) \<Rightarrow> ('l \<Rightarrow> nat \<Rightarrow> 'l option) \<Rightarrow> ul_edit list \<Rightarrow> 'l \<Rightarrow> 'l option" where
  "do_edits prepend replace delete [] l = Some l"
| "do_edits prepend replace delete (e # es) l =
     Option.bind (do_edit prepend replace delete e l) (do_edits prepend replace delete es)"

locale node_list =
  fixes rep :: "'l \<Rightarrow> nat list \<Rightarrow> bool"
    and prepend :: "'l \<Rightarrow> nat \<Rightarrow> nat \<Rightarrow> 'l option" and replace :: "'l \<Rightarrow> nat \<Rightarrow> nat \<Rightarrow> 'l option"
    and delete :: "'l \<Rightarrow> nat \<Rightarrow> 'l option"
  assumes rep_distinct: "rep l xs \<Longrightarrow> distinct xs"
    and prepend_rep: "rep l (us @ el # vs) \<Longrightarrow> add \<notin> set (us @ el # vs) \<Longrightarrow> \<exists>k. prepend l el add = Some k \<and> rep k (us @ add # el # vs)"
    and replace_rep: "rep l (us @ el # vs) \<Longrightarrow> add \<notin> set (us @ el # vs) \<Longrightarrow> \<exists>k. replace l el add = Some k \<and> rep k (us @ add # vs)"
    and delete_rep: "rep l (us @ el # vs) \<Longrightarrow> \<exists>k. delete l el = Some k \<and> rep k (us @ vs)"
begin

lemma edit_rep:
  assumes r: "rep l xs" and e: "spec_edit e xs = Some ys"
  shows "\<exists>k. do_edit prepend replace delete e l = Some k \<and> rep k ys"
proof -
  obtain el where "el \<in> set xs" and el: "el = (case e of Before el add \<Rightarrow> el | Instead el add \<Rightarrow> el | Remove el \<Rightarrow> el)"
    using e by (cases e) (auto simp: spec_edit_def split: if_splits)
  then obtain us vs where xs: "xs = us @ el # vs" "el \<notin> set us" by (auto dest: split_list_first)
  have vs: "el \<notin> set vs" using rep_distinct [OF r] xs by simp
  have tw: "takeWhile (\<lambda>x. x \<noteq> el) xs = us" "dropWhile (\<lambda>x. x \<noteq> el) xs = el # vs"
    unfolding xs(1) using xs(2) by (induction us) auto
  have mp: "map (\<lambda>x. if x = el then add else x) xs = us @ add # vs" for add
    using xs vs by (auto intro!: map_idI)
  have rm: "remove1 el xs = us @ vs" using xs by (simp add: remove1_append)
  show ?thesis
  proof (cases e)
    case (Before b add)
    with e el tw prepend_rep [of l us el vs add] r show ?thesis by (auto simp: spec_edit_def do_edit_def xs(1) split: if_splits)
  next
    case (Instead b add)
    with e el mp replace_rep [of l us el vs add] r show ?thesis by (auto simp: spec_edit_def do_edit_def xs(1) split: if_splits)
  next
    case (Remove b)
    with e el rm delete_rep [of l us el vs] r show ?thesis by (auto simp: spec_edit_def do_edit_def xs(1) split: if_splits)
  qed
qed

lemma edits_rep:
  "rep l xs \<Longrightarrow> spec_edits es xs = Some ys \<Longrightarrow> \<exists>k. do_edits prepend replace delete es l = Some k \<and> rep k ys"
proof (induction es arbitrary: l xs)
  case (Cons e es)
  then obtain zs where zs: "spec_edit e xs = Some zs" "spec_edits es zs = Some ys" by (auto simp: bind_eq_Some_conv)
  from edit_rep [OF Cons.prems(1) zs(1)] obtain k where "do_edit prepend replace delete e l = Some k" "rep k zs" by blast
  with Cons.IH [OF _ zs(2)] show ?case by simp
qed simp

end

interpretation lls: node_list ll_rep LL_PREPEND_ELEM LL_REPLACE_ELEM LL_DELETE
proof unfold_locales
  show "\<exists>k. LL_DELETE l el = Some k \<and> ll_rep k (us @ vs)" if "ll_rep l (us @ el # vs)" for l us el vs
  proof -
    have "remove1 el (us @ el # vs) = us @ vs" using that by (simp add: ll_rep_def remove1_append)
    then show ?thesis using ll_delete [OF that, of el] by simp
  qed
qed (simp add: ll_rep_def, rule ll_prepend_elem, assumption+, rule ll_replace, assumption+)

interpretation dls: node_list dl_rep DL_PREPEND_ELEM DL_REPLACE_ELEM DL_DELETE
  by unfold_locales (simp add: dl_rep_def ll_rep_def, rule dl_prepend_elem, assumption+, rule dl_replace, assumption+, rule dl_delete)

interpretation cdls: node_list cdl_rep CDL_PREPEND_ELEM CDL_REPLACE_ELEM CDL_DELETE
proof unfold_locales
  show "distinct xs" if "cdl_rep l xs" for l xs
    using that by (cases "xs = []") (simp_all add: cdl_rep_def ring_def)
qed (rule cdl_prepend_elem, assumption+, rule cdl_replace, assumption+, rule cdl_delete)

end
