(* ===== verification/Utsort.thy ===== *)
theory Utsort
  imports Utlist "HOL-Library.Multiset"
begin

text \<open>
  The merge sort of \<^verbatim>\<open>src/uthash/utlist.h\<close>, \<^verbatim>\<open>LL_SORT2\<close>, \<^verbatim>\<open>DL_SORT2\<close> and \<^verbatim>\<open>CDL_SORT2\<close>, on the links of
  \<^verbatim>\<open>Utlist\<close>, and \<^verbatim>\<open>HASH_SRT\<close> of \<^verbatim>\<open>src/uthash/uthash.h\<close>, which sorts the application order of a table. The four
  macros are one text up to the handling of \<^verbatim>\<open>prev\<close> and of the end of a circular list and the
  type of the counters, which is the first argument here. The result is \<^term>\<open>sort_key\<close> of the
  list: sorted, with the same nodes, and stable.
\<close>

subsection \<open>The macros\<close>

datatype ul_kind = LL | DL | CDL | HH

text \<open>\<open>ls_next k old h x\<close>: the node behind \<open>x\<close>; in a circular list the one before the old head is the last.\<close>

definition ls_next :: "ul_kind \<Rightarrow> uptr \<Rightarrow> ul_heap \<Rightarrow> nat \<Rightarrow> uptr" where
  "ls_next k old h x = (if k = CDL \<and> ul_next h x = old then None else ul_next h x)"

record ls_state =
  ls_h :: ul_heap
  ls_list :: uptr
  ls_tail :: uptr
  ls_p :: uptr
  ls_q :: uptr
  ls_psize :: nat
  ls_qsize :: nat

text \<open>Put \<open>e\<close> at the end of the list that is built.\<close>

definition ls_emit :: "ul_kind \<Rightarrow> nat \<Rightarrow> ls_state \<Rightarrow> ls_state" where
  "ls_emit k e s =
     (let s1 = (case ls_tail s of Some t \<Rightarrow> s\<lparr>ls_h := set_next t (Some e) (ls_h s)\<rparr> | None \<Rightarrow> s\<lparr>ls_list := Some e\<rparr>);
          s2 = (if k = LL then s1 else s1\<lparr>ls_h := set_prev e (ls_tail s1) (ls_h s1)\<rparr>)
      in s2\<lparr>ls_tail := Some e\<rparr>)"

definition ls_take_p :: "ul_kind \<Rightarrow> uptr \<Rightarrow> ls_state \<Rightarrow> ls_state option" where
  "ls_take_p k old s =
     map_option (\<lambda>e. ls_emit k e (s\<lparr>ls_p := ls_next k old (ls_h s) e, ls_psize := ls_psize s - 1\<rparr>)) (ls_p s)"

definition ls_take_q :: "ul_kind \<Rightarrow> uptr \<Rightarrow> ls_state \<Rightarrow> ls_state option" where
  "ls_take_q k old s =
     map_option (\<lambda>e. ls_emit k e (s\<lparr>ls_q := ls_next k old (ls_h s) e, ls_qsize := ls_qsize s - 1\<rparr>)) (ls_q s)"

text \<open>One round of the innermost loop.\<close>

definition ls_step :: "ul_kind \<Rightarrow> uptr \<Rightarrow> (nat \<Rightarrow> nat \<Rightarrow> int) \<Rightarrow> ls_state \<Rightarrow> ls_state option" where
  "ls_step k old cmp s =
     (if ls_psize s = 0 then ls_take_q k old s
      else if ls_qsize s = 0 \<or> ls_q s = None then ls_take_p k old s
      else case ls_p s of None \<Rightarrow> None
         | Some a \<Rightarrow> if cmp a (the (ls_q s)) \<le> 0 then ls_take_p k old s else ls_take_q k old s)"

partial_function (option) ls_merge :: "ul_kind \<Rightarrow> uptr \<Rightarrow> (nat \<Rightarrow> nat \<Rightarrow> int) \<Rightarrow> ls_state \<Rightarrow> ls_state option" where
  "ls_merge k old cmp s =
     (if ls_psize s > 0 \<or> ls_qsize s > 0 \<and> ls_q s \<noteq> None
      then Option.bind (ls_step k old cmp s) (ls_merge k old cmp)
      else Some s)"

text \<open>\<open>ls_split n q m\<close>: at most \<open>n\<close> nodes from \<open>q\<close> on, counted from \<open>m\<close>.\<close>

primrec ls_split :: "(nat \<Rightarrow> uptr) \<Rightarrow> nat \<Rightarrow> uptr \<Rightarrow> nat \<Rightarrow> (nat \<times> uptr) option" where
  "ls_split f 0 q m = Some (m, q)"
| "ls_split f (Suc n) q m =
     (case q of None \<Rightarrow> None
      | Some x \<Rightarrow> (case f x of None \<Rightarrow> Some (Suc m, None) | Some y \<Rightarrow> ls_split f n (Some y) (Suc m)))"

text \<open>The counters are \<^verbatim>\<open>int\<close>s in \<^verbatim>\<open>utlist.h\<close>, where an overflow is undefined, and \<^verbatim>\<open>unsigned\<close> in \<^verbatim>\<open>uthash.h\<close>.\<close>

definition ls_int :: "ul_kind \<Rightarrow> nat \<Rightarrow> nat option" where
  "ls_int k n = (if k = HH then Some (n mod 2 ^ 32) else if INT_MAX < n then None else Some n)"

text \<open>One pass: merge neighbouring runs of \<open>insize\<close> nodes; the number of merges.\<close>

partial_function (option) ls_pass :: "ul_kind \<Rightarrow> uptr \<Rightarrow> (nat \<Rightarrow> nat \<Rightarrow> int) \<Rightarrow> nat \<Rightarrow> nat \<Rightarrow> ls_state \<Rightarrow> (ls_state \<times> nat) option" where
  "ls_pass k old cmp insize nmerges s =
     (if ls_p s \<noteq> None
      then Option.bind (ls_int k (nmerges + 1)) (\<lambda>nmerges.
           Option.bind (ls_split (ls_next k old (ls_h s)) insize (ls_p s) 0) (\<lambda>r.
           Option.bind (ls_merge k old cmp (s\<lparr>ls_psize := fst r, ls_q := snd r, ls_qsize := insize\<rparr>)) (\<lambda>s1.
           ls_pass k old cmp insize nmerges (s1\<lparr>ls_p := ls_q s1\<rparr>))))
      else Some (s, nmerges))"

definition ls_finish :: "ul_kind \<Rightarrow> ls_state \<Rightarrow> ls_state option" where
  "ls_finish k s =
     (case k of
        LL \<Rightarrow> Some (case ls_tail s of Some t \<Rightarrow> s\<lparr>ls_h := set_next t None (ls_h s)\<rparr> | None \<Rightarrow> s)
      | DL \<Rightarrow> Option.bind (put_prev (ls_list s) (ls_tail s) (ls_h s)) (\<lambda>h1.
              map_option (\<lambda>h2. s\<lparr>ls_h := h2\<rparr>) (put_next (ls_tail s) None h1))
      | CDL \<Rightarrow> Option.bind (put_prev (ls_list s) (ls_tail s) (ls_h s)) (\<lambda>h1.
               map_option (\<lambda>h2. s\<lparr>ls_h := h2\<rparr>) (put_next (ls_tail s) (ls_list s) h1))
      | HH \<Rightarrow> Some (case ls_tail s of Some t \<Rightarrow> s\<lparr>ls_h := set_next t None (ls_h s)\<rparr> | None \<Rightarrow> s))"

text \<open>The length of a run doubles with every pass.\<close>

partial_function (option) ls_loop :: "ul_kind \<Rightarrow> (nat \<Rightarrow> nat \<Rightarrow> int) \<Rightarrow> nat \<Rightarrow> ul_list \<Rightarrow> ul_list option" where
  "ls_loop k cmp insize l =
     Option.bind (ls_pass k (snd l) cmp insize 0
       \<lparr>ls_h = fst l, ls_list = None, ls_tail = None, ls_p = snd l, ls_q = None, ls_psize = 0, ls_qsize = 0\<rparr>) (\<lambda>r.
     Option.bind (ls_finish k (fst r)) (\<lambda>s.
     Option.bind (ls_int k (insize * 2)) (\<lambda>insize.
       if snd r \<le> 1 then Some (ls_h s, ls_list s)
       else ls_loop k cmp insize (ls_h s, ls_list s))))"

definition ls_sort :: "ul_kind \<Rightarrow> (nat \<Rightarrow> nat \<Rightarrow> int) \<Rightarrow> ul_list \<Rightarrow> ul_list option" where
  "ls_sort k cmp l = (if snd l \<noteq> None then ls_loop k cmp 1 l else Some l)"

definition LL_SORT :: "ul_list \<Rightarrow> (nat \<Rightarrow> nat \<Rightarrow> int) \<Rightarrow> ul_list option" where
  "LL_SORT l cmp = ls_sort LL cmp l"

definition DL_SORT :: "ul_list \<Rightarrow> (nat \<Rightarrow> nat \<Rightarrow> int) \<Rightarrow> ul_list option" where
  "DL_SORT l cmp = ls_sort DL cmp l"

definition CDL_SORT :: "ul_list \<Rightarrow> (nat \<Rightarrow> nat \<Rightarrow> int) \<Rightarrow> ul_list option" where
  "CDL_SORT l cmp = ls_sort CDL cmp l"

subsection \<open>The lists that are built\<close>

fun smerge :: "(nat \<Rightarrow> int) \<Rightarrow> nat list \<Rightarrow> nat list \<Rightarrow> nat list" where
  "smerge key [] ys = ys"
| "smerge key (x # xs) [] = x # xs"
| "smerge key (x # xs) (y # ys) = (if key x \<le> key y then x # smerge key xs (y # ys) else y # smerge key (x # xs) ys)"

function spass :: "(nat \<Rightarrow> int) \<Rightarrow> nat \<Rightarrow> nat list \<Rightarrow> nat list" where
  "spass key n xs = (if xs = [] \<or> n = 0 then [] else smerge key (take n xs) (take n (drop n xs)) @ spass key n (drop (2 * n) xs))"
  by pat_completeness auto
termination by (relation "measure (\<lambda>(key, n, xs). length xs)") auto

declare spass.simps [simp del]

lemma mset_smerge [simp]: "mset (smerge key xs ys) = mset xs + mset ys"
  by (induction key xs ys rule: smerge.induct) simp_all

lemma set_smerge [simp]: "set (smerge key xs ys) = set xs \<union> set ys"
  by (induction key xs ys rule: smerge.induct) auto

lemma sorted_smerge: "sorted (map key xs) \<Longrightarrow> sorted (map key ys) \<Longrightarrow> sorted (map key (smerge key xs ys))"
  by (induction key xs ys rule: smerge.induct) auto

lemma filter_below: "sorted (map key (x # xs)) \<Longrightarrow> c < key x \<Longrightarrow> filter (\<lambda>y. c = key y) (x # xs) = []"
  by (auto simp: filter_empty_conv)

lemma stable_smerge:
  "sorted (map key xs) \<Longrightarrow> sorted (map key ys) \<Longrightarrow>
   filter (\<lambda>y. c = key y) (smerge key xs ys) = filter (\<lambda>y. c = key y) xs @ filter (\<lambda>y. c = key y) ys"
proof (induction key xs ys rule: smerge.induct)
  case (3 key x xs y ys)
  show ?case
  proof (cases "key x \<le> key y")
    case False
    then have "filter (\<lambda>y. c = key y) (x # xs) = []" if "c = key y" using filter_below [OF "3.prems"(1)] that by simp
    with False 3 show ?thesis by auto
  qed (use 3 in auto)
qed simp_all

lemma smerge_sort: "smerge key (sort_key key xs) (sort_key key ys) = sort_key key (xs @ ys)"
proof (rule properties_for_sort_key [symmetric])
  show "filter (\<lambda>x. key k = key x) (smerge key (sort_key key xs) (sort_key key ys)) = filter (\<lambda>x. key k = key x) (xs @ ys)"
    for k
  proof -
    have e: "(\<lambda>x. key k = key x) = (\<lambda>x. key x = key k)" by auto
    have "filter (\<lambda>x. key k = key x) (sort_key key zs) = filter (\<lambda>x. key k = key x) zs" for zs
      unfolding e by (rule sort_key_stable)
    then show ?thesis by (simp add: stable_smerge)
  qed
qed (simp_all add: sorted_smerge)

text \<open>Every run of \<open>n\<close> nodes is sorted.\<close>

function csort :: "(nat \<Rightarrow> int) \<Rightarrow> nat \<Rightarrow> nat list \<Rightarrow> nat list" where
  "csort key n xs = (if xs = [] \<or> n = 0 then [] else sort_key key (take n xs) @ csort key n (drop n xs))"
  by pat_completeness auto
termination by (relation "measure (\<lambda>(key, n, xs). length xs)") auto

declare csort.simps [simp del]

lemma csort_Nil [simp]: "csort key n [] = []"
  by (simp add: csort.simps)

lemma csort_1: "csort key 1 xs = xs"
  by (induction xs) (simp_all add: csort.simps [of _ _ "_ # _"])

lemma csort_all: "length xs \<le> n \<Longrightarrow> csort key n xs = sort_key key xs"
  by (cases "xs = []") (auto simp: csort.simps [of key n xs])

lemma length_csort: "0 < n \<Longrightarrow> length (csort key n xs) = length xs"
proof (induction key n xs rule: csort.induct)
  case (1 key n xs)
  then show ?case by (cases "xs = []") (auto simp: csort.simps [of key n xs])
qed

lemma set_csort: "0 < n \<Longrightarrow> set (csort key n xs) = set xs"
proof (induction key n xs rule: csort.induct)
  case (1 key n xs)
  have "set xs = set (take n xs) \<union> set (drop n xs)" by (metis append_take_drop_id set_append)
  with 1 show ?case by (cases "xs = []") (simp_all add: csort.simps [of key n xs])
qed

lemma mset_csort: "0 < n \<Longrightarrow> mset (csort key n xs) = mset xs"
proof (induction key n xs rule: csort.induct)
  case (1 key n xs)
  have "mset xs = mset (take n xs) + mset (drop n xs)" by (metis append_take_drop_id mset_append)
  with 1 show ?case by (cases "xs = []") (simp_all add: csort.simps [of key n xs])
qed

lemma distinct_csort: "0 < n \<Longrightarrow> distinct (csort key n xs) \<longleftrightarrow> distinct xs"
  by (rule mset_eq_imp_distinct_iff) (rule mset_csort)

lemma take_drop_csort:
  assumes "0 < n"
  shows "take n (csort key n xs) = sort_key key (take n xs) \<and> drop n (csort key n xs) = csort key n (drop n xs)"
proof (cases "xs = []")
  case False
  with assms have "csort key n xs = sort_key key (take n xs) @ csort key n (drop n xs)" by (simp add: csort.simps)
  then show ?thesis by (cases "n \<le> length xs") (simp_all add: min_def)
qed simp

lemma spass_csort: "0 < n \<Longrightarrow> spass key n (csort key n xs) = csort key (2 * n) xs"
proof (induction "length xs" arbitrary: xs rule: less_induct)
  case less
  show ?case
  proof (cases "xs = []")
    case True
    then show ?thesis by (simp add: spass.simps)
  next
    case False
    then have ne: "csort key n xs \<noteq> []" using length_csort [OF less.prems, of key xs] by auto
    note td = take_drop_csort [OF less.prems, of key xs] take_drop_csort [OF less.prems, of key "drop n xs"]
    have d: "drop (2 * n) (csort key n xs) = csort key n (drop (2 * n) xs)"
      using td by (simp add: mult_2 flip: drop_drop)
    have "spass key n (csort key n xs) = sort_key key (take n xs @ take n (drop n xs)) @ spass key n (csort key n (drop (2 * n) xs))"
      using ne less.prems td by (subst spass.simps) (simp add: d smerge_sort)
    also have "take n xs @ take n (drop n xs) = take (2 * n) xs" by (simp add: take_add mult_2)
    also have "spass key n (csort key n (drop (2 * n) xs)) = csort key (2 * n) (drop (2 * n) xs)"
      using False less.prems by (intro less.hyps) auto
    finally show ?thesis using False less.prems by (simp add: csort.simps [of key "2 * n" xs])
  qed
qed

subsection \<open>The merge on the links\<close>

text \<open>\<open>built k s out\<close>: the list under construction holds \<open>out\<close>; the link of its last node is not set yet.\<close>

definition built :: "ul_kind \<Rightarrow> ls_state \<Rightarrow> nat list \<Rightarrow> bool" where
  "built k s out \<longleftrightarrow>
     (if out = [] then ls_list s = None \<and> ls_tail s = None
      else ls_tail s = Some (last out) \<and> chain (ul_next (ls_h s)) (ls_list s) (butlast out) (Some (last out))) \<and>
     (k \<noteq> LL \<longrightarrow> prevs (ul_prev (ls_h s)) None out)"

lemma ls_next_upd: "ls_next k old (set_next t v h) = (ls_next k old h)(t := if k = CDL \<and> v = old then None else v)"
  by (auto simp: ls_next_def)

lemma ls_next_prev [simp]: "ls_next k old (set_prev t v h) = ls_next k old h"
  by (auto simp: ls_next_def)

lemma emit_fields [simp]:
  "ls_p (ls_emit k e s) = ls_p s" "ls_q (ls_emit k e s) = ls_q s" "ls_psize (ls_emit k e s) = ls_psize s"
  "ls_qsize (ls_emit k e s) = ls_qsize s" "ls_tail (ls_emit k e s) = Some e"
  by (auto simp: ls_emit_def Let_def split: option.splits)

lemma built_emit:
  assumes b: "built k s out" and d: "distinct (out @ [e])"
  shows "built k (ls_emit k e s) (out @ [e])"
proof (cases out rule: rev_cases)
  case Nil
  with b show ?thesis by (auto simp: built_def ls_emit_def Let_def)
next
  case (snoc us t)
  with b have t: "ls_tail s = Some t" "chain (ul_next (ls_h s)) (ls_list s) us (Some t)" by (auto simp: built_def)
  with b d snoc show ?thesis by (auto simp: built_def ls_emit_def Let_def chain_append prevs_append butlast_append)
qed

lemma emit_chain:
  assumes b: "built k s out" and d: "set out \<inter> set zs = {}"
  shows "chain (ls_next k old (ls_h (ls_emit k e s))) p zs r = chain (ls_next k old (ls_h s)) p zs r"
proof (cases "out = []")
  case True
  with b show ?thesis by (simp add: built_def ls_emit_def Let_def)
next
  case False
  then have "ls_tail s = Some (last out)" "last out \<in> set out" using b by (simp_all add: built_def)
  moreover from this d have "last out \<notin> set zs" by blast
  ultimately have "ls_tail s = Some (last out)" "last out \<notin> set zs" by simp_all
  then show ?thesis by (auto simp: ls_emit_def Let_def ls_next_upd)
qed

text \<open>In the middle of a merge: \<open>P\<close> and \<open>Q\<close> are still to come.\<close>

definition merging :: "ul_kind \<Rightarrow> uptr \<Rightarrow> ls_state \<Rightarrow> nat list \<Rightarrow> nat list \<Rightarrow> nat list \<Rightarrow> bool" where
  "merging k old s out P Q \<longleftrightarrow> built k s out \<and> distinct (out @ P @ Q) \<and> ls_psize s = length P \<and>
     (\<exists>r. chain (ls_next k old (ls_h s)) (ls_p s) P r) \<and> chain (ls_next k old (ls_h s)) (ls_q s) Q None"

lemma merging_q: "merging k old s out P Q \<Longrightarrow> ls_q s = None \<longleftrightarrow> Q = []"
  by (cases Q) (auto simp: merging_def)

lemma take_p_ok:
  assumes "merging k old s out (a # P) Q"
  shows "\<exists>s'. ls_take_p k old s = Some s' \<and> merging k old s' (out @ [a]) P Q \<and> ls_qsize s' = ls_qsize s"
proof -
  let ?s = "s\<lparr>ls_p := ls_next k old (ls_h s) a, ls_psize := ls_psize s - 1\<rparr>"
  have b: "built k ?s out" and d: "distinct (out @ a # P @ Q)" and a: "ls_p s = Some a" using assms by (auto simp: merging_def built_def)
  have "built k (ls_emit k a ?s) (out @ [a])" using b d by (intro built_emit) auto
  moreover have "set out \<inter> set P = {}" "set out \<inter> set Q = {}" using d by auto
  ultimately have "merging k old (ls_emit k a ?s) (out @ [a]) P Q"
    using assms emit_chain [OF b, of P old a] emit_chain [OF b, of Q old a] by (auto simp: merging_def)
  with a show ?thesis by (auto simp: ls_take_p_def)
qed

lemma take_q_ok:
  assumes "merging k old s out P (b # Q)"
  shows "\<exists>s'. ls_take_q k old s = Some s' \<and> merging k old s' (out @ [b]) P Q \<and> ls_qsize s' = ls_qsize s - 1"
proof -
  let ?s = "s\<lparr>ls_q := ls_next k old (ls_h s) b, ls_qsize := ls_qsize s - 1\<rparr>"
  have b: "built k ?s out" and d: "distinct (out @ P @ b # Q)" and a: "ls_q s = Some b" using assms by (auto simp: merging_def built_def)
  have "built k (ls_emit k b ?s) (out @ [b])" using b d by (intro built_emit) auto
  moreover have "set out \<inter> set P = {}" "set out \<inter> set Q = {}" using d by auto
  ultimately have "merging k old (ls_emit k b ?s) (out @ [b]) P Q"
    using assms emit_chain [OF b, of P old b] emit_chain [OF b, of Q old b] by (auto simp: merging_def)
  with a show ?thesis by (auto simp: ls_take_q_def)
qed

text \<open>The comparison orders the nodes by a key.\<close>

definition by_key :: "(nat \<Rightarrow> nat \<Rightarrow> int) \<Rightarrow> (nat \<Rightarrow> int) \<Rightarrow> nat list \<Rightarrow> bool" where
  "by_key cmp key xs \<longleftrightarrow> (\<forall>a \<in> set xs. \<forall>b \<in> set xs. cmp a b \<le> 0 \<longleftrightarrow> key a \<le> key b)"

lemma ls_merge_ok:
  "merging k old s out P Q \<Longrightarrow> by_key cmp key (P @ Q) \<Longrightarrow>
   \<exists>s'. ls_merge k old cmp s = Some s' \<and> merging k old s' (out @ smerge key P (take (ls_qsize s) Q)) [] (drop (ls_qsize s) Q)"
proof (induction "length P + ls_qsize s" arbitrary: s out P Q rule: less_induct)
  case less
  note m = less.prems(1)
  have ps: "ls_psize s = length P" using m by (simp add: merging_def)
  have go: "ls_psize s > 0 \<or> ls_qsize s > 0 \<and> ls_q s \<noteq> None \<Longrightarrow>
    ls_step k old cmp s = Some s1 \<Longrightarrow> ls_merge k old cmp s = ls_merge k old cmp s1" for s1
    by (subst ls_merge.simps) simp
  have bk: "by_key cmp key (xs @ ys)" if "set xs \<subseteq> set P" "set ys \<subseteq> set Q" for xs ys
    using less.prems(2) that by (auto simp: by_key_def)
  consider "P = []" "ls_qsize s = 0 \<or> Q = []"
    | b Q' where "P = []" "Q = b # Q'" "0 < ls_qsize s"
    | a P' where "P = a # P'" "ls_qsize s = 0 \<or> Q = []"
    | a P' b Q' where "P = a # P'" "Q = b # Q'" "0 < ls_qsize s"
    by (cases P; cases Q) auto
  then show ?case
  proof cases
    case 1
    then have "ls_merge k old cmp s = Some s" using ps merging_q [OF m] by (subst ls_merge.simps) auto
    with 1 m show ?thesis by auto
  next
    case 2
    obtain s1 where s1: "ls_take_q k old s = Some s1" "merging k old s1 (out @ [b]) [] Q'" "ls_qsize s1 = ls_qsize s - 1"
      using take_q_ok [of k old s out "[]" b Q'] m 2 by auto
    have "ls_merge k old cmp s = ls_merge k old cmp s1"
      using 2 ps s1(1) merging_q [OF m] by (intro go) (auto simp: ls_step_def)
    then show ?thesis using less.hyps [OF _ s1(2) bk] 2 s1(3) by (cases "ls_qsize s") (auto simp: neq_Nil_conv)
  next
    case 3
    obtain s1 where s1: "ls_take_p k old s = Some s1" "merging k old s1 (out @ [a]) P' Q" "ls_qsize s1 = ls_qsize s"
      using take_p_ok [of k old s out a P' Q] m 3 by auto
    have "ls_merge k old cmp s = ls_merge k old cmp s1"
      using 3 ps s1(1) merging_q [OF m] by (intro go) (auto simp: ls_step_def)
    moreover have "smerge key (a # P') (take (ls_qsize s) Q) = a # smerge key P' (take (ls_qsize s) Q)"
      using 3(2) by (cases P') auto
    ultimately show ?thesis using less.hyps [OF _ s1(2) bk] 3 s1(3) by auto
  next
    case 4
    obtain n where n: "ls_qsize s = Suc n" using 4(3) by (cases "ls_qsize s") auto
    have ab: "ls_p s = Some a" "ls_q s = Some b" using m 4 by (auto simp: merging_def)
    have cmp: "cmp a b \<le> 0 \<longleftrightarrow> key a \<le> key b" using less.prems(2) 4 by (auto simp: by_key_def)
    show ?thesis
    proof (cases "key a \<le> key b")
      case True
      obtain s1 where s1: "ls_take_p k old s = Some s1" "merging k old s1 (out @ [a]) P' Q" "ls_qsize s1 = ls_qsize s"
        using take_p_ok [of k old s out a P' Q] m 4 by auto
      have "ls_merge k old cmp s = ls_merge k old cmp s1"
        using 4 ps s1(1) ab cmp True by (intro go) (auto simp: ls_step_def)
      then show ?thesis using less.hyps [OF _ s1(2) bk] 4 s1(3) n True by auto
    next
      case False
      obtain s1 where s1: "ls_take_q k old s = Some s1" "merging k old s1 (out @ [b]) P Q'" "ls_qsize s1 = ls_qsize s - 1"
        using take_q_ok [of k old s out P b Q'] m 4 by auto
      have "ls_merge k old cmp s = ls_merge k old cmp s1"
        using 4 ps s1(1) ab cmp False by (intro go) (auto simp: ls_step_def)
      then show ?thesis using less.hyps [OF _ s1(2) bk] 4 s1(3) n False by auto
    qed
  qed
qed

subsection \<open>A pass over the list\<close>

lemma ls_split_ok:
  "chain f q xs None \<Longrightarrow> xs \<noteq> [] \<or> n = 0 \<Longrightarrow>
   \<exists>r. ls_split f n q m = Some (m + length (take n xs), r) \<and> chain f q (take n xs) r \<and> chain f r (drop n xs) None"
proof (induction n arbitrary: q m xs)
  case (Suc n)
  then obtain x zs where xs: "xs = x # zs" "q = Some x" "chain f (f x) zs None" by (cases xs) auto
  show ?case
  proof (cases zs)
    case Nil
    with xs show ?thesis by simp
  next
    case (Cons z ws)
    with xs(3) have "f x = Some z" by simp
    with Suc.IH [of "f x" zs "Suc m"] xs Cons show ?thesis by auto
  qed
qed simp

definition nruns :: "nat \<Rightarrow> nat \<Rightarrow> nat" where
  "nruns n l = (l + 2 * n - 1) div (2 * n)"

lemma nruns_0 [simp]: "0 < n \<Longrightarrow> nruns n 0 = 0"
  by (simp add: nruns_def)

lemma nruns_step: "0 < n \<Longrightarrow> 0 < l \<Longrightarrow> nruns n l = Suc (nruns n (l - 2 * n))"
proof (cases "l \<le> 2 * n")
  case True
  moreover assume "0 < n" "0 < l"
  ultimately show ?thesis by (simp add: nruns_def div_nat_eqI)
next
  case False
  moreover assume "0 < n" "0 < l"
  ultimately have "l + 2 * n - 1 = (l - 2 * n + 2 * n - 1) + 2 * n" by simp
  with \<open>0 < n\<close> show ?thesis unfolding nruns_def by (simp only: div_add_self2)
qed

lemma nruns_le: "0 < n \<Longrightarrow> nruns n l \<le> l"
proof (induction l rule: less_induct)
  case (less l)
  show ?case
  proof (cases "l = 0")
    case False
    with less.prems have "l - 2 * n < l" by simp
    from less.IH [OF this less.prems] \<open>l - 2 * n < l\<close> have "Suc (nruns n (l - 2 * n)) \<le> l" by linarith
    with nruns_step [OF less.prems] False show ?thesis by simp
  qed (use less.prems in simp)
qed

lemma nruns_one: "0 < n \<Longrightarrow> 0 < l \<Longrightarrow> nruns n l \<le> 1 \<longleftrightarrow> l \<le> 2 * n"
  using nruns_step [of n l] nruns_step [of n "l - 2 * n"] by (cases "l \<le> 2 * n") auto

lemma set_spass: "0 < n \<Longrightarrow> set (spass key n xs) = set xs"
proof (induction key n xs rule: spass.induct)
  case (1 key n xs)
  have "set xs = set (take n xs) \<union> (set (take n (drop n xs)) \<union> set (drop n (drop n xs)))"
    by (metis append_take_drop_id set_append)
  with 1 show ?case by (cases "xs = []") (simp_all add: spass.simps [of key n] mult_2 Un_assoc)
qed

lemma ls_int_id: "n \<le> INT_MAX \<Longrightarrow> ls_int k n = Some n"
  by (simp add: ls_int_def INT_MAX_def)

lemma ls_pass_ok:
  "built k s out \<Longrightarrow> distinct (out @ xs) \<Longrightarrow> chain (ls_next k old (ls_h s)) (ls_p s) xs None \<Longrightarrow> by_key cmp key xs \<Longrightarrow> 0 < n \<Longrightarrow>
   m + length xs < INT_MAX \<Longrightarrow>
   \<exists>s'. ls_pass k old cmp n m s = Some (s', m + nruns n (length xs)) \<and> built k s' (out @ spass key n xs)"
proof (induction "length xs" arbitrary: xs s out m rule: less_induct)
  case less
  show ?case
  proof (cases "xs = []")
    case True
    with less.prems have "ls_pass k old cmp n m s = Some (s, m)" by (subst ls_pass.simps) simp
    with True less.prems show ?thesis by (simp add: spass.simps)
  next
    case False
    let ?P = "take n xs" and ?Q = "drop n xs"
    have p: "ls_p s \<noteq> None" using False less.prems by (cases xs; simp)
    have mi: "ls_int k (m + 1) = Some (m + 1)"
      using False less.prems(6) by (intro ls_int_id) (cases xs; simp)
    obtain r where r: "ls_split (ls_next k old (ls_h s)) n (ls_p s) 0 = Some (length ?P, r)"
      "chain (ls_next k old (ls_h s)) (ls_p s) ?P r" "chain (ls_next k old (ls_h s)) r ?Q None"
      using ls_split_ok [OF less.prems(3), of n 0] False by auto
    let ?s = "s\<lparr>ls_psize := length ?P, ls_q := r, ls_qsize := n\<rparr>"
    have "merging k old ?s out ?P ?Q"
      using less.prems(1,2) r by (auto simp: merging_def built_def)
    moreover have "by_key cmp key (?P @ ?Q)" using less.prems(4) by simp
    ultimately obtain s1 where s1: "ls_merge k old cmp ?s = Some s1"
      "merging k old s1 (out @ smerge key ?P (take n ?Q)) [] (drop n ?Q)"
      using ls_merge_ok [of k old ?s out ?P ?Q cmp key] by auto
    have dd: "drop n ?Q = drop (2 * n) xs" by (simp add: mult_2)
    let ?s1 = "s1\<lparr>ls_p := ls_q s1\<rparr>" and ?o = "out @ smerge key ?P (take n ?Q)"
    have "built k ?s1 ?o" "distinct (?o @ drop (2 * n) xs)" "chain (ls_next k old (ls_h ?s1)) (ls_p ?s1) (drop (2 * n) xs) None"
      using s1(2) unfolding dd by (auto simp: merging_def built_def)
    moreover have "by_key cmp key (drop (2 * n) xs)" using less.prems(4) by (auto simp: by_key_def dest: in_set_dropD)
    moreover have "length (drop (2 * n) xs) < length xs" "m + 1 + length (drop (2 * n) xs) < INT_MAX"
      using False less.prems(5,6) by (cases xs; simp)+
    ultimately obtain s' where s': "ls_pass k old cmp n (m + 1) ?s1 = Some (s', m + 1 + nruns n (length (drop (2 * n) xs)))"
      "built k s' (?o @ spass key n (drop (2 * n) xs))"
      using less.hyps [of "drop (2 * n) xs" ?s1 ?o "m + 1"] less.prems(5) by blast
    have "ls_pass k old cmp n m s = ls_pass k old cmp n (m + 1) ?s1"
      using p mi r(1) s1(1) by (subst ls_pass.simps) simp
    moreover have "m + 1 + nruns n (length (drop (2 * n) xs)) = m + nruns n (length xs)"
      using nruns_step [of n "length xs"] False less.prems(5) by simp
    moreover have "spass key n xs = smerge key ?P (take n ?Q) @ spass key n (drop (2 * n) xs)"
      using False less.prems(5) by (subst spass.simps) simp
    ultimately show ?thesis using s' by auto
  qed
qed

subsection \<open>The sort\<close>

definition ul_rep :: "ul_kind \<Rightarrow> ul_list \<Rightarrow> nat list \<Rightarrow> bool" where
  "ul_rep k l xs = (case k of LL \<Rightarrow> ll_rep l xs | DL \<Rightarrow> dl_rep l xs | CDL \<Rightarrow> cdl_rep l xs
     | HH \<Rightarrow> ll_rep l xs \<and> prevs (ul_prev (fst l)) None xs)"

lemma rep_chain: "ul_rep k l xs \<Longrightarrow> distinct xs \<and> chain (ls_next k (snd l) (fst l)) (snd l) xs None"
proof -
  assume r: "ul_rep k l xs"
  have "ls_next CDL (snd l) (fst l) = cdl_next l" by (auto simp: ls_next_def cdl_next_def)
  with r cdl_rep_chain [of l xs] show ?thesis
    by (cases k; cases "xs = []") (auto simp: ul_rep_def dl_rep_def ll_rep_def cdl_rep_def ring_def ls_next_def [abs_def])
qed

lemma finish_ok:
  assumes b: "built k s out" and d: "distinct out" "out \<noteq> []"
  shows "\<exists>s'. ls_finish k s = Some s' \<and> ul_rep k (ls_h s', ls_list s') out"
proof (cases out rule: rev_cases)
  case (snoc us t)
  from d(2) obtain x zs where x: "out = x # zs" by (metis list.exhaust)
  have t: "ls_tail s = Some t" "chain (ul_next (ls_h s)) (ls_list s) us (Some t)" "t \<notin> set us" using b d snoc by (auto simp: built_def)
  have hd: "ls_list s = Some x" using t(2) x snoc by (cases us) auto
  have pr: "k \<noteq> LL \<Longrightarrow> prevs ((ul_prev (ls_h s))(x := Some t)) (Some t) out" using b d x by (auto simp: built_def)
  have ch: "chain ((ul_next (ls_h s))(t := r)) (ls_list s) out r" for r using t snoc by (auto simp: chain_append)
  have l: "last out = t" using snoc by simp
  have l': "List.hd out = x" using x by simp
  show ?thesis
  proof (cases k)
    case LL
    with t d ch show ?thesis by (simp add: ls_finish_def ul_rep_def ll_rep_def)
  next
    case HH
    with t d ch b show ?thesis by (simp add: ls_finish_def ul_rep_def ll_rep_def built_def)
  next
    case DL
    with t d ch hd pr l show ?thesis
      by (simp add: ls_finish_def ul_rep_def dl_rep_def ll_rep_def put_prev_def put_next_def)
  next
    case CDL
    with t d ch [of "Some x"] hd pr l l' show ?thesis
      by (simp add: ls_finish_def ul_rep_def cdl_rep_def ring_def put_prev_def put_next_def)
  qed
qed (use d in simp)

lemma ls_loop_ok:
  "ul_rep k l (csort key n xs) \<Longrightarrow> xs \<noteq> [] \<Longrightarrow> 0 < n \<Longrightarrow> by_key cmp key xs \<Longrightarrow> n * 2 \<le> INT_MAX \<Longrightarrow> 2 * length xs \<le> INT_MAX \<Longrightarrow>
   \<exists>l'. ls_loop k cmp n l = Some l' \<and> ul_rep k l' (sort_key key xs)"
proof (induction "length xs - n" arbitrary: n l rule: less_induct)
  case less
  let ?ys = "csort key n xs"
  let ?s = "\<lparr>ls_h = fst l, ls_list = None, ls_tail = None, ls_p = snd l, ls_q = None, ls_psize = 0, ls_qsize = 0\<rparr>"
  have len: "length ?ys = length xs" using less.prems(3) by (rule length_csort)
  have y: "?ys \<noteq> []" using len less.prems(2) by auto
  have "built k ?s []" by (simp add: built_def)
  moreover have "by_key cmp key ?ys" using less.prems(4) set_csort [OF less.prems(3)] by (simp add: by_key_def)
  moreover have "0 + length ?ys < INT_MAX" using len less.prems(2,6) by (cases xs) auto
  ultimately obtain s1 where s1: "ls_pass k (snd l) cmp n 0 ?s = Some (s1, nruns n (length xs))" "built k s1 (spass key n ?ys)"
    using ls_pass_ok [of k ?s "[]" ?ys "snd l" cmp key n 0] rep_chain [OF less.prems(1)] less.prems(3) len by auto
  have sp: "spass key n ?ys = csort key (2 * n) xs" using less.prems(3) by (rule spass_csort)
  have "distinct (csort key (2 * n) xs)"
    using rep_chain [OF less.prems(1)] less.prems(3) by (simp add: distinct_csort)
  then obtain s2 where s2: "ls_finish k s1 = Some s2" "ul_rep k (ls_h s2, ls_list s2) (csort key (2 * n) xs)"
    using finish_ok [of k s1 "csort key (2 * n) xs"] s1(2) sp length_csort [of "2 * n" key xs] less.prems(2,3) by fastforce
  have st: "ls_loop k cmp n l = (if nruns n (length xs) \<le> 1 then Some (ls_h s2, ls_list s2) else ls_loop k cmp (n * 2) (ls_h s2, ls_list s2))"
    using s1(1) s2(1) ls_int_id [OF less.prems(5), of k] by (subst ls_loop.simps) simp
  show ?case
  proof (cases "length xs \<le> 2 * n")
    case True
    then have "nruns n (length xs) \<le> 1" using nruns_one less.prems(2,3) by blast
    with st s2(2) csort_all [OF True, of key] show ?thesis by auto
  next
    case False
    then have n: "\<not> nruns n (length xs) \<le> 1" using nruns_one less.prems(2,3) by blast
    have "length xs - n * 2 < length xs - n" using False less.prems(3) by simp
    moreover have "n * 2 * 2 \<le> INT_MAX" using False less.prems(6) by simp
    ultimately show ?thesis
      using less.hyps [of "n * 2" "(ls_h s2, ls_list s2)"] s2(2) less.prems st n by (simp add: mult.commute)
  qed
qed

lemma ls_sort_ok:
  assumes "ul_rep k l xs" "by_key cmp key xs" "2 * length xs \<le> INT_MAX"
  shows "\<exists>l'. ls_sort k cmp l = Some l' \<and> ul_rep k l' (sort_key key xs)"
proof (cases "xs = []")
  case True
  with assms(1) have "snd l = None" by (cases k) (auto simp: ul_rep_def dl_rep_def ll_rep_def cdl_rep_def)
  with True assms(1) show ?thesis by (simp add: ls_sort_def)
next
  case False
  have "snd l \<noteq> None" using rep_chain [OF assms(1)] False by (cases xs) auto
  moreover have "ul_rep k l (csort key 1 xs)" using assms(1) unfolding csort_1 .
  ultimately show ?thesis
    using ls_loop_ok [of k l key 1 xs cmp] False assms(2,3) by (auto simp: ls_sort_def INT_MAX_def)
qed

end
