(* ===== verification/Hashsort.thy ===== *)
theory Hashsort
  imports Utsort Uthash
begin

text \<open>
  \<^verbatim>\<open>HASH_SORT\<close> of \<^verbatim>\<open>src/uthash/uthash.h\<close>: the application order of a table is written out as links, sorted
  by the merge sort of \<^verbatim>\<open>Utsort\<close> and read back. The buckets do not change, and neither does any lookup.
  And \<^verbatim>\<open>HASH_REPLACE\<close>: an element takes the place of one with the same key.
\<close>

subsection \<open>The macro\<close>

text \<open>The links \<^verbatim>\<open>hh.next\<close> and \<^verbatim>\<open>hh.prev\<close> of the elements \<open>xs\<close>.\<close>

definition links_of :: "nat list \<Rightarrow> ul_list" where
  "links_of xs = (\<lparr>ul_next = map_of (zip xs (tl xs)), ul_prev = map_of (zip (tl xs) xs)\<rparr>, if xs = [] then None else Some (hd xs))"

partial_function (option) ul_nodes :: "ul_heap \<Rightarrow> uptr \<Rightarrow> nat list option" where
  "ul_nodes h p = (case p of None \<Rightarrow> Some [] | Some x \<Rightarrow> Option.bind (ul_nodes h (ul_next h x)) (\<lambda>xs. Some (x # xs)))"

definition HASH_SRT :: "('v hent \<Rightarrow> 'v hent \<Rightarrow> int) \<Rightarrow> 'v UT_hash_table \<Rightarrow> 'v UT_hash_table option" where
  "HASH_SRT cmp t =
     (if ht_app t = [] then Some t
      else let ent = (\<lambda>i. the (ent_of (ht_app t) i))
           in Option.bind (ls_sort HH (\<lambda>a b. cmp (ent a) (ent b)) (links_of (map h_id (ht_app t)))) (\<lambda>l.
              map_option (\<lambda>is. t\<lparr>ht_app := map ent is\<rparr>) (ul_nodes (fst l) (snd l))))"

subsection \<open>Links and lists\<close>

lemma links_next: "distinct xs \<Longrightarrow> chain (map_of (zip xs (tl xs))) (if xs = [] then None else Some (hd xs)) xs None"
proof (induction xs)
  case (Cons x xs)
  show ?case
  proof (cases xs)
    case (Cons y ys)
    with Cons.IH Cons.prems have "chain (map_of (zip xs (tl xs))) (Some y) xs None" by simp
    then have "chain ((map_of (zip xs (tl xs)))(x := Some y)) (Some y) xs None" using Cons.prems by simp
    moreover have "map_of (zip (x # xs) (tl (x # xs))) = (map_of (zip xs (tl xs)))(x := Some y)" using Cons by simp
    ultimately show ?thesis by (simp del: fun_upd_apply add: fun_upd_same)
  qed simp
qed simp

lemma links_prev: "distinct (p # ys) \<Longrightarrow> prevs (map_of (zip ys (p # ys))) (Some p) ys"
proof (induction ys arbitrary: p)
  case (Cons y ys)
  then have "prevs (map_of (zip ys (y # ys))) (Some y) ys" by simp
  then have "prevs ((map_of (zip ys (y # ys)))(y := Some p)) (Some y) ys" using Cons.prems by simp
  then show ?case by (simp del: fun_upd_apply add: fun_upd_same)
qed simp

lemma links_of_rep: "distinct xs \<Longrightarrow> ul_rep HH (links_of xs) xs"
proof -
  assume d: "distinct xs"
  have "prevs (map_of (zip (tl xs) xs)) None xs"
  proof (cases xs)
    case (Cons x ys)
    then have "map_of (zip ys (x # ys)) x = None" using d by (auto simp: map_of_eq_None_iff dest: set_zip_leftD)
    with links_prev [of x ys] d Cons show ?thesis by simp
  qed simp
  with links_next [OF d] d show ?thesis by (simp add: ul_rep_def ll_rep_def links_of_def)
qed

lemma ul_nodes_chain: "chain (ul_next h) p xs None \<Longrightarrow> ul_nodes h p = Some xs"
proof (induction xs arbitrary: p)
  case Nil
  then show ?case by (subst ul_nodes.simps) simp
next
  case (Cons x xs)
  then show ?case by (subst ul_nodes.simps) simp
qed

lemma map_insort: "map f (insort_key (\<lambda>x. key (f x)) x xs) = insort_key key (f x) (map f xs)"
  by (induction xs) simp_all

lemma map_sort_by: "map f (sort_key (\<lambda>x. key (f x)) xs) = sort_key key (map f xs)"
  by (induction xs) (simp_all add: map_insort)

subsection \<open>The table afterwards\<close>

lemma ent_of_same: "distinct (map h_id es) \<Longrightarrow> mset es' = mset es \<Longrightarrow> ent_of es' i = ent_of es i"
proof -
  assume d: "distinct (map h_id es)" and m: "mset es' = mset es"
  then have s: "set es' = set es" and d': "distinct (map h_id es')"
    by (auto dest: mset_eq_setD) (metis mset_map mset_eq_imp_distinct_iff)
  show ?thesis
  proof (cases "ent_of es i")
    case None
    with s ent_of_None_iff [of es' i] ent_of_None_iff [of es i] show ?thesis by simp
  next
    case (Some e)
    then have "ent_of es' i = Some e" using s ent_of_Some_iff [OF d] ent_of_Some_iff [OF d'] by simp
    with Some show ?thesis by simp
  qed
qed

lemma find_bkt_same: "(\<And>i. ent_of es' i = ent_of es i) \<Longrightarrow> HASH_FIND_IN_BKT es' is key = HASH_FIND_IN_BKT es is key"
  by (induction es "is" key rule: HASH_FIND_IN_BKT.induct) (auto split: option.splits)

lemma reorder_ok:
  assumes i: "hash_inv t" and m: "mset es = mset (ht_app t)"
  shows "hash_inv (t\<lparr>ht_app := es\<rparr>)" "HASH_FIND (t\<lparr>ht_app := es\<rparr>) k = HASH_FIND t k"
proof -
  have s: "set es = set (ht_app t)" "es = [] \<longleftrightarrow> ht_app t = []" "length es = length (ht_app t)"
    using m by (auto dest: mset_eq_setD mset_eq_length)
  have d: "distinct (map h_id es) \<longleftrightarrow> distinct (map h_id (ht_app t))"
    using m by (metis mset_map mset_eq_imp_distinct_iff)
  show "hash_inv (t\<lparr>ht_app := es\<rparr>)"
    using i s d by (auto simp: hash_inv_def ents_inv_def bkts_inv_def)
  show "HASH_FIND (t\<lparr>ht_app := es\<rparr>) k = HASH_FIND t k"
  proof (cases "ht_app t = []")
    case False
    then have "distinct (map h_id (ht_app t))" using i by (simp add: hash_inv_def ents_inv_def)
    then have "HASH_FIND_IN_BKT es is k = HASH_FIND_IN_BKT (ht_app t) is k" for "is"
      by (intro find_bkt_same ent_of_same) (use m in simp_all)
    with s(2) show ?thesis by (simp add: HASH_FIND_def)
  qed (use s in \<open>simp add: HASH_FIND_def\<close>)
qed

lemma HASH_SRT_ok:
  fixes key :: "'v hent \<Rightarrow> int"
  assumes i: "hash_inv t" and c: "\<forall>a \<in> set (ht_app t). \<forall>b \<in> set (ht_app t). cmp a b \<le> 0 \<longleftrightarrow> key a \<le> key b"
    and l: "2 * length (ht_app t) \<le> INT_MAX"
  shows "HASH_SRT cmp t = Some (t\<lparr>ht_app := sort_key key (ht_app t)\<rparr>)"
proof (cases "ht_app t = []")
  case True
  then show ?thesis by (simp add: HASH_SRT_def)
next
  case False
  let ?es = "ht_app t" and ?ent = "\<lambda>i. the (ent_of (ht_app t) i)"
  have d: "distinct (map h_id ?es)" using i False by (simp add: hash_inv_def ents_inv_def)
  have e: "?ent (h_id e) = e" if "e \<in> set ?es" for e
    using that d ent_of_Some_iff [of ?es "h_id e" e] by simp
  then have me: "map ?ent (map h_id ?es) = ?es" by (simp add: map_idI)
  have "by_key (\<lambda>a b. cmp (?ent a) (?ent b)) (\<lambda>a. key (?ent a)) (map h_id ?es)"
    using c e by (auto simp: by_key_def)
  then obtain r where r: "ls_sort HH (\<lambda>a b. cmp (?ent a) (?ent b)) (links_of (map h_id ?es)) = Some r"
    "ul_rep HH r (sort_key (\<lambda>a. key (?ent a)) (map h_id ?es))"
    using ls_sort_ok [OF links_of_rep [OF d], of "\<lambda>a b. cmp (?ent a) (?ent b)" "\<lambda>a. key (?ent a)"] l by auto
  have "ul_nodes (fst r) (snd r) = Some (sort_key (\<lambda>a. key (?ent a)) (map h_id ?es))"
    using r(2) by (intro ul_nodes_chain) (simp add: ul_rep_def ll_rep_def)
  with r(1) False show ?thesis
    using map_sort_by [of ?ent key "map h_id ?es"] me by (simp add: HASH_SRT_def)
qed

lemma HASH_SRT_lookup:
  fixes key :: "'v hent \<Rightarrow> int"
  assumes i: "uniq_table t" and c: "\<forall>a \<in> set (ht_app t). \<forall>b \<in> set (ht_app t). cmp a b \<le> 0 \<longleftrightarrow> key a \<le> key b"
    and l: "2 * length (ht_app t) \<le> INT_MAX"
  shows "\<exists>t'. HASH_SRT cmp t = Some t' \<and> uniq_table t' \<and> ht_app t' = sort_key key (ht_app t) \<and> hash_lookup t' = hash_lookup t"
proof -
  let ?t = "t\<lparr>ht_app := sort_key key (ht_app t)\<rparr>"
  have inv: "hash_inv t" using i by (simp add: uniq_table_def)
  have "HASH_FIND ?t k = HASH_FIND t k" for k by (rule reorder_ok(2) [OF inv]) simp
  moreover have "hash_inv ?t" by (rule reorder_ok(1) [OF inv]) simp
  moreover have "distinct (hash_keys ?t) \<longleftrightarrow> distinct (hash_keys t)"
  proof -
    have "mset (map h_key (sort_key key (ht_app t))) = mset (map h_key (ht_app t))" by simp
    then show ?thesis using mset_eq_imp_distinct_iff by (auto simp: hash_keys_def simp del: mset_map)
  qed
  ultimately show ?thesis using HASH_SRT_ok [OF inv c l] i by (simp add: uniq_table_def hash_lookup_def fun_eq_iff)
qed

subsection \<open>Replacing an element\<close>

definition HASH_REPLACE :: "'v UT_hash_table \<Rightarrow> string \<Rightarrow> 'v \<Rightarrow> 'v UT_hash_table \<times> 'v hent option" where
  "HASH_REPLACE t key v =
     (let replaced = HASH_FIND t key
      in (HASH_ADD (case replaced of None \<Rightarrow> t | Some e \<Rightarrow> HASH_DELETE t e) key v, replaced))"

lemma HASH_REPLACE_ok:
  assumes u: "uniq_table t"
  shows "uniq_table (fst (HASH_REPLACE t k v))" "hash_lookup (fst (HASH_REPLACE t k v)) k' = (if k' = k then Some v else hash_lookup t k')"
    "map_option h_val (snd (HASH_REPLACE t k v)) = hash_lookup t k"
proof -
  have r: "uniq_table (hash_remove t k)" "hash_lookup (hash_remove t k) k = None"
    using u ht.lookup_remove [of t k k] ht.tinv_remove [of t k] by simp_all
  then have "hash_put (hash_remove t k) k v = HASH_ADD (hash_remove t k) k v" by (simp add: hash_put_def hash_lookup_def)
  then have e: "fst (HASH_REPLACE t k v) = hash_put (hash_remove t k) k v"
    by (auto simp: HASH_REPLACE_def hash_remove_def Let_def)
  show "uniq_table (fst (HASH_REPLACE t k v))" unfolding e using r(1) by (rule ht.tinv_put)
  show "hash_lookup (fst (HASH_REPLACE t k v)) k' = (if k' = k then Some v else hash_lookup t k')"
    unfolding e using ht.lookup_put [OF r(1), of k v k'] ht.lookup_remove [OF u, of k k'] by simp
  show "map_option h_val (snd (HASH_REPLACE t k v)) = hash_lookup t k" by (simp add: HASH_REPLACE_def hash_lookup_def Let_def)
qed

end
