(* ===== verification/Hashlinks.thy ===== *)
theory Hashlinks
  imports Hashsort
begin

text \<open>
  The links under the tables of \<^verbatim>\<open>src/uthash/uthash.h\<close>: the doubly linked list in application order with its
  pointer to the last element, the doubly linked chains of the buckets, the consistency check of the debug
  build, and \<^verbatim>\<open>HASH_SELECT\<close>, which enters elements of one table into another.
\<close>

subsection \<open>Links\<close>

text \<open>The last steps of \<^verbatim>\<open>HASH_DELETE\<close> and \<^verbatim>\<open>HASH_DEL_IN_BKT\<close>: the neighbours are linked to each other.\<close>

definition unlink :: "ul_heap \<Rightarrow> nat \<Rightarrow> ul_heap" where
  "unlink h del =
     (let h1 = (case ul_prev h del of Some p \<Rightarrow> set_next p (ul_next h del) h | None \<Rightarrow> h)
      in case ul_next h1 del of Some n \<Rightarrow> set_prev n (ul_prev h1 del) h1 | None \<Rightarrow> h1)"

text \<open>A bucket: its \<^verbatim>\<open>hh_head\<close> and the links \<^verbatim>\<open>hh_next\<close> and \<^verbatim>\<open>hh_prev\<close>.\<close>

definition bkt_add :: "ul_list \<Rightarrow> nat \<Rightarrow> ul_list" where
  "bkt_add b addhh =
     (let h = set_prev addhh None (set_next addhh (snd b) (fst b))
      in (case snd b of Some y \<Rightarrow> set_prev y (Some addhh) h | None \<Rightarrow> h, Some addhh))"

definition bkt_del :: "ul_list \<Rightarrow> nat \<Rightarrow> ul_list" where
  "bkt_del b hh_del = (unlink (fst b) hh_del, if snd b = Some hh_del then ul_next (fst b) hh_del else snd b)"

text \<open>The application order: \<^verbatim>\<open>head\<close>, \<^verbatim>\<open>tbl->tail\<close> and the links \<^verbatim>\<open>next\<close> and \<^verbatim>\<open>prev\<close>.\<close>

record happ =
  ha_links :: ul_heap
  ha_head :: uptr
  ha_tail :: uptr

definition app_add :: "'a happ_scheme \<Rightarrow> nat \<Rightarrow> 'a happ_scheme option" where
  "app_add s add =
     (let h = set_next add None (ha_links s)
      in case ha_head s of
           None \<Rightarrow> Some (s\<lparr>ha_links := set_prev add None h, ha_head := Some add, ha_tail := Some add\<rparr>)
         | Some _ \<Rightarrow> map_option (\<lambda>h1. s\<lparr>ha_links := set_prev add (ha_tail s) h1, ha_tail := Some add\<rparr>)
                       (put_next (ha_tail s) (Some add) h))"

definition app_del :: "'a happ_scheme \<Rightarrow> nat \<Rightarrow> 'a happ_scheme" where
  "app_del s del =
     (let h = ha_links s
      in if ul_prev h del = None \<and> ul_next h del = None then s\<lparr>ha_head := None\<rparr>
         else s\<lparr>ha_links := unlink h del,
                ha_head := (if ul_prev h del = None then ul_next h del else ha_head s),
                ha_tail := (if ha_tail s = Some del then ul_prev h del else ha_tail s)\<rparr>)"

subsection \<open>What the links hold\<close>

lemma hh_rep: "ul_rep HH l xs \<longleftrightarrow> distinct xs \<and> chain (ul_next (fst l)) (snd l) xs None \<and> prevs (ul_prev (fst l)) None xs"
  by (auto simp: ul_rep_def ll_rep_def)

definition app_rep :: "'a happ_scheme \<Rightarrow> nat list \<Rightarrow> bool" where
  "app_rep s xs \<longleftrightarrow> ul_rep HH (ha_links s, ha_head s) xs \<and> (xs \<noteq> [] \<longrightarrow> ha_tail s = Some (last xs))"

lemma unlink_rep:
  assumes r: "ul_rep HH l (us @ del # vs)"
  shows "ul_rep HH (unlink (fst l) del, if us = [] then ul_next (fst l) del else snd l) (us @ vs)"
    "ul_prev (fst l) del = (if us = [] then None else Some (last us))" "ul_next (fst l) del = (if vs = [] then None else Some (hd vs))"
proof -
  have d: "distinct (us @ del # vs)" and c: "chain (ul_next (fst l)) (snd l) us (Some del)" "chain (ul_next (fst l)) (ul_next (fst l) del) vs None"
    and p: "prevs (ul_prev (fst l)) None us" "ul_prev (fst l) del = (if us = [] then None else Some (last us))" "prevs (ul_prev (fst l)) (Some del) vs"
    using r by (auto simp: hh_rep chain_append prevs_append)
  show "ul_prev (fst l) del = (if us = [] then None else Some (last us))" by (rule p(2))
  show n: "ul_next (fst l) del = (if vs = [] then None else Some (hd vs))" using c(2) by (cases vs) auto
  show "ul_rep HH (unlink (fst l) del, if us = [] then ul_next (fst l) del else snd l) (us @ vs)"
  proof (cases us rule: rev_cases)
    case Nil
    then show ?thesis using d c(2) p n by (cases vs) (auto simp: hh_rep unlink_def)
  next
    case (snoc ws t)
    then show ?thesis using d c p n
      by (cases vs) (auto simp: hh_rep unlink_def chain_append prevs_append)
  qed
qed

lemma bkt_add_rep: "ul_rep HH b xs \<Longrightarrow> x \<notin> set xs \<Longrightarrow> ul_rep HH (bkt_add b x) (x # xs)"
  by (cases xs) (auto simp: hh_rep bkt_add_def Let_def)

lemma bkt_del_rep: "ul_rep HH b (us @ x # vs) \<Longrightarrow> ul_rep HH (bkt_del b x) (us @ vs)"
proof -
  assume r: "ul_rep HH b (us @ x # vs)"
  then have "us = [] \<longleftrightarrow> snd b = Some x" by (cases us) (auto simp: hh_rep)
  with unlink_rep(1) [OF r] show ?thesis by (simp add: bkt_del_def)
qed

lemma app_add_rep:
  assumes r: "app_rep s xs" and a: "add \<notin> set xs"
  shows "\<exists>s'. app_add s add = Some s' \<and> app_rep s' (xs @ [add])"
proof (cases xs rule: rev_cases)
  case Nil
  with r show ?thesis by (auto simp: app_rep_def hh_rep app_add_def Let_def)
next
  case (snoc ys t)
  obtain x where x: "ha_head s = Some x" using r snoc by (cases ys) (auto simp: app_rep_def hh_rep)
  with r a snoc show ?thesis
    by (auto simp: app_rep_def hh_rep app_add_def Let_def put_next_def chain_append prevs_append)
qed

lemma app_del_rep:
  assumes r: "app_rep s (us @ del # vs)"
  shows "app_rep (app_del s del) (us @ vs)"
proof -
  have u: "ul_rep HH (ha_links s, ha_head s) (us @ del # vs)" and t: "ha_tail s = Some (last (us @ del # vs))"
    using r by (auto simp: app_rep_def)
  have d: "distinct (us @ del # vs)" using u by (simp add: hh_rep)
  show ?thesis
  proof (cases "us = [] \<and> vs = []")
    case True
    with unlink_rep [OF u] show ?thesis by (simp add: app_rep_def app_del_def hh_rep)
  next
    case False
    have "(ha_tail s = Some del) = (vs = [])" using t d by (cases vs rule: rev_cases) auto
    with False unlink_rep [OF u] t show ?thesis by (auto simp: app_rep_def app_del_def Let_def)
  qed
qed

subsection \<open>The consistency check\<close>

text \<open>\<^verbatim>\<open>HASH_FSCK\<close> of the debug build. A chain is followed to its end: its length, or \<^term>\<open>None\<close> inside, which is
  \<^verbatim>\<open>HASH_OOPS\<close>, the end of the process, when a backward link is not the node that the walk came from. A chain that
  does not end is \<^term>\<open>None\<close> outside. The buckets are given with their \<^verbatim>\<open>hh_head\<close> and \<^verbatim>\<open>count\<close>.\<close>

partial_function (option) fsck_chain :: "ul_heap \<Rightarrow> uptr \<Rightarrow> uptr \<Rightarrow> nat \<Rightarrow> nat option option" where
  "fsck_chain h prev thh cnt =
     (case thh of None \<Rightarrow> Some (Some cnt)
      | Some x \<Rightarrow> if ul_prev h x \<noteq> prev then Some None else fsck_chain h (Some x) (ul_next h x) (Suc cnt))"

primrec fsck_bkts :: "ul_heap \<Rightarrow> (uptr \<times> nat) list \<Rightarrow> nat \<Rightarrow> nat option option" where
  "fsck_bkts h [] cnt = Some (Some cnt)"
| "fsck_bkts h (b # bs) cnt =
     Option.bind (fsck_chain h None (fst b) 0) (\<lambda>r.
       case r of None \<Rightarrow> Some None | Some n \<Rightarrow> if snd b \<noteq> n then Some None else fsck_bkts h bs (cnt + n))"

definition HASH_FSCK :: "ul_heap \<Rightarrow> (uptr \<times> nat) list \<Rightarrow> nat \<Rightarrow> ul_list \<Rightarrow> bool option" where
  "HASH_FSCK h bkts items app =
     (if snd app = None then Some True
      else Option.bind (fsck_bkts h bkts 0) (\<lambda>r.
        if r \<noteq> Some items then Some False
        else map_option (\<lambda>r. r = Some items) (fsck_chain (fst app) None (snd app) 0)))"

lemma fsck_chain_ok:
  "chain (ul_next h) p xs None \<Longrightarrow> fsck_chain h prev p n = Some (if prevs (ul_prev h) prev xs then Some (n + length xs) else None)"
proof (induction xs arbitrary: p prev n)
  case Nil
  then show ?case by (subst fsck_chain.simps) simp
next
  case (Cons x xs)
  then show ?case by (subst fsck_chain.simps) simp
qed

lemma fsck_chain_sound:
  assumes "fsck_chain h prev p n = Some r"
  shows "r = Some m \<longrightarrow> (\<exists>xs. chain (ul_next h) p xs None \<and> prevs (ul_prev h) prev xs \<and> m = n + length xs)"
proof (rule fsck_chain.raw_induct [where P = "\<lambda>h prev p n r. r = Some m \<longrightarrow>
    (\<exists>xs. chain (ul_next h) p xs None \<and> prevs (ul_prev h) prev xs \<and> m = n + length xs)", OF _ assms], intro impI)
  fix f :: "ul_heap \<Rightarrow> uptr \<Rightarrow> uptr \<Rightarrow> nat \<Rightarrow> nat option option" and h prev p n r
  assume IH: "\<And>h prev p n r. f h prev p n = Some r \<Longrightarrow> r = Some m \<longrightarrow>
      (\<exists>xs. chain (ul_next h) p xs None \<and> prevs (ul_prev h) prev xs \<and> m = n + length xs)"
    and r: "(case p of None \<Rightarrow> Some (Some n)
      | Some x \<Rightarrow> if ul_prev h x \<noteq> prev then Some None else f h (Some x) (ul_next h x) (Suc n)) = Some r" and m: "r = Some m"
  show "\<exists>xs. chain (ul_next h) p xs None \<and> prevs (ul_prev h) prev xs \<and> m = n + length xs"
  proof (cases p)
    case None
    with r m show ?thesis by (intro exI [of _ "[]"]) simp
  next
    case (Some x)
    with r m have x: "ul_prev h x = prev" "f h (Some x) (ul_next h x) (Suc n) = Some r" by (auto split: if_splits)
    from IH [OF x(2)] m obtain xs where "chain (ul_next h) (ul_next h x) xs None" "prevs (ul_prev h) (Some x) xs" "m = Suc n + length xs"
      by blast
    with x(1) Some show ?thesis by (intro exI [of _ "x # xs"]) simp
  qed
qed

lemma fsck_chain_iff:
  "fsck_chain h None p n = Some (Some m) \<longleftrightarrow> (\<exists>xs. ul_rep HH (h, p) xs \<and> m = n + length xs)"
proof
  assume "fsck_chain h None p n = Some (Some m)"
  from fsck_chain_sound [OF this, of m] obtain xs where
    "chain (ul_next h) p xs None" "prevs (ul_prev h) None xs" "m = n + length xs" by blast
  with chain_distinct [of "ul_next h" p xs] show "\<exists>xs. ul_rep HH (h, p) xs \<and> m = n + length xs" by (auto simp: hh_rep)
next
  assume "\<exists>xs. ul_rep HH (h, p) xs \<and> m = n + length xs"
  then obtain xs where "chain (ul_next h) p xs None" "prevs (ul_prev h) None xs" "m = n + length xs" by (auto simp: hh_rep)
  then show "fsck_chain h None p n = Some (Some m)" using fsck_chain_ok [of h p xs None n] by simp
qed

lemma fsck_bkts_Cons:
  "fsck_bkts h (b # bs) n = Some (Some m) \<longleftrightarrow> (\<exists>xs. (ul_rep HH (h, fst b) xs \<and> snd b = length xs) \<and> fsck_bkts h bs (n + length xs) = Some (Some m))"
proof -
  have "fsck_bkts h (b # bs) n = Some (Some m) \<longleftrightarrow> fsck_chain h None (fst b) 0 = Some (Some (snd b)) \<and> fsck_bkts h bs (n + snd b) = Some (Some m)"
    by (cases "fsck_chain h None (fst b) 0") (auto split: option.splits)
  then show ?thesis unfolding fsck_chain_iff by (simp, metis)
qed

lemma fsck_bkts_iff:
  "fsck_bkts h bkts n = Some (Some m) \<longleftrightarrow>
   (\<exists>xss. list_all2 (\<lambda>b xs. ul_rep HH (h, fst b) xs \<and> snd b = length xs) bkts xss \<and> m = n + length (concat xss))"
proof (induction bkts arbitrary: n)
  case (Cons b bs)
  have "fsck_bkts h (b # bs) n = Some (Some m) \<longleftrightarrow> (\<exists>xs. (ul_rep HH (h, fst b) xs \<and> snd b = length xs) \<and>
      (\<exists>xss. list_all2 (\<lambda>b xs. ul_rep HH (h, fst b) xs \<and> snd b = length xs) bs xss \<and> m = n + length xs + length (concat xss)))"
    unfolding fsck_bkts_Cons Cons.IH by (rule refl)
  also have "\<dots> \<longleftrightarrow> (\<exists>xss. list_all2 (\<lambda>b xs. ul_rep HH (h, fst b) xs \<and> snd b = length xs) (b # bs) xss \<and> m = n + length (concat xss))"
    (is "?l \<longleftrightarrow> ?r")
  proof
    assume ?l
    then obtain xs xss where "ul_rep HH (h, fst b) xs \<and> snd b = length xs" "m = n + length xs + length (concat xss)"
      "list_all2 (\<lambda>b xs. ul_rep HH (h, fst b) xs \<and> snd b = length xs) bs xss" by blast
    then show ?r by (intro exI [of _ "xs # xss"]) simp
  next
    assume ?r
    then obtain xs xss where "ul_rep HH (h, fst b) xs \<and> snd b = length xs" "m = n + length (concat (xs # xss))"
      "list_all2 (\<lambda>b xs. ul_rep HH (h, fst b) xs \<and> snd b = length xs) bs xss" unfolding list_all2_Cons1 by blast
    then show ?l by (intro exI [of _ xs] conjI exI [of _ xss]) simp_all
  qed
  finally show ?case .
qed auto

text \<open>The check passes exactly on the tables whose links are in order.\<close>

lemma HASH_FSCK_iff:
  "HASH_FSCK h bkts items app = Some True \<longleftrightarrow> snd app = None \<or>
     (\<exists>xss xs. list_all2 (\<lambda>b xs. ul_rep HH (h, fst b) xs \<and> snd b = length xs) bkts xss \<and> items = length (concat xss) \<and>
        ul_rep HH app xs \<and> items = length xs)"
  using fsck_chain_iff [of "fst app" "snd app" 0] fsck_bkts_iff [of h bkts 0 items]
  by (auto simp: HASH_FSCK_def bind_eq_Some_conv split: if_splits)

subsection \<open>Selecting elements into another table\<close>

text \<open>The destination of \<^verbatim>\<open>HASH_SELECT\<close>: its application order, its buckets (in \<open>hs_tbl\<close>, whose
  \<^term>\<open>ht_app\<close> lists the elements with a handle in this table in the order in which they got it) and the
  variable \<open>_last_elt\<close>.\<close>

record 'v hsel = happ +
  hs_tbl :: "'v UT_hash_table"
  hs_last :: uptr

definition select_elt :: "'v hent \<Rightarrow> 'v hsel \<Rightarrow> 'v hsel" where
  "select_elt e s =
     (let i = h_id e;
          h = set_next i None (set_prev i (hs_last s) (ha_links s));
          h = (case hs_last s of Some l \<Rightarrow> set_next l (Some i) h | None \<Rightarrow> h);
          s0 = (if ha_head s = None then s\<lparr>ha_head := Some i, ha_tail := Some i, hs_tbl := HASH_MAKE_TABLE (hs_tbl s)\<rparr> else s);
          t = (hs_tbl s0)\<lparr>ht_app := ht_app (hs_tbl s0) @ [e]\<rparr>;
          t = HASH_ADD_TO_BKT t (HASH_TO_BKT (h_hashv e) (num_buckets t)) i
      in s0\<lparr>ha_links := h, hs_tbl := t\<lparr>num_items := num_items t + 1\<rparr>, hs_last := Some i\<rparr>)"

text \<open>The source is visited bucket by bucket.\<close>

definition src_ents :: "'v UT_hash_table \<Rightarrow> 'v hent list" where
  "src_ents src = map (\<lambda>i. the (ent_of (ht_app src) i)) (concat (map bk_chain (ht_buckets src)))"

definition HASH_SELECT :: "('v hent \<Rightarrow> bool) \<Rightarrow> 'v UT_hash_table \<Rightarrow> 'v hsel \<Rightarrow> 'v hsel" where
  "HASH_SELECT ok src dst =
     (let s = dst\<lparr>hs_last := None\<rparr>
      in if ht_app src = [] then s else fold (\<lambda>e s. if ok e then select_elt e s else s) (src_ents src) s)"

lemma fold_filter: "fold (\<lambda>e s. if ok e then f e s else s) es s = fold f (filter ok es) s"
  by (induction es arbitrary: s) simp_all

text \<open>One more element in the buckets.\<close>

lemma table_wf_select:
  assumes wf: "table_wf t" and e: "h_id e \<notin> h_id ` set (ht_app t)" "h_id e < ht_next t" "h_hashv e = HASH_JEN (h_key e)"
    and t1: "t1 = t\<lparr>ht_app := ht_app t @ [e]\<rparr>" and t2: "t2 = HASH_ADD_TO_BKT t1 (HASH_TO_BKT (h_hashv e) (num_buckets t1)) (h_id e)"
  shows "table_wf (t2\<lparr>num_items := num_items t2 + 1\<rparr>)"
proof -
  have b: "bkts_inv (ht_app t1) (num_buckets t1) (h_id ` set (ht_app t)) (ht_buckets t1)"
    using wf e(1) by (simp add: table_wf_def t1 bkts_inv_extend)
  have d: "distinct (map h_id (ht_app t1))" using wf e(1) by (auto simp: table_wf_def ents_inv_def t1)
  have "0 < num_buckets t2 \<and> bkts_inv (ht_app t2) (num_buckets t2) UNIV (ht_buckets t2)"
    by (rule HASH_ADD_TO_BKT_inv [OF b d _ _ e(1) _ t2]) (use wf in \<open>auto simp: table_wf_def t1\<close>)
  then show ?thesis using wf e d by (auto simp: table_wf_def ents_inv_def t1 t2)
qed

text \<open>The selected elements so far: their links are in the order of the visit, their buckets in order; \<open>tail\<close> is the first.\<close>

definition selected :: "nat \<Rightarrow> 'v hent list \<Rightarrow> 'v hsel \<Rightarrow> bool" where
  "selected n es s \<longleftrightarrow> ul_rep HH (ha_links s, ha_head s) (map h_id es) \<and> ht_app (hs_tbl s) = es \<and> ht_next (hs_tbl s) = n \<and>
     (if es = [] then hs_last s = None
      else hs_last s = Some (h_id (last es)) \<and> ha_tail s = Some (h_id (hd es)) \<and> table_wf (hs_tbl s))"

lemma select_elt_ok:
  assumes s: "selected n es s" and e: "h_id e \<notin> h_id ` set es" "h_id e < n" "h_hashv e = HASH_JEN (h_key e)"
  shows "selected n (es @ [e]) (select_elt e s)"
proof (cases es rule: rev_cases)
  case Nil
  have hd: "ha_head s = None" "hs_last s = None" "ht_app (hs_tbl s) = []" "ht_next (hs_tbl s) = n"
    using s Nil by (auto simp: selected_def hh_rep)
  let ?t = "HASH_MAKE_TABLE (hs_tbl s)"
  have "table_wf ?t" "ht_app ?t = []" "ht_next ?t = n" using hd table_wf_make [OF hd(3)] by (simp_all add: HASH_MAKE_TABLE_def)
  with table_wf_select [of ?t e, OF _ _ _ _ refl refl] hd e Nil show ?thesis
    by (simp add: selected_def select_elt_def Let_def hh_rep)
next
  case (snoc fs l)
  obtain x where hd: "ha_head s = Some x" using s snoc by (cases fs) (auto simp: selected_def hh_rep)
  have l: "hs_last s = Some (h_id l)" "ha_tail s = Some (h_id (hd es))" "table_wf (hs_tbl s)" "ht_app (hs_tbl s) = es"
    "ht_next (hs_tbl s) = n" "ul_rep HH (ha_links s, ha_head s) (map h_id fs @ [h_id l])"
    using s snoc by (auto simp: selected_def)
  have "ul_rep HH (ha_links (select_elt e s), ha_head (select_elt e s)) (map h_id (es @ [e]))"
    using l e hd unfolding snoc by (auto simp: select_elt_def Let_def hh_rep chain_append prevs_append)
  moreover have "table_wf (hs_tbl (select_elt e s))" "ht_app (hs_tbl (select_elt e s)) = es @ [e]" "ht_next (hs_tbl (select_elt e s)) = n"
    using table_wf_select [of "hs_tbl s" e, OF _ _ _ _ refl refl] l hd e by (simp_all add: select_elt_def Let_def)
  moreover have "ha_tail (select_elt e s) = Some (h_id (hd (es @ [e])))" "hs_last (select_elt e s) = Some (h_id e)"
    using l hd snoc by (cases fs; simp add: select_elt_def Let_def)+
  ultimately show ?thesis by (simp add: selected_def)
qed

lemma select_fold:
  "selected n ds s \<Longrightarrow> distinct (map h_id (ds @ es)) \<Longrightarrow> \<forall>e \<in> set es. h_id e < n \<and> h_hashv e = HASH_JEN (h_key e) \<Longrightarrow>
   selected n (ds @ es) (fold select_elt es s)"
proof (induction es arbitrary: ds s)
  case (Cons e es)
  then have "selected n (ds @ [e]) (select_elt e s)" by (intro select_elt_ok) auto
  with Cons.IH [of "ds @ [e]"] Cons.prems show ?case by simp
qed simp

text \<open>The elements of the source in the order of the visit.\<close>

lemma src_ents_ok:
  assumes i: "hash_inv src" and ne: "ht_app src \<noteq> []"
  shows "distinct (map h_id (src_ents src))" "set (src_ents src) = set (ht_app src)"
proof -
  have b: "bkts_inv (ht_app src) (num_buckets src) UNIV (ht_buckets src)" "0 < num_buckets src" "distinct (map h_id (ht_app src))"
    using i ne by (auto simp: hash_inv_def ents_inv_def)
  have at: "h_id (the (ent_of (ht_app src) j)) = j \<and> the (ent_of (ht_app src) j) \<in> set (ht_app src)"
    if m: "j \<in> set (concat (map bk_chain (ht_buckets src)))" for j
  proof -
    from m obtain e where "e \<in> set (ht_app src)" "h_id e = j" unfolding chains_set [OF b(1,2)] by auto
    then have "ent_of (ht_app src) j = Some e" using ent_of_Some_iff [OF b(3)] by blast
    with \<open>e \<in> set (ht_app src)\<close> \<open>h_id e = j\<close> show ?thesis by simp
  qed
  have m: "map h_id (src_ents src) = concat (map bk_chain (ht_buckets src))"
    unfolding src_ents_def map_map comp_def using at by (intro map_idI) blast
  then show "distinct (map h_id (src_ents src))" using chains_distinct [OF b(1,3)] by simp
  have "set (src_ents src) \<subseteq> set (ht_app src)" unfolding src_ents_def using at by auto
  moreover have "h_id ` set (src_ents src) = h_id ` set (ht_app src)"
    using arg_cong [OF m, of set] chains_set [OF b(1,2)] by simp
  ultimately show "set (src_ents src) = set (ht_app src)"
    using b(3) inj_on_image_eq_iff [of h_id "set (ht_app src)"] by (simp add: distinct_map)
qed

text \<open>Into an empty destination. The result holds the selected elements, in the order of the buckets of the
  source, and a lookup finds the selected elements; but \<open>tail\<close> stays with the first one.\<close>

definition hsel_empty :: "nat \<Rightarrow> 'v hsel" where
  "hsel_empty n = \<lparr>ha_links = \<lparr>ul_next = (\<lambda>_. None), ul_prev = (\<lambda>_. None)\<rparr>, ha_head = None, ha_tail = None,
     hs_tbl = hash_empty\<lparr>ht_next := n\<rparr>, hs_last = None\<rparr>"

lemma HASH_SELECT_selected:
  assumes i: "hash_inv src"
  shows "selected (ht_next src) (if ht_app src = [] then [] else filter ok (src_ents src)) (HASH_SELECT ok src (hsel_empty (ht_next src)))"
proof -
  have e: "selected (ht_next src) [] ((hsel_empty (ht_next src))\<lparr>hs_last := None\<rparr>)"
    by (simp add: selected_def hsel_empty_def hh_rep hash_empty_def)
  show ?thesis
  proof (cases "ht_app src = []")
    case True
    with e show ?thesis by (simp add: HASH_SELECT_def)
  next
    case False
    have "\<forall>e \<in> set (filter ok (src_ents src)). h_id e < ht_next src \<and> h_hashv e = HASH_JEN (h_key e)"
      using i False src_ents_ok(2) [OF i False] by (auto simp: hash_inv_def ents_inv_def)
    from select_fold [OF e _ this] src_ents_ok(1) [OF i False] False show ?thesis
      by (simp add: HASH_SELECT_def fold_filter distinct_map_filter)
  qed
qed

lemma HASH_FIND_uniq: "uniq_table t \<Longrightarrow> HASH_FIND t k = Some e \<longleftrightarrow> e \<in> set (ht_app t) \<and> h_key e = k"
proof -
  assume u: "uniq_table t"
  then have i: "hash_inv t" and d: "distinct (map h_key (ht_app t))" by (auto simp: uniq_table_def hash_keys_def)
  have "HASH_FIND t k \<noteq> None" if "e \<in> set (ht_app t)" "h_key e = k"
    using HASH_FIND_None_iff [OF i, of k] that by (auto simp: hash_keys_def)
  with HASH_FIND_Some [OF i, of k] d show ?thesis by (auto simp: distinct_map dest: inj_onD)
qed

lemma HASH_SELECT_find:
  assumes u: "uniq_table src" and r: "r = HASH_SELECT ok src (hsel_empty (ht_next src))"
  shows "uniq_table (hs_tbl r)" "HASH_FIND (hs_tbl r) k = Some e \<longleftrightarrow> HASH_FIND src k = Some e \<and> ok e"
proof -
  have i: "hash_inv src" using u by (simp add: uniq_table_def)
  note s = HASH_SELECT_selected [OF i, of ok]
  have m: "set (ht_app (hs_tbl r)) = {e \<in> set (ht_app src). ok e}" "hash_inv (hs_tbl r)" "distinct (map h_id (ht_app (hs_tbl r)))"
    using s src_ents_ok [OF i] unfolding r by (auto simp: selected_def table_wf_def hash_inv_def hh_rep split: if_splits)
  have "inj_on h_key (set (ht_app src))" using u by (simp add: uniq_table_def hash_keys_def distinct_map)
  then have "inj_on h_key (set (ht_app (hs_tbl r)))" unfolding m(1) by (rule inj_on_subset) blast
  then show ur: "uniq_table (hs_tbl r)" using m(2,3) by (simp add: uniq_table_def hash_keys_def distinct_map)
  show "HASH_FIND (hs_tbl r) k = Some e \<longleftrightarrow> HASH_FIND src k = Some e \<and> ok e"
    unfolding HASH_FIND_uniq [OF ur] HASH_FIND_uniq [OF u] m(1) by auto
qed

text \<open>The next element that is added is linked behind the first: all others leave the application order.\<close>

lemma select_then_add:
  assumes i: "hash_inv src" "ht_app src \<noteq> []" and f: "filter ok (src_ents src) = e # es" and a: "add \<notin> set (map h_id (e # es))"
  shows "\<exists>s. app_add (HASH_SELECT ok src (hsel_empty (ht_next src))) add = Some s \<and>
    ha_head s = Some (h_id e) \<and> chain (ul_next (ha_links s)) (ha_head s) [h_id e, add] None"
proof -
  let ?r = "HASH_SELECT ok src (hsel_empty (ht_next src))"
  have "selected (ht_next src) (e # es) ?r" using HASH_SELECT_selected [OF i(1), of ok] i(2) f by simp
  then have "ha_head ?r = Some (h_id e)" "ha_tail ?r = Some (h_id e)" by (auto simp: selected_def hh_rep)
  then show ?thesis using a by (auto simp: app_add_def Let_def put_next_def)
qed

text \<open>Into a destination that holds elements, the selected ones do not come into the application order at all.\<close>

lemma select_elt_outside:
  assumes "ul_rep HH (ha_links s, ha_head s) xs" "xs \<noteq> []" "h_id e \<notin> set xs" "\<And>l. hs_last s = Some l \<Longrightarrow> l \<notin> set xs"
  shows "ul_rep HH (ha_links (select_elt e s), ha_head (select_elt e s)) xs" "hs_last (select_elt e s) = Some (h_id e)"
  using assms by (cases xs; auto simp: select_elt_def Let_def hh_rep split: option.splits)+

lemma HASH_SELECT_outside:
  assumes "ul_rep HH (ha_links dst, ha_head dst) xs" "xs \<noteq> []" "\<forall>e \<in> set (src_ents src). ok e \<longrightarrow> h_id e \<notin> set xs"
  shows "ul_rep HH (ha_links (HASH_SELECT ok src dst), ha_head (HASH_SELECT ok src dst)) xs"
proof -
  have "ul_rep HH (ha_links (fold select_elt es s), ha_head (fold select_elt es s)) xs"
    if "ul_rep HH (ha_links s, ha_head s) xs" "\<forall>e \<in> set es. h_id e \<notin> set xs" "\<And>l. hs_last s = Some l \<Longrightarrow> l \<notin> set xs" for s es
    using that
  proof (induction es arbitrary: s)
    case (Cons e es)
    have "h_id e \<notin> set xs" using Cons.prems(2) by simp
    note o = select_elt_outside [OF Cons.prems(1) assms(2) this Cons.prems(3)]
    have "ul_rep HH (ha_links (fold select_elt es (select_elt e s)), ha_head (fold select_elt es (select_elt e s))) xs"
      by (rule Cons.IH [OF o(1)]) (use Cons.prems(2) o(2) in auto)
    then show ?case by simp
  qed simp
  from this [of "dst\<lparr>hs_last := None\<rparr>" "filter ok (src_ents src)"] assms show ?thesis
    by (simp add: HASH_SELECT_def Let_def fold_filter)
qed

end
