(* ===== verification/Hashfun.thy ===== *)
theory Hashfun
  imports Uthash "HOL-Library.Multiset"
begin

text \<open>
  The hash functions of \<^verbatim>\<open>src/uthash/uthash.h\<close> that can replace Jenkins' by \<^verbatim>\<open>-DHASH_FUNCTION\<close>, and the Bloom
  filter that \<^verbatim>\<open>-DHASH_BLOOM\<close> puts in front of a lookup. The macros also compute the bucket of the hash, which
  is \<^term>\<open>HASH_TO_BKT\<close>. \<^verbatim>\<open>char\<close> is signed, integers are stored with their low byte first.
\<close>

unbundle bit_operations_syntax

subsection \<open>Byte by byte\<close>

definition sbyte :: "char \<Rightarrow> u32" where
  "sbyte c = word_of_int (if (of_char c :: int) < 128 then of_char c else of_char c - 256)"

definition HASH_BER :: "string \<Rightarrow> u32" where
  "HASH_BER key = fold (\<lambda>c h. push_bit 5 h + h + sbyte c) key 0"

definition HASH_SAX :: "string \<Rightarrow> u32" where
  "HASH_SAX key = fold (\<lambda>c h. h XOR (push_bit 5 h + drop_bit 2 h + sbyte c)) key 0"

text \<open>The body of the loop is the first of the two indented lines only.\<close>

definition HASH_FNV :: "string \<Rightarrow> u32" where
  "HASH_FNV key = fold (\<lambda>c h. h XOR sbyte c) key 2166136261 * 16777619"

definition oat_step :: "char \<Rightarrow> u32 \<Rightarrow> u32" where
  "oat_step c h = (let h = h + sbyte c; h = h + push_bit 10 h in h XOR drop_bit 6 h)"

definition HASH_OAT :: "string \<Rightarrow> u32" where
  "HASH_OAT key =
     (let h = fold oat_step key 0; h = h + push_bit 3 h; h = h XOR drop_bit 11 h in h + push_bit 15 h)"

subsection \<open>In blocks\<close>

definition get16bits :: "string \<Rightarrow> nat \<Rightarrow> u32" where
  "get16bits key i = push_bit 8 (ubyte (key ! (i + 1))) + ubyte (key ! i)"

fun sfh_blocks :: "nat \<Rightarrow> string \<Rightarrow> u32 \<Rightarrow> string \<times> u32" where
  "sfh_blocks 0 key h = (key, h)"
| "sfh_blocks (Suc n) key h =
     (let h = h + get16bits key 0; tmp = push_bit 11 (get16bits key 2) XOR h; h = push_bit 16 h XOR tmp
      in sfh_blocks n (drop 4 key) (h + drop_bit 11 h))"

definition HASH_SFH :: "string \<Rightarrow> u32" where
  "HASH_SFH key =
     (let (k, h) = sfh_blocks (length key div 4) key 0xcafebabe;
          h = (if length key mod 4 = 3
               then let h = h + get16bits k 0; h = h XOR push_bit 16 h; h = h XOR push_bit 18 (ubyte (k ! 2)) in h + drop_bit 11 h
               else if length key mod 4 = 2 then let h = h + get16bits k 0; h = h XOR push_bit 11 h in h + drop_bit 17 h
               else if length key mod 4 = 1 then let h = h + ubyte (k ! 0); h = h XOR push_bit 10 h in h + drop_bit 1 h
               else h);
          h = h XOR push_bit 3 h; h = h + drop_bit 5 h; h = h XOR push_bit 4 h; h = h + drop_bit 17 h; h = h XOR push_bit 25 h
      in h + drop_bit 6 h)"

definition MUR_ROTL32 :: "u32 \<Rightarrow> nat \<Rightarrow> u32" where
  "MUR_ROTL32 x r = push_bit r x OR drop_bit (32 - r) x"

definition MUR_FMIX :: "u32 \<Rightarrow> u32" where
  "MUR_FMIX h =
     (let h = h XOR drop_bit 16 h; h = h * 0x85ebca6b; h = h XOR drop_bit 13 h; h = h * 0xc2b2ae35 in h XOR drop_bit 16 h)"

definition mur_scramble :: "u32 \<Rightarrow> u32" where
  "mur_scramble k = MUR_ROTL32 (k * 0xcc9e2d51) 15 * 0x1b873593"

fun mur_blocks :: "nat \<Rightarrow> string \<Rightarrow> u32 \<Rightarrow> string \<times> u32" where
  "mur_blocks 0 key h = (key, h)"
| "mur_blocks (Suc n) key h =
     (let h = h XOR mur_scramble (jen_word key 0); h = MUR_ROTL32 h 13 in mur_blocks n (drop 4 key) (h * 5 + 0xe6546b64))"

definition HASH_MUR :: "string \<Rightarrow> u32" where
  "HASH_MUR key =
     (let (k, h) = mur_blocks (length key div 4) key 0xf88D5353; r = length key mod 4;
          k1 = (if r = 3 then push_bit 16 (ubyte (k ! 2)) else 0);
          k1 = (if r \<ge> 2 then k1 XOR push_bit 8 (ubyte (k ! 1)) else k1);
          h = (if r \<ge> 1 then h XOR mur_scramble (k1 XOR ubyte (k ! 0)) else h)
      in MUR_FMIX (h XOR of_nat (length key)))"

subsection \<open>The Bloom filter\<close>

record bloom =
  bloom_nbits :: nat
  bloom_bv :: "8 word list"

definition HASH_BLOOM_BYTELEN :: "nat \<Rightarrow> nat" where
  "HASH_BLOOM_BYTELEN n = 2 ^ n div 8 + (if 2 ^ n mod 8 \<noteq> (0::nat) then 1 else 0)"

definition HASH_BLOOM_MAKE :: "nat \<Rightarrow> bloom" where
  "HASH_BLOOM_MAKE n = \<lparr>bloom_nbits = n, bloom_bv = replicate (HASH_BLOOM_BYTELEN n) 0\<rparr>"

definition bloom_idx :: "bloom \<Rightarrow> u32 \<Rightarrow> nat" where
  "bloom_idx b hashv = unat (hashv AND of_nat (2 ^ bloom_nbits b - 1))"

text \<open>Outside of the vector the access is undefined.\<close>

definition HASH_BLOOM_ADD :: "bloom \<Rightarrow> u32 \<Rightarrow> bloom option" where
  "HASH_BLOOM_ADD b hashv =
     (let i = bloom_idx b hashv
      in if i div 8 < length (bloom_bv b)
         then Some (b\<lparr>bloom_bv := (bloom_bv b)[i div 8 := bloom_bv b ! (i div 8) OR push_bit (i mod 8) 1]\<rparr>) else None)"

definition HASH_BLOOM_TEST :: "bloom \<Rightarrow> u32 \<Rightarrow> bool option" where
  "HASH_BLOOM_TEST b hashv =
     (let i = bloom_idx b hashv
      in if i div 8 < length (bloom_bv b) then Some (bloom_bv b ! (i div 8) AND push_bit (i mod 8) 1 \<noteq> 0) else None)"

subsection \<open>What the loop of the third function misses\<close>

text \<open>The multiplication is outside of the loop: the hash does not depend on the order of the bytes.\<close>

lemma HASH_FNV_order: "mset k = mset k' \<Longrightarrow> HASH_FNV k = HASH_FNV k'"
proof -
  assume "mset k = mset k'"
  then have "fold (\<lambda>c h. h XOR sbyte c) k = fold (\<lambda>c h. h XOR sbyte c) k'"
    by (intro fold_multiset_equiv) (auto simp: fun_eq_iff ac_simps)
  then show ?thesis by (simp add: HASH_FNV_def)
qed

subsection \<open>The Bloom filter never denies an element\<close>

definition bloom_ok :: "bloom \<Rightarrow> bool" where
  "bloom_ok b \<longleftrightarrow> bloom_nbits b \<le> 32 \<and> length (bloom_bv b) = HASH_BLOOM_BYTELEN (bloom_nbits b)"

lemma bloom_make_ok: "n \<le> 32 \<Longrightarrow> bloom_ok (HASH_BLOOM_MAKE n)"
  by (simp add: bloom_ok_def HASH_BLOOM_MAKE_def)

lemma unat_of_nat_le: "unat (of_nat k :: u32) \<le> k"
  by (simp add: unat_of_nat)

lemma bloom_idx_bound: "bloom_ok b \<Longrightarrow> bloom_idx b hv div 8 < length (bloom_bv b)"
proof -
  assume b: "bloom_ok b"
  let ?n = "bloom_nbits b"
  have "unat (hv AND of_nat (2 ^ ?n - 1)) \<le> unat (of_nat (2 ^ ?n - 1) :: u32)"
    using word_and_le1 word_le_nat_alt by blast
  also have "\<dots> \<le> 2 ^ ?n - 1" by (rule unat_of_nat_le)
  also have "\<dots> < 2 ^ ?n" by simp
  finally have i: "bloom_idx b hv < 2 ^ ?n" by (simp add: bloom_idx_def)
  show ?thesis
  proof (cases "?n < 3")
    case True
    then have "?n = 0 \<or> ?n = 1 \<or> ?n = 2" by auto
    with i b show ?thesis by (auto simp: bloom_ok_def HASH_BLOOM_BYTELEN_def)
  next
    case False
    then have "(2::nat) ^ ?n = 2 ^ (3 + (?n - 3))" by simp
    also have "\<dots> = 8 * 2 ^ (?n - 3)" by (simp only: power_add) simp
    finally have "(2::nat) ^ ?n = 8 * 2 ^ (?n - 3)" .
    with i b show ?thesis by (simp add: bloom_ok_def HASH_BLOOM_BYTELEN_def)
  qed
qed

lemma bloom_test_bit: "bloom_ok b \<Longrightarrow> HASH_BLOOM_TEST b hv = Some (bit (bloom_bv b ! (bloom_idx b hv div 8)) (bloom_idx b hv mod 8))"
  using bloom_idx_bound [of b hv] by (simp add: HASH_BLOOM_TEST_def Let_def push_bit_of_1 and_exp_eq_0_iff_not_bit)

text \<open>Adding a hash sets its bit and keeps the others.\<close>

lemma bloom_add:
  assumes b: "bloom_ok b"
  shows "\<exists>b'. HASH_BLOOM_ADD b hv = Some b' \<and> bloom_ok b' \<and>
    (\<forall>x. HASH_BLOOM_TEST b' x = Some (bloom_idx b x = bloom_idx b hv \<or> HASH_BLOOM_TEST b x = Some True))"
proof -
  let ?i = "bloom_idx b hv"
  let ?b = "b\<lparr>bloom_bv := (bloom_bv b)[?i div 8 := bloom_bv b ! (?i div 8) OR push_bit (?i mod 8) 1]\<rparr>"
  have ok: "bloom_ok ?b" using b by (simp add: bloom_ok_def)
  have idx: "bloom_idx (b\<lparr>bloom_bv := v\<rparr>) x = bloom_idx b x" for v x by (simp add: bloom_idx_def)
  have "HASH_BLOOM_TEST ?b x = Some (bloom_idx b x = ?i \<or> HASH_BLOOM_TEST b x = Some True)" for x
  proof -
    let ?x = "bloom_idx b x"
    have m: "?x = ?i \<longleftrightarrow> ?x div 8 = ?i div 8 \<and> ?x mod 8 = ?i mod 8" by (metis div_mult_mod_eq)
    have "bit (bloom_bv ?b ! (?x div 8)) (?x mod 8) \<longleftrightarrow> ?x = ?i \<or> bit (bloom_bv b ! (?x div 8)) (?x mod 8)"
      using bloom_idx_bound [OF b, of hv] bloom_idx_bound [OF b, of x]
      by (cases "?x div 8 = ?i div 8") (auto simp: m bit_or_iff bit_exp_iff nth_list_update)
    then show ?thesis using bloom_test_bit [OF ok, of x] bloom_test_bit [OF b, of x] by (simp add: idx)
  qed
  with ok bloom_idx_bound [OF b, of hv] show ?thesis by (intro exI [of _ ?b]) (simp add: HASH_BLOOM_ADD_def Let_def)
qed

end
