(* ===== verification/Utarray.thy ===== *)
theory Utarray
  imports Prelude
begin

text \<open>
  The dynamic array of \<^verbatim>\<open>src/uthash/utarray.h\<close>, with slots of one element each.

  The functions of the \<^verbatim>\<open>UT_icd\<close> are arguments: \<^verbatim>\<open>init\<close>, \<^verbatim>\<open>copy\<close> and whether there is a \<^verbatim>\<open>dtor\<close>; every
  element that is given to \<^verbatim>\<open>dtor\<close> is noted. \<^verbatim>\<open>i\<close> and \<^verbatim>\<open>n\<close> are \<^verbatim>\<open>unsigned\<close>, and so are the positions and
  lengths that the macros get. A slot outside of the block, or one that was never written where its
  contents matter, is \<^term>\<open>None\<close>; leaving the process with \<^verbatim>\<open>exit(-1)\<close> is \<^term>\<open>Inl (-1)\<close>.
\<close>

subsection \<open>The array\<close>

datatype 'e ua_ptr = NullArr | FreedArr | Slots "'e option list"

record 'e UT_icd =
  ic_init :: "'e option"
  ic_zero :: 'e
  ic_copy :: "('e \<Rightarrow> 'e) option"
  ic_dtor :: bool

record 'e UT_array =
  ua_i :: nat
  ua_n :: nat
  ua_icd :: "'e UT_icd"
  ua_d :: "'e ua_ptr"
  ua_gone :: "'e list"

type_synonym 'e ua_res = "(int + 'e UT_array) option"

definition u32 :: "int \<Rightarrow> nat" where
  "u32 x = nat (x mod 2 ^ 32)"

definition ua_bind :: "'e ua_res \<Rightarrow> ('e UT_array \<Rightarrow> 'e ua_res) \<Rightarrow> 'e ua_res" where
  "ua_bind r f = Option.bind r (\<lambda>x. case x of Inl c \<Rightarrow> Some (Inl c) | Inr a \<Rightarrow> f a)"

definition ua_fill :: "'e UT_icd \<Rightarrow> 'e" where
  "ua_fill icd = (case ic_init icd of Some e \<Rightarrow> e | None \<Rightarrow> ic_zero icd)"

definition ua_copy :: "'e UT_icd \<Rightarrow> 'e \<Rightarrow> 'e" where
  "ua_copy icd e = (case ic_copy icd of Some f \<Rightarrow> f e | None \<Rightarrow> e)"

definition ua_put :: "'e UT_array \<Rightarrow> nat \<Rightarrow> 'e \<Rightarrow> 'e UT_array option" where
  "ua_put a j e =
     (case ua_d a of Slots d \<Rightarrow> if j < length d then Some (a\<lparr>ua_d := Slots (d[j := Some e])\<rparr>) else None | _ \<Rightarrow> None)"

text \<open>The slots \<open>from, ..., from + k - 1\<close>; all of them written.\<close>

definition ua_slots :: "'e UT_array \<Rightarrow> nat \<Rightarrow> nat \<Rightarrow> 'e list option" where
  "ua_slots a from k =
     (case ua_d a of
        Slots d \<Rightarrow> if from + k \<le> length d then those (take k (drop from d)) else None
      | _ \<Rightarrow> if k = 0 then Some [] else None)"

text \<open>\<^verbatim>\<open>dtor\<close> of these slots, when there is one.\<close>

definition ua_destroy :: "'e UT_array \<Rightarrow> nat \<Rightarrow> nat \<Rightarrow> 'e UT_array option" where
  "ua_destroy a from k =
     (if ic_dtor (ua_icd a)
      then if k = 0 \<or> from + k \<le> ua_i a then map_option (\<lambda>es. a\<lparr>ua_gone := ua_gone a @ es\<rparr>) (ua_slots a from k) else None
      else Some a)"

text \<open>\<^verbatim>\<open>memmove\<close> of \<open>k\<close> slots.\<close>

definition ua_move :: "'e UT_array \<Rightarrow> nat \<Rightarrow> nat \<Rightarrow> nat \<Rightarrow> 'e UT_array option" where
  "ua_move a dst src k =
     (case ua_d a of
        Slots d \<Rightarrow> if dst + k \<le> length d \<and> src + k \<le> length d
                   then Some (a\<lparr>ua_d := Slots (take dst d @ take k (drop src d) @ drop (dst + k) d)\<rparr>) else None
      | _ \<Rightarrow> None)"

subsection \<open>The macros\<close>

definition utarray_init :: "'e UT_icd \<Rightarrow> 'e UT_array" where
  "utarray_init icd = \<lparr>ua_i = 0, ua_n = 0, ua_icd = icd, ua_d = NullArr, ua_gone = []\<rparr>"

definition utarray_done :: "'e UT_array \<Rightarrow> 'e UT_array option" where
  "utarray_done a =
     (if ua_n a \<noteq> 0
      then Option.bind (ua_destroy a 0 (ua_i a)) (\<lambda>a. if ua_d a = FreedArr then None
             else Some (a\<lparr>ua_d := FreedArr, ua_n := 0\<rparr>))
      else Some (a\<lparr>ua_n := 0\<rparr>))"

text \<open>The doubling, with its wrap-around.\<close>

partial_function (option) ua_grow :: "nat \<Rightarrow> nat \<Rightarrow> nat option" where
  "ua_grow want n = (if want > n then ua_grow want (if n \<noteq> 0 then 2 * n mod 2 ^ 32 else 8) else Some n)"

definition utarray_reserve :: "(nat \<Rightarrow> bool) \<Rightarrow> 'e UT_array \<Rightarrow> nat \<Rightarrow> 'e ua_res" where
  "utarray_reserve alloc a by =
     (let want = u32 (int (ua_i a) + int by)
      in if want > ua_n a
         then Option.bind (ua_grow want (ua_n a)) (\<lambda>n.
              case ua_d a of
                FreedArr \<Rightarrow> None
              | NullArr \<Rightarrow> Some (if alloc n then Inr (a\<lparr>ua_n := n, ua_d := Slots (replicate n None)\<rparr>) else Inl (-1))
              | Slots d \<Rightarrow> Some (if alloc n then Inr (a\<lparr>ua_n := n, ua_d := Slots (take n d @ replicate (n - length d) None)\<rparr>) else Inl (-1)))
         else Some (Inr a))"

definition utarray_push_back :: "(nat \<Rightarrow> bool) \<Rightarrow> 'e UT_array \<Rightarrow> 'e \<Rightarrow> 'e ua_res" where
  "utarray_push_back alloc a e =
     ua_bind (utarray_reserve alloc a 1) (\<lambda>a.
       map_option (\<lambda>a. Inr (a\<lparr>ua_i := u32 (int (ua_i a) + 1)\<rparr>)) (ua_put a (ua_i a) (ua_copy (ua_icd a) e)))"

definition utarray_pop_back :: "'e UT_array \<Rightarrow> 'e UT_array option" where
  "utarray_pop_back a =
     (let i = u32 (int (ua_i a) - 1)
      in if ic_dtor (ua_icd a) then map_option (\<lambda>es. a\<lparr>ua_i := i, ua_gone := ua_gone a @ es\<rparr>) (ua_slots a i 1)
         else Some (a\<lparr>ua_i := i\<rparr>))"

definition utarray_extend_back :: "(nat \<Rightarrow> bool) \<Rightarrow> 'e UT_array \<Rightarrow> 'e ua_res" where
  "utarray_extend_back alloc a =
     ua_bind (utarray_reserve alloc a 1) (\<lambda>a.
       map_option (\<lambda>a. Inr (a\<lparr>ua_i := u32 (int (ua_i a) + 1)\<rparr>)) (ua_put a (ua_i a) (ua_fill (ua_icd a))))"

definition utarray_len :: "'e UT_array \<Rightarrow> nat" where
  "utarray_len a = ua_i a"

text \<open>\<open>es\<close> into the slots from \<open>j\<close> on.\<close>

primrec ua_puts :: "'e UT_array \<Rightarrow> nat \<Rightarrow> 'e list \<Rightarrow> 'e UT_array option" where
  "ua_puts a j [] = Some a"
| "ua_puts a j (e # es) = Option.bind (ua_put a j e) (\<lambda>a. ua_puts a (j + 1) es)"

definition utarray_resize :: "(nat \<Rightarrow> bool) \<Rightarrow> 'e UT_array \<Rightarrow> nat \<Rightarrow> 'e ua_res" where
  "utarray_resize alloc a num =
     (if ua_i a > num then map_option (\<lambda>a. Inr (a\<lparr>ua_i := num\<rparr>)) (ua_destroy a num (ua_i a - num))
      else if ua_i a < num
      then ua_bind (utarray_reserve alloc a (num - ua_i a)) (\<lambda>a.
             map_option (\<lambda>a. Inr (a\<lparr>ua_i := num\<rparr>)) (ua_puts a (ua_i a) (replicate (num - ua_i a) (ua_fill (ua_icd a)))))
      else Some (Inr (a\<lparr>ua_i := num\<rparr>)))"

definition utarray_insert :: "(nat \<Rightarrow> bool) \<Rightarrow> 'e UT_array \<Rightarrow> 'e \<Rightarrow> nat \<Rightarrow> 'e ua_res" where
  "utarray_insert alloc a e j =
     ua_bind (if j > ua_i a then utarray_resize alloc a j else Some (Inr a)) (\<lambda>a.
     ua_bind (utarray_reserve alloc a 1) (\<lambda>a.
     Option.bind (if j < ua_i a then ua_move a (j + 1) j (ua_i a - j) else Some a) (\<lambda>a.
       map_option (\<lambda>a. Inr (a\<lparr>ua_i := u32 (int (ua_i a) + 1)\<rparr>)) (ua_put a j (ua_copy (ua_icd a) e)))))"

text \<open>\<open>w\<close> is another array.\<close>

definition utarray_inserta :: "(nat \<Rightarrow> bool) \<Rightarrow> 'e UT_array \<Rightarrow> 'e UT_array \<Rightarrow> nat \<Rightarrow> 'e ua_res" where
  "utarray_inserta alloc a w j =
     (if utarray_len w = 0 then Some (Inr a)
      else ua_bind (if j > ua_i a then utarray_resize alloc a j else Some (Inr a)) (\<lambda>a.
           ua_bind (utarray_reserve alloc a (utarray_len w)) (\<lambda>a.
           Option.bind (if j < ua_i a then ua_move a (j + utarray_len w) j (ua_i a - j) else Some a) (\<lambda>a.
           Option.bind (ua_slots w 0 (ua_i w)) (\<lambda>es.
             map_option (\<lambda>a. Inr (a\<lparr>ua_i := u32 (int (ua_i a) + int (utarray_len w))\<rparr>))
               (ua_puts a j (map (ua_copy (ua_icd a)) es)))))))"

definition utarray_concat :: "(nat \<Rightarrow> bool) \<Rightarrow> 'e UT_array \<Rightarrow> 'e UT_array \<Rightarrow> 'e ua_res" where
  "utarray_concat alloc dst src = utarray_inserta alloc dst src (utarray_len dst)"

definition utarray_erase :: "'e UT_array \<Rightarrow> nat \<Rightarrow> nat \<Rightarrow> 'e UT_array option" where
  "utarray_erase a pos len =
     Option.bind (ua_destroy a pos len) (\<lambda>a.
       let e = u32 (int pos + int len)
       in map_option (\<lambda>a. a\<lparr>ua_i := u32 (int (ua_i a) - int len)\<rparr>)
            (if ua_i a > e then ua_move a pos e (ua_i a - e) else Some a))"

definition utarray_clear :: "'e UT_array \<Rightarrow> 'e UT_array option" where
  "utarray_clear a = (if ua_i a > 0 then map_option (\<lambda>a. a\<lparr>ua_i := 0\<rparr>) (ua_destroy a 0 (ua_i a)) else Some a)"

text \<open>Positions instead of pointers to elements; \<^verbatim>\<open>NULL\<close> is \<^term>\<open>None\<close>.\<close>

definition utarray_eltptr :: "'e UT_array \<Rightarrow> nat \<Rightarrow> nat option" where
  "utarray_eltptr a j = (if j < ua_i a then Some j else None)"

definition utarray_front :: "'e UT_array \<Rightarrow> nat option" where
  "utarray_front a = (if ua_i a \<noteq> 0 then Some 0 else None)"

definition utarray_back :: "'e UT_array \<Rightarrow> nat option" where
  "utarray_back a = (if ua_i a \<noteq> 0 then Some (ua_i a - 1) else None)"

definition utarray_next :: "'e UT_array \<Rightarrow> nat option \<Rightarrow> nat option" where
  "utarray_next a e = (case e of None \<Rightarrow> utarray_front a | Some j \<Rightarrow> if ua_i a > j + 1 then Some (j + 1) else None)"

definition utarray_prev :: "'e UT_array \<Rightarrow> nat option \<Rightarrow> nat option" where
  "utarray_prev a e = (case e of None \<Rightarrow> utarray_back a | Some j \<Rightarrow> if j > 0 then Some (j - 1) else None)"

subsection \<open>The list that the array holds\<close>

text \<open>The slots in front of \<open>i\<close> are written; the block has \<open>n\<close> slots.\<close>

definition ua_holds :: "'e UT_array \<Rightarrow> 'e list \<Rightarrow> bool" where
  "ua_holds a xs \<longleftrightarrow> ua_i a = length xs \<and> ua_n a < 2 ^ 32 \<and>
     (ua_d a = NullArr \<and> ua_n a = 0 \<and> xs = [] \<or>
      (\<exists>rest. ua_d a = Slots (map Some xs @ rest) \<and> ua_n a = length xs + length rest))"

text \<open>There are \<open>k\<close> more slots behind the elements.\<close>

definition ua_room :: "'e UT_array \<Rightarrow> 'e list \<Rightarrow> nat \<Rightarrow> bool" where
  "ua_room a xs k \<longleftrightarrow> ua_i a = length xs \<and> ua_n a < 2 ^ 32 \<and>
     (\<exists>rest. ua_d a = Slots (map Some xs @ rest) \<and> ua_n a = length xs + length rest \<and> k \<le> length rest)"

lemma ua_room_holds: "ua_room a xs k \<Longrightarrow> ua_holds a xs"
  by (auto simp: ua_room_def ua_holds_def)

lemma u32_id: "0 \<le> x \<Longrightarrow> x < 2 ^ 32 \<Longrightarrow> u32 x = nat x"
  by (simp add: u32_def)

text \<open>Up to \<open>2 ^ 31\<close> slots the doubling arrives; it never goes back.\<close>

lemma ua_grow_ok:
  assumes "want \<le> 2 ^ 31" "n < 2 ^ 32"
  shows "\<exists>n'. ua_grow want n = Some n' \<and> want \<le> n' \<and> n \<le> n' \<and> n' < 2 ^ 32"
  using assms(2)
proof (induction "2 ^ 32 - n" arbitrary: n rule: less_induct)
  case less
  show ?case
  proof (cases "want > n")
    case False
    with less.prems show ?thesis by (subst ua_grow.simps) simp
  next
    case True
    let ?m = "if n \<noteq> 0 then 2 * n mod 2 ^ 32 else 8"
    have m: "n < ?m" "?m < 2 ^ 32" using True assms(1) by auto
    then have "2 ^ 32 - ?m < 2 ^ 32 - n" by linarith
    from less.hyps [OF this m(2)] obtain n' where "ua_grow want ?m = Some n'" "want \<le> n'" "?m \<le> n'" "n' < 2 ^ 32" by blast
    with True m(1) show ?thesis by (subst ua_grow.simps) (auto split: if_splits)
  qed
qed

text \<open>Beyond that it never ends: the number of slots wraps round to zero and starts again.\<close>

lemma ua_grow_diverges:
  assumes "ua_grow want n = Some n'"
  shows "2 ^ 31 < want \<longrightarrow> (n = 0 \<or> (\<exists>k < 32. n = 2 ^ k)) \<longrightarrow> False"
proof (rule ua_grow.raw_induct [where P = "\<lambda>want n n'. 2 ^ 31 < want \<longrightarrow> (n = 0 \<or> (\<exists>k < 32. n = 2 ^ k)) \<longrightarrow> False", OF _ assms], intro impI)
  fix f :: "nat \<Rightarrow> nat \<Rightarrow> nat option" and want n n' :: nat
  assume IH: "\<And>want n n'. f want n = Some n' \<Longrightarrow> 2 ^ 31 < want \<longrightarrow> (n = 0 \<or> (\<exists>k < 32. n = 2 ^ k)) \<longrightarrow> False"
    and r: "(if want > n then f want (if n \<noteq> 0 then 2 * n mod 2 ^ 32 else 8) else Some n) = Some n'"
    and w: "2 ^ 31 < want" and n: "n = 0 \<or> (\<exists>k < 32. n = 2 ^ k)"
  have "n < want"
  proof (cases "n = 0")
    case False
    with n obtain k where "k < 32" "n = 2 ^ k" by blast
    have "(2::nat) ^ k \<le> 2 ^ 31" using \<open>k < 32\<close> by (intro power_increasing) simp_all
    with \<open>n = 2 ^ k\<close> w show ?thesis by linarith
  qed (use w in simp)
  with r have f: "f want (if n \<noteq> 0 then 2 * n mod 2 ^ 32 else 8) = Some n'" by simp
  let ?m = "if n \<noteq> 0 then 2 * n mod 2 ^ 32 else 8"
  have "?m = 0 \<or> (\<exists>k < 32. ?m = 2 ^ k)"
  proof (cases "n = 0")
    case True
    then have "?m = 2 ^ 3" by simp
    then show ?thesis by (intro disjI2 exI [of _ 3]) simp
  next
    case False
    with n obtain k where k: "k < 32" "n = 2 ^ k" by blast
    show ?thesis
    proof (cases "k = 31")
      case True
      with k show ?thesis by simp
    next
      case False
      with k(1) have "Suc k < 32" by simp
      then have "(2::nat) ^ Suc k < 2 ^ 32" by (intro power_strict_increasing) simp_all
      then have "2 * n mod 2 ^ 32 = 2 ^ Suc k" using k(2) by simp
      with \<open>n \<noteq> 0\<close> \<open>Suc k < 32\<close> show ?thesis by (intro disjI2 exI [of _ "Suc k"]) simp
    qed
  qed
  with IH [OF f] w show False by blast
qed

lemma reserve_ok:
  assumes h: "ua_holds a xs" and k: "length xs + k \<le> 2 ^ 31" "0 < k" and al: "\<forall>n. alloc n"
  shows "\<exists>a'. utarray_reserve alloc a k = Some (Inr a') \<and> ua_room a' xs k \<and> ua_icd a' = ua_icd a \<and> ua_gone a' = ua_gone a"
proof -
  have i: "ua_i a = length xs" "ua_n a < 2 ^ 32" using h by (auto simp: ua_holds_def)
  have w: "u32 (int (ua_i a) + int k) = length xs + k" using i(1) k(1) by (subst u32_id) auto
  show ?thesis
  proof (cases "length xs + k > ua_n a")
    case False
    then have "utarray_reserve alloc a k = Some (Inr a)" by (simp add: utarray_reserve_def w)
    moreover have "ua_room a xs k" using h False k(2) by (auto simp: ua_holds_def ua_room_def)
    ultimately show ?thesis by blast
  next
    case True
    obtain n where n: "ua_grow (length xs + k) (ua_n a) = Some n" "length xs + k \<le> n" "ua_n a \<le> n" "n < 2 ^ 32"
      using ua_grow_ok [OF k(1) i(2)] by blast
    from h consider (null) "ua_d a = NullArr" "ua_n a = 0" "xs = []"
      | (slots) rest where "ua_d a = Slots (map Some xs @ rest)" "ua_n a = length xs + length rest"
      by (auto simp: ua_holds_def)
    then show ?thesis
    proof cases
      case null
      let ?a = "a\<lparr>ua_n := n, ua_d := Slots (replicate n None)\<rparr>"
      have "utarray_reserve alloc a k = Some (Inr ?a)" using True n(1) null(1) al by (simp add: utarray_reserve_def w)
      moreover have "ua_room ?a xs k" using n i null(3) by (simp add: ua_room_def)
      ultimately show ?thesis by auto
    next
      case slots
      let ?d = "map Some xs @ rest @ replicate (n - ua_n a) None"
      let ?a = "a\<lparr>ua_n := n, ua_d := Slots ?d\<rparr>"
      have "utarray_reserve alloc a k = Some (Inr ?a)"
        using True n slots al by (simp add: utarray_reserve_def w)
      moreover have "ua_room ?a xs k" using n i slots by (auto simp: ua_room_def)
      ultimately show ?thesis by auto
    qed
  qed
qed

lemma those_Some [simp]: "those (map Some xs) = Some xs"
  by (induction xs) simp_all

lemma ua_holdsI:
  "ua_d a = Slots (map Some xs @ rest) \<Longrightarrow> ua_n a = length xs + length rest \<Longrightarrow> ua_i a = length xs \<Longrightarrow> ua_n a < 2 ^ 32 \<Longrightarrow> ua_holds a xs"
  by (auto simp: ua_holds_def)

text \<open>Write \<open>es\<close> over the slots behind the first \<open>j\<close>.\<close>

lemma ua_puts_ok:
  "ua_d a = Slots d \<Longrightarrow> j + length es \<le> length d \<Longrightarrow>
   ua_puts a j es = Some (a\<lparr>ua_d := Slots (take j d @ map Some es @ drop (j + length es) d)\<rparr>)"
proof (induction es arbitrary: a d j)
  case (Cons e es)
  let ?d = "d[j := Some e]"
  have p: "ua_put a j e = Some (a\<lparr>ua_d := Slots ?d\<rparr>)" using Cons.prems by (simp add: ua_put_def)
  have "ua_puts (a\<lparr>ua_d := Slots ?d\<rparr>) (j + 1) es =
      Some (a\<lparr>ua_d := Slots (take (j + 1) ?d @ map Some es @ drop (j + 1 + length es) ?d)\<rparr>)"
    using Cons.IH [of "a\<lparr>ua_d := Slots ?d\<rparr>" ?d "j + 1"] Cons.prems by simp
  moreover have "take (j + 1) ?d = take j d @ [Some e]"
    using Cons.prems(2) by (simp add: take_Suc_conv_app_nth)
  moreover have "drop (j + 1 + length es) ?d = drop (j + length (e # es)) d" by simp
  ultimately show ?case using p by simp
qed simp

lemma push_back_ok:
  assumes h: "ua_holds a xs" and k: "length xs < 2 ^ 31" and al: "\<forall>n. alloc n"
  shows "\<exists>a'. utarray_push_back alloc a e = Some (Inr a') \<and> ua_holds a' (xs @ [ua_copy (ua_icd a) e])"
proof -
  obtain b where b: "utarray_reserve alloc a 1 = Some (Inr b)" "ua_room b xs 1" "ua_icd b = ua_icd a"
    using reserve_ok [OF h, of 1 alloc] k al by auto
  obtain r where r: "ua_d b = Slots (map Some xs @ r)" "ua_n b = length xs + length r" "1 \<le> length r" "ua_i b = length xs" "ua_n b < 2 ^ 32"
    using b(2) by (auto simp: ua_room_def)
  then obtain y ys where y: "r = y # ys" by (cases r) auto
  let ?e = "ua_copy (ua_icd a) e"
  let ?b = "b\<lparr>ua_d := Slots (map Some (xs @ [?e]) @ ys), ua_i := length xs + 1\<rparr>"
  have "u32 (int (length xs) + 1) = length xs + 1" using k by (subst u32_id) auto
  then have "utarray_push_back alloc a e = Some (Inr ?b)"
    using r y b(1,3) by (simp add: utarray_push_back_def ua_bind_def ua_put_def list_update_append)
  moreover have "ua_holds ?b (xs @ [?e])" by (rule ua_holdsI [where rest = ys]) (use r y in auto)
  ultimately show ?thesis by blast
qed

text \<open>Dropping the last element: the array must not be empty.\<close>

lemma pop_back_ok:
  assumes h: "ua_holds a (xs @ [e])"
  shows "\<exists>a'. utarray_pop_back a = Some a' \<and> ua_holds a' xs \<and> ua_gone a' = ua_gone a @ (if ic_dtor (ua_icd a) then [e] else [])"
proof -
  obtain r where r: "ua_d a = Slots (map Some (xs @ [e]) @ r)" "ua_n a = length (xs @ [e]) + length r" "ua_i a = length xs + 1" "ua_n a < 2 ^ 32"
    using h by (auto simp: ua_holds_def)
  have i: "u32 (int (ua_i a) - 1) = length xs" using r by (subst u32_id) auto
  have s: "ua_slots a (length xs) (Suc 0) = Some [e]" using r(1) by (simp add: ua_slots_def)
  have "ua_holds (a\<lparr>ua_i := length xs, ua_gone := g\<rparr>) xs" "ua_holds (a\<lparr>ua_i := length xs\<rparr>) xs" for g
    by (rule ua_holdsI [where rest = "Some e # r"]; use r in simp)+
  then show ?thesis by (auto simp: utarray_pop_back_def i s Let_def)
qed

lemma resize_down_ok:
  assumes h: "ua_holds a xs" and k: "num < length xs"
  shows "\<exists>a'. utarray_resize alloc a num = Some (Inr a') \<and> ua_holds a' (take num xs) \<and>
    ua_gone a' = ua_gone a @ (if ic_dtor (ua_icd a) then drop num xs else [])"
proof -
  obtain r where r: "ua_d a = Slots (map Some xs @ r)" "ua_n a = length xs + length r" "ua_i a = length xs" "ua_n a < 2 ^ 32"
    using h k by (auto simp: ua_holds_def)
  have s: "ua_slots a num (length xs - num) = Some (drop num xs)" using r(1) k by (simp add: ua_slots_def drop_map)
  have "ua_holds (a\<lparr>ua_gone := g, ua_i := num\<rparr>) (take num xs)" "ua_holds (a\<lparr>ua_i := num\<rparr>) (take num xs)" for g
    by (rule ua_holdsI [where rest = "map Some (drop num xs) @ r"]; use r k in \<open>simp flip: map_append append_assoc\<close>)+
  then show ?thesis using k r(3) by (auto simp: utarray_resize_def ua_destroy_def s)
qed

lemma resize_up_ok:
  assumes h: "ua_holds a xs" and k: "length xs \<le> num" "num \<le> 2 ^ 31" and al: "\<forall>n. alloc n"
  shows "\<exists>a'. utarray_resize alloc a num = Some (Inr a') \<and>
    ua_holds a' (xs @ replicate (num - length xs) (ua_fill (ua_icd a))) \<and> ua_icd a' = ua_icd a"
proof (cases "length xs = num")
  case True
  with h show ?thesis by (auto simp: utarray_resize_def ua_holds_def)
next
  case False
  then obtain b where b: "utarray_reserve alloc a (num - length xs) = Some (Inr b)" "ua_room b xs (num - length xs)" "ua_icd b = ua_icd a"
    using reserve_ok [OF h, of "num - length xs" alloc] k al by auto
  obtain r where r: "ua_d b = Slots (map Some xs @ r)" "ua_n b = length xs + length r" "num - length xs \<le> length r" "ua_i b = length xs" "ua_n b < 2 ^ 32"
    using b(2) by (auto simp: ua_room_def)
  have i: "ua_i a = length xs" using h by (simp add: ua_holds_def)
  let ?es = "replicate (num - length xs) (ua_fill (ua_icd a))"
  let ?b = "b\<lparr>ua_d := Slots (map Some (xs @ ?es) @ drop (num - length xs) r), ua_i := num\<rparr>"
  have "ua_puts b (length xs) ?es = Some (b\<lparr>ua_d := Slots (map Some (xs @ ?es) @ drop (num - length xs) r)\<rparr>)"
    using ua_puts_ok [OF r(1), of "length xs" ?es] r(3) by simp
  then have "utarray_resize alloc a num = Some (Inr ?b)"
    using False k(1) b(1,3) r(4) i by (simp add: utarray_resize_def ua_bind_def)
  moreover have "ua_holds ?b (xs @ ?es)" by (rule ua_holdsI [where rest = "drop (num - length xs) r"]) (use r k in auto)
  ultimately show ?thesis using b(3) by auto
qed

text \<open>What both insertions do behind the reservation: open a gap of \<open>length es\<close> slots at \<open>j\<close> and fill it.\<close>

lemma gap_ok:
  assumes r: "ua_room b xs (length es)" and j: "j \<le> length xs"
  shows "\<exists>c. (if j < ua_i b then ua_move b (j + length es) j (ua_i b - j) else Some b) = Some c \<and>
    ua_icd c = ua_icd b \<and> ua_i c = length xs \<and> (\<exists>c'. ua_puts c j es = Some c' \<and> ua_i c' = length xs \<and> ua_n c' = ua_n b \<and>
      (\<exists>rest. ua_d c' = Slots (map Some (take j xs @ es @ drop j xs) @ rest) \<and> ua_n c' = length xs + length es + length rest))"
proof -
  obtain r where r: "ua_d b = Slots (map Some xs @ r)" "ua_n b = length xs + length r" "length es \<le> length r" "ua_i b = length xs"
    using r by (auto simp: ua_room_def)
  let ?k = "length es"
  obtain d where d: "(if j < ua_i b then ua_move b (j + ?k) j (ua_i b - j) else Some b) = Some (b\<lparr>ua_d := Slots d\<rparr>)"
    "length d = length xs + length r" "take j d = map Some (take j xs)" "drop (j + ?k) d = map Some (drop j xs) @ drop ?k r"
  proof (cases "j < length xs")
    case True
    let ?d = "take (j + ?k) (map Some xs @ r) @ map Some (drop j xs) @ drop ?k r"
    have "ua_move b (j + ?k) j (length xs - j) = Some (b\<lparr>ua_d := Slots ?d\<rparr>)"
      using r True by (simp add: ua_move_def drop_map take_map)
    moreover have "take j ?d = map Some (take j xs)" using True by (simp add: take_map min_def)
    moreover have "length (take (j + ?k) (map Some xs @ r)) = j + ?k" using r(3) j by simp
    then have "drop (j + ?k) ?d = map Some (drop j xs) @ drop ?k r" by (subst drop_append) (simp del: take_append)
    ultimately show ?thesis using that [of ?d] True r j by simp
  next
    case False
    with j have "j = length xs" by simp
    then show ?thesis using that [of "map Some xs @ r"] r by simp
  qed
  have p: "ua_puts (b\<lparr>ua_d := Slots d\<rparr>) j es = Some (b\<lparr>ua_d := Slots (map Some (take j xs @ es @ drop j xs) @ drop ?k r)\<rparr>)"
    using ua_puts_ok [of "b\<lparr>ua_d := Slots d\<rparr>" d j es] d(2-4) r(3) j by simp
  show ?thesis
    by (rule exI [of _ "b\<lparr>ua_d := Slots d\<rparr>"]) (use d(1) p r j in simp)
qed

lemma inserta_ok:
  assumes h: "ua_holds a xs" and w: "ua_holds w ys" and j: "j \<le> length xs" and k: "length xs + length ys \<le> 2 ^ 31"
    and al: "\<forall>n. alloc n"
  shows "\<exists>a'. utarray_inserta alloc a w j = Some (Inr a') \<and> ua_holds a' (take j xs @ map (ua_copy (ua_icd a)) ys @ drop j xs)"
proof (cases "ys = []")
  case True
  with w h show ?thesis by (simp add: utarray_inserta_def utarray_len_def ua_holds_def)
next
  case False
  have i: "ua_i a = length xs" "ua_i w = length ys" using h w by (simp_all add: ua_holds_def)
  let ?es = "map (ua_copy (ua_icd a)) ys"
  obtain b where b: "utarray_reserve alloc a (length ys) = Some (Inr b)" "ua_room b xs (length ?es)" "ua_icd b = ua_icd a"
    using reserve_ok [OF h k _ al] False by auto
  obtain c c' rest where c: "(if j < ua_i b then ua_move b (j + length ?es) j (ua_i b - j) else Some b) = Some c" "ua_icd c = ua_icd b"
    "ua_puts c j ?es = Some c'" "ua_i c' = length xs" "ua_n c' = ua_n b"
    "ua_d c' = Slots (map Some (take j xs @ ?es @ drop j xs) @ rest)" "ua_n c' = length xs + length ?es + length rest"
    using gap_ok [OF b(2) j] by blast
  have s: "ua_slots w 0 (length ys) = Some ys" using w False by (auto simp: ua_holds_def ua_slots_def)
  have n: "ua_n b < 2 ^ 32" using b(2) by (simp add: ua_room_def)
  have u: "u32 (int (length xs) + int (length ys)) = length xs + length ys" using k by (subst u32_id) auto
  have "utarray_inserta alloc a w j = Some (Inr (c'\<lparr>ua_i := length xs + length ys\<rparr>))"
    using False i j b c s u by (cases "j < ua_i b") (simp_all add: utarray_inserta_def utarray_len_def ua_bind_def)
  moreover have "ua_holds (c'\<lparr>ua_i := length xs + length ys\<rparr>) (take j xs @ ?es @ drop j xs)"
    by (rule ua_holdsI [where rest = rest]) (use c n j in auto)
  ultimately show ?thesis by blast
qed

lemma concat_ok:
  assumes "ua_holds a xs" "ua_holds w ys" "length xs + length ys \<le> 2 ^ 31" "\<forall>n. alloc n"
  shows "\<exists>a'. utarray_concat alloc a w = Some (Inr a') \<and> ua_holds a' (xs @ map (ua_copy (ua_icd a)) ys)"
proof -
  have "utarray_len a = length xs" using assms(1) by (simp add: utarray_len_def ua_holds_def)
  with inserta_ok [OF assms(1,2) _ assms(3,4), of "length xs"] show ?thesis by (simp add: utarray_concat_def)
qed

lemma insert_inside_ok:
  assumes h: "ua_holds a xs" and j: "j \<le> length xs" and k: "length xs < 2 ^ 31" and al: "\<forall>n. alloc n"
  shows "\<exists>a'. utarray_insert alloc a e j = Some (Inr a') \<and> ua_holds a' (take j xs @ ua_copy (ua_icd a) e # drop j xs)"
proof -
  have i: "ua_i a = length xs" using h by (simp add: ua_holds_def)
  let ?es = "[ua_copy (ua_icd a) e]"
  obtain b where b: "utarray_reserve alloc a 1 = Some (Inr b)" "ua_room b xs (length ?es)" "ua_icd b = ua_icd a"
    using reserve_ok [OF h _ _ al, of 1] k by auto
  obtain c c' rest where c: "(if j < ua_i b then ua_move b (j + length ?es) j (ua_i b - j) else Some b) = Some c" "ua_icd c = ua_icd b"
    "ua_puts c j ?es = Some c'" "ua_i c' = length xs" "ua_n c' = ua_n b"
    "ua_d c' = Slots (map Some (take j xs @ ?es @ drop j xs) @ rest)" "ua_n c' = length xs + length ?es + length rest"
    using gap_ok [OF b(2) j] by blast
  have n: "ua_n b < 2 ^ 32" using b(2) by (simp add: ua_room_def)
  have u: "u32 (int (length xs) + 1) = length xs + 1" using k by (subst u32_id) auto
  have p: "ua_put c j (ua_copy (ua_icd a) e) = Some c'" using c(3) by (cases "ua_put c j (ua_copy (ua_icd a) e)") simp_all
  have "utarray_insert alloc a e j = Some (Inr (c'\<lparr>ua_i := length xs + 1\<rparr>))"
    using i j b c p u by (cases "j < ua_i b") (simp_all add: utarray_insert_def ua_bind_def)
  moreover have "ua_holds (c'\<lparr>ua_i := length xs + 1\<rparr>) (take j xs @ ?es @ drop j xs)"
    by (rule ua_holdsI [where rest = rest]) (use c n j in auto)
  ultimately show ?thesis by auto
qed

text \<open>Behind the end the array is filled up first.\<close>

lemma insert_beyond_ok:
  assumes h: "ua_holds a xs" and j: "length xs < j" "j < 2 ^ 31" and al: "\<forall>n. alloc n"
  shows "\<exists>a'. utarray_insert alloc a e j = Some (Inr a') \<and>
    ua_holds a' (xs @ replicate (j - length xs) (ua_fill (ua_icd a)) @ [ua_copy (ua_icd a) e])"
proof -
  have i: "ua_i a = length xs" using h by (simp add: ua_holds_def)
  let ?ys = "xs @ replicate (j - length xs) (ua_fill (ua_icd a))"
  obtain b where b: "utarray_resize alloc a j = Some (Inr b)" "ua_holds b ?ys" "ua_icd b = ua_icd a"
    using resize_up_ok [OF h _ _ al, of j] j by auto
  have l: "length ?ys = j" "ua_i b = j" using j(1) b(2) by (simp_all add: ua_holds_def)
  then have "utarray_insert alloc a e j = utarray_insert alloc b e j"
    using i j(1) b(1) by (simp add: utarray_insert_def ua_bind_def)
  moreover obtain a' where "utarray_insert alloc b e j = Some (Inr a')" "ua_holds a' (take j ?ys @ ua_copy (ua_icd b) e # drop j ?ys)"
    using insert_inside_ok [OF b(2) _ _ al, of j e] l(1) j(2) by auto
  ultimately show ?thesis using l(1) b(3) by auto
qed

lemma erase_ok:
  assumes h: "ua_holds a xs" and p: "pos + len \<le> length xs" and ne: "xs \<noteq> []"
  shows "\<exists>a'. utarray_erase a pos len = Some a' \<and> ua_holds a' (take pos xs @ drop (pos + len) xs) \<and>
    ua_gone a' = ua_gone a @ (if ic_dtor (ua_icd a) then take len (drop pos xs) else [])"
proof -
  obtain r where r: "ua_d a = Slots (map Some xs @ r)" "ua_n a = length xs + length r" "ua_i a = length xs" "ua_n a < 2 ^ 32"
    using h ne by (auto simp: ua_holds_def)
  let ?g = "ua_gone a @ (if ic_dtor (ua_icd a) then take len (drop pos xs) else [])"
  let ?a = "a\<lparr>ua_gone := ?g\<rparr>"
  have "ua_slots a pos len = Some (take len (drop pos xs))"
    using r(1) p by (simp add: ua_slots_def drop_map take_map)
  then have d: "ua_destroy a pos len = Some ?a" using p r(3) by (simp add: ua_destroy_def)
  have u: "u32 (int pos + int len) = pos + len" "u32 (int (length xs) - int len) = length xs - len"
    using p r(2,4) by (subst u32_id; simp add: nat_add_distrib)+
  obtain c rest where c: "(if length xs > pos + len then ua_move ?a pos (pos + len) (length xs - (pos + len)) else Some ?a) = Some c"
    "ua_d c = Slots (map Some (take pos xs @ drop (pos + len) xs) @ rest)" "length rest = len + length r" "ua_n c = ua_n a" "ua_gone c = ?g" "ua_i c = length xs"
  proof (cases "length xs > pos + len")
    case True
    let ?rest = "drop (length xs - len) (map Some xs @ r)"
    have "ua_move ?a pos (pos + len) (length xs - (pos + len)) =
        Some (?a\<lparr>ua_d := Slots (map Some (take pos xs) @ map Some (drop (pos + len) xs) @ ?rest)\<rparr>)"
      using r True p by (simp add: ua_move_def take_map drop_map)
    then show ?thesis using that [of "?a\<lparr>ua_d := Slots (map Some (take pos xs) @ map Some (drop (pos + len) xs) @ ?rest)\<rparr>" ?rest] True r p
      by simp
  next
    case False
    then have e: "length xs = pos + len" using p by simp
    have "map Some xs @ r = map Some (take pos xs) @ map Some (drop pos xs) @ r" by (simp flip: map_append append_assoc)
    then show ?thesis using that [of ?a "map Some (drop pos xs) @ r"] e r by simp
  qed
  have "utarray_erase a pos len = Some (c\<lparr>ua_i := length xs - len\<rparr>)"
    using d c(1,6) r(3) u by (cases "length xs > pos + len") (simp_all add: utarray_erase_def Let_def)
  moreover have "ua_holds (c\<lparr>ua_i := length xs - len\<rparr>) (take pos xs @ drop (pos + len) xs)"
    by (rule ua_holdsI [where rest = rest]) (use c r p in auto)
  ultimately show ?thesis using c(5) by auto
qed

lemma clear_ok:
  assumes h: "ua_holds a xs"
  shows "\<exists>a'. utarray_clear a = Some a' \<and> ua_holds a' [] \<and> ua_gone a' = ua_gone a @ (if ic_dtor (ua_icd a) then xs else [])"
proof (cases "xs = []")
  case True
  with h show ?thesis by (auto simp: utarray_clear_def ua_holds_def)
next
  case False
  obtain r where r: "ua_d a = Slots (map Some xs @ r)" "ua_n a = length xs + length r" "ua_i a = length xs" "ua_n a < 2 ^ 32"
    using h False by (auto simp: ua_holds_def)
  let ?a = "a\<lparr>ua_gone := ua_gone a @ (if ic_dtor (ua_icd a) then xs else [])\<rparr>"
  have "ua_destroy a 0 (length xs) = Some ?a" using r by (simp add: ua_destroy_def ua_slots_def)
  then have "utarray_clear a = Some (?a\<lparr>ua_i := 0\<rparr>)" using False r(3) by (simp add: utarray_clear_def)
  moreover have "ua_holds (?a\<lparr>ua_i := 0\<rparr>) []" by (rule ua_holdsI [where rest = "map Some xs @ r"]) (use r in auto)
  ultimately show ?thesis by auto
qed

text \<open>Going forward from \<^verbatim>\<open>NULL\<close> visits the positions in order, going back in the opposite order.\<close>

lemma next_prev:
  assumes "ua_holds a xs"
  shows "utarray_next a None = (if xs = [] then None else Some 0)" "utarray_prev a None = (if xs = [] then None else Some (length xs - 1))"
    "j < length xs \<Longrightarrow> utarray_next a (Some j) = (if Suc j < length xs then Some (Suc j) else None)"
    "utarray_prev a (Some (Suc j)) = Some j" "utarray_prev a (Some 0) = None"
  using assms by (auto simp: ua_holds_def utarray_next_def utarray_prev_def utarray_front_def utarray_back_def)

text \<open>Erasing more than there is, and dropping from an empty array: the number of elements wraps round.\<close>

lemma pop_back_empty: "ua_holds a [] \<Longrightarrow> \<not> ic_dtor (ua_icd a) \<Longrightarrow> utarray_pop_back a = Some (a\<lparr>ua_i := 2 ^ 32 - 1\<rparr>)"
  by (simp add: utarray_pop_back_def ua_holds_def u32_def)

end
