(* ===== verification/Csapp.thy ===== *)
theory Csapp
  imports Rio Strbuf
begin

text \<open>
  The wrappers of \<^verbatim>\<open>src/csapp.c\<close> around single calls of the system and of libraries, and its error
  functions. What a call answers is the argument: its result, and \<^verbatim>\<open>errno\<close> where the error message needs
  it. A wrapper returns or ends the process, printing one line to the standard error; the exit status is
  0 even so.
\<close>

subsection \<open>Errors\<close>

datatype 'a wrapped = Back 'a | Gone string

type_synonym sysres = "int \<times> int"

definition ETIMEDOUT :: int where "ETIMEDOUT = 110"
definition EOF :: int where "EOF = -1"
definition SA_RESTART :: nat where "SA_RESTART = 268435456"

definition unix_error :: "(int \<Rightarrow> string) \<Rightarrow> string \<Rightarrow> int \<Rightarrow> string" where
  "unix_error strerror msg errno = msg @ '': '' @ strerror errno @ [LF]"

definition posix_error :: "(int \<Rightarrow> string) \<Rightarrow> int \<Rightarrow> string \<Rightarrow> string" where
  "posix_error strerror code msg = msg @ '': '' @ strerror code @ [LF]"

definition dns_error :: "string \<Rightarrow> int \<Rightarrow> string" where
  "dns_error msg h_errno = msg @ '': DNS error '' @ (if h_errno < 0 then ''-'' else '''') @ dec_digits (nat \<bar>h_errno\<bar>) @ [LF]"

definition app_error :: "string \<Rightarrow> string" where
  "app_error msg = msg @ [LF]"

definition unless_neg :: "(int \<Rightarrow> string) \<Rightarrow> string \<Rightarrow> sysres \<Rightarrow> int wrapped" where
  "unless_neg se msg r = (if fst r < 0 then Gone (unix_error se msg (snd r)) else Back (fst r))"

definition unless_null :: "string \<Rightarrow> 'p option \<Rightarrow> 'p wrapped" where
  "unless_null line p = (case p of None \<Rightarrow> Gone line | Some x \<Rightarrow> Back x)"

definition no_value :: "'a wrapped \<Rightarrow> unit wrapped" where
  "no_value r = (case r of Gone l \<Rightarrow> Gone l | Back x \<Rightarrow> Back ())"

subsection \<open>The wrappers\<close>

text \<open>A negative result is the error; otherwise it is what the wrapper returns.\<close>

definition Fork :: "(int \<Rightarrow> string) \<Rightarrow> sysres \<Rightarrow> int wrapped" where
  "Fork se r = unless_neg se ''Fork error'' r"

definition Waitpid :: "(int \<Rightarrow> string) \<Rightarrow> sysres \<Rightarrow> int wrapped" where
  "Waitpid se r = unless_neg se ''Waitpid error'' r"

definition Wait :: "(int \<Rightarrow> string) \<Rightarrow> sysres \<Rightarrow> int wrapped" where
  "Wait se r = unless_neg se ''Wait error'' r"

definition Sigismember :: "(int \<Rightarrow> string) \<Rightarrow> sysres \<Rightarrow> int wrapped" where
  "Sigismember se r = unless_neg se ''Sigismember error'' r"

definition Open :: "(int \<Rightarrow> string) \<Rightarrow> sysres \<Rightarrow> int wrapped" where
  "Open se r = unless_neg se ''Open error'' r"

definition Read :: "(int \<Rightarrow> string) \<Rightarrow> sysres \<Rightarrow> int wrapped" where
  "Read se r = unless_neg se ''Read error'' r"

definition Write :: "(int \<Rightarrow> string) \<Rightarrow> sysres \<Rightarrow> int wrapped" where
  "Write se r = unless_neg se ''Write error'' r"

definition Lseek :: "(int \<Rightarrow> string) \<Rightarrow> sysres \<Rightarrow> int wrapped" where
  "Lseek se r = unless_neg se ''Lseek error'' r"

definition Select :: "(int \<Rightarrow> string) \<Rightarrow> sysres \<Rightarrow> int wrapped" where
  "Select se r = unless_neg se ''Select error'' r"

definition Dup2 :: "(int \<Rightarrow> string) \<Rightarrow> sysres \<Rightarrow> int wrapped" where
  "Dup2 se r = unless_neg se ''Dup2 error'' r"

definition Socket :: "(int \<Rightarrow> string) \<Rightarrow> sysres \<Rightarrow> int wrapped" where
  "Socket se r = unless_neg se ''Socket error'' r"

definition Accept :: "(int \<Rightarrow> string) \<Rightarrow> sysres \<Rightarrow> int wrapped" where
  "Accept se r = unless_neg se ''Accept error'' r"

text \<open>The same, with nothing to return.\<close>

definition Execve :: "(int \<Rightarrow> string) \<Rightarrow> sysres \<Rightarrow> unit wrapped" where
  "Execve se r = no_value (unless_neg se ''Execve error'' r)"

definition Kill :: "(int \<Rightarrow> string) \<Rightarrow> sysres \<Rightarrow> unit wrapped" where
  "Kill se r = no_value (unless_neg se ''Kill error'' r)"

definition Setpgid :: "(int \<Rightarrow> string) \<Rightarrow> sysres \<Rightarrow> unit wrapped" where
  "Setpgid se r = no_value (unless_neg se ''Setpgid error'' r)"

definition Sigprocmask :: "(int \<Rightarrow> string) \<Rightarrow> sysres \<Rightarrow> unit wrapped" where
  "Sigprocmask se r = no_value (unless_neg se ''Sigprocmask error'' r)"

definition Sigemptyset :: "(int \<Rightarrow> string) \<Rightarrow> sysres \<Rightarrow> unit wrapped" where
  "Sigemptyset se r = no_value (unless_neg se ''Sigemptyset error'' r)"

definition Sigfillset :: "(int \<Rightarrow> string) \<Rightarrow> sysres \<Rightarrow> unit wrapped" where
  "Sigfillset se r = no_value (unless_neg se ''Sigfillset error'' r)"

definition Sigaddset :: "(int \<Rightarrow> string) \<Rightarrow> sysres \<Rightarrow> unit wrapped" where
  "Sigaddset se r = no_value (unless_neg se ''Sigaddset error'' r)"

definition Sigdelset :: "(int \<Rightarrow> string) \<Rightarrow> sysres \<Rightarrow> unit wrapped" where
  "Sigdelset se r = no_value (unless_neg se ''Sigdelset error'' r)"

definition Stat :: "(int \<Rightarrow> string) \<Rightarrow> sysres \<Rightarrow> unit wrapped" where
  "Stat se r = no_value (unless_neg se ''Stat error'' r)"

definition Fstat :: "(int \<Rightarrow> string) \<Rightarrow> sysres \<Rightarrow> unit wrapped" where
  "Fstat se r = no_value (unless_neg se ''Fstat error'' r)"

definition Munmap :: "(int \<Rightarrow> string) \<Rightarrow> sysres \<Rightarrow> unit wrapped" where
  "Munmap se r = no_value (unless_neg se ''munmap error'' r)"

definition Setsockopt :: "(int \<Rightarrow> string) \<Rightarrow> sysres \<Rightarrow> unit wrapped" where
  "Setsockopt se r = no_value (unless_neg se ''Setsockopt error'' r)"

definition Bind :: "(int \<Rightarrow> string) \<Rightarrow> sysres \<Rightarrow> unit wrapped" where
  "Bind se r = no_value (unless_neg se ''Bind error'' r)"

definition Listen :: "(int \<Rightarrow> string) \<Rightarrow> sysres \<Rightarrow> unit wrapped" where
  "Listen se r = no_value (unless_neg se ''Listen error'' r)"

definition Connect :: "(int \<Rightarrow> string) \<Rightarrow> sysres \<Rightarrow> unit wrapped" where
  "Connect se r = no_value (unless_neg se ''Connect error'' r)"

definition Sem_init :: "(int \<Rightarrow> string) \<Rightarrow> sysres \<Rightarrow> unit wrapped" where
  "Sem_init se r = no_value (unless_neg se ''Sem_init error'' r)"

definition Sem_P :: "(int \<Rightarrow> string) \<Rightarrow> sysres \<Rightarrow> unit wrapped" where
  "Sem_P se r = no_value (unless_neg se ''P error'' r)"

definition Sem_V :: "(int \<Rightarrow> string) \<Rightarrow> sysres \<Rightarrow> unit wrapped" where
  "Sem_V se r = no_value (unless_neg se ''V error'' r)"

text \<open>A null pointer is the error.\<close>

definition Malloc :: "(int \<Rightarrow> string) \<Rightarrow> 'p option \<times> int \<Rightarrow> 'p wrapped" where
  "Malloc se r = unless_null (unix_error se ''Malloc error'' (snd r)) (fst r)"

definition Realloc :: "(int \<Rightarrow> string) \<Rightarrow> 'p option \<times> int \<Rightarrow> 'p wrapped" where
  "Realloc se r = unless_null (unix_error se ''Realloc error'' (snd r)) (fst r)"

definition Calloc :: "(int \<Rightarrow> string) \<Rightarrow> 'p option \<times> int \<Rightarrow> 'p wrapped" where
  "Calloc se r = unless_null (unix_error se ''Calloc error'' (snd r)) (fst r)"

definition Fdopen :: "(int \<Rightarrow> string) \<Rightarrow> 'p option \<times> int \<Rightarrow> 'p wrapped" where
  "Fdopen se r = unless_null (unix_error se ''Fdopen error'' (snd r)) (fst r)"

definition Fopen :: "(int \<Rightarrow> string) \<Rightarrow> 'p option \<times> int \<Rightarrow> 'p wrapped" where
  "Fopen se r = unless_null (unix_error se ''Fopen error'' (snd r)) (fst r)"

text \<open>The lookups, whose error number is \<^verbatim>\<open>h_errno\<close>.\<close>

definition Gethostbyname :: "'p option \<times> int \<Rightarrow> 'p wrapped" where
  "Gethostbyname r = unless_null (dns_error ''Gethostbyname error'' (snd r)) (fst r)"

definition Gethostbyaddr :: "'p option \<times> int \<Rightarrow> 'p wrapped" where
  "Gethostbyaddr r = unless_null (dns_error ''Gethostbyaddr error'' (snd r)) (fst r)"

text \<open>The thread functions return their error.\<close>

definition Pthread_create :: "(int \<Rightarrow> string) \<Rightarrow> int \<Rightarrow> unit wrapped" where
  "Pthread_create se rc = (if rc \<noteq> 0 then Gone (posix_error se rc ''Pthread_create error'') else Back ())"

definition Pthread_cancel :: "(int \<Rightarrow> string) \<Rightarrow> int \<Rightarrow> unit wrapped" where
  "Pthread_cancel se rc = (if rc \<noteq> 0 then Gone (posix_error se rc ''Pthread_cancel error'') else Back ())"

definition Pthread_join :: "(int \<Rightarrow> string) \<Rightarrow> int \<Rightarrow> unit wrapped" where
  "Pthread_join se rc = (if rc \<noteq> 0 then Gone (posix_error se rc ''Pthread_join error'') else Back ())"

definition Pthread_detach :: "(int \<Rightarrow> string) \<Rightarrow> int \<Rightarrow> unit wrapped" where
  "Pthread_detach se rc = (if rc \<noteq> 0 then Gone (posix_error se rc ''Pthread_detach error'') else Back ())"

definition Pthread_mutex_init :: "(int \<Rightarrow> string) \<Rightarrow> int \<Rightarrow> unit wrapped" where
  "Pthread_mutex_init se rc = (if rc \<noteq> 0 then Gone (posix_error se rc ''Pthread_mutex_init error'') else Back ())"

definition Pthread_mutex_lock :: "(int \<Rightarrow> string) \<Rightarrow> int \<Rightarrow> unit wrapped" where
  "Pthread_mutex_lock se rc = (if rc \<noteq> 0 then Gone (posix_error se rc ''Pthread_mutex_lock error'') else Back ())"

definition Pthread_mutex_unlock :: "(int \<Rightarrow> string) \<Rightarrow> int \<Rightarrow> unit wrapped" where
  "Pthread_mutex_unlock se rc = (if rc \<noteq> 0 then Gone (posix_error se rc ''Pthread_mutex_unlock error'') else Back ())"

definition Pthread_cond_init :: "(int \<Rightarrow> string) \<Rightarrow> int \<Rightarrow> unit wrapped" where
  "Pthread_cond_init se rc = (if rc \<noteq> 0 then Gone (posix_error se rc ''Pthread_cond_init error'') else Back ())"

definition Pthread_cond_signal :: "(int \<Rightarrow> string) \<Rightarrow> int \<Rightarrow> unit wrapped" where
  "Pthread_cond_signal se rc = (if rc \<noteq> 0 then Gone (posix_error se rc ''Pthread_cond_signal error'') else Back ())"

definition Pthread_cond_broadcast :: "(int \<Rightarrow> string) \<Rightarrow> int \<Rightarrow> unit wrapped" where
  "Pthread_cond_broadcast se rc = (if rc \<noteq> 0 then Gone (posix_error se rc ''Pthread_cond_broadcast error'') else Back ())"

definition Pthread_cond_wait :: "(int \<Rightarrow> string) \<Rightarrow> int \<Rightarrow> unit wrapped" where
  "Pthread_cond_wait se rc = (if rc \<noteq> 0 then Gone (posix_error se rc ''Pthread_cond_wait error'') else Back ())"

text \<open>A timeout is not an error.\<close>

definition Pthread_cond_timedwait :: "(int \<Rightarrow> string) \<Rightarrow> int \<Rightarrow> int wrapped" where
  "Pthread_cond_timedwait se rc = (if rc \<noteq> 0 \<and> rc \<noteq> ETIMEDOUT then Gone (posix_error se rc ''Pthread_cond_timedwait error'') else Back rc)"

text \<open>No check at all.\<close>

definition Alarm :: "'a \<Rightarrow> 'a wrapped" where
  "Alarm r = Back r"

definition Getpgrp :: "'a \<Rightarrow> 'a wrapped" where
  "Getpgrp r = Back r"

definition Pthread_self :: "'a \<Rightarrow> 'a wrapped" where
  "Pthread_self r = Back r"

definition Close :: "sysres \<Rightarrow> unit wrapped" where
  "Close r = Back ()"

definition Pause :: "sysres \<Rightarrow> unit wrapped" where
  "Pause r = Back ()"

text \<open>The result is \<^verbatim>\<open>unsigned\<close>: the test for a negative number never succeeds.\<close>

definition Sleep :: "(int \<Rightarrow> string) \<Rightarrow> nat \<times> int \<Rightarrow> nat wrapped" where
  "Sleep se r = (if int (fst r mod 2 ^ 32) < 0 then Gone (unix_error se ''Sleep error'' (snd r)) else Back (fst r mod 2 ^ 32))"

text \<open>\<^verbatim>\<open>mmap\<close> answers \<^verbatim>\<open>(void *) -1\<close>, addresses being numbers of 64 bits.\<close>

definition Mmap :: "(int \<Rightarrow> string) \<Rightarrow> nat \<times> int \<Rightarrow> nat wrapped" where
  "Mmap se r = (if fst r = 2 ^ 64 - 1 then Gone (unix_error se ''mmap error'' (snd r)) else Back (fst r))"

text \<open>Streams: the length that was read or written, and whether the stream is in error.\<close>

definition Fclose :: "(int \<Rightarrow> string) \<Rightarrow> sysres \<Rightarrow> unit wrapped" where
  "Fclose se r = (if fst r \<noteq> 0 then Gone (unix_error se ''Fclose error'' (snd r)) else Back ())"

definition Fgets :: "string option \<Rightarrow> bool \<Rightarrow> string option wrapped" where
  "Fgets r ferror = (if r = None \<and> ferror then Gone (app_error ''Fgets error'') else Back r)"

definition Fputs :: "(int \<Rightarrow> string) \<Rightarrow> sysres \<Rightarrow> unit wrapped" where
  "Fputs se r = (if fst r = EOF then Gone (unix_error se ''Fputs error'' (snd r)) else Back ())"

definition Fread :: "(int \<Rightarrow> string) \<Rightarrow> nat \<Rightarrow> nat \<times> int \<Rightarrow> bool \<Rightarrow> nat wrapped" where
  "Fread se nmemb r ferror = (if fst r < nmemb \<and> ferror then Gone (unix_error se ''Fread error'' (snd r)) else Back (fst r))"

definition Fwrite :: "(int \<Rightarrow> string) \<Rightarrow> nat \<Rightarrow> nat \<times> int \<Rightarrow> unit wrapped" where
  "Fwrite se nmemb r = (if fst r < nmemb then Gone (unix_error se ''Fwrite error'' (snd r)) else Back ())"

text \<open>Installing a handler: its mask is empty and interrupted calls are restarted; the old handler is returned.
  \<open>sigaction\<close> answers with the result, \<^verbatim>\<open>errno\<close> and the old action.\<close>

record 'h sigact =
  sa_handler :: 'h
  sa_mask :: "nat set"
  sa_flags :: nat

definition Signal :: "(int \<Rightarrow> string) \<Rightarrow> (nat \<Rightarrow> 'h sigact \<Rightarrow> sysres \<times> 'h sigact) \<Rightarrow> nat \<Rightarrow> 'h \<Rightarrow> 'h wrapped" where
  "Signal se sigaction signum handler =
     (case sigaction signum \<lparr>sa_handler = handler, sa_mask = {}, sa_flags = SA_RESTART\<rparr> of (r, old) \<Rightarrow>
        if fst r < 0 then Gone (unix_error se ''Signal error'' (snd r)) else Back (sa_handler old))"

subsection \<open>What they have in common\<close>

text \<open>A call that does not fail comes back with its result; a failing one ends the process with its line.\<close>

lemma unless_neg_cases:
  "0 \<le> fst r \<Longrightarrow> unless_neg se msg r = Back (fst r)" "fst r < 0 \<Longrightarrow> unless_neg se msg r = Gone (msg @ '': '' @ se (snd r) @ [LF])"
  by (simp_all add: unless_neg_def unix_error_def)

lemma Sleep_returns: "Sleep se r = Back (fst r mod 2 ^ 32)"
  by (simp add: Sleep_def)

text \<open>A short read at the end of a file is no error, a short write is one.\<close>

lemma short_counts:
  "Fread se k (n, e) False = Back n" "n < k \<Longrightarrow> Fwrite se k (n, e) = Gone (unix_error se ''Fwrite error'' e)"
  by (simp_all add: Fread_def Fwrite_def)

end
