(* ===== verification/Spec2Isabelle.thy ===== *)
theory Spec2Isabelle
  imports Runs ProxyUri Sockets Utstring Hashlinks Hashfun Utarray Csapp
begin

text \<open>
  Verification of the HTTP proxy.

  The program (\<^verbatim>\<open>src/core\<close>, with \<^verbatim>\<open>src/uthash/uthash.h\<close>) is one thread. Its main loop runs the
  pending events, waits for the kernel and calls the handlers of the ready descriptors. Every
  client has two coroutines: the request coroutine fetches requests, connects to their servers
  and sends them on; the response coroutine relays the responses in the order of the requests,
  which are kept in a list between the two. A coroutine that cannot go on yields and registers
  itself for a descriptor or an event. \<^verbatim>\<open>src/proxy.c\<close> and \<^verbatim>\<open>src/csapp.c\<close> are the handout the proxy
  grew out of.

  Theories and code, bottom up:

  \<^item> \<open>Prelude\<close>: C strings and memory of single bytes as lists of optional characters (an unwritten
    byte is \<^term>\<open>None\<close>), named collections, lemmas on lists and maps. \<open>Libc\<close>: character classes,
    \<^verbatim>\<open>atoi\<close>, \<^verbatim>\<open>sscanf\<close> with \<^verbatim>\<open>%x\<close>, and a matcher for the extended regular expressions of
    \<^verbatim>\<open>net_data.c\<close>, applied to the five patterns of the source.
  \<^item> \<open>Mem\<close> (\<^verbatim>\<open>mem.c\<close>): reference-counted blocks. The heap maps addresses to a count and a payload;
    using a released block is \<^term>\<open>None\<close>. \<open>Strbuf\<close> (\<^verbatim>\<open>strbuf.c\<close>): the growing buffer with capacity,
    length and cells. \<open>Uthash\<close> (\<^verbatim>\<open>uthash.h\<close>): Jenkins' hash on words of 32 bits, buckets, chains,
    expansion, application order. \<open>Lqueue\<close>: the singly linked lists with head and tail
    pointer that occur in \<^verbatim>\<open>event.c\<close> and \<^verbatim>\<open>net_handle.c\<close>.
  \<^item> \<open>Event\<close> (\<^verbatim>\<open>event.c\<close>), \<open>NetPull\<close> (\<^verbatim>\<open>net_pull.c\<close>), \<open>Conn\<close> (\<^verbatim>\<open>conn.c\<close>, \<^verbatim>\<open>async.c\<close> and the lookup of
    \<^verbatim>\<open>net_utils.c\<close>): records that extend each other; \<open>mach\<close> is the state of the process. The
    kernel is the set of open descriptors, the interest list and for each socket a script
    of what the next calls return.
  \<^item> \<open>ConnIO\<close>, \<open>LineIO\<close> (\<^verbatim>\<open>conn_io.c\<close>): reading, writing and copying. An operation returns a value and a
    state, or \<open>Blocked\<close> when its script has ended (it waits forever), or \<open>Undef\<close> for undefined
    behaviour. While an operation waits, the rest of the program may act on the state.
    \<open>Forward\<close>: what these operations do on a healthy pair of connections.
  \<^item> \<open>NetData\<close>, \<open>NetParse\<close> (\<^verbatim>\<open>net_data.c\<close>): the offsets into the buffer that represent a message, and
    what parsing and printing do on well-formed text. \<open>NetHandle\<close> (handler table, fetching and
    connecting of \<^verbatim>\<open>net_handle.c\<close>), \<open>NetHttp\<close> (bodies) and \<open>HttpHandlers\<close> (handlers of \<^verbatim>\<open>net_http.c\<close>).
  \<^item> \<open>Pipeline\<close> (\<^verbatim>\<open>net_handle.c\<close>): the pieces of the two coroutines between their yields and their
    interleaving as the step relation \<open>pstep\<close>, with every effect of input and output allowed
    that leaves events, counts and registrations alone; the invariants of the reachable
    states. \<open>Rounds\<close>: one whole round of each coroutine from the bytes received to the bytes sent.
  \<^item> \<open>Log\<close> (\<^verbatim>\<open>log.c\<close>), \<open>CmdLine\<close> (\<^verbatim>\<open>arg.c\<close>), \<open>MainLoop\<close> (\<^verbatim>\<open>main.c\<close> and the signal descriptor of
    \<^verbatim>\<open>net_utils.c\<close>): log lines, command line, start, loop and end of the process.
  \<^item> \<open>Rio\<close> (\<^verbatim>\<open>csapp.c\<close>), \<open>ProxyUri\<close> (\<^verbatim>\<open>proxy.c\<close>): the readers and writers and the parser of the handout.
    \<open>Sockets\<close>: opening sockets (\<^verbatim>\<open>csapp.c\<close>), the text of an address (\<^verbatim>\<open>conn.c\<close>), the flag for
    non-blocking descriptors (\<^verbatim>\<open>net_utils.c\<close>).
  \<^item> \<open>Hashsort\<close>, \<open>Hashlinks\<close>, \<open>Hashfun\<close> (\<^verbatim>\<open>uthash.h\<close>): sorting a table; the links of its two kinds of list,
    the consistency check, which passes exactly on links in order, and selecting into a second table; the
    other hash functions and the Bloom filter.
  \<^item> \<open>Csapp\<close> (\<^verbatim>\<open>csapp.c\<close>): the wrappers around single calls, functions of what the call answers.
  \<^item> \<open>Utlist\<close>, \<open>Utsort\<close> (\<^verbatim>\<open>utlist.h\<close>): lists on explicit links, with one predicate for each kind of list that says
    which nodes the links hold, and the merge sort. \<open>Kmp\<close>, \<open>Utstring\<close> (\<^verbatim>\<open>utstring.h\<close>): the growing string
    (\<open>us_holds\<close>) and its searches; the search from the right is the mirror image of the one from the left. \<open>Utarray\<close>
    (\<^verbatim>\<open>utarray.h\<close>): the dynamic array (\<open>ua_holds\<close>) and where its lengths wrap round. The proxy includes these
    headers and uses none of them.
  \<^item> \<open>Samples\<close>, \<open>Trips\<close>, \<open>Runs\<close>: concrete machines and messages, and concrete runs of the two
    coroutines, on which the properties are instantiated.

  Interfaces. The locale \<open>fifo_queue\<close> states what the clients of a queue rely on and \<open>key_table\<close> what
  those of a table do; they are interpreted on the linked list and on the hash table (\<open>lq\<close>, \<open>ht\<close>), and the
  other theories use only the interpreted facts. Every \<open>key_table\<close> is a \<open>registry\<close>, and so are the handlers
  of events (\<open>ev\<close>). \<open>ref_counted\<close> is the contract of counted references, which blocks, connections and
  the requests shared by two coroutines keep (\<open>rc_mem\<close>, \<open>rc_conn\<close>, \<open>rc_req\<close>). \<open>node_list\<close> is
  the contract of the linked lists under edits at a node; single, double and circular lists keep it (\<open>lls\<close>, \<open>dls\<close>, \<open>cdls\<close>).

  What is shown. Requests and responses: a well-formed request is rewritten, forwarded byte for byte
  and entered in the list, a response is relayed and its request taken off. Coroutines: answers
  in order, exact reference counts of requests, the order in which the coroutines end, and the three ways
  in which they fail to. Messages: bodies, heads from the wire and back, request lines.
  Input and output: for every behaviour of the kernel. Tables, events and loop: refinement of a
  map and of a fold over the posted events. Connections: closing, connecting, waiting. Errors and limits.
  Containers: sorting, editing and searching.

  Bounds. \<open>chunk_loop\<close> and \<open>trailer_loop\<close> take fuel, which is one more than the bytes the source can still deliver; a
  round consumes at least one byte, and the theorems on bodies show that the fuel suffices. The
  other loops end by a measure, or are defined as partial functions whose divergence is \<^term>\<open>None\<close>.
  Lengths of buffers stay below \<open>2 ^ 30\<close>, where the doubling of the capacity does not overflow.

  Parameters. The context switch is a function argument of what resumes a coroutine: from the entry
  of a coroutine to its first yield, and from there to the next. The results of system calls and of the
  address lookup are arguments or scripts.

  Not modelled. Failure of \<^verbatim>\<open>malloc\<close> in the proxy; the text of log messages; flushing and closing of the
  log;
  \<^verbatim>\<open>net_tostring\<close>, \<^verbatim>\<open>net_dns_lookup\<close>, \<^verbatim>\<open>net_connect\<close> (single library calls and a stub); \<^verbatim>\<open>async_call\<close> (dead code that its
  own comment calls broken); in \<^verbatim>\<open>uthash.h\<close> the emission of keys for tuning; \<^verbatim>\<open>qsort\<close> and \<^verbatim>\<open>bsearch\<close> on the dynamic array; in \<^verbatim>\<open>csapp.c\<close> \<^verbatim>\<open>Free\<close>,
  \<^verbatim>\<open>Pthread_exit\<close> and \<^verbatim>\<open>Pthread_once\<close>, which only pass a call on.
\<close>

section \<open>Requests and responses\<close>

text \<open>
  C1: One round of the request coroutine on a well-formed request with an absolute URI, whose
  server is known and connected: the request line is rewritten to the path, the header fields
  are sent with a \<^verbatim>\<open>Host\<close> added when it is missing, the body follows
  byte for byte, exactly the bytes of this request are taken from the client, the request is
  appended to the list of open requests with the references to it and to the server counted, and
  a waiting response coroutine is notified.
\<close>

theorem request_forwarded:
  assumes me: "me \<in> {''GET'', ''POST'', ''PUT'', ''DELETE''}" and r: "req_ok me sch host po pa a b hs"
    and l: "link m server (hc_client h) cd cs n" and hp: "rheap_inv (hc_reqs h)"
    and po: "pooled m h host (port_num po) server" and cnt: "0 \<le> mem_cnt (conns m) server"
    and q: "lq_holds (hc_list h) xs" "lq_holds (ev_queue m) evs"
    and w: "framed (with_host (map hdr_kv hs) host) w"
    and i: "in_bytes m cs = req_wire me sch host po pa a b hs w @ rest"
    and n: "length (req_out me (path_or_root pa) (int (digits_val a)) (int (digits_val b)) (with_host (map hdr_kv hs) host) @ w) \<le> n"
  shows "\<exists>m' h' cd' cs' p rq. req_round m h junk (t # tries) = Ret (None, h') m' \<and>
    link m' server (hc_client h) cd' cs'
      (n - length (req_out me (path_or_root pa) (int (digits_val a)) (int (digits_val b)) (with_host (map hdr_kv hs) host) @ w)) \<and>
    out_bytes m' cd' = out_bytes m cd @
      req_out me (path_or_root pa) (int (digits_val a)) (int (digits_val b)) (with_host (map hdr_kv hs) host) @ w \<and>
    in_bytes m' cs' = rest \<and> lq_holds (hc_list h') (xs @ [(server, p)]) \<and>
    lq_holds (ev_queue m') (evs @ (if rsp_blocked h then [(ev_notice_rsp h, 1)] else [])) \<and>
    mem_cnt (conns m') server = mem_cnt (conns m) server + 1 \<and>
    mem_read (hc_reqs h') p = Some rq \<and> mem_cnt (hc_reqs h') p = 1 \<and> req_is rq me host (path_or_root pa) (port_num po)"
  by (rule request_round [OF assms])

definition sample_post :: string where
  "sample_post = req_wire ''POST'' ''http'' ''h'' None ''/x'' ''1'' ''1'' [(''Content-Length'', 1, ''2'')] ''hi''"

definition sample_fwd :: string where
  "sample_fwd = req_out ''POST'' ''/x'' (int (digits_val ''1'')) (int (digits_val ''1''))
     (with_host [(''Content-Length'', ''2'')] ''h'') @ ''hi''"

lemma sample_post_ok:
  "req_ok ''POST'' ''http'' ''h'' None ''/x'' ''1'' ''1'' [(''Content-Length'', 1, ''2'')]"
  by (simp add: req_ok_def method_word_def http_version_def host_name_def host_char_def port_ok_def abs_path_def hdr_ok_def
      header_key_def key_char_def line_char_def ch_class_defs hdr_kv_def stored_def hdr_stored_def uri_text_def
      HTTP_HEADER_MAXLEN_def HTTP_HEADER_KEY_MAXLEN_def digits_val_def digit_val_def)

lemma sample_length_framed: "framed ((''Content-Length'', ''2'') # kvs) ''hi''" if "''Transfer-Encoding'' \<notin> set (map fst kvs)"
proof -
  have "map_of kvs ''Transfer-Encoding'' = None" using that by (simp add: map_of_eq_None_iff)
  then show ?thesis by (simp add: framed_def by_length_def atoi_def strtol10_def digits_val_def digit_val_def ch_class_defs clamp64_def)
qed

lemma request_forwarded_witness:
  "\<exists>m' h' cd' cs' p. req_round (sample_mach sample_post ''x'' (length sample_fwd)) (sample_cxt lq_empty rheap_empty) sample_junk [sample_try] =
      Ret (None, h') m' \<and> out_bytes m' cd' = sample_fwd \<and> in_bytes m' cs' = '''' \<and> lq_holds (hc_list h') [(2, p)] \<and>
      lq_holds (ev_queue m') [(1, 1)]"
proof -
  let ?m = "sample_mach sample_post ''x'' (length sample_fwd)" and ?h = "sample_cxt lq_empty rheap_empty"
  have l: "link ?m 2 (hc_client ?h) (sample_conn 6) (sample_conn 5) (length sample_fwd)"
    using sample_link(1) [of sample_post] by (simp add: sample_cxt_def sample_post_def req_wire_def)
  have w: "framed (with_host (map hdr_kv [(''Content-Length'', 1, ''2'')]) ''h'') ''hi''"
    using sample_length_framed [of "[(''Host'', ''h'')]"] by (simp add: with_host_def hdr_kv_def)
  have q: "lq_holds (hc_list ?h) []" "rheap_inv (hc_reqs ?h)" "rsp_blocked ?h" "ev_notice_rsp ?h = 1" by (simp_all add: sample_cxt_def)
  have k: "pooled ?m ?h ''h'' (port_num None) 2" using sample_pooled by (simp add: HTTP_DEFAULT_PORT_def)
  have i: "in_bytes ?m (sample_conn 5) = req_wire ''POST'' ''http'' ''h'' None ''/x'' ''1'' ''1'' [(''Content-Length'', 1, ''2'')] ''hi'' @ ''''"
    by (simp add: sample_post_def)
  have e: "lq_holds (ev_queue ?m) []" "0 \<le> mem_cnt (conns ?m) 2" by simp_all
  have f: "req_out ''POST'' (path_or_root ''/x'') (int (digits_val ''1'')) (int (digits_val ''1''))
      (with_host (map hdr_kv [(''Content-Length'', 1, ''2'')]) ''h'') @ ''hi'' = sample_fwd"
    by (simp add: sample_fwd_def path_or_root_def hdr_kv_def)
  from request_forwarded [OF _ sample_post_ok l q(2) k e(2) q(1) e(1) w i, of sample_junk sample_try "[]", unfolded f] q
  show ?thesis by fastforce
qed

text \<open>
  C2: One round of the response coroutine on a well-formed response of a later version than
  HTTP/1.0 that is not provisional: the client receives status line, header fields in their
  order and the body byte for byte, exactly the bytes of this response are taken from the
  server, the request at the head of the list is taken off, the reference to the server it held
  is released and the access log gets one entry with the number of bytes.
\<close>

theorem response_returned:
  assumes l: "link m (hc_client h) server cd cs n" and r: "rsp_ok a b code msg hs"
    and v: "100 < digits_val a * 100 + digits_val b" and w: "framed (map hdr_kv hs) w" and code: "digits_val code \<noteq> 100"
    and i: "in_bytes m cs = rsp_wire a b code msg hs w @ rest" and n: "length (rsp_out a b code msg hs w) \<le> n"
    and q: "lq_holds (hc_list h) ((server, p) # xs)" "mem_read (hc_reqs h) p = Some rq" "req_is rq me host path port"
    and me: "me \<in> {''GET'', ''POST'', ''PUT'', ''DELETE'', ''HEAD''}" and cnt: "1 < mem_cnt (conns m) server"
  shows "\<exists>m' h' cd' cs'. rsp_round m h = Ret (RspAgain, h') m' \<and>
    link m' (hc_client h) server cd' cs' (n - length (rsp_out a b code msg hs w)) \<and>
    out_bytes m' cd' = out_bytes m cd @ rsp_out a b code msg hs w \<and> in_bytes m' cs' = rest \<and>
    lq_holds (hc_list h') xs \<and> mem_cnt (conns m') server = mem_cnt (conns m) server - 1 \<and>
    hc_log h' = hc_log h @ [(c_ep cd', host, path, sint (of_nat (length (rsp_out a b code msg hs w)) :: 32 word))]"
  by (rule response_round [OF assms])

lemma digit_chars: "CHR ''0'' = char_of (48::nat)" "CHR ''1'' = char_of (49::nat)" "CHR ''2'' = char_of (50::nat)"
  by code_simp+

lemma sample_rsp_ok:
  "rsp_ok ''1'' ''1'' ''200'' ''OK'' [(''Content-Length'', 1, ''2'')]"
  "rsp_wire ''1'' ''1'' ''200'' ''OK'' [(''Content-Length'', 1, ''2'')] ''hi'' = rsp_out ''1'' ''1'' ''200'' ''OK'' [(''Content-Length'', 1, ''2'')] ''hi''"
  by (simp_all add: rsp_ok_def http_version_def hdr_ok_def header_key_def key_char_def line_char_def ch_class_defs hdr_kv_def
      stored_def hdr_stored_def HTTP_HEADER_MAXLEN_def HTTP_HEADER_KEY_MAXLEN_def digits_val_def digit_val_def rsp_wire_def
      rsp_out_def dec_digits.simps wire_def hdr_line_def header_text_def crlf_def flip: digit_chars)

lemma response_returned_witness:
  "\<exists>m h m' h' c. in_bytes m (sample_conn 6) = rsp_wire ''1'' ''1'' ''200'' ''OK'' [(''Content-Length'', 1, ''2'')] ''hi'' \<and>
     rsp_round m h = Ret (RspAgain, h') m' \<and>
     out_bytes m' c = rsp_wire ''1'' ''1'' ''200'' ''OK'' [(''Content-Length'', 1, ''2'')] ''hi'' \<and> lq_holds (hc_list h') []"
proof -
  obtain rq where rq: "req_is rq ''GET'' ''h'' ''/x'' 81" using sample_rq by blast
  obtain q where q: "lq_holds q [(2::addr, 1::addr)]" using lq_exists by blast
  let ?h = "sample_cxt q \<lparr>cells = [1 \<mapsto> (1, rq)], next_addr = 2\<rparr>"
  let ?w = "rsp_out ''1'' ''1'' ''200'' ''OK'' [(''Content-Length'', 1, ''2'')] ''hi''" let ?m = "sample_mach '''' ?w (length ?w)"
  have l: "link ?m (hc_client ?h) 2 (sample_conn 5) (sample_conn 6) (length ?w)"
    using sample_link(2) [of ?w] by (simp add: sample_cxt_def rsp_out_def)
  have w: "framed (map hdr_kv [(''Content-Length'', 1, ''2'')]) ''hi''"
    using sample_length_framed [of "[]"] by (simp add: hdr_kv_def)
  have h: "lq_holds (hc_list ?h) ((2, 1) # [])" "mem_read (hc_reqs ?h) 1 = Some rq" using q by (simp_all add: sample_cxt_def mem_read_def)
  have v: "100 < digits_val ''1'' * 100 + digits_val ''1''" "digits_val ''200'' \<noteq> 100" by (simp_all add: digits_val_def digit_val_def)
  have i: "in_bytes ?m (sample_conn 6) = rsp_wire ''1'' ''1'' ''200'' ''OK'' [(''Content-Length'', 1, ''2'')] ''hi'' @ ''''"
    "1 < mem_cnt (conns ?m) 2" "out_bytes ?m (sample_conn 5) = ''''" unfolding sample_rsp_ok(2) by simp_all
  from response_returned [OF l sample_rsp_ok(1) v(1) w v(2) i(1) le_refl h rq _ i(2)] obtain m' h' cd' where
    "rsp_round ?m ?h = Ret (RspAgain, h') m'" "out_bytes m' cd' = out_bytes ?m (sample_conn 5) @ ?w" "lq_holds (hc_list h') []"
    by auto
  with i(1,3) show ?thesis unfolding sample_rsp_ok(2)
    by (intro exI [of _ ?m] exI [of _ ?h] exI [of _ m'] exI [of _ h'] exI [of _ cd']) simp
qed

section \<open>The two coroutines of a client\<close>

text \<open>
  C3: In every interleaving of the two coroutines of a client: the requests are answered in the
  order in which they were sent on, and the list holds exactly those that have been sent on and
  not answered.
\<close>

theorem requests_answered_in_order:
  assumes "reachable s" "pi_rq s \<noteq> RqDone"
  shows "\<exists>xs. lq_holds (hc_list (pi_h s)) xs \<and> pi_enq s = pi_ans s @ map snd xs"
  by (rule answered_in_order [OF assms])

lemma requests_answered_in_order_witness:
  "\<exists>s xs. reachable s \<and> pi_rs s = RsBusy \<and> lq_holds (hc_list (pi_h s)) xs \<and> [1] = map snd xs"
proof -
  from run_busy obtain s where s: "reachable s" "pi_rq s = RqSend 3 1" "pi_rs s = RsBusy" "one_request s" by blast
  then have "pi_enq s = [1]" "pi_ans s = []" by (simp_all add: one_request_def)
  with s requests_answered_in_order [OF s(1)] show ?thesis by force
qed

text \<open>
  C4: In every interleaving, the reference count of a request is exactly the number of its
  holders: one for its place in the list and one while the request coroutine works on it; its
  memory has been released if and only if it is answered and the request coroutine has let it
  go, so there is neither a use after free nor a leak.
\<close>

theorem requests_released_once:
  assumes r: "reachable s" "pi_rq s \<noteq> RqDone" and p: "p \<in> set (pi_enq s) \<or> holds_req (pi_rq s) p"
  shows "mem_cnt (hc_reqs (pi_h s)) p =
      (if p \<in> set (drop (length (pi_ans s)) (pi_enq s)) then 1 else 0) + (if holds_req (pi_rq s) p then 1 else 0) \<and>
    (mem_read (hc_reqs (pi_h s)) p = None \<longleftrightarrow> p \<in> set (pi_ans s) \<and> \<not> holds_req (pi_rq s) p)"
  using requests_counted [OF assms] by blast

lemma requests_released_once_witness:
  "\<exists>s. reachable s \<and> pi_rq s = RqSend 3 1 \<and> pi_enq s = [1] \<and> pi_ans s = [] \<and> mem_cnt (hc_reqs (pi_h s)) 1 = 2"
proof -
  from run_busy obtain s where s: "reachable s" "pi_rq s = RqSend 3 1" "pi_rs s = RsBusy" "one_request s" by blast
  with requests_released_once [OF s(1), of 1] show ?thesis by (intro exI [of _ s]) (simp add: one_request_def)
qed

text \<open>
  C5: The request coroutine, which owns the context, never ends before the response coroutine:
  no reachable state has the context released while the response coroutine still runs.
\<close>

theorem responses_end_first: "\<not> (\<exists>s. reachable s \<and> pi_rq s = RqDone \<and> pi_rs s \<noteq> RsDone)"
  using req_ends_last by blast



text \<open>
  C7: The flag that tells the request coroutine that its partner has ended is never set (the
  code sets the wrong one): when the response coroutine has ended while the request coroutine
  was not waiting, the request coroutine can never end, and the client connection, the context
  and the pool are never released.
\<close>

theorem exit_is_unnoticed:
  assumes r: "reachable s" and rs: "pi_rs s = RsDone" and rq: "pi_rq s = RqLoop \<or> rq_io (pi_rq s) \<or> pi_rq s = RqExit"
    and t: "pstep\<^sup>*\<^sup>* s t"
  shows "pi_rq t \<noteq> RqDone"
  by (rule lost_exit_forever [OF t exit_unnoticed [OF r rs rq]])

lemma exit_is_unnoticed_witness:
  "\<exists>s. reachable s \<and> pi_rs s = RsDone \<and> pi_rq s = RqFetch \<and> (\<forall>t. pstep\<^sup>*\<^sup>* s t \<longrightarrow> pi_rq t \<noteq> RqDone)"
proof -
  from run_rs_exit obtain s where s: "reachable s" "pi_rs s = RsDone" "pi_rq s = RqFetch" by blast
  with exit_is_unnoticed [OF s(1,2)] show ?thesis by (auto simp: rq_io_def)
qed



section \<open>Bodies and messages\<close>

text \<open>
  C9: A body in chunks is relayed byte for byte: size lines with extensions, the data of every
  chunk with its line end, the last chunk and the trailer fields, and nothing beyond the empty
  line is taken from the source.
\<close>

theorem chunked_body_relayed:
  assumes l: "link m dst src cd cs n" and st: "c_string (nd_buf d) = Some start" "start \<noteq> ''HEAD''"
    and te: "ent_string d ''Transfer-Encoding'' = Some (Some ''chunked'')"
    and ks: "\<forall>k \<in> set ks. chunk_ok k" "last_chunk_ok z" "\<forall>l \<in> set ls. trailer_ok l"
    and i: "in_bytes m cs = chunks_wire ks @ z @ crlf @ lines_wire ls @ crlf @ rest"
    and n: "length (chunks_wire ks @ z @ crlf @ lines_wire ls @ crlf) \<le> n"
  shows "\<exists>m' cd' cs'. net_transfer_body_HTTP_1_1 m dst src d = Ret 0 m' \<and>
    out_bytes m' cd' = out_bytes m cd @ chunks_wire ks @ z @ crlf @ lines_wire ls @ crlf \<and> in_bytes m' cs' = rest \<and>
    link m' dst src cd' cs' (n - length (chunks_wire ks @ z @ crlf @ lines_wire ls @ crlf))"
  using transfer_chunked [OF assms] i by (fastforce simp: passes_def)

lemma chunked_body_relayed_witness:
  "\<exists>d m' c. net_transfer_body_HTTP_1_1 (sample_mach (''3;x'' @ crlf @ ''abc'' @ crlf @ ''0'' @ crlf @ ''T: t'' @ crlf @ crlf @ ''GET'') '''' 40) 2 1 d = Ret 0 m' \<and>
     out_bytes m' c = ''3;x'' @ crlf @ ''abc'' @ crlf @ ''0'' @ crlf @ ''T: t'' @ crlf @ crlf"
proof -
  obtain d where d: "c_string (nd_buf d) = Some ''GET''" "ent_string d ''Transfer-Encoding'' = Some (Some ''chunked'')"
    using sample_data [of "''Transfer-Encoding''" "''chunked''"] by auto
  let ?w = "''3;x'' @ crlf @ ''abc'' @ crlf @ ''0'' @ crlf @ ''T: t'' @ crlf @ crlf @ ''GET''"
  have w: "in_bytes (sample_mach ?w '''' 40) (sample_conn 5) =
      chunks_wire [(''3;x'', ''abc'')] @ ''0'' @ crlf @ lines_wire [''T: t''] @ crlf @ ''GET''"
    by (simp add: chunks_wire_def lines_wire_def)
  have k: "\<forall>k \<in> set [(''3;x'', ''abc'')]. chunk_ok k" "last_chunk_ok ''0''" "\<forall>l \<in> set [''T: t'']. trailer_ok l"
    by (simp_all add: chunk_ok_def last_chunk_ok_def trailer_ok_def line_char_def ch_class_defs sscanf_x_def scan_hex_digits_def
        is_hex_def hexs_val_def hex_val_def ch_class_defs HTTP_CHUNK_HEADER_MAXLEN_def HTTP_HEADER_MAXLEN_def crlf_def ulong_sat_def to_int32_def)
  have l: "link (sample_mach ?w '''' 40) 2 1 (sample_conn 6) (sample_conn 5) 40" by (rule sample_link(1)) simp
  from chunked_body_relayed [OF l d(1) _ d(2) k w] show ?thesis by (auto simp: chunks_wire_def lines_wire_def crlf_def)
qed

text \<open>
  C10: A body of a given length is relayed byte for byte, exactly its
  \<^verbatim>\<open>Content-Length\<close> bytes are taken and what follows stays for the next
  message.
\<close>

theorem length_body_relayed:
  assumes l: "link m dst src cd cs n" and st: "c_string (nd_buf d) = Some start" "start \<noteq> ''HEAD''"
    and te: "ent_string d ''Transfer-Encoding'' = Some te" "te \<noteq> Some ''chunked''"
    and cl: "ent_string d ''Content-Length'' = Some (Some v)" "atoi v = int k" "0 < k" "k < 2 ^ 31"
    and n: "k \<le> n" "k \<le> length (in_bytes m cs)"
  shows "\<exists>m' cd' cs'. net_transfer_body_HTTP_1_1 m dst src d = Ret 0 m' \<and>
    out_bytes m' cd' = out_bytes m cd @ take k (in_bytes m cs) \<and> in_bytes m' cs' = drop k (in_bytes m cs) \<and>
    link m' dst src cd' cs' (n - k)"
proof -
  obtain m' cd' cs' where r: "net_transfer_body_HTTP_1_1 m dst src d = Ret 0 m'"
    "passes dst src m cd cs n (take k (in_bytes m cs)) (take k (in_bytes m cs)) m' cd' cs'" using transfer_length [OF assms] by blast
  then have "take k (in_bytes m cs) @ in_bytes m' cs' = take k (in_bytes m cs) @ drop k (in_bytes m cs)" by (simp add: passes_def)
  then have "in_bytes m' cs' = drop k (in_bytes m cs)" by (simp only: same_append_eq)
  with r n(2) show ?thesis by (intro exI [of _ m'] exI [of _ cd'] exI [of _ cs']) (simp add: passes_def)
qed

lemma length_body_relayed_witness:
  "\<exists>d m' cd cs. net_transfer_body_HTTP_1_1 (sample_mach ''abcGET'' '''' 9) 2 1 d = Ret 0 m' \<and>
     out_bytes m' cd = ''abc'' \<and> in_bytes m' cs = ''GET''"
proof -
  obtain d where d: "c_string (nd_buf d) = Some ''GET''" "ent_string d ''Content-Length'' = Some (Some ''3'')"
    "ent_string d ''Transfer-Encoding'' = Some None"
    using sample_data [of "''Content-Length''" "''3''"] by auto
  have v: "atoi ''3'' = int 3" by (simp add: atoi_def strtol10_def digits_val_def digit_val_def ch_class_defs clamp64_def)
  have l: "link (sample_mach ''abcGET'' '''' 9) 2 1 (sample_conn 6) (sample_conn 5) 9" by (rule sample_link(1)) simp
  from length_body_relayed [OF l d(1) _ d(3) _ d(2) v] show ?thesis by auto
qed

text \<open>
  C11: A request head with an absolute URI, fetched from the wire, parsed and printed again: the
  printed line names the path alone (\<^verbatim>\<open>/\<close> for an empty one), host and
  port are those of the URI, every header field is printed in its place, and exactly the head is
  consumed.
\<close>

theorem request_head_roundtrip:
  assumes r: "req_ok me sch host po pa a b hs" and lv: "live m p c"
    and i: "in_bytes m c = req_line me (uri_text sch host po pa) a b @ crlf @ wire hs @ crlf @ rest"
  shows "\<exists>m' c' d rq buf. net_fetch_http m p net_data_init = Ret (0, d) m' \<and> in_bytes m' c' = rest \<and>
    net_parse_req (junk\<lparr>rq_data := d\<rparr>) = Some (0, rq) \<and> req_is rq me host (path_or_root pa) (port_num po) \<and>
    req_header_buf rq = Some buf \<and>
    sb buf (req_line me (path_or_root pa) (norm a) (norm b) @ crlf @ header_text (map hdr_kv hs) @ crlf)"
  by (rule request_head_trip [OF assms])

lemma request_head_roundtrip_witness:
  "\<exists>m' c' d rq. net_fetch_http (sample_mach sample_post '''' 0) 1 net_data_init = Ret (0, d) m' \<and> in_bytes m' c' = ''hi'' \<and>
     net_parse_req (sample_junk\<lparr>rq_data := d\<rparr>) = Some (0, rq) \<and> req_is rq ''POST'' ''h'' ''/x'' 80"
proof -
  have lv: "live (sample_mach sample_post '''' 0) 1 (sample_conn 5)" by (rule sample_live(1)) (simp add: sample_post_def req_wire_def)
  have i: "in_bytes (sample_mach sample_post '''' 0) (sample_conn 5) =
      req_line ''POST'' (uri_text ''http'' ''h'' None ''/x'') ''1'' ''1'' @ crlf @ wire [(''Content-Length'', 1, ''2'')] @ crlf @ ''hi''"
    by (simp add: sample_post_def req_wire_def)
  from request_head_roundtrip [OF sample_post_ok lv i, of sample_junk] show ?thesis
    by (fastforce simp: path_or_root_def HTTP_DEFAULT_PORT_def)
qed

text \<open>
  C12: A response head, fetched from the wire, parsed and printed again, is the head that was
  sent, header fields in their order, with the numbers of the status line without leading zeros.
\<close>

theorem response_head_roundtrip:
  assumes r: "rsp_ok a b code msg hs" and lv: "live m p c"
    and i: "in_bytes m c = rsp_line a b code msg @ crlf @ wire hs @ crlf @ rest"
  shows "\<exists>m' c' d rs buf. net_fetch_http m p net_data_init = Ret (0, d) m' \<and> in_bytes m' c' = rest \<and>
    net_parse_rsp \<lparr>rs_data = d, rs_code = 0, rs_major = 0, rs_minor = 0, http_msg = 0\<rparr> = Some (0, rs) \<and>
    rs_code rs = int (digits_val code) \<and> rsp_header_buf rs = Some buf \<and>
    sb buf (rsp_line (norm a) (norm b) (norm code) msg @ crlf @ header_text (map hdr_kv hs) @ crlf)"
  by (rule response_head_trip [OF assms])

lemma response_head_roundtrip_witness:
  "\<exists>m' c' d rs. net_fetch_http (sample_mach (rsp_wire ''1'' ''1'' ''200'' ''OK'' [(''Content-Length'', 1, ''2'')] ''hi'') '''' 0) 1 net_data_init =
       Ret (0, d) m' \<and> in_bytes m' c' = ''hi'' \<and>
     net_parse_rsp \<lparr>rs_data = d, rs_code = 0, rs_major = 0, rs_minor = 0, http_msg = 0\<rparr> = Some (0, rs) \<and> rs_code rs = 200"
proof -
  let ?w = "rsp_wire ''1'' ''1'' ''200'' ''OK'' [(''Content-Length'', 1, ''2'')] ''hi''"
  have lv: "live (sample_mach ?w '''' 0) 1 (sample_conn 5)" by (rule sample_live(1)) (simp add: rsp_wire_def)
  have i: "in_bytes (sample_mach ?w '''' 0) (sample_conn 5) =
      rsp_line ''1'' ''1'' ''200'' ''OK'' @ crlf @ wire [(''Content-Length'', 1, ''2'')] @ crlf @ ''hi''"
    by (simp add: rsp_wire_def)
  have "int (digits_val ''200'') = 200" by (simp add: digits_val_def digit_val_def)
  with response_head_roundtrip [OF sample_rsp_ok(1) lv i] show ?thesis by fastforce
qed

text \<open>
  C13: A request line with a path is parsed into its words; host and port are taken from the
  \<^verbatim>\<open>Host\<close> field, the port is the one written there or the default one.
\<close>

theorem origin_form_parsed:
  assumes buf: "sb (rq_buf rq) (req_line m (CHR ''/'' # p) a b @ NUL # r1 @ h @ port_text po @ NUL # r2)"
    and host: "net_data_get_ent_offset (rq_data rq) ''Host'' = int (length (req_line m (CHR ''/'' # p) a b @ NUL # r1))"
    and m: "method_word m" "m \<noteq> ''CONNECT''" and v: "http_version a b"
    and p: "NUL \<notin> set p" and h: "host_name h" and po: "port_ok po"
    and small: "2 * length (req_line m (CHR ''/'' # p) a b @ NUL # r1 @ h @ port_text po @ NUL # r2) + 4 < 2 ^ 30"
  shows "\<exists>rq'. net_parse_req rq = Some (0, rq') \<and> req_is rq' m h (CHR ''/'' # p) (port_num po) \<and>
     ver_major rq' = int (digits_val a) \<and> ver_minor rq' = int (digits_val b) \<and> rq_protocol rq' = -1 \<and>
     nd_table (rq_data rq') = nd_table (rq_data rq) \<and>
     rq_host rq' = net_data_get_ent_offset (rq_data rq') ''Host''"
  by (rule net_parse_req_origin [OF assms])

lemma origin_form_parsed_witness:
  "\<exists>rq rq'. sb (rq_buf rq) (''GET /x HTTP/1.1'' @ NUL # ''Host'' @ NUL # ''h:81'' @ NUL # '''') \<and>
     net_parse_req rq = Some (0, rq') \<and> req_is rq' ''GET'' ''h'' ''/x'' 81"
proof -
  let ?s = "''GET /x HTTP/1.1'' @ NUL # ''Host'' @ NUL # ''h:81'' @ NUL # ''''"
  obtain bf where b: "sb bf ?s" using sb_exists [of ?s] by auto
  let ?t = "hash_put hash_empty ''Host'' (21::int)"
  let ?rq = "sample_junk\<lparr>rq_data := \<lparr>nd_buf = bf, nd_table = ?t\<rparr>\<rparr>"
  have buf: "sb (rq_buf ?rq) (req_line ''GET'' (CHR ''/'' # ''x'') ''1'' ''1'' @ NUL # (''Host'' @ [NUL]) @ ''h'' @ port_text (Some ''81'') @ NUL # '''')"
    using b by (simp add: rq_buf_def)
  obtain e where "HASH_FIND ?t ''Host'' = Some e" "h_val e = 21"
    using find_put [OF uniq_table_empty(1), of "''Host''" "21::int"] by blast
  then have host: "net_data_get_ent_offset (rq_data ?rq) ''Host'' =
      int (length (req_line ''GET'' (CHR ''/'' # ''x'') ''1'' ''1'' @ NUL # (''Host'' @ [NUL])))"
    by (simp add: net_data_get_ent_offset_def)
  from origin_form_parsed [OF buf host sample_words(1) _ sample_words(2) _ sample_words(3,4)] buf show ?thesis
    by (fastforce simp: digits_val_def digit_val_def)
qed

text \<open>
  The target of a \<^verbatim>\<open>CONNECT\<close> request is parsed as host and optional
  port.
\<close>

theorem connect_target_parsed:
  assumes buf: "sb (rq_buf rq) (req_line ''CONNECT'' (h @ port_text po) a b @ NUL # rest)"
    and v: "http_version a b" and h: "host_name h" and po: "port_ok po"
    and small: "2 * length (req_line ''CONNECT'' (h @ port_text po) a b @ NUL # rest) + 4 < 2 ^ 30"
  shows "\<exists>rq'. net_parse_req rq = Some (0, rq') \<and> req_is rq' ''CONNECT'' h h (port_num po) \<and>
     ver_major rq' = int (digits_val a) \<and> ver_minor rq' = int (digits_val b) \<and>
     nd_table (rq_data rq') = nd_table (rq_data rq)"
  by (rule net_parse_req_connect_ok [OF assms])

lemma connect_target_parsed_witness:
  "\<exists>rq rq'. sb (rq_buf rq) (''CONNECT h:81 HTTP/1.1'' @ NUL # '''') \<and> net_parse_req rq = Some (0, rq') \<and>
     req_is rq' ''CONNECT'' ''h'' ''h'' 81"
proof -
  obtain bf where b: "sb bf (''CONNECT h:81 HTTP/1.1'' @ NUL # '''')" using sb_exists [of "''CONNECT h:81 HTTP/1.1'' @ NUL # ''''"] by auto
  let ?rq = "sample_junk\<lparr>rq_data := \<lparr>nd_buf = bf, nd_table = hash_empty\<rparr>\<rparr>"
  have buf: "sb (rq_buf ?rq) (req_line ''CONNECT'' (''h'' @ port_text (Some ''81'')) ''1'' ''1'' @ NUL # '''')"
    using b by (simp add: rq_buf_def)
  from connect_target_parsed [OF buf sample_words(2-4)] buf show ?thesis by (fastforce simp: digits_val_def digit_val_def)
qed

section \<open>Input and output on a connection\<close>



text \<open>
  C15: Copying between two connections, whatever the kernel does: on success exactly the
  requested number of bytes, first the buffered ones and then those from the socket, was taken
  from the source and handed to the destination in order; on failure a prefix of them; the only
  other case is that the destination is closed.
\<close>

theorem copy_moves_bytes:
  assumes r: "conn_copy m po pin len = Ret r m'" and ne: "po \<noteq> pin"
    and co: "conn_get m po = Some co" and ci: "conn_get m pin = Some ci" and ok: "buf_ok ci"
  shows "r = 0 \<and> moved m po pin len m' \<or> r = -1 \<and> partly m po pin len m' \<or> closed m' po"
  using conn_copy_spec [OF assms] by (auto simp: copied_def)

lemma copy_moves_bytes_witness:
  "\<exists>r m'. conn_copy (sample_mach ''abc'' '''' 9) 2 1 2 = Ret r m' \<and>
     (r = 0 \<and> moved (sample_mach ''abc'' '''' 9) 2 1 2 m' \<or> r = -1 \<and> partly (sample_mach ''abc'' '''' 9) 2 1 2 m' \<or> closed m' 2)"
proof -
  have "link (sample_mach ''abc'' '''' 9) 2 1 (sample_conn 6) (sample_conn 5) 9" by (rule sample_link(1)) simp
  then obtain m' where m': "conn_copy (sample_mach ''abc'' '''' 9) 2 1 2 = Ret 0 m'" using copy_passes [of _ 2 1 _ _ 9 2] by fastforce
  from copy_moves_bytes [OF m' _ sample_mach_simps(2,1)] m' show ?thesis by simp
qed

text \<open>
  C16: Reading a line: up to any of the line ends LF, CR LF or CR exactly the line and its end
  are consumed, the line without the end is appended to the buffer and its length is returned.
\<close>

theorem line_is_read:
  assumes l: "\<forall>x \<in> set l. line_char x" and lv: "live m p c"
    and i: "in_bytes m c = l @ t @ rest" and t: "t = [LF] \<or> t = [CR, LF] \<or> t = [CR] \<and> rest \<noteq> [] \<and> hd rest \<noteq> LF \<and> hd rest \<noteq> CHR 0xFF"
    and b: "sb b s" and lim: "length s + length l + 1 < lim" "lim < 2 ^ 30"
  shows "\<exists>m' c' b'. conn_gets m p lim b = Ret (int (length l), b') m' \<and>
    popped m p c (l @ t) m' c' \<and> sb b' (s @ l)"
  by (rule conn_gets_line [OF assms])

lemma line_is_read_witness:
  "\<exists>m' b'. conn_gets (sample_mach (''ab'' @ [CR, LF] @ ''c'') '''' 0) 1 100 strbuf_init = Ret (2, b') m' \<and> sb b' ''ab''"
proof -
  have lv: "live (sample_mach (''ab'' @ [CR, LF] @ ''c'') '''' 0) 1 (sample_conn 5)" by (rule sample_live(1)) simp
  have l: "\<forall>x \<in> set ''ab''. line_char x" by (simp add: line_char_def ch_class_defs)
  have t: "[CR, LF] = [LF] \<or> [CR, LF] = [CR, LF] \<or> [CR, LF] = [CR] \<and> ''c'' \<noteq> [] \<and> hd ''c'' \<noteq> LF \<and> hd ''c'' \<noteq> CHR 0xFF" by simp
  have n: "length '''' + length ''ab'' + 1 < (100::nat)" "(100::nat) < 2 ^ 30" "int (length ''ab'') = 2" by simp_all
  from line_is_read [OF l lv sample_bytes(1) t sb_init n(1,2)] show ?thesis unfolding n(3) append_Nil by blast
qed

text \<open>
  C17: A request whose first word is no known method is answered with the error page, the client
  connection is closed and the round ends with an error; no server is contacted and the context
  does not change.
\<close>

theorem unknown_method_is_refused:
  assumes l: "\<forall>x \<in> set l. line_char x" "l \<noteq> ''''" "NUL \<notin> set l" and hs: "\<forall>h \<in> set hs. hdr_ok h"
    and lv: "live m (hc_client h) c" "wlive m (hc_client h) c n" "length bad_request_msg \<le> n"
    and i: "in_bytes m c = l @ crlf @ wire hs @ crlf @ rest"
    and lim: "length (l @ NUL # stored hs) + 1 < HTTP_HEADER_MAXLEN"
    and me: "first_word l \<notin> {''GET'', ''POST'', ''HEAD'', ''PUT'', ''DELETE'', ''CONNECT''}"
  shows "\<exists>m' c'. req_round m h junk tries = Ret (Some (-1), h) m' \<and> conn_get m' (hc_client h) = Some c' \<and>
    c_stat c' = CONN_CLOSED \<and> out_bytes m' c' = out_bytes m c @ bad_request_msg \<and> c_fd c \<notin> k_open m'"
  by (rule unknown_method_refused [OF assms])

lemma unknown_method_is_refused_witness:
  "\<exists>m'. req_round (sample_mach (''FOO / HTTP/1.1'' @ crlf @ crlf) '''' (length bad_request_msg)) (sample_cxt lq_empty rheap_empty) sample_junk [] =
     Ret (Some (-1), sample_cxt lq_empty rheap_empty) m' \<and> 5 \<notin> k_open m'"
proof -
  let ?m = "sample_mach (''FOO / HTTP/1.1'' @ crlf @ crlf) '''' (length bad_request_msg)" and ?h = "sample_cxt lq_empty rheap_empty"
  have c: "hc_client ?h = 1" by (simp add: sample_cxt_def)
  have lv: "live ?m (hc_client ?h) (sample_conn 5)" unfolding c by (rule sample_live(1)) simp
  have wl: "wlive ?m (hc_client ?h) (sample_conn 5) (length bad_request_msg)" unfolding c by (rule sample_live(3))
  have i: "in_bytes ?m (sample_conn 5) = ''FOO / HTTP/1.1'' @ crlf @ wire [] @ crlf @ ''''" by (simp add: wire_def)
  have l: "\<forall>x \<in> set ''FOO / HTTP/1.1''. line_char x" by (simp add: line_char_def ch_class_defs)
  have w: "first_word ''FOO / HTTP/1.1'' \<notin> {''GET'', ''POST'', ''HEAD'', ''PUT'', ''DELETE'', ''CONNECT''}" by (simp add: first_word_def)
  have lim: "length (''FOO / HTTP/1.1'' @ NUL # stored []) + 1 < HTTP_HEADER_MAXLEN" by (simp add: stored_def HTTP_HEADER_MAXLEN_def)
  from unknown_method_is_refused [OF l _ _ _ lv wl le_refl i lim w, of sample_junk "[]"] show ?thesis by auto
qed

text \<open>
  C18: After the modules are initialised, the handler chosen for a start line is determined by
  its first word: the five ordinary methods, \<^verbatim>\<open>CONNECT\<close>, and no handler
  for anything else.
\<close>

theorem handler_choice:
  "net_get_handler (net_http_module_init net_handle_module_init) s =
     (if first_word s \<in> {''GET'', ''POST'', ''HEAD'', ''PUT'', ''DELETE''}
      then Some \<lparr>nh_method = first_word s, nh_req = NetHttpReq, nh_rsp = NetHttpRsp\<rparr>
      else if first_word s = ''CONNECT''
      then Some \<lparr>nh_method = ''CONNECT'', nh_req = NetConnectReq, nh_rsp = NetConnectRsp\<rparr> else None)"
  by (rule handlers_after_init)

section \<open>Tables, events and the loop\<close>





text \<open>
  C21: Whenever the process blocks for the kernel, whatever the handlers did in any number of
  rounds: the event queue is empty, so that no posted event is left behind while the process
  sleeps.
\<close>

theorem sleeps_without_events:
  assumes "main_loop swap sig tns m = Some (Waits m')"
  shows "lq_head (ev_queue m') = None"
  by (rule main_loop_waits [OF assms])

lemma sleeps_without_events_witness:
  "\<exists>q m'. lq_holds q [(7, 1)] \<and> main_loop (\<lambda>p m. None) 4 [] (mach_init\<lparr>ev_queue := q\<rparr>) = Some (Waits m') \<and> lq_head (ev_queue m') = None"
proof -
  obtain q where q: "lq_holds q [(7::event_id, 1::addr)]" using lq_exists by blast
  let ?m = "mach_init\<lparr>ev_queue := q\<rparr>"
  have n: "ev_handler_of ?m 7 = None" by (simp add: ev_handler_of_def mach_init_def)
  obtain q' where u: "lq_unlink q = Some q'" "lq_head q' = None" "lq_head q \<noteq> None" "lq_first q = Some (7, 1)"
    using lq.deq_holds [OF q] lq.peek_holds [OF q] lq_holds_Nil by (force simp: lq_deq_def lq_clear_tail_def lq_first_def split: option.splits if_splits)
  have "event_dispatch (run_event (\<lambda>p m. None)) ?m = Some ?m"
    using u(4) n by (simp add: event_dispatch_def ev_handler_of_def)
  then have "event_work (run_event (\<lambda>p m. None)) ?m = Some (?m\<lparr>ev_queue := q'\<lparr>lq_tail := None\<rparr>\<rparr>)"
    using u by (subst event_work.simps, auto, subst event_work.simps, auto)
  then have r: "main_loop (\<lambda>p m. None) 4 [] ?m = Some (Waits (?m\<lparr>ev_queue := q'\<lparr>lq_tail := None\<rparr>\<rparr>))"
    by (subst main_loop.simps) simp
  from sleeps_without_events [OF r] r q show ?thesis by blast
qed





text \<open>
  C24: When the start succeeds with distinct descriptors, the main loop is entered with at least
  one listening socket, every listening socket registered with its accept handler, the signal
  descriptor of the address lookup registered, the invariant of the watched descriptors, and a
  valid port.
\<close>

theorem start_listens:
  assumes s: "proxy_start fopen argv epfd sig binds mach_init = Some (Loop arg m)" and d: "distinct (sig # bound_socks binds)"
  shows "listening m \<and> 0 < sfd_cnt m \<and> pull_inv m \<and> 0 \<le> epollfd m \<and> 1 \<le> arg_port arg \<and> arg_port arg \<le> 65535 \<and>
    map_option h_read (np_handler_of m sig) = Some (Some DnsNotify)"
  by (rule proxy_start_listens [OF assms])

lemma start_listens_witness:
  "\<exists>arg m. proxy_start (\<lambda>_. True) [''proxy'', ''8080''] 3 4 [sample_bind] mach_init = Some (Loop arg m) \<and> listening m \<and> 0 < sfd_cnt m"
proof -
  obtain arg m where s: "proxy_start (\<lambda>_. True) [''proxy'', ''8080''] 3 4 [sample_bind] mach_init = Some (Loop arg m)"
    using sample_start by blast
  have "distinct (4 # bound_socks [sample_bind])" by (simp add: sample_bind_def br_ok_def bound_socks_def)
  from start_listens [OF s this] s show ?thesis by blast
qed

section \<open>Connections\<close>

text \<open>
  C25: Dropping a reference keeps the heap well-formed, changes the count of this block alone
  and by one, and runs the finaliser on the payload and releases the block exactly when it was
  the last reference; otherwise payload and state stay as they are. Taking a reference and
  dropping it again leaves every count as it was, and so do any number of references taken and
  given back.
\<close>

theorem reference_dropped:
  assumes inv: "rheap_inv h" and x: "mem_read h p = Some x"
  shows "\<exists>r h' s'. mem_decref h p fin s = Some (r, h', s') \<and> rheap_inv h' \<and>
    (\<forall>q. mem_cnt h' q = mem_cnt h q - (if q = p then 1 else 0)) \<and> (\<forall>q. q \<noteq> p \<longrightarrow> mem_read h' q = mem_read h q) \<and>
    (if mem_cnt h p = 1 then r = 0 \<and> mem_read h' p = None \<and> s' = fin x s else r = 1 \<and> mem_read h' p = Some x \<and> s' = s) \<and>
    (\<exists>h1 h2. mem_incref h p = Some h1 \<and> rheap_inv h1 \<and> mem_decref h1 p fin s = Some (1, h2, s) \<and> (\<forall>q. mem_cnt h2 q = mem_cnt h q)) \<and>
    (\<forall>n. \<exists>h1 h2. repeat_opt n (\<lambda>h. mem_incref h p) h = Some h1 \<and>
      repeat_opt n (\<lambda>h. map_option (\<lambda>(r, h', s). h') (mem_decref h p (\<lambda>_ s. s) ())) h1 = Some h2 \<and> (\<forall>q. mem_cnt h2 q = mem_cnt h q))"
proof -
  obtain n where n: "cells h p = Some (n, x)" "0 < n" using x inv by (auto simp: mem_read_def rheap_inv_def)
  obtain r h' s' where d: "mem_decref h p fin s = Some (r, h', s')" using n by (cases "n = 1") (auto simp: mem_decref_def)
  moreover have "(\<forall>q. q \<noteq> p \<longrightarrow> mem_read h' q = mem_read h q) \<and>
      (if mem_cnt h p = 1 then r = 0 \<and> mem_read h' p = None \<and> s' = fin x s else r = 1 \<and> mem_read h' p = Some x \<and> s' = s)"
    using d n by (auto simp: mem_decref_def mem_read_def mem_cnt_def split: if_splits)
  moreover obtain h1 where u: "mem_incref h p = Some h1" "cells h1 p = Some (n + 1, x)" using n by (auto simp: mem_incref_def)
  moreover obtain h2 where d2: "mem_decref h1 p fin s = Some (1, h2, s)" using u(2) n(2) by (auto simp: mem_decref_def)
  moreover have "0 < mem_cnt h p" using n by (simp add: mem_cnt_def)
  note rc_mem.balanced [OF this]
  ultimately show ?thesis
    using rheap_inv_decref [OF inv d] mem_cnt_decref [OF d] rheap_inv_incref [OF inv u(1)] mem_cnt_incref [OF u(1)] mem_cnt_decref [OF d2]
    by (intro exI [of _ r] exI [of _ h'] exI [of _ s']) auto
qed

lemma reference_dropped_witness:
  "mem_decref \<lparr>cells = [1 \<mapsto> (1, ''x'')], next_addr = 2\<rparr> 1 (\<lambda>x s. x # s) [] = Some (0, \<lparr>cells = Map.empty, next_addr = 2\<rparr>, [''x''])"
proof -
  let ?h = "\<lparr>cells = [1 \<mapsto> (1, ''x'')], next_addr = 2\<rparr>"
  have "rheap_inv ?h" "mem_read ?h 1 = Some ''x''" "mem_cnt ?h 1 = 1" by (simp_all add: rheap_inv_def mem_read_def mem_cnt_def)
  from reference_dropped [OF this(1,2), of "\<lambda>x s. x # s" "[]"] this(3) show ?thesis by (auto simp: mem_decref_def)
qed

text \<open>
  Closing a connection closes its descriptor and takes it off the watched ones, once: a second
  close has no effect; the memory of the connection and all other connections stay as they are.
\<close>

theorem close_is_idempotent:
  assumes c: "conn_get m p = Some c" and inv: "pull_inv m" "0 \<le> epollfd m"
  shows "\<exists>m'. conn_close m p = Some m' \<and> conn_get m' p = Some (c\<lparr>c_stat := CONN_CLOSED\<rparr>) \<and>
    (\<forall>q. q \<noteq> p \<longrightarrow> conn_get m' q = conn_get m q) \<and> pull_inv m' \<and>
    k_open m' = (if c_stat c = CONN_CLOSED then k_open m else k_open m - {c_fd c}) \<and>
    k_interest m' = (if c_stat c = CONN_CLOSED then k_interest m else k_interest m - {c_fd c}) \<and>
    (\<exists>m''. conn_close m' p = Some m'' \<and> k_open m'' = k_open m' \<and> k_interest m'' = k_interest m' \<and> conn_get m'' = conn_get m')"
proof -
  obtain m' where m': "conn_close m p = Some m'" "conn_get m' p = Some (c\<lparr>c_stat := CONN_CLOSED\<rparr>)"
    "\<forall>q. q \<noteq> p \<longrightarrow> conn_get m' q = conn_get m q" "pull_inv m'" "epollfd m' = epollfd m"
    "k_open m' = (if c_stat c = CONN_CLOSED then k_open m else k_open m - {c_fd c})"
    "k_interest m' = (if c_stat c = CONN_CLOSED then k_interest m else k_interest m - {c_fd c})"
    using conn_close_spec [OF assms] by blast
  have "0 \<le> epollfd m'" using inv(2) m'(5) by simp
  from conn_close_spec [OF m'(2,4) this] obtain m'' where m'': "conn_close m' p = Some m''" "k_open m'' = k_open m'"
    "k_interest m'' = k_interest m'" "conn_get m'' p = conn_get m' p" "\<forall>q. q \<noteq> p \<longrightarrow> conn_get m'' q = conn_get m' q"
    using m'(2) by auto
  then have "conn_get m'' = conn_get m'" by (intro ext) metis
  with m' m'' show ?thesis by blast
qed

lemma close_is_idempotent_witness:
  "\<exists>m'. conn_close (sample_mach '''' '''' 0) 1 = Some m' \<and> k_open m' = {6} \<and> (\<exists>m''. conn_close m' 1 = Some m'' \<and> k_open m'' = {6})"
proof -
  have "{5, 6} - {5 :: fd} = {6}" by auto
  with close_is_idempotent [OF sample_mach_simps(1) sample_pull_inv, of "''''" "''''" 0] show ?thesis by fastforce
qed



text \<open>
  C27: An event resumes the coroutine it is registered for; when the coroutine yields for input
  on a watched descriptor, it is registered as the reader of this descriptor and of nothing
  else.
\<close>

theorem coroutine_waits_for_input:
  assumes p: "mem_read (cxts m) p = Some cx" "cx_stat cx = ASYNC_PAUSE"
    and sw: "\<And>m1. resume_state m p (if d = 0 then 1 else 0) m1 \<Longrightarrow> swap p m1 = Some m2"
    and pause: "mem_read (cxts m2) p = Some cx2" "cx_stat cx2 = ASYNC_PAUSE"
    and y: "yield_type cx2 = CONN_IO_WILL_BLOCK" "yield_data cx2 = Some (IoBlock fd EPOLLIN)" and inv: "pull_inv m2"
  shows "\<exists>m'. conn_event_handler swap p d m = Some m' \<and> ev_handlers m' = ev_handlers m2 \<and>
        np_handler_of m' = (case np_handler_of m2 fd of None \<Rightarrow> np_handler_of m2
           | Some nh \<Rightarrow> (np_handler_of m2)(fd \<mapsto> nh\<lparr>h_read := Some (ConnEpoll p)\<rparr>))"
  by (rule coroutine_parked(2) [OF p _ pause y inv]) (rule sw)

lemma coroutine_waits_for_input_witness:
  "\<exists>m2 m'. conn_event_handler (\<lambda>p m. Some m2) 10 1 (mach_init\<lparr>cxts := \<lparr>cells = [10 \<mapsto> (1, \<lparr>cx_stat = ASYNC_PAUSE, yield_type = YIELD_NONE,
      yield_data = None, cx_entry = None\<rparr>)], next_addr = 11\<rparr>\<rparr>) = Some m' \<and> map_option h_read (np_handler_of m' 5) = Some (Some (ConnEpoll 10))"
proof -
  have "0 \<le> epollfd (sample_mach '''' '''' 0)" "5 \<in> k_open (sample_mach '''' '''' 0)" "5 \<notin> k_interest (sample_mach '''' '''' 0)" by simp_all
  from net_pull_add_ok [OF sample_pull_inv this, of "Some (ConnErr 1)"] obtain s :: mach where s: "pull_inv s"
    "np_handler_of s = (np_handler_of (sample_mach '''' '''' 0))(5 \<mapsto> \<lparr>nh_fd = 5, h_read = None, h_write = None, h_err = Some (ConnErr 1)\<rparr>)"
    by blast
  let ?c = "\<lambda>y d. \<lparr>cells = [10 \<mapsto> (1, \<lparr>cx_stat = ASYNC_PAUSE, yield_type = y, yield_data = d, cx_entry = None\<rparr>)], next_addr = 11\<rparr>"
  let ?m2 = "s\<lparr>cxts := ?c CONN_IO_WILL_BLOCK (Some (IoBlock 5 EPOLLIN))\<rparr>" let ?m = "mach_init\<lparr>cxts := ?c YIELD_NONE None\<rparr>"
  have i: "pull_inv ?m2" "np_handler_of ?m2 = np_handler_of s" using s(1) by (simp_all add: pull_inv_def np_handler_of_def fun_eq_iff)
  have "\<exists>m'. conn_event_handler (\<lambda>p m. Some ?m2) 10 1 ?m = Some m' \<and> ev_handlers m' = ev_handlers ?m2 \<and>
        np_handler_of m' = (case np_handler_of ?m2 5 of None \<Rightarrow> np_handler_of ?m2
           | Some nh \<Rightarrow> (np_handler_of ?m2)(5 \<mapsto> nh\<lparr>h_read := Some (ConnEpoll 10)\<rparr>))"
    by (rule coroutine_waits_for_input [where cx = "\<lparr>cx_stat = ASYNC_PAUSE, yield_type = YIELD_NONE, yield_data = None, cx_entry = None\<rparr>" and
          ?cx2.0 = "\<lparr>cx_stat = ASYNC_PAUSE, yield_type = CONN_IO_WILL_BLOCK, yield_data = Some (IoBlock 5 EPOLLIN), cx_entry = None\<rparr>"])
      (use i in \<open>simp_all add: mem_read_def\<close>)
  then obtain m' where "conn_event_handler (\<lambda>p m. Some ?m2) 10 1 ?m = Some m'" "map_option h_read (np_handler_of m' 5) = Some (Some (ConnEpoll 10))"
    using s(2) i(2) by auto
  then show ?thesis by (intro exI [of _ ?m2] exI [of _ m'] conjI)
qed

section \<open>Errors and limits\<close>

text \<open>
  C28: Two requests in the list wait for a server that has closed its connection: finishing the
  first one deletes the pool entry of the address, and finishing the second one then looks the
  entry up again and passes a null pointer to the deletion, which is undefined.
\<close>

theorem closed_server_crashes:
  assumes pool: "uniq_table (hc_pool h)" "hash_lookup (hc_pool h) (ep_key (c_ep c)) \<noteq> None"
    and l: "lq_holds (hc_list h) ((server, p) # (server, p') # xs)"
    and c: "cells (conns m) server = Some (n, c)" "2 < n" "c_stat c = CONN_CLOSED"
    and rq: "mem_read (hc_reqs h) p = Some rq"
  shows "\<exists>m' h'. rsp_finish m h ret = Some (m', h') \<and> lq_holds (hc_list h') ((server, p') # xs) \<and> rsp_finish m' h' ret' = None"
  by (rule closed_server_twice [OF assms])

lemma closed_server_crashes_witness:
  "\<exists>m h m' h'. rsp_finish m h 200 = Some (m', h') \<and> lq_holds (hc_list h') [(2, 1)] \<and> rsp_finish m' h' 200 = None"
proof -
  obtain q where q: "lq_holds q [(2::addr, 1::addr), (2, 1)]" using lq_exists by blast
  let ?c = "(sample_conn 6)\<lparr>c_stat := CONN_CLOSED\<rparr>"
  let ?m = "mach_init\<lparr>conns := \<lparr>cells = [2 \<mapsto> (4, ?c)], next_addr = 3\<rparr>\<rparr>"
  let ?h = "(sample_cxt q \<lparr>cells = [1 \<mapsto> (3, sample_junk)], next_addr = 2\<rparr>)\<lparr>hc_pool := hash_put hash_empty (ep_key sample_ep) 2\<rparr>"
  have p: "uniq_table (hc_pool ?h)" "hash_lookup (hc_pool ?h) (ep_key (c_ep ?c)) \<noteq> None"
    using ht.tinv_put [OF uniq_table_empty(1)] ht.lookup_put [OF uniq_table_empty(1), of "ep_key sample_ep" "2::addr" "ep_key sample_ep"] by simp_all
  have l: "lq_holds (hc_list ?h) ((2, 1) # (2, 1) # [])" using q by (simp add: sample_cxt_def)
  have c: "cells (conns ?m) 2 = Some (4, ?c)" "2 < (4::int)" "c_stat ?c = CONN_CLOSED" "mem_read (hc_reqs ?h) 1 = Some sample_junk"
    by (simp_all add: sample_cxt_def mem_read_def)
  from closed_server_crashes [OF p l c, of 200 200] show ?thesis by blast
qed

text \<open>
  C29: A descriptor is closed a second time when the last reference to an already closed
  connection goes: if the kernel has meanwhile given its number to another connection, that
  connection loses its descriptor while it is in use.
\<close>

theorem descriptor_closed_twice:
  assumes "cells (conns m) p = Some (1, c)" "c_stat c = CONN_CLOSED" "conn_get m q = Some d"
    "q \<noteq> p" "c_stat d = CONN_USED" "c_fd d = c_fd c"
  shows "\<exists>m'. conn_decref m p = Some m' \<and> conn_get m' q = Some d \<and> c_fd d \<notin> k_open m'"
  by (rule stale_fd_closed_again [OF assms])

lemma descriptor_closed_twice_witness:
  "\<exists>m m'. 6 \<in> k_open m \<and> conn_decref m 1 = Some m' \<and> conn_get m' 2 = Some (sample_conn 6) \<and> 6 \<notin> k_open m'"
proof -
  let ?c = "(sample_conn 6)\<lparr>c_stat := CONN_CLOSED\<rparr>"
  let ?m = "mach_init\<lparr>k_open := {6}, conns := \<lparr>cells = [1 \<mapsto> (1, ?c), 2 \<mapsto> (2, sample_conn 6)], next_addr = 3\<rparr>\<rparr>"
  have "cells (conns ?m) 1 = Some (1, ?c)" "c_stat ?c = CONN_CLOSED" "conn_get ?m 2 = Some (sample_conn 6)"
    "(2::addr) \<noteq> 1" "c_stat (sample_conn 6) = CONN_USED" "c_fd (sample_conn 6) = c_fd ?c" by (simp_all add: conn_get_def mem_read_def)
  from descriptor_closed_twice [OF this] obtain m' where "conn_decref ?m 1 = Some m'" "conn_get m' 2 = Some (sample_conn 6)" "6 \<notin> k_open m'"
    by auto
  then show ?thesis by (intro exI [of _ ?m] exI [of _ m']) simp
qed

text \<open>
  C30: When a connection attempt in progress fails, the descriptor of the attempt stays open, is
  watched by nobody and belongs to no connection: it is leaked.
\<close>

theorem failed_connect_leaks:
  assumes inv: "pull_inv m" "0 \<le> epollfd m" and none: "pool_of m ep = []" and fresh: "fd \<notin> k_open m"
  shows "\<exists>m'. conn_get_by_endpoint (Some fd) True (ConnProgress [] (-1)) m ep = Some (None, m') \<and>
    fd \<in> k_open m' \<and> fd \<notin> k_interest m' \<and> (\<forall>q. conn_get m' q \<noteq> None \<longrightarrow> conn_get m q \<noteq> None)"
  by (rule async_connect_leaks_fd [OF assms])

lemma failed_connect_leaks_witness:
  "\<exists>m'. conn_get_by_endpoint (Some 7) True (ConnProgress [] (-1)) (sample_mach '''' '''' 0) sample_ep = Some (None, m') \<and> 7 \<in> k_open m'"
proof -
  have "0 \<le> epollfd (sample_mach '''' '''' 0)" "pool_of (sample_mach '''' '''' 0) sample_ep = []" "7 \<notin> k_open (sample_mach '''' '''' 0)"
    by (simp_all add: pool_of_def)
  from failed_connect_leaks [OF sample_pull_inv this] show ?thesis by blast
qed




text \<open>
  C33: Appending a number to the buffer: the digits of every 32-bit integer fit in the 16 bytes
  on the stack, the buffer stays well-formed with its capacity above its length, ends with a
  terminator, and its content is extended by exactly these digits.
\<close>

theorem number_appended:
  assumes "strbuf_wf b" "sb_len b + 16 < 2 ^ 30" "- (2 ^ 31) \<le> x" "x < 2 ^ 31"
  shows "length (sprintf_d x) + 1 \<le> 16 \<and> (\<exists>b'. strbuf_append_num b x = Some b' \<and> strbuf_wf b' \<and> strbuf_term b' \<and>
    strbuf_str b' = strbuf_str b @ sprintf_d x \<and> sb_len b' < sb_cap b')"
proof -
  have l: "length (sprintf_d x) + 1 \<le> 16" by (rule sprintf_d_fits [OF assms(3,4)])
  have n: "NUL \<notin> set (sprintf_d x)" "sprintf_d x \<noteq> []"
    using dec_digits_digs dec_digits_no_NUL by (auto simp: sprintf_d_def)
  have "sb_len b + length (sprintf_d x) < 2 ^ 30" using l assms(2) by simp
  from strbuf_cat_ok [OF assms(1) n(1) this] l n(2) show ?thesis
    by (auto simp: strbuf_append_num_def strbuf_wf_def)
qed

lemma number_appended_witness: "\<exists>b'. strbuf_append_num strbuf_init (- 42) = Some b' \<and> strbuf_str b' = ''-42''"
proof -
  have "sprintf_d (- 42) = ''-42''" by code_simp
  with number_appended [OF strbuf_init_wf, of "- 42"] show ?thesis by auto
qed

text \<open>
  C34: A line of the log never leaves its buffer of fixed length: a message that fits is written
  after the header, a longer one is cut and ends with dots; the line that reaches the file is
  the terminated text and a newline.
\<close>

theorem log_line_fits:
  assumes "verbose \<le> level" "NUL \<notin> set header" "NUL \<notin> set msg" "length header + 4 < PROXY_LOG_LEN" "length buf = PROXY_LOG_LEN"
  shows "\<exists>buf'. PROXY_LOG verbose level buf header msg ls = Some (buf', ls @ [log_text PROXY_LOG_LEN header msg @ [LF]]) \<and>
    length buf' = PROXY_LOG_LEN \<and> length (log_text PROXY_LOG_LEN header msg) < PROXY_LOG_LEN \<and>
    (length header + length msg + 4 < PROXY_LOG_LEN \<longrightarrow> log_text PROXY_LOG_LEN header msg = header @ msg)"
proof -
  have "log_text PROXY_LOG_LEN header msg = header @ msg" if "length header + length msg + 4 < PROXY_LOG_LEN"
  proof -
    have "length msg < PROXY_LOG_LEN - length header - 4" using that by arith
    then show ?thesis by (simp add: log_text_def Let_def)
  qed
  with PROXY_LOG_line [OF assms, of ls] log_text_length [OF assms(4), of msg] show ?thesis by blast
qed

lemma log_line_fits_witness:
  "\<exists>buf'. PROXY_LOG 0 1 (replicate PROXY_LOG_LEN None) ''[x] '' ''started'' [] = Some (buf', [''[x] started'' @ [LF]])"
proof -
  have n: "length ''[x] '' + 4 < PROXY_LOG_LEN" "length ''[x] '' + length ''started'' + 4 < PROXY_LOG_LEN" by (simp_all add: PROXY_LOG_LEN_def)
  from log_line_fits [OF _ _ _ n(1), of 0 1 "''started''" "replicate PROXY_LOG_LEN None" "[]"] n(2) show ?thesis by auto
qed

text \<open>
  C35: A command line written from any sequence of options and a port is parsed back to these
  options and this port: the later option wins, the port is accepted exactly if it lies between
  1 and 65535.
\<close>

theorem command_line_roundtrip:
  assumes "\<forall>opt \<in> set opts. opt_opens fopen opt" "\<forall>c \<in> set ds. is_digit c" "ds \<noteq> []" "digits_val ds < 2 ^ 31"
  shows "proxy_parse_arg fopen (exe # concat (map opt_words opts) @ ds # extra) s =
    (if 1 \<le> digits_val ds \<and> digits_val ds \<le> 65535 then 0 else -1,
     (fold apply_opt opts s)\<lparr>arg_port := int (digits_val ds)\<rparr>)"
  by (rule proxy_parse_arg_spec [OF assms])

lemma command_line_roundtrip_witness:
  "proxy_parse_arg (\<lambda>_. True) [''proxy'', ''-v'', ''-a'', ''::1'', ''8080''] default_arg =
     (0, default_arg\<lparr>arg_verbose := PROXY_LOG_LEVEL_DEBUG, arg_addr := ''::1'', arg_port := 8080\<rparr>)"
  using command_line_roundtrip [of "[Verbose, Addr ''::1'']" "\<lambda>_. True" "''8080''" "''proxy''" "[]" default_arg]
  by (simp add: ch_class_defs digits_val_def digit_val_def)

section \<open>The helpers of the handout\<close>

text \<open>
  C36: On a descriptor that does not fail, with any number of interrupted and short reads, the
  unbuffered and the buffered reader return the same bytes and count, the first n of the input
  or all of it, and what the one leaves unread is what the other has left in its buffer and the
  descriptor.
\<close>

theorem buffered_reading_agrees:
  assumes "healthy evs"
  shows "\<exists>r1 rp' r2. rio_readn n evs = (Inr (min n (length (input evs))), take n (input evs), r1) \<and>
    rio_readnb (rio_readinitb rp) n evs = (Inr (min n (length (input evs))), take n (input evs), rp', r2) \<and>
    input r1 = pending rp' r2"
proof -
  have w: "rio_wf (rio_readinitb rp)" and p: "pending (rio_readinitb rp) evs = input evs"
    by (simp_all add: rio_wf_def rio_readinitb_def pending_def)
  show ?thesis using rio_readn_healthy [OF assms, of n] rio_readnb_healthy [OF assms w, of n] unfolding p by fastforce
qed

lemma buffered_reading_agrees_witness:
  "\<exists>r1 rp' r2. rio_readn 3 [Got ''ab'', RIntr, Got ''cde''] = (Inr 3, ''abc'', r1) \<and>
    rio_readnb (rio_readinitb \<lparr>rio_cnt = 0, rio_bufptr = 0, rio_buf = ''''\<rparr>) 3 [Got ''ab'', RIntr, Got ''cde''] = (Inr 3, ''abc'', rp', r2)"
proof -
  have "healthy [Got ''ab'', RIntr, Got ''cde'']" by (simp add: healthy_def)
  from buffered_reading_agrees [OF this, of 3 "\<lparr>rio_cnt = 0, rio_bufptr = 0, rio_buf = ''''\<rparr>"] show ?thesis
    by (simp add: numeral_3_eq_3) blast
qed

text \<open>
  The line reader stores the next line, cut at the given length, and a terminator, and takes
  exactly it from the input; the returned count is one too high when the text does not end with
  a newline, at the end of the file or at a full buffer.
\<close>

theorem line_reader_counts:
  fixes maxlen :: nat
  assumes "healthy evs" "rio_wf rp"
  defines "l \<equiv> first_line (maxlen - 1) (pending rp evs)"
  shows "\<exists>rp' r. rio_readlineb rp maxlen evs =
      (if 1 < maxlen \<and> pending rp evs = '''' then (Inr 0, '''', rp', r)
       else (Inr (if ends_lf l then length l else length l + 1), l @ [NUL], rp', r)) \<and>
    healthy r \<and> rio_wf rp' \<and> pending rp' r = drop (length l) (pending rp evs)"
  unfolding l_def by (rule rio_readlineb_healthy [OF assms(1,2)])

lemma line_reader_counts_witness:
  "\<exists>rp' r. rio_readlineb \<lparr>rio_cnt = 0, rio_bufptr = 0, rio_buf = ''''\<rparr> 9 [Got ''ab''] = (Inr 3, ''ab'' @ [NUL], rp', r)"
proof -
  let ?rp = "\<lparr>rio_cnt = 0, rio_bufptr = 0, rio_buf = ''''\<rparr>"
  have h: "healthy [Got ''ab'']" "rio_wf ?rp" "pending ?rp [Got ''ab''] = ''ab''" by (simp_all add: healthy_def rio_wf_def pending_def)
  have l: "first_line (9 - 1) ''ab'' = ''ab''" "\<not> ends_lf ''ab''"
    by (simp_all add: ends_lf_def numeral_eq_Suc)
  from line_reader_counts [OF h(1,2), of 9] h(3) l show ?thesis by auto
qed



section \<open>The library of containers\<close>

text \<open>
  C38: The bottom-up merge sort on the links of singly linked, doubly linked and circular lists
  is the stable sort: when the comparison orders the nodes by a key, it ends, without following
  a null pointer, with a list of the same kind that holds the same nodes sorted by the key,
  equal ones in their old order, and both directions of the links agree again.
\<close>

theorem linked_list_sorted:
  assumes "by_key cmp key xs" "2 * length xs \<le> INT_MAX"
  shows "(ll_rep l xs \<longrightarrow> (\<exists>l'. LL_SORT l cmp = Some l' \<and> ll_rep l' (sort_key key xs))) \<and>
    (dl_rep l xs \<longrightarrow> (\<exists>l'. DL_SORT l cmp = Some l' \<and> dl_rep l' (sort_key key xs))) \<and>
    (cdl_rep l xs \<longrightarrow> (\<exists>l'. CDL_SORT l cmp = Some l' \<and> cdl_rep l' (sort_key key xs)))"
  using ls_sort_ok [OF _ assms, of LL l] ls_sort_ok [OF _ assms, of DL l] ls_sort_ok [OF _ assms, of CDL l]
  by (simp add: LL_SORT_def DL_SORT_def CDL_SORT_def ul_rep_def)

definition sample_links :: ul_list where
  "sample_links = (\<lparr>ul_next = (\<lambda>x. if x < 3 then Some (x + 1) else None), ul_prev = (\<lambda>x. if x = 0 then Some 3 else Some (x - 1))\<rparr>, Some 0)"

definition sample_ring :: ul_list where
  "sample_ring = (\<lparr>ul_next = (\<lambda>x. if x < 3 then Some (x + 1) else Some 0), ul_prev = (\<lambda>x. if x = 0 then Some 3 else Some (x - 1))\<rparr>, Some 0)"

lemma sample_links_rep:
  "ll_rep sample_links [0, 1, 2, 3]" "dl_rep sample_links [0, 1, 2, 3]" "cdl_rep sample_ring [0, 1, 2, 3]"
  by (simp_all add: sample_links_def sample_ring_def ll_rep_def dl_rep_def cdl_rep_def ring_def)

lemma linked_list_sorted_witness:
  "\<exists>l1 l2 l3. LL_SORT sample_links (\<lambda>a b. int (b mod 3) - int (a mod 3)) = Some l1 \<and> ll_rep l1 [2, 1, 0, 3] \<and>
     DL_SORT sample_links (\<lambda>a b. int (b mod 3) - int (a mod 3)) = Some l2 \<and> dl_rep l2 [2, 1, 0, 3] \<and>
     CDL_SORT sample_ring (\<lambda>a b. int (b mod 3) - int (a mod 3)) = Some l3 \<and> cdl_rep l3 [2, 1, 0, 3]"
proof -
  have k: "by_key (\<lambda>a b. int (b mod 3) - int (a mod 3)) (\<lambda>a. - int (a mod 3)) [0, 1, 2, 3]" by (simp add: by_key_def)
  have n: "2 * length [0, 1, 2, 3 :: nat] \<le> INT_MAX" by (simp add: INT_MAX_def)
  have "sort_key (\<lambda>a. - int (a mod 3)) [0, 1, 2, 3] = [2, 1, 0, 3 :: nat]" by simp
  with linked_list_sorted [OF k n, of sample_links] linked_list_sorted [OF k n, of sample_ring] sample_links_rep show ?thesis by auto
qed

text \<open>
  C39: The links refine a list of nodes under editing: any sequence of edits that makes sense on
  the list (a new node in front of one that is there, a new node in the place of one, the
  removal of one; at the head, in the middle and at the end) runs to its end on the links of
  each kind, and what it leaves represents the edited list, the links in both directions, the
  pointer to the last node and the ring included.
\<close>

theorem linked_list_edited:
  assumes "spec_edits es xs = Some ys"
  shows "(ll_rep l xs \<longrightarrow> (\<exists>k. do_edits LL_PREPEND_ELEM LL_REPLACE_ELEM LL_DELETE es l = Some k \<and> ll_rep k ys)) \<and>
    (dl_rep l xs \<longrightarrow> (\<exists>k. do_edits DL_PREPEND_ELEM DL_REPLACE_ELEM DL_DELETE es l = Some k \<and> dl_rep k ys)) \<and>
    (cdl_rep l xs \<longrightarrow> (\<exists>k. do_edits CDL_PREPEND_ELEM CDL_REPLACE_ELEM CDL_DELETE es l = Some k \<and> cdl_rep k ys))"
  using lls.edits_rep [OF _ assms, of l] dls.edits_rep [OF _ assms, of l] cdls.edits_rep [OF _ assms, of l] by blast

lemma linked_list_edited_witness:
  "\<exists>k1 k2 k3. let es = [Remove 3, Before 1 7, Instead 2 3] in do_edits DL_PREPEND_ELEM DL_REPLACE_ELEM DL_DELETE es sample_links = Some k1 \<and>
     dl_rep k1 [0, 7, 1, 3] \<and> do_edits CDL_PREPEND_ELEM CDL_REPLACE_ELEM CDL_DELETE es sample_ring = Some k2 \<and> cdl_rep k2 [0, 7, 1, 3] \<and>
     do_edits LL_PREPEND_ELEM LL_REPLACE_ELEM LL_DELETE es sample_links = Some k3 \<and> ll_rep k3 [0, 7, 1, 3]"
proof -
  have e: "spec_edits [Remove 3, Before 1 7, Instead 2 3] [0, 1, 2, 3] = Some [0, 7, 1, 3]" by (simp add: spec_edit_def)
  from linked_list_edited [OF e, of sample_links] linked_list_edited [OF e, of sample_ring] sample_links_rep show ?thesis
    unfolding Let_def by blast
qed

text \<open>
  C40: The search of the growing string with Knuth, Morris and Pratt's tables, whatever the
  memory of the table held, agrees with the definition of an occurrence: from the left the first
  one at or behind the start, from the right the last one that ends at or in front of it, or -1
  when there is none; no byte outside of the text, the pattern and the table is read and the
  loops end.
\<close>

theorem substring_found:
  assumes h: "us_holds s t" and v: "v = us_start s start" "0 \<le> v" "v < int (length t)"
    and l: "length t < 2 ^ 31" "length P < 2 ^ 31" "P \<noteq> []" and m: "malloc (length P + 1) = Some T" "length T = length P + 1"
  shows "(\<exists>r. utstring_find malloc s start P = Some r \<and> first_from t P (nat v) r) \<and>
    (\<exists>r. utstring_findR malloc s start P = Some r \<and> last_to t P (nat (v + 1)) r)"
  using find_first_from [of s t v start P malloc T] findR_last_to [of s t v start P malloc T] assms by simp

lemma substring_found_witness:
  "(\<exists>r. utstring_find (\<lambda>k. Some (replicate k 9)) \<lparr>us_d = Block (map Some ''aabaaab'' @ [Some NUL]), us_n = 8, us_i = 7\<rparr> (-6) ''aab'' = Some r \<and>
     first_from ''aabaaab'' ''aab'' 1 r) \<and>
   (\<exists>r. utstring_findR (\<lambda>k. Some (replicate k 9)) \<lparr>us_d = Block (map Some ''aabaaab'' @ [Some NUL]), us_n = 8, us_i = 7\<rparr> (-6) ''aab'' = Some r \<and>
     last_to ''aabaaab'' ''aab'' 2 r)"
proof -
  let ?s = "\<lparr>us_d = Block (map Some ''aabaaab'' @ [Some NUL]), us_n = 8, us_i = 7\<rparr>"
  have h: "us_holds ?s ''aabaaab''" by (simp add: us_holds_def)
  have v: "1 = us_start ?s (-6)" by (simp add: us_start_def to_int64_def)
  have "(\<exists>r. utstring_find (\<lambda>k. Some (replicate k 9)) ?s (-6) ''aab'' = Some r \<and> first_from ''aabaaab'' ''aab'' (nat 1) r) \<and>
    (\<exists>r. utstring_findR (\<lambda>k. Some (replicate k 9)) ?s (-6) ''aab'' = Some r \<and> last_to ''aabaaab'' ''aab'' (nat (1 + 1)) r)"
    by (rule substring_found [OF h v, where T = "replicate (length ''aab'' + 1) 9"]) simp_all
  then show ?thesis by simp
qed

end
